(* ===== verification/PyValue.thy ===== *)
theory PyValue
  imports Prelude
begin

text \<open>
  The Python values that flow through a plan: tool arguments, tool outputs after
  \<open>model_dump\<close>, template data. What the source uses of the language on them is written out:
  equality (\<open>True == 1\<close>, dictionaries compared without order), \<open>str\<close>/\<open>repr\<close>, attribute
  access on built-in values, \<open>str.split\<close>, \<open>str.strip\<close> and the character classes of \<open>re\<close>.
  A \<open>char\<close> stands for a code point below 256. Floating-point numbers do not occur.
\<close>

section \<open>Characters\<close>

definition in_ranges :: "(nat \<times> nat) list \<Rightarrow> char \<Rightarrow> bool" where
  "in_ranges rs c \<longleftrightarrow> list_ex (\<lambda>(lo, hi). lo \<le> of_char c \<and> of_char c \<le> hi) rs"

text \<open>\<open>\w\<close>, \<open>[A-Za-z_]\<close>, \<open>[A-Za-z]\<close>, \<open>\s\<close> (also \<open>str.isspace\<close>) and \<open>str.isprintable\<close>.\<close>

definition is_word :: "char \<Rightarrow> bool" where
  "is_word c \<longleftrightarrow> in_ranges [(48, 57), (65, 90), (95, 95), (97, 122), (170, 170), (178, 179),
     (181, 181), (185, 186), (188, 190), (192, 214), (216, 246), (248, 255)] c"

definition is_alpha :: "char \<Rightarrow> bool" where
  "is_alpha c \<longleftrightarrow> in_ranges [(65, 90), (97, 122)] c"

definition is_alphau :: "char \<Rightarrow> bool" where
  "is_alphau c \<longleftrightarrow> in_ranges [(65, 90), (95, 95), (97, 122)] c"

definition is_space :: "char \<Rightarrow> bool" where
  "is_space c \<longleftrightarrow> in_ranges [(9, 13), (28, 32), (133, 133), (160, 160)] c"

definition is_printable :: "char \<Rightarrow> bool" where
  "is_printable c \<longleftrightarrow> in_ranges [(32, 126), (161, 172), (174, 255)] c"

text \<open>Code points the source names that have no readable literal.\<close>

definition chr :: "nat \<Rightarrow> char" where "chr n = char_of n"

lemma is_word_alphau: "is_alphau c \<Longrightarrow> is_word c"
  by (auto simp: is_alphau_def is_word_def in_ranges_def)

lemma is_alphau_iff: "is_alphau c \<longleftrightarrow> is_alpha c \<or> c = CHR ''_''"
proof -
  have "(of_char c :: nat) = 95 \<longleftrightarrow> c = CHR ''_''"
    using of_char_eq_iff [of c "CHR ''_''", where ?'a = nat] by simp
  then show ?thesis by (auto simp: is_alphau_def is_alpha_def in_ranges_def)
qed

lemma punct_not_word [simp]:
  "\<not> is_word (CHR ''.'')" "\<not> is_word (CHR ''}'')" "\<not> is_word (CHR ''{'')"
  "\<not> is_word (CHR ''$'')" "\<not> is_alphau (CHR ''.'')" "\<not> is_alphau (CHR ''}'')"
  "\<not> is_alpha (CHR ''.'')" "\<not> is_alpha (CHR ''}'')" "\<not> is_alphau (CHR ''$'')"
  "\<not> is_word (CHR ''['')" "\<not> is_word (CHR '']'')" "\<not> is_word (CHR '' '')"
  by (simp_all add: is_word_def is_alphau_def is_alpha_def in_ranges_def)

section \<open>Strings\<close>

text \<open>\<open>text.split(sep)\<close> for a one-character separator: never empty, may hold empty parts.\<close>

fun split_on :: "char \<Rightarrow> string \<Rightarrow> string list" where
  "split_on sep [] = [[]]"
| "split_on sep (c # cs) =
     (if c = sep then [] # split_on sep cs
      else (case split_on sep cs of [] \<Rightarrow> [[c]] | p # ps \<Rightarrow> (c # p) # ps))"

fun join_with :: "string \<Rightarrow> string list \<Rightarrow> string" where
  "join_with sep [] = []"
| "join_with sep [p] = p"
| "join_with sep (p # q # ps) = p @ sep @ join_with sep (q # ps)"

lemma split_on_not_Nil [simp]: "split_on sep s \<noteq> []"
  by (cases s) (auto split: list.splits)

lemma split_on_ConsE: obtains p ps where "split_on sep s = p # ps"
  by (cases "split_on sep s") auto

lemma join_split [simp]: "join_with [sep] (split_on sep s) = s"
proof (induction s)
  case (Cons c cs)
  obtain p ps where ps: "split_on sep cs = p # ps" by (rule split_on_ConsE)
  with Cons show ?case by (cases ps) auto
qed simp

lemma split_on_no_sep: "sep \<notin> set s \<Longrightarrow> split_on sep s = [s]"
  by (induction s) auto

lemma split_on_append_sep:
  "sep \<notin> set p \<Longrightarrow> split_on sep (p @ sep # s) = p # split_on sep s"
  by (induction p) auto

lemma split_join:
  "ps \<noteq> [] \<Longrightarrow> (\<And>p. p \<in> set ps \<Longrightarrow> sep \<notin> set p) \<Longrightarrow> split_on sep (join_with [sep] ps) = ps"
  by (induction "[sep]" ps rule: join_with.induct)
    (auto simp: split_on_no_sep split_on_append_sep)

definition strip :: "string \<Rightarrow> string" where
  "strip s = rev (dropWhile is_space (rev (dropWhile is_space s)))"

section \<open>Values\<close>

datatype pyval =
    VNone
  | VBool bool
  | VInt int
  | VStr string
  | VList "pyval list"
  | VTuple "pyval list"
  | VDict "(string \<times> pyval) list"
  | VLit pyval \<comment> \<open>\<open>_ResolvedLiteral(value)\<close>\<close>
  | VMethod pyval string \<comment> \<open>a bound method of a built-in value\<close>

type_synonym vdict = "(string, pyval) dict"

text \<open>The size of a member is smaller: termination of every recursive walk below.\<close>

lemma size_dict_value [termination_simp]:
  "(k, v) \<in> set kvs \<Longrightarrow> size v < Suc (size_list (\<lambda>x. size (snd x)) kvs)"
  by (induction kvs) auto

lemma size_dict_value' [termination_simp]:
  "(k, v) \<in> set kvs \<Longrightarrow> size v < Suc (size_list (size_prod (\<lambda>x. 0) size) kvs)"
  by (induction kvs) auto

text \<open>Induction along the walks: members of lists, tuples and dictionary values.\<close>

lemma pyval_walk_induct [case_names None Bool Int Str List Tuple Dict Lit Method]:
  assumes "P VNone" "\<And>b. P (VBool b)" "\<And>i. P (VInt i)" "\<And>s. P (VStr s)"
    and "\<And>xs. (\<And>x. x \<in> set xs \<Longrightarrow> P x) \<Longrightarrow> P (VList xs)"
    and "\<And>xs. (\<And>x. x \<in> set xs \<Longrightarrow> P x) \<Longrightarrow> P (VTuple xs)"
    and "\<And>kvs. (\<And>k v. (k, v) \<in> set kvs \<Longrightarrow> P v) \<Longrightarrow> P (VDict kvs)"
    and "\<And>v. P v \<Longrightarrow> P (VLit v)" "\<And>v m. P v \<Longrightarrow> P (VMethod v m)"
  shows "P v"
proof (induction v)
  case (VDict kvs)
  then show ?case by (intro assms(7)) (auto simp: prod_set_simps)
qed (auto intro: assms)

subsection \<open>Equality\<close>

text \<open>
  Python's \<open>==\<close>: booleans are the integers 0 and 1; a dictionary equals another with the same
  keys and equal values whatever the order; other values of different types differ.
\<close>

fun py_eq :: "pyval \<Rightarrow> pyval \<Rightarrow> bool" where
  "py_eq VNone b = (b = VNone)"
| "py_eq (VBool x) b =
     (case b of VBool y \<Rightarrow> x = y | VInt y \<Rightarrow> of_bool x = y | _ \<Rightarrow> False)"
| "py_eq (VInt x) b =
     (case b of VBool y \<Rightarrow> x = of_bool y | VInt y \<Rightarrow> x = y | _ \<Rightarrow> False)"
| "py_eq (VStr x) b = (b = VStr x)"
| "py_eq (VList xs) b = (case b of VList ys \<Rightarrow> list_all2 py_eq xs ys | _ \<Rightarrow> False)"
| "py_eq (VTuple xs) b = (case b of VTuple ys \<Rightarrow> list_all2 py_eq xs ys | _ \<Rightarrow> False)"
| "py_eq (VDict xs) b =
     (case b of
        VDict ys \<Rightarrow> length xs = length ys \<and>
          list_all (\<lambda>(k, x). case dget ys k of None \<Rightarrow> False | Some y \<Rightarrow> py_eq x y) xs
      | _ \<Rightarrow> False)"
| "py_eq (VLit x) b = (case b of VLit y \<Rightarrow> py_eq x y | _ \<Rightarrow> False)"
| "py_eq (VMethod x m) b = (case b of VMethod y n \<Rightarrow> m = n \<and> x = y | _ \<Rightarrow> False)"

lemma py_eq_refl_atom [simp]: "py_eq (VStr x) (VStr y) \<longleftrightarrow> x = y" "py_eq VNone VNone"
  by auto

subsection \<open>str and repr\<close>

fun show_nat :: "nat \<Rightarrow> string" where
  "show_nat n = (if n < 10 then [chr (48 + n)] else show_nat (n div 10) @ [chr (48 + n mod 10)])"

declare show_nat.simps [simp del]

definition show_int :: "int \<Rightarrow> string" where
  "show_int i = (if i < 0 then ''-'' @ show_nat (nat (- i)) else show_nat (nat i))"

definition hex_digit :: "nat \<Rightarrow> char" where
  "hex_digit n = (if n < 10 then chr (48 + n) else chr (87 + n))"

text \<open>One character inside \<open>repr(text)\<close>, with the quote in use.\<close>

definition repr_char :: "char \<Rightarrow> char \<Rightarrow> string" where
  "repr_char q c =
     (let n = of_char c in
      if c = q \<or> n = 92 then [chr 92, c]
      else if n = 9 then [chr 92, CHR ''t'']
      else if n = 10 then [chr 92, CHR ''n'']
      else if n = 13 then [chr 92, CHR ''r'']
      else if is_printable c then [c]
      else [chr 92, CHR ''x'', hex_digit (n div 16), hex_digit (n mod 16)])"

definition repr_string :: "string \<Rightarrow> string" where
  "repr_string s =
     (let q = (if chr 39 \<in> set s \<and> chr 34 \<notin> set s then chr 34 else chr 39)
      in [q] @ concat (map (repr_char q) s) @ [q])"

fun type_name :: "pyval \<Rightarrow> string" where
  "type_name VNone = ''NoneType''"
| "type_name (VBool _) = ''bool''"
| "type_name (VInt _) = ''int''"
| "type_name (VStr _) = ''str''"
| "type_name (VList _) = ''list''"
| "type_name (VTuple _) = ''tuple''"
| "type_name (VDict _) = ''dict''"
| "type_name (VLit _) = ''_ResolvedLiteral''"
| "type_name (VMethod _ _) = ''builtin_function_or_method''"

text \<open>
  \<open>repr\<close>. The address CPython prints in the representation of a bound method is left out.
\<close>

fun py_repr :: "pyval \<Rightarrow> string" where
  "py_repr VNone = ''None''"
| "py_repr (VBool b) = (if b then ''True'' else ''False'')"
| "py_repr (VInt i) = show_int i"
| "py_repr (VStr s) = repr_string s"
| "py_repr (VList xs) = ''['' @ join_with '', '' (map py_repr xs) @ '']''"
| "py_repr (VTuple xs) =
     (case xs of [x] \<Rightarrow> ''('' @ py_repr x @ '',)''
      | _ \<Rightarrow> ''('' @ join_with '', '' (map py_repr xs) @ '')'')"
| "py_repr (VDict kvs) =
     ''{'' @ join_with '', '' (map (\<lambda>(k, v). repr_string k @ '': '' @ py_repr v) kvs) @ ''}''"
| "py_repr (VLit v) = ''_ResolvedLiteral(value='' @ py_repr v @ '')''"
| "py_repr (VMethod v m) =
     ''<built-in method '' @ m @ '' of '' @ type_name v @ '' object>''"

definition py_str :: "pyval \<Rightarrow> string" where
  "py_str v = (case v of VStr s \<Rightarrow> s | _ \<Rightarrow> py_repr v)"

subsection \<open>Attribute access\<close>

text \<open>
  Names without a leading underscore that \<open>hasattr\<close> accepts on a value that is not a
  dictionary. All but the four number attributes are bound methods.
\<close>

definition str_methods :: "string list" where
  "str_methods = [
     ''capitalize'', ''casefold'', ''center'', ''count'', ''encode'', ''endswith'',
     ''expandtabs'', ''find'', ''format'', ''format_map'', ''index'', ''isalnum'',
     ''isalpha'', ''isascii'', ''isdecimal'', ''isdigit'', ''isidentifier'', ''islower'',
     ''isnumeric'', ''isprintable'', ''isspace'', ''istitle'', ''isupper'', ''join'',
     ''ljust'', ''lower'', ''lstrip'', ''maketrans'', ''partition'', ''removeprefix'',
     ''removesuffix'', ''replace'', ''rfind'', ''rindex'', ''rjust'', ''rpartition'',
     ''rsplit'', ''rstrip'', ''split'', ''splitlines'', ''startswith'', ''strip'',
     ''swapcase'', ''title'', ''translate'', ''upper'', ''zfill'']"

definition list_methods :: "string list" where
  "list_methods = [
     ''append'', ''clear'', ''copy'', ''count'', ''extend'', ''index'', ''insert'', ''pop'',
     ''remove'', ''reverse'', ''sort'']"

definition int_methods :: "string list" where
  "int_methods = [
     ''as_integer_ratio'', ''bit_count'', ''bit_length'', ''conjugate'', ''from_bytes'',
     ''is_integer'', ''to_bytes'']"

definition int_attr :: "pyval \<Rightarrow> int \<Rightarrow> string \<Rightarrow> pyval option" where
  "int_attr self i f =
     (if f \<in> {''real'', ''numerator''} then Some (VInt i)
      else if f = ''imag'' then Some (VInt 0)
      else if f = ''denominator'' then Some (VInt 1)
      else if f \<in> set int_methods then Some (VMethod self f) else None)"

fun py_getattr :: "pyval \<Rightarrow> string \<Rightarrow> pyval option" where
  "py_getattr VNone f = None"
| "py_getattr (VBool b) f = int_attr (VBool b) (of_bool b) f"
| "py_getattr (VInt i) f = int_attr (VInt i) i f"
| "py_getattr (VStr s) f = (if f \<in> set str_methods then Some (VMethod (VStr s) f) else None)"
| "py_getattr (VList xs) f = (if f \<in> set list_methods then Some (VMethod (VList xs) f) else None)"
| "py_getattr (VTuple xs) f =
     (if f \<in> {''count'', ''index''} then Some (VMethod (VTuple xs) f) else None)"
| "py_getattr (VDict kvs) f = None" \<comment> \<open>never asked: dictionaries are read by key\<close>
| "py_getattr (VLit v) f = (if f = ''value'' then Some v else None)"
| "py_getattr (VMethod v m) f = None"

section \<open>Walks over values\<close>

text \<open>Some string inside a value (dictionary values, list and tuple members) satisfies \<open>P\<close>.\<close>

fun strings_in :: "pyval \<Rightarrow> string list" where
  "strings_in (VStr s) = [s]"
| "strings_in (VList xs) = concat (map strings_in xs)"
| "strings_in (VTuple xs) = concat (map strings_in xs)"
| "strings_in (VDict kvs) = concat (map (\<lambda>(k, v). strings_in v) kvs)"
| "strings_in _ = []"

text \<open>Values that JSON can denote: no tuple, sentinel or method anywhere.\<close>

fun is_json :: "pyval \<Rightarrow> bool" where
  "is_json (VList xs) = list_all is_json xs"
| "is_json (VDict kvs) = list_all (\<lambda>(k, v). is_json v) kvs"
| "is_json (VTuple xs) = False"
| "is_json (VLit v) = False"
| "is_json (VMethod v m) = False"
| "is_json _ = True"

end
