(* ===== verification/DepGraph.thy ===== *)
theory DepGraph
  imports Prelude "HOL-Library.List_Lexorder" "HOL-Library.Char_ord"
begin

text \<open>
  Dependency graphs as the planner uses them: finite sets of step ids with edges from a step
  to the steps it needs. The schema (a queue with in-degrees) and the compiler (layers) both
  run a topological sort; what they share is that a set of steps in which everything waits
  for something else in the set is a cycle, and that a step is sortable exactly when it is in
  the accessible part of the dependency relation.
\<close>

text \<open>\<open>(d, n)\<close>: step \<open>n\<close> needs step \<open>d\<close>.\<close>

definition needs :: "'a set \<Rightarrow> ('a \<Rightarrow> 'a set) \<Rightarrow> ('a \<times> 'a) set" where
  "needs V D = {(d, n). n \<in> V \<and> d \<in> V \<and> d \<in> D n}"

lemma finite_needs: "finite V \<Longrightarrow> finite (needs V D)"
  by (rule finite_subset [of _ "V \<times> V"]) (auto simp: needs_def)

lemma needs_acc_step:
  "(\<And>d. d \<in> V \<Longrightarrow> d \<in> D n \<Longrightarrow> d \<in> Wellfounded.acc (needs V D)) \<Longrightarrow>
     n \<in> Wellfounded.acc (needs V D)"
  by (rule accI) (auto simp: needs_def)

text \<open>Steps that all wait for one another are not accessible.\<close>

lemma waiting_not_acc:
  assumes "\<And>n. n \<in> U \<Longrightarrow> \<exists>d\<in>U. (d, n) \<in> needs V D" and "u \<in> U"
  shows "u \<notin> Wellfounded.acc (needs V D)"
proof
  assume "u \<in> Wellfounded.acc (needs V D)"
  from this \<open>u \<in> U\<close> show False
    by (induction rule: Wellfounded.acc.induct) (use assms(1) in blast)
qed

lemma acc_all_acyclic:
  assumes "finite V"
  shows "V \<subseteq> Wellfounded.acc (needs V D) \<longleftrightarrow> acyclic (needs V D)"
proof
  assume V: "V \<subseteq> Wellfounded.acc (needs V D)"
  have "x \<in> Wellfounded.acc (needs V D)" for x
    using V by (cases "x \<in> V") (auto intro: accI simp: needs_def)
  then show "acyclic (needs V D)" by (intro wf_acyclic acc_wfI) auto
next
  assume "acyclic (needs V D)"
  then have "wf (needs V D)" using assms by (intro finite_acyclic_wf finite_needs)
  then show "V \<subseteq> Wellfounded.acc (needs V D)" by (auto dest: acc_wfD)
qed

text \<open>A set that holds every step that is ready, and only steps whose needs it holds.\<close>

lemma closed_complete_is_acc:
  assumes "P \<subseteq> V" and "P \<subseteq> Wellfounded.acc (needs V D)"
    and "\<And>n. n \<in> V - P \<Longrightarrow> \<exists>d\<in>V - P. d \<in> D n"
  shows "P = V \<inter> Wellfounded.acc (needs V D)"
proof -
  have "n \<notin> Wellfounded.acc (needs V D)" if "n \<in> V - P" for n
    using _ that by (rule waiting_not_acc) (use assms(3) in \<open>auto simp: needs_def\<close>)
  with assms(1,2) show ?thesis by auto
qed

section \<open>Sorted sets of steps\<close>

text \<open>Python's \<open>sorted\<close> on strings compares code points: the order of \<open>List_Lexorder\<close>.\<close>

lemma set_sort_filter [simp]: "set (sort (filter P xs)) = {x \<in> set xs. P x}"
  by simp

lemma distinct_sort_filter [simp]: "distinct xs \<Longrightarrow> distinct (sort (filter P xs))"
  by simp

end
