(* ===== verification/PlanSchema.thy ===== *)
theory PlanSchema
  imports PyValue DepGraph
begin

text \<open>
  \<open>src/sreda/runtime/planner/schemas.py\<close>: the plan the planner emits and the model validators
  that run when it is parsed. A \<open>ValueError\<close> of a validator is a value of \<open>plan_error\<close>; the
  message is reduced to what varies in it. pydantic's type coercion happens before this model:
  its input is a plan whose fields already have their types.
\<close>

section \<open>The plan\<close>

datatype compose_kind = KTemplate | KLlm

record composer_call =
  cc_kind :: compose_kind
  template_id :: "string option"
  template_data :: vdict
  llm_prompt_key :: "string option"

record outcome_branch =
  match :: vdict
  next_step :: "string option"
  br_compose :: "composer_call option"

record action =
  tool :: string
  args :: vdict
  expected_outcomes :: "outcome_branch list"
  intent_group :: string
  depends_on :: "string list"

record turn_classification =
  is_new_turn :: bool
  reason :: string

datatype clarity = Clear | NeedsClarification | ReplyOnly

type_synonym actions = "(string, action) dict"

record plan =
  schema_version :: int
  classification :: turn_classification
  clarity :: clarity
  clarity_reason :: "string option"
  actions :: actions
  plan_compose :: composer_call

datatype plan_error =
    FieldConstraint string
  | TemplateWithoutId
  | LlmWithoutKey
  | NextAndCompose
  | ConversationalTarget string
  | ClearWithoutActions
  | ReplyOnlyWithActions nat
  | ReplyOnlyPromptKey "string option"
  | ReplyOnlyTemplate "string option"
  | ClarityReasonMissing
  | ClarificationNotTemplate
  | ClarificationTemplate "string option"
  | MixedModeTemplate "string option"
  | RequiredField string
  | OptionalListShape string
  | OptionalListItem string nat
  | BadActionKeys "string list"
  | SelfDependency string
  | UnknownDependency string string
  | DuplicateDependency string string
  | SelfNext string
  | UnknownNext string string
  | DependencyCycle "string list"

section \<open>The allow-lists\<close>

definition CLARIFICATION_TEMPLATE_IDS :: "string set" where
  "CLARIFICATION_TEMPLATE_IDS =
     {''ask_user_for_clarification'', ''ask_when_to_remind'', ''partial_with_clarification''}"

definition CONVERSATIONAL_LLM_PROMPT_KEYS :: "string set" where
  "CONVERSATIONAL_LLM_PROMPT_KEYS = {''smalltalk''}"

definition CONVERSATIONAL_TEMPLATE_IDS :: "string set" where
  "CONVERSATIONAL_TEMPLATE_IDS = {''identity_playful'', ''smalltalk_fallback''}"

definition MIXED_MODE_CLARIFICATION_TEMPLATE :: string where
  "MIXED_MODE_CLARIFICATION_TEMPLATE = ''partial_with_clarification''"

text \<open>The dictionaries of required and of optional list fields; \<open>.get(..., frozenset())\<close>.\<close>

definition template_required_fields :: "string \<Rightarrow> string list" where
  "template_required_fields t =
     (if t = ''ask_when_to_remind'' then [''what'']
      else if t = ''partial_with_clarification'' then [''done_summary'']
      else [])"

definition template_optional_str_list_fields :: "string \<Rightarrow> string list" where
  "template_optional_str_list_fields t =
     (if t = ''ask_user_for_clarification'' \<or> t = ''partial_with_clarification''
      then [''missing_fields''] else [])"

section \<open>Field and sub-model validation\<close>

definition is_non_blank_string :: "pyval option \<Rightarrow> bool" where
  "is_non_blank_string v = (case v of Some (VStr s) \<Rightarrow> strip s \<noteq> [] | _ \<Rightarrow> False)"

definition blank_opt :: "string option \<Rightarrow> bool" where
  "blank_opt s = (s = None \<or> s = Some [])"

definition validate_kind_consistency :: "composer_call \<Rightarrow> plan_error option" where
  "validate_kind_consistency c =
     (if cc_kind c = KTemplate \<and> blank_opt (template_id c) then Some TemplateWithoutId
      else if cc_kind c = KLlm \<and> blank_opt (llm_prompt_key c) then Some LlmWithoutKey
      else None)"

definition validate_terminus :: "outcome_branch \<Rightarrow> plan_error option" where
  "validate_terminus b =
     (if next_step b \<noteq> None \<and> br_compose b \<noteq> None then Some NextAndCompose else None)"

text \<open>The first failing check of a sequence of checks.\<close>

fun first_error :: "'e option list \<Rightarrow> 'e option" where
  "first_error [] = None"
| "first_error (None # es) = first_error es"
| "first_error (Some e # es) = Some e"

lemma first_error_None: "first_error es = None \<longleftrightarrow> (\<forall>e\<in>set es. e = None)"
  by (induction es rule: first_error.induct) auto

lemma first_error_append:
  "first_error (as @ bs) = (case first_error as of None \<Rightarrow> first_error bs | Some e \<Rightarrow> Some e)"
  by (induction as rule: first_error.induct) auto

text \<open>\<open>Field(min_length=..., max_length=...)\<close> of \<open>Action\<close> and of \<open>TurnClassification\<close>.\<close>

definition validate_branch :: "outcome_branch \<Rightarrow> plan_error option" where
  "validate_branch b =
     first_error [case br_compose b of None \<Rightarrow> None | Some c \<Rightarrow> validate_kind_consistency c,
       validate_terminus b]"

definition validate_action_fields :: "action \<Rightarrow> plan_error option" where
  "validate_action_fields a =
     first_error
       ([if tool a = [] then Some (FieldConstraint ''tool'') else None] @
        map validate_branch (expected_outcomes a) @
        [if expected_outcomes a = [] then Some (FieldConstraint ''expected_outcomes'') else None,
         if intent_group a = [] then Some (FieldConstraint ''intent_group'') else None])"

definition validate_turn_classification :: "turn_classification \<Rightarrow> plan_error option" where
  "validate_turn_classification t =
     (if reason t = [] \<or> 500 < length (reason t) then Some (FieldConstraint ''reason'') else None)"

definition validate_plan_fields :: "plan \<Rightarrow> plan_error option" where
  "validate_plan_fields p =
     first_error
       ([validate_turn_classification (classification p),
         case clarity_reason p of
           None \<Rightarrow> None
         | Some r \<Rightarrow> if 500 < length r then Some (FieldConstraint ''clarity_reason'') else None] @
        map (\<lambda>(k, a). validate_action_fields a) (actions p) @
        [validate_kind_consistency (plan_compose p)])"

section \<open>The operating modes\<close>

definition reject_conversational_compose :: "composer_call \<Rightarrow> string \<Rightarrow> plan_error option" where
  "reject_conversational_compose c location =
     (case cc_kind c of
        KLlm \<Rightarrow>
          (case llm_prompt_key c of
             None \<Rightarrow> None
           | Some k \<Rightarrow> if k \<in> CONVERSATIONAL_LLM_PROMPT_KEYS
                        then Some (ConversationalTarget location) else None)
      | KTemplate \<Rightarrow>
          (case template_id c of
             None \<Rightarrow> None
           | Some t \<Rightarrow> if t \<in> CONVERSATIONAL_TEMPLATE_IDS
                        then Some (ConversationalTarget location) else None))"

definition opt_in :: "string option \<Rightarrow> string set \<Rightarrow> bool" where
  "opt_in s S = (case s of None \<Rightarrow> False | Some x \<Rightarrow> x \<in> S)"

definition check_branch_composes :: "actions \<Rightarrow> plan_error option" where
  "check_branch_composes acts =
     first_error
       (concat (map (\<lambda>(aid, a).
          map (\<lambda>b. case br_compose b of
                     None \<Rightarrow> None
                   | Some c \<Rightarrow> reject_conversational_compose c aid) (expected_outcomes a)) acts))"

definition check_reply_only :: "plan \<Rightarrow> plan_error option" where
  "check_reply_only p =
     (if actions p \<noteq> [] then Some (ReplyOnlyWithActions (length (actions p)))
      else case cc_kind (plan_compose p) of
        KLlm \<Rightarrow>
          if \<not> opt_in (llm_prompt_key (plan_compose p)) CONVERSATIONAL_LLM_PROMPT_KEYS
          then Some (ReplyOnlyPromptKey (llm_prompt_key (plan_compose p))) else None
      | KTemplate \<Rightarrow>
          if \<not> opt_in (template_id (plan_compose p)) CONVERSATIONAL_TEMPLATE_IDS
          then Some (ReplyOnlyTemplate (template_id (plan_compose p))) else None)"

definition check_clarification_target :: "plan \<Rightarrow> plan_error option" where
  "check_clarification_target p =
     (let c = plan_compose p in
      if (case clarity_reason p of None \<Rightarrow> True | Some r \<Rightarrow> strip r = []) then Some ClarityReasonMissing
      else if cc_kind c \<noteq> KTemplate then Some ClarificationNotTemplate
      else if \<not> opt_in (template_id c) CLARIFICATION_TEMPLATE_IDS
      then Some (ClarificationTemplate (template_id c))
      else if actions p \<noteq> [] \<and> template_id c \<noteq> Some MIXED_MODE_CLARIFICATION_TEMPLATE
      then Some (MixedModeTemplate (template_id c))
      else None)"

text \<open>\<open>self.compose.template_data["clarity_reason"] = self.clarity_reason\<close> unless it is text.\<close>

definition merge_clarity_reason :: "plan \<Rightarrow> plan" where
  "merge_clarity_reason p =
     (let c = plan_compose p; d = template_data c in
      if is_non_blank_string (dget d ''clarity_reason'') then p
      else p\<lparr>plan_compose := c\<lparr>template_data :=
             dput d ''clarity_reason''
               (case clarity_reason p of None \<Rightarrow> VNone | Some r \<Rightarrow> VStr r)\<rparr>\<rparr>)"

definition check_optional_list :: "string \<Rightarrow> pyval \<Rightarrow> plan_error option" where
  "check_optional_list fld v =
     (let items = (\<lambda>xs. first_error (map (\<lambda>(i, x).
            if is_non_blank_string (Some x) then None else Some (OptionalListItem fld i))
            (enumerate 0 xs)))
      in case v of VList xs \<Rightarrow> items xs | VTuple xs \<Rightarrow> items xs | _ \<Rightarrow> Some (OptionalListShape fld))"

definition check_clarification_data :: "plan \<Rightarrow> plan_error option" where
  "check_clarification_data p =
     (let d = template_data (plan_compose p);
          t = (case template_id (plan_compose p) of None \<Rightarrow> [] | Some t \<Rightarrow> t)
      in first_error
           (map (\<lambda>f. if is_non_blank_string (dget d f) then None else Some (RequiredField f))
              (template_required_fields t) @
            map (\<lambda>f. case dget d f of None \<Rightarrow> None | Some v \<Rightarrow> check_optional_list f v)
              (template_optional_str_list_fields t)))"

definition validate_clarity :: "plan \<Rightarrow> plan_error + plan" where
  "validate_clarity p =
     (case first_error
             [if clarity p = Clear \<and> actions p = [] then Some ClearWithoutActions else None,
              if clarity p \<in> {Clear, NeedsClarification}
              then reject_conversational_compose (plan_compose p) ''Plan'' else None,
              check_branch_composes (actions p),
              if clarity p = ReplyOnly then check_reply_only p else None,
              if clarity p = NeedsClarification then check_clarification_target p else None]
      of Some e \<Rightarrow> Inl e
       | None \<Rightarrow>
           if clarity p = NeedsClarification then
             (let p' = merge_clarity_reason p in
              case check_clarification_data p' of Some e \<Rightarrow> Inl e | None \<Rightarrow> Inr p')
           else Inr p)"

section \<open>Action keys\<close>

definition is_digit :: "char \<Rightarrow> bool" where
  "is_digit c \<longleftrightarrow> in_ranges [(48, 57)] c"

text \<open>\<open>_ACTION_KEY_RE.match\<close> with \<open>^s[1-9][0-9]*$\<close>: \<open>$\<close> also matches before a final newline.\<close>

definition action_key_ok :: "string \<Rightarrow> bool" where
  "action_key_ok k =
     (case k of
        s # d # ds \<Rightarrow> s = CHR ''s'' \<and> is_digit d \<and> d \<noteq> CHR ''0'' \<and>
          dropWhile is_digit ds \<in> {[], [chr 10]}
      | _ \<Rightarrow> False)"

definition validate_action_key_format :: "plan \<Rightarrow> plan_error option" where
  "validate_action_key_format p =
     (let bad = filter (\<lambda>k. \<not> action_key_ok k) (dkeys (actions p))
      in if bad \<noteq> [] then Some (BadActionKeys (sort bad)) else None)"

section \<open>The dependency graph of depends\_on\<close>

text \<open>The loop over one action's \<open>depends_on\<close> with the set of entries seen so far.\<close>

fun check_deps :: "string set \<Rightarrow> string \<Rightarrow> string set \<Rightarrow> string list \<Rightarrow> plan_error option" where
  "check_deps ids aid seen [] = None"
| "check_deps ids aid seen (d # ds) =
     (if d = aid then Some (SelfDependency aid)
      else if d \<notin> ids then Some (UnknownDependency aid d)
      else if d \<in> seen then Some (DuplicateDependency aid d)
      else check_deps ids aid (insert d seen) ds)"

definition check_next :: "string set \<Rightarrow> string \<Rightarrow> outcome_branch \<Rightarrow> plan_error option" where
  "check_next ids aid b =
     (case next_step b of
        None \<Rightarrow> None
      | Some n \<Rightarrow> if n = aid then Some (SelfNext aid)
                  else if n \<notin> ids then Some (UnknownNext aid n) else None)"

text \<open>
  Kahn's algorithm. \<open>dependents_of\<close> is the reverse adjacency list, with one entry per
  occurrence; it has a key for each action only.
\<close>

definition initial_degree :: "actions \<Rightarrow> string \<Rightarrow> int" where
  "initial_degree acts n =
     (case dget acts n of
        None \<Rightarrow> 0
      | Some a \<Rightarrow> int (length (filter (\<lambda>d. d \<in> set (dkeys acts)) (depends_on a))))"

definition dependents_of :: "actions \<Rightarrow> string \<Rightarrow> string list" where
  "dependents_of acts dep =
     (if dep \<in> set (dkeys acts)
      then concat (map (\<lambda>(aid, a). map (\<lambda>_. aid) (filter (\<lambda>d. d = dep) (depends_on a))) acts)
      else [])"

text \<open>The inner \<open>for\<close>: decrement, and append a node when its degree reaches zero.\<close>

fun relax :: "(string \<Rightarrow> int) \<Rightarrow> string list \<Rightarrow> (string \<Rightarrow> int) \<times> string list" where
  "relax deg [] = (deg, [])"
| "relax deg (d # ds) =
     (let deg1 = deg(d := deg d - 1); (deg2, pushed) = relax deg1 ds
      in (deg2, if deg1 d = 0 then d # pushed else pushed))"

function kahn_loop :: "actions \<Rightarrow> (string \<Rightarrow> int) \<Rightarrow> string list \<Rightarrow> string set \<Rightarrow> string set" where
  "kahn_loop acts deg [] visited = visited"
| "kahn_loop acts deg (current # queue) visited =
     (if current \<in> visited then kahn_loop acts deg queue visited
      else (case relax deg (dependents_of acts current) of
              (deg', pushed) \<Rightarrow>
                kahn_loop acts deg' (queue @ pushed) (insert current visited)))"
  by pat_completeness auto
termination
proof (relation "measures [\<lambda>(acts, deg, q, vis). card (set (dkeys acts) - vis),
    \<lambda>(acts, deg, q, vis). length q]", goal_cases)
  case (3 acts deg current queue visited deg' pushed)
  show ?case
  proof (cases "current \<in> set (dkeys acts)")
    case True
    with 3 have "set (dkeys acts) - insert current visited \<subset> set (dkeys acts) - visited" by auto
    then have "card (set (dkeys acts) - insert current visited) < card (set (dkeys acts) - visited)"
      by (intro psubset_card_mono) auto
    then show ?thesis by simp
  next
    case False
    then have "set (dkeys acts) - insert current visited = set (dkeys acts) - visited" by auto
    moreover have "pushed = []" using 3 False by (simp add: dependents_of_def)
    ultimately show ?thesis by simp
  qed
qed auto

definition detect_cycle_in_depends_on :: "actions \<Rightarrow> string set" where
  "detect_cycle_in_depends_on acts =
     (let deg = initial_degree acts
      in set (dkeys acts) -
         kahn_loop acts deg (filter (\<lambda>aid. deg aid = 0) (dkeys acts)) {})"

definition validate_graph :: "plan \<Rightarrow> plan_error option" where
  "validate_graph p =
     (let acts = actions p; ids = set (dkeys acts);
          cycle = filter (\<lambda>n. n \<in> detect_cycle_in_depends_on acts) (dkeys acts)
      in first_error
           (concat (map (\<lambda>(aid, a). check_deps ids aid {} (depends_on a) #
              map (check_next ids aid) (expected_outcomes a)) acts) @
            [if cycle \<noteq> [] then Some (DependencyCycle (sort cycle)) else None]))"

text \<open>
  \<open>Plan.model_validate\<close>: field constraints and nested models, then the three model
  validators in the order of their definition.
\<close>

definition plan_validate :: "plan \<Rightarrow> plan_error + plan" where
  "plan_validate p =
     (case validate_plan_fields p of
        Some e \<Rightarrow> Inl e
      | None \<Rightarrow>
          bind_res (validate_clarity p) (\<lambda>p'.
            case first_error [validate_action_key_format p', validate_graph p'] of
              Some e \<Rightarrow> Inl e
            | None \<Rightarrow> Inr p'))"

section \<open>Kahn's algorithm computes the accessible part\<close>

definition dep_ids :: "actions \<Rightarrow> string \<Rightarrow> string list" where
  "dep_ids acts n = (case dget acts n of None \<Rightarrow> [] | Some a \<Rightarrow> depends_on a)"

abbreviation dep_rel :: "actions \<Rightarrow> (string \<times> string) set" where
  "dep_rel acts \<equiv> needs (set (dkeys acts)) (\<lambda>n. set (dep_ids acts n))"

text \<open>How many dependencies of \<open>n\<close> are still to be visited, with repetitions.\<close>

definition pending :: "actions \<Rightarrow> string set \<Rightarrow> string \<Rightarrow> string list" where
  "pending acts visited n =
     filter (\<lambda>d. d \<in> set (dkeys acts) \<and> d \<notin> visited) (dep_ids acts n)"

lemma initial_degree_pending:
  "initial_degree acts n = int (length (pending acts {} n))"
  by (auto simp: initial_degree_def pending_def dep_ids_def split: option.splits)

lemma count_list_const: "count_list (map (\<lambda>_. a) xs) b = (if a = b then length xs else 0)"
  by (induction xs) auto

lemma count_list_concat: "count_list (concat xss) x = sum_list (map (\<lambda>xs. count_list xs x) xss)"
  by (induction xss) auto

lemma dependents_count_aux:
  "distinct (map fst acts) \<Longrightarrow>
     sum_list (map (\<lambda>(aid, a). if aid = n then length (filter (\<lambda>d. d = dep) (depends_on a)) else 0) acts) =
     (case map_of acts n of None \<Rightarrow> 0 | Some a \<Rightarrow> count_list (depends_on a) dep)"
proof (induction acts)
  case (Cons x acts)
  obtain aid a where x: "x = (aid, a)" by (cases x)
  have z: "map_of acts n = None" if "aid = n"
    using Cons.prems x that by (auto simp: map_of_eq_None_iff)
  have c: "length (filter (\<lambda>d. d = dep) ys) = count_list ys dep" for ys :: "string list"
    by (induction ys) auto
  show ?case using Cons x z c by auto
qed simp

lemma dependents_count:
  assumes "dict_ok acts" and "c \<in> set (dkeys acts)"
  shows "count_list (dependents_of acts c) n = count_list (dep_ids acts n) c"
proof -
  have "count_list (dependents_of acts c) n =
      sum_list (map (\<lambda>(aid, a). if aid = n then length (filter (\<lambda>d. d = c) (depends_on a)) else 0) acts)"
    using assms(2)
    by (simp add: dependents_of_def count_list_concat o_def case_prod_beta' count_list_const)
  also have "\<dots> = count_list (dep_ids acts n) c"
    using assms(1) by (auto simp: dependents_count_aux dict_ok_def dep_ids_def split: option.splits)
  finally show ?thesis .
qed

lemma relax_degree: "fst (relax deg ds) n = deg n - int (count_list ds n)"
  by (induction ds arbitrary: deg) (auto simp: Let_def case_prod_beta)

lemma relax_pushed:
  "(\<And>n. int (count_list ds n) \<le> deg n) \<Longrightarrow>
     n \<in> set (snd (relax deg ds)) \<longleftrightarrow> 0 < count_list ds n \<and> deg n = int (count_list ds n)"
proof (induction ds arbitrary: deg)
  case (Cons d ds)
  let ?deg = "deg(d := deg d - 1)"
  have "int (count_list ds m) \<le> ?deg m" for m using Cons.prems [of m] by auto
  then have IH: "n \<in> set (snd (relax ?deg ds)) \<longleftrightarrow> 0 < count_list ds n \<and> ?deg n = int (count_list ds n)"
    by (rule Cons.IH)
  have "deg d - 1 = 0 \<Longrightarrow> count_list ds d = 0" using Cons.prems [of d] by auto
  with IH show ?case by (auto simp: Let_def case_prod_beta)
qed simp

lemma pending_insert:
  "c \<in> set (dkeys acts) \<Longrightarrow> c \<notin> visited \<Longrightarrow>
     length (pending acts visited n) =
       count_list (dep_ids acts n) c + length (pending acts (insert c visited) n)"
proof -
  assume c: "c \<in> set (dkeys acts)" "c \<notin> visited"
  have "length (filter (\<lambda>d. d \<in> set (dkeys acts) \<and> d \<notin> visited) ys) =
      count_list ys c + length (filter (\<lambda>d. d \<in> set (dkeys acts) \<and> d \<notin> insert c visited) ys)" for ys
    using c by (induction ys) auto
  then show ?thesis by (simp add: pending_def)
qed

lemma pending_ge_count:
  "c \<in> set (dkeys acts) \<Longrightarrow> c \<notin> visited \<Longrightarrow>
     count_list (dep_ids acts n) c \<le> length (pending acts visited n)"
  by (simp add: pending_insert)

text \<open>The loop invariant of the queue.\<close>

definition kahn_inv :: "actions \<Rightarrow> (string \<Rightarrow> int) \<Rightarrow> string list \<Rightarrow> string set \<Rightarrow> bool" where
  "kahn_inv acts deg queue visited \<longleftrightarrow>
     visited \<subseteq> set (dkeys acts) \<inter> Wellfounded.acc (dep_rel acts) \<and>
     set queue \<subseteq> set (dkeys acts) \<and>
     (\<forall>n. deg n = int (length (pending acts visited n))) \<and>
     (\<forall>n\<in>set (dkeys acts) - visited. deg n = 0 \<longrightarrow> n \<in> set queue) \<and>
     (\<forall>n\<in>set queue. deg n = 0)"

lemma pending_Nil_acc:
  assumes "pending acts visited c = []" and "visited \<subseteq> Wellfounded.acc (dep_rel acts)"
  shows "c \<in> Wellfounded.acc (dep_rel acts)"
proof (rule needs_acc_step)
  fix d assume d: "d \<in> set (dkeys acts)" "d \<in> set (dep_ids acts c)"
  from assms(1) have "\<forall>x\<in>set (dep_ids acts c). \<not> (x \<in> set (dkeys acts) \<and> x \<notin> visited)"
    unfolding pending_def filter_empty_conv .
  with d assms(2) show "d \<in> Wellfounded.acc (dep_rel acts)" by blast
qed

lemma kahn_inv_step:
  assumes ok: "dict_ok acts" and inv: "kahn_inv acts deg (c # queue) visited" and new: "c \<notin> visited"
    and r: "relax deg (dependents_of acts c) = (deg', pushed)"
  shows "kahn_inv acts deg' (queue @ pushed) (insert c visited)"
proof -
  have c: "c \<in> set (dkeys acts)" using inv by (simp add: kahn_inv_def)
  have deg: "deg n = int (length (pending acts visited n))" for n
    using inv unfolding kahn_inv_def by blast
  have cnt: "count_list (dependents_of acts c) n = count_list (dep_ids acts n) c" for n
    by (rule dependents_count [OF ok c])
  have deg': "deg' n = int (length (pending acts (insert c visited) n))" for n
    using relax_degree [of deg "dependents_of acts c" n] pending_insert [OF c new, of n]
    by (simp add: r cnt deg)
  have pushed: "n \<in> set pushed \<longleftrightarrow> 0 < count_list (dep_ids acts n) c \<and> deg' n = 0" for n
    using relax_pushed [of "dependents_of acts c" deg n] relax_degree [of deg "dependents_of acts c" n]
      pending_ge_count [OF c new]
    by (auto simp: r cnt deg)
  have c0: "pending acts visited c = []" using inv deg [of c] by (simp add: kahn_inv_def)
  have acc: "visited \<subseteq> set (dkeys acts) \<inter> Wellfounded.acc (dep_rel acts)"
    using inv unfolding kahn_inv_def by blast
  show ?thesis
    unfolding kahn_inv_def
  proof (intro conjI)
    show "insert c visited \<subseteq> set (dkeys acts) \<inter> Wellfounded.acc (dep_rel acts)"
      using c acc pending_Nil_acc [OF c0] by blast
    have "pushed_key": "n \<in> set (dkeys acts)" if "n \<in> set pushed" for n
    proof -
      from that have "dep_ids acts n \<noteq> []" using pushed by auto
      then have "dget acts n \<noteq> None" by (auto simp: dep_ids_def split: option.splits)
      then show ?thesis unfolding dget_None_iff by simp
    qed
    then show "set (queue @ pushed) \<subseteq> set (dkeys acts)" using inv by (auto simp: kahn_inv_def)
    show "\<forall>n. deg' n = int (length (pending acts (insert c visited) n))" using deg' by blast
    show "\<forall>n\<in>set (queue @ pushed). deg' n = 0"
    proof
      fix n assume "n \<in> set (queue @ pushed)"
      then show "deg' n = 0"
      proof (cases "n \<in> set pushed")
        case False
        with \<open>n \<in> set (queue @ pushed)\<close> have "n \<in> set (c # queue)" by simp
        with inv have "deg n = 0" unfolding kahn_inv_def by blast
        then show ?thesis using deg [of n] deg' [of n] pending_insert [OF c new, of n] by linarith
      qed (use pushed in blast)
    qed
    show "\<forall>n\<in>set (dkeys acts) - insert c visited. deg' n = 0 \<longrightarrow> n \<in> set (queue @ pushed)"
    proof (intro ballI impI)
      fix n assume n: "n \<in> set (dkeys acts) - insert c visited" "deg' n = 0"
      show "n \<in> set (queue @ pushed)"
      proof (cases "count_list (dep_ids acts n) c = 0")
        case True
        then have "deg n = 0" using n(2) deg [of n] deg' [of n] pending_insert [OF c new, of n] by simp
        then have "n \<in> set (c # queue)" using n(1) inv unfolding kahn_inv_def by blast
        with n(1) show ?thesis by auto
      qed (use pushed n(2) in auto)
    qed
  qed
qed

lemma kahn_loop_inv:
  "dict_ok acts \<Longrightarrow> kahn_inv acts deg queue visited \<Longrightarrow>
     \<exists>deg'. kahn_inv acts deg' [] (kahn_loop acts deg queue visited)"
proof (induction acts deg queue visited rule: kahn_loop.induct)
  case (1 acts deg visited)
  then show ?case by auto
next
  case (2 acts deg current queue visited)
  show ?case
  proof (cases "current \<in> visited")
    case True
    have "n \<in> set queue" if "n \<in> set (current # queue)" "n \<notin> visited" for n
      using True that by auto
    with 2(4) have "kahn_inv acts deg queue visited"
      unfolding kahn_inv_def by (meson Diff_iff list.set_intros(2) order_trans set_subset_Cons)
    with True 2(1,3) show ?thesis by simp
  next
    case False
    obtain deg' pushed where r: "relax deg (dependents_of acts current) = (deg', pushed)"
      by fastforce
    have "kahn_inv acts deg' (queue @ pushed) (insert current visited)"
      by (rule kahn_inv_step [OF 2(3,4) False r])
    with 2(2) [OF False r [symmetric] 2(3)] False r show ?thesis by simp
  qed
qed

lemma kahn_inv_final:
  assumes "kahn_inv acts deg [] visited"
  shows "visited = set (dkeys acts) \<inter> Wellfounded.acc (dep_rel acts)"
proof (rule closed_complete_is_acc)
  show "visited \<subseteq> set (dkeys acts)" "visited \<subseteq> Wellfounded.acc (dep_rel acts)"
    using assms by (auto simp: kahn_inv_def)
  fix n assume n: "n \<in> set (dkeys acts) - visited"
  with assms have "pending acts visited n \<noteq> []" by (auto simp: kahn_inv_def)
  then obtain d where "d \<in> set (pending acts visited n)" by (cases "pending acts visited n") auto
  then show "\<exists>d\<in>set (dkeys acts) - visited. d \<in> set (dep_ids acts n)"
    by (auto simp: pending_def)
qed

lemma detect_cycle_acc:
  assumes "dict_ok acts"
  shows "detect_cycle_in_depends_on acts = set (dkeys acts) - Wellfounded.acc (dep_rel acts)"
proof -
  let ?q = "filter (\<lambda>aid. initial_degree acts aid = 0) (dkeys acts)"
  have "kahn_inv acts (initial_degree acts) ?q {}"
    by (auto simp: kahn_inv_def initial_degree_pending)
  then obtain deg where "kahn_inv acts deg [] (kahn_loop acts (initial_degree acts) ?q {})"
    using kahn_loop_inv [OF assms] by blast
  then have "kahn_loop acts (initial_degree acts) ?q {} =
      set (dkeys acts) \<inter> Wellfounded.acc (dep_rel acts)"
    by (rule kahn_inv_final)
  then show ?thesis unfolding detect_cycle_in_depends_on_def Let_def by blast
qed

section \<open>What an accepted plan guarantees\<close>

lemma check_deps_None:
  "check_deps ids aid seen ds = None \<longleftrightarrow>
     distinct ds \<and> set ds \<inter> seen = {} \<and> set ds \<subseteq> ids - {aid}"
  by (induction ds arbitrary: seen) auto

lemma check_next_None:
  "check_next ids aid b = None \<longleftrightarrow> (\<forall>n. next_step b = Some n \<longrightarrow> n \<in> ids - {aid})"
  by (auto simp: check_next_def split: option.splits)

lemma cycle_empty_iff:
  assumes "dict_ok acts"
  shows "detect_cycle_in_depends_on acts = {} \<longleftrightarrow> acyclic (dep_rel acts)"
  using acc_all_acyclic [of "set (dkeys acts)" "\<lambda>n. set (dep_ids acts n)"]
  by (auto simp: detect_cycle_acc [OF assms])

text \<open>The contract of the graph validator, with no reference to how it is computed.\<close>

definition graph_ok :: "actions \<Rightarrow> bool" where
  "graph_ok acts \<longleftrightarrow>
     (\<forall>(aid, a)\<in>set acts. distinct (depends_on a) \<and>
        set (depends_on a) \<subseteq> set (dkeys acts) - {aid} \<and>
        (\<forall>b\<in>set (expected_outcomes a). \<forall>n. next_step b = Some n \<longrightarrow>
           n \<in> set (dkeys acts) - {aid})) \<and>
     acyclic (dep_rel acts)"

lemma filter_mem_Nil_iff: "S \<subseteq> set xs \<Longrightarrow> filter (\<lambda>n. n \<in> S) xs = [] \<longleftrightarrow> S = {}"
  by (auto simp: filter_empty_conv)

lemma detect_cycle_subset: "detect_cycle_in_depends_on acts \<subseteq> set (dkeys acts)"
  by (auto simp: detect_cycle_in_depends_on_def Let_def)

text \<open>
  the graph validator accepts exactly the plans whose depends\_on lists are
  duplicate-free, name only other actions of the plan, whose branch targets are other
  actions of the plan, and whose dependency relation has no cycle. Kahn's queue is hereby
  equivalent to acyclicity.
\<close>

theorem validate_graph_iff:
  assumes "dict_ok (actions p)"
  shows "validate_graph p = None \<longleftrightarrow> graph_ok (actions p)"
proof -
  let ?ids = "set (dkeys (actions p))"
  have "validate_graph p = None \<longleftrightarrow>
      (\<forall>(aid, a)\<in>set (actions p). check_deps ?ids aid {} (depends_on a) = None \<and>
         (\<forall>b\<in>set (expected_outcomes a). check_next ?ids aid b = None)) \<and>
      detect_cycle_in_depends_on (actions p) = {}"
    using filter_mem_Nil_iff [OF detect_cycle_subset, of "actions p"]
    by (fastforce simp: validate_graph_def Let_def first_error_None)
  then show ?thesis
    by (simp add: check_deps_None check_next_None cycle_empty_iff [OF assms] graph_ok_def)
qed

text \<open>Two actions that wait for each other, next to a sound chain.\<close>

definition sample_action :: "string list \<Rightarrow> action" where
  "sample_action ds = \<lparr>tool = ''add_task'', args = [], expected_outcomes =
     [\<lparr>match = [], next_step = None, br_compose = None\<rparr>], intent_group = ''g'', depends_on = ds\<rparr>"

definition sample_plan :: "actions \<Rightarrow> plan" where
  "sample_plan acts = \<lparr>schema_version = 1,
     classification = \<lparr>is_new_turn = True, reason = ''new''\<rparr>, clarity = Clear,
     clarity_reason = None, actions = acts,
     plan_compose = \<lparr>cc_kind = KTemplate, template_id = Some ''task_list'', template_data = [],
       llm_prompt_key = None\<rparr>\<rparr>"

theorem validate_graph_iff_witness:
  "graph_ok [(''s1'', sample_action []), (''s2'', sample_action [''s1''])] \<and>
   \<not> graph_ok [(''s1'', sample_action [''s2'']), (''s2'', sample_action [''s1''])]"
proof -
  let ?a = "[(''s1'', sample_action []), (''s2'', sample_action [''s1''])]"
  let ?b = "[(''s1'', sample_action [''s2'']), (''s2'', sample_action [''s1''])]"
  have "dict_ok ?a" "dict_ok ?b" by (auto simp: dict_ok_def)
  moreover have "validate_graph (sample_plan ?a) = None" "validate_graph (sample_plan ?b) \<noteq> None"
    by code_simp+
  ultimately show ?thesis
    using validate_graph_iff [of "sample_plan ?a"] validate_graph_iff [of "sample_plan ?b"]
    by (auto simp: sample_plan_def)
qed

subsection \<open>The operating modes\<close>

definition conversational :: "composer_call \<Rightarrow> bool" where
  "conversational c \<longleftrightarrow>
     (case cc_kind c of
        KLlm \<Rightarrow> opt_in (llm_prompt_key c) CONVERSATIONAL_LLM_PROMPT_KEYS
      | KTemplate \<Rightarrow> opt_in (template_id c) CONVERSATIONAL_TEMPLATE_IDS)"

lemma reject_conversational_None:
  "reject_conversational_compose c loc = None \<longleftrightarrow> \<not> conversational c"
  by (auto simp: reject_conversational_compose_def conversational_def opt_in_def
      split: compose_kind.splits option.splits)

lemma check_branch_composes_None:
  "check_branch_composes acts = None \<longleftrightarrow>
     (\<forall>(aid, a)\<in>set acts. \<forall>b\<in>set (expected_outcomes a). \<forall>c. br_compose b = Some c \<longrightarrow>
        \<not> conversational c)"
  by (fastforce simp: check_branch_composes_def first_error_None reject_conversational_None
      split: option.splits)

lemma merge_clarity_simps [simp]:
  "actions (merge_clarity_reason p) = actions p"
  "clarity (merge_clarity_reason p) = clarity p"
  "classification (merge_clarity_reason p) = classification p"
  "clarity_reason (merge_clarity_reason p) = clarity_reason p"
  "cc_kind (plan_compose (merge_clarity_reason p)) = cc_kind (plan_compose p)"
  "template_id (plan_compose (merge_clarity_reason p)) = template_id (plan_compose p)"
  "llm_prompt_key (plan_compose (merge_clarity_reason p)) = llm_prompt_key (plan_compose p)"
  by (auto simp: merge_clarity_reason_def Let_def)

lemma merge_kind_consistency [simp]:
  "validate_kind_consistency (plan_compose (merge_clarity_reason p)) =
     validate_kind_consistency (plan_compose p)"
  by (simp add: validate_kind_consistency_def)

lemma merged_reason:
  assumes "clarity_reason p = Some r" and "strip r \<noteq> []"
  shows "is_non_blank_string
    (dget (template_data (plan_compose (merge_clarity_reason p))) ''clarity_reason'')"
  using assms by (auto simp: merge_clarity_reason_def Let_def is_non_blank_string_def)

lemma validate_clarity_cases:
  assumes "validate_clarity p = Inr p'"
  obtains "p' = p" "clarity p \<noteq> NeedsClarification"
  | "p' = merge_clarity_reason p" "clarity p = NeedsClarification"
    "check_clarification_target p = None" "check_clarification_data p' = None"
  using assms by (auto simp: validate_clarity_def Let_def first_error_None
      split: if_splits option.splits)

lemma validate_clarity_checks:
  assumes "validate_clarity p = Inr p'"
  shows "clarity p = Clear \<Longrightarrow> actions p \<noteq> []"
    and "clarity p \<in> {Clear, NeedsClarification} \<Longrightarrow> \<not> conversational (plan_compose p)"
    and "check_branch_composes (actions p) = None"
    and "clarity p = ReplyOnly \<Longrightarrow> check_reply_only p = None"
  using assms by (auto simp: validate_clarity_def first_error_None reject_conversational_None
      split: if_splits option.splits)

text \<open>What the three modes promise the executor and the composer.\<close>

definition mode_ok :: "plan \<Rightarrow> bool" where
  "mode_ok p \<longleftrightarrow>
     (clarity p = Clear \<longrightarrow> actions p \<noteq> []) \<and>
     (conversational (plan_compose p) \<longleftrightarrow> clarity p = ReplyOnly) \<and>
     (clarity p = ReplyOnly \<longrightarrow> actions p = []) \<and>
     (\<forall>(aid, a)\<in>set (actions p). \<forall>b\<in>set (expected_outcomes a). \<forall>c.
        br_compose b = Some c \<longrightarrow> \<not> conversational c) \<and>
     (clarity p = NeedsClarification \<longrightarrow>
        cc_kind (plan_compose p) = KTemplate \<and>
        opt_in (template_id (plan_compose p)) CLARIFICATION_TEMPLATE_IDS \<and>
        (actions p \<noteq> [] \<longrightarrow> template_id (plan_compose p) = Some MIXED_MODE_CLARIFICATION_TEMPLATE) \<and>
        is_non_blank_string (dget (template_data (plan_compose p)) ''clarity_reason''))"

lemma reply_only_conversational:
  "check_reply_only p = None \<Longrightarrow> actions p = [] \<and> conversational (plan_compose p)"
  by (auto simp: check_reply_only_def conversational_def split: if_splits compose_kind.splits)

lemma conversational_merge [simp]:
  "conversational (plan_compose (merge_clarity_reason p)) = conversational (plan_compose p)"
  by (simp add: conversational_def split: compose_kind.split)

lemma validate_clarity_mode_ok:
  assumes "validate_clarity p = Inr p'"
  shows "mode_ok p'"
proof -
  note chk = validate_clarity_checks [OF assms]
  show ?thesis
  proof (cases rule: validate_clarity_cases [OF assms])
    case 1
    then have "clarity p = Clear \<or> clarity p = ReplyOnly" by (cases "clarity p") auto
    with 1 chk show ?thesis
      by (auto simp: mode_ok_def check_branch_composes_None dest: reply_only_conversational)
  next
    case 2
    then obtain r where "clarity_reason p = Some r" "strip r \<noteq> []"
      by (auto simp: check_clarification_target_def Let_def split: if_splits option.splits)
    from merged_reason [OF this] 2 chk show ?thesis
      by (auto simp: mode_ok_def check_branch_composes_None check_clarification_target_def Let_def
          split: if_splits)
  qed
qed


definition sample_ask :: plan where
  "sample_ask = (sample_plan [(''s1'', sample_action [])])
     \<lparr>clarity := NeedsClarification, clarity_reason := Some ''when?'',
      plan_compose := \<lparr>cc_kind = KTemplate, template_id = Some ''partial_with_clarification'',
        template_data = [(''done_summary'', VStr ''ok''), (''clarity_reason'', VBool False)],
        llm_prompt_key = None\<rparr>\<rparr>"

definition sample_ask_merged :: plan where
  "sample_ask_merged = merge_clarity_reason sample_ask"

lemma sample_ask_valid: "plan_validate sample_ask = Inr sample_ask_merged"
  unfolding sample_ask_merged_def by code_simp


text \<open>
  validation is stable. Validating the plan it returned accepts it and changes nothing
  more: the merge of the clarity reason into the template data happens once, and a plan
  stored after validation and read back is the plan that is executed.
\<close>

theorem plan_validate_stable:
  assumes "plan_validate p = Inr p'"
  shows "plan_validate p' = Inr p'"
proof -
  from assms have c: "validate_clarity p = Inr p'" and f: "validate_plan_fields p = None"
    and rest: "first_error [validate_action_key_format p', validate_graph p'] = None"
    by (auto simp: plan_validate_def bind_res_eq_Inr split: option.splits)
  show ?thesis
  proof (cases rule: validate_clarity_cases [OF c])
    case 1
    with assms show ?thesis by simp
  next
    case 2
    from 2 obtain r where r: "clarity_reason p = Some r" "strip r \<noteq> []"
      by (auto simp: check_clarification_target_def Let_def split: if_splits option.splits)
    have m: "merge_clarity_reason p' = p'"
      using merged_reason [OF r] 2 by (simp add: merge_clarity_reason_def [of "merge_clarity_reason p"])
    note chk = validate_clarity_checks [OF c]
    have "check_clarification_target p' = None"
      using 2 by (auto simp: check_clarification_target_def Let_def split: if_splits)
    moreover have "reject_conversational_compose (plan_compose p') ''Plan'' = None"
      using chk(2) 2 by (simp add: reject_conversational_None)
    ultimately have "validate_clarity p' = Inr p'"
      using 2 m chk(3) by (simp add: validate_clarity_def)
    moreover have "validate_plan_fields p' = None"
      using f 2 by (simp add: validate_plan_fields_def)
    ultimately show ?thesis using rest by (simp add: plan_validate_def)
  qed
qed

theorem plan_validate_stable_witness:
  "plan_validate sample_ask_merged = Inr sample_ask_merged \<and> sample_ask_merged \<noteq> sample_ask"
proof -
  have "sample_ask_merged \<noteq> sample_ask" by code_simp
  with plan_validate_stable [OF sample_ask_valid] show ?thesis by simp
qed

subsection \<open>Canonical action keys\<close>

lemma is_digit_chr: "is_digit c \<longleftrightarrow> (\<exists>v<10. c = chr (48 + v))"
proof
  assume "is_digit c"
  then have "(48::nat) \<le> of_char c" "of_char c \<le> (57::nat)" by (auto simp: is_digit_def in_ranges_def)
  then have "of_char c - 48 < (10::nat)" "c = chr (48 + (of_char c - 48))" by (auto simp: chr_def)
  then show "\<exists>v<10. c = chr (48 + v)" by blast
qed (auto simp: is_digit_def in_ranges_def chr_def)

lemma chr_digit_eq_0: "v < 10 \<Longrightarrow> chr (48 + v) = CHR ''0'' \<longleftrightarrow> v = 0"
proof -
  have "\<forall>v\<in>set [0..<10]. chr (48 + v) = CHR ''0'' \<longleftrightarrow> v = 0" by code_simp
  then show "v < 10 \<Longrightarrow> chr (48 + v) = CHR ''0'' \<longleftrightarrow> v = 0" by simp
qed

lemma show_nat_digits: "\<forall>c\<in>set (show_nat n). is_digit c"
proof (induction n rule: show_nat.induct)
  case (1 n)
  then show ?case 
    by (subst show_nat.simps) (auto simp: is_digit_chr intro: exI [of _ "n mod 10"])
qed

lemma show_nat_head: "0 < n \<Longrightarrow> \<exists>c cs. show_nat n = c # cs \<and> c \<noteq> CHR ''0''"
proof (induction n rule: show_nat.induct)
  case (1 n)
  show ?case
  proof (cases "n < 10")
    case True
    with 1 show ?thesis by (subst show_nat.simps) (auto simp: chr_digit_eq_0)
  next
    case False
    then obtain c cs where "show_nat (n div 10) = c # cs" "c \<noteq> CHR ''0''"
      using 1 by (auto simp: div_greater_zero_iff)
    with False show ?thesis by (subst show_nat.simps) auto
  qed
qed

lemma digits_show_nat:
  "ds \<noteq> [] \<Longrightarrow> \<forall>c\<in>set ds. is_digit c \<Longrightarrow> hd ds \<noteq> CHR ''0'' \<Longrightarrow> \<exists>n>0. ds = show_nat n"
proof (induction ds rule: rev_induct)
  case (snoc c ds)
  then obtain v where v: "v < 10" "c = chr (48 + v)" by (auto simp: is_digit_chr)
  show ?case
  proof (cases "ds = []")
    case True
    with snoc v have "0 < v" using chr_digit_eq_0 [of v] by (cases "v = 0") auto
    moreover have "show_nat v = [c]" using v by (subst show_nat.simps) simp
    ultimately show ?thesis using True by auto
  next
    case False
    with snoc obtain n where n: "0 < n" "ds = show_nat n" by auto
    have "show_nat (10 * n + v) = ds @ [c]"
      using n v by (subst show_nat.simps) simp
    with n show ?thesis by (metis add_gr_0 nat_0_less_mult_iff zero_less_numeral)
  qed
qed simp

lemma takeWhile_prefix: "\<forall>c\<in>set xs. P c \<Longrightarrow> \<not> P y \<Longrightarrow> dropWhile P (xs @ y # ys) = y # ys"
  by (induction xs) auto

text \<open>
  an action key is accepted exactly when it is an \<open>s\<close> and the decimal numeral of a
  positive number without leading zeros, alone or followed by one newline. So no text of the
  user gets into the key column, and two accepted keys for the same number differ only by
  that newline, which the pattern's \<open>$\<close> lets through.
\<close>

theorem action_key_ok_iff:
  "action_key_ok k \<longleftrightarrow> (\<exists>n>0. k = ''s'' @ show_nat n \<or> k = ''s'' @ show_nat n @ [chr 10])"
proof
  assume "action_key_ok k"
  then obtain d ds where k: "k = CHR ''s'' # d # ds" and d: "is_digit d" "d \<noteq> CHR ''0''"
    and ds: "dropWhile is_digit ds \<in> {[], [chr 10]}"
    by (auto simp: action_key_ok_def split: list.splits)
  have "\<forall>c\<in>set (d # takeWhile is_digit ds). is_digit c"
    using d by (auto dest: set_takeWhileD)
  then obtain n where n: "0 < n" "d # takeWhile is_digit ds = show_nat n"
    using digits_show_nat [of "d # takeWhile is_digit ds"] d by auto
  have "ds = takeWhile is_digit ds @ dropWhile is_digit ds" by simp
  with ds n k show "\<exists>n>0. k = ''s'' @ show_nat n \<or> k = ''s'' @ show_nat n @ [chr 10]"
    by (metis (no_types, opaque_lifting) append_Cons append_Nil append_Nil2 insert_iff singletonD)
next
  assume "\<exists>n>0. k = ''s'' @ show_nat n \<or> k = ''s'' @ show_nat n @ [chr 10]"
  then obtain n where n: "0 < n" "k = ''s'' @ show_nat n \<or> k = ''s'' @ show_nat n @ [chr 10]"
    by blast
  obtain c cs where c: "show_nat n = c # cs" "c \<noteq> CHR ''0''" using show_nat_head [OF n(1)] by blast
  then have dig: "\<forall>x\<in>set (c # cs). is_digit x" using show_nat_digits [of n] by simp
  have nl: "\<not> is_digit (chr 10)" by code_simp
  have "dropWhile is_digit cs = []" "dropWhile is_digit (cs @ [chr 10]) = [chr 10]"
    using dig nl takeWhile_prefix [of cs is_digit "chr 10" "[]"] by auto
  with n(2) c dig show "action_key_ok k" by (auto simp: action_key_ok_def)
qed

end
