(* ===== verification/ToolSpec.thy ===== *)
theory ToolSpec
  imports PlanSchema
begin

text \<open>
  \<open>services/tool_schemas/base.py\<close> (the registry entry of a tool and the checks made when it
  is constructed), \<open>services/tool_schemas/executor_contract.py\<close> (the typed output boundary)
  and \<open>runtime/planner/tool_runtime.py\<close> (operation ids, retry classification). The pydantic
  input model, the parser of a tool's raw output and its output model are functions in the
  record: they differ from tool to tool.
\<close>

section \<open>The registry entry\<close>

datatype effect = EffRead | EffWrite

datatype side_effect_class = ReadOnly | TransactionalWrite | ExternalSideEffect

datatype arg_error = ArgValidation | ArgInternal

text \<open>
  What a parser returns: the sentinel \<open>ToolOutputContractViolation\<close>, or a typed model given
  by its dumped fields and the names of its computed fields.
\<close>

datatype parsed = Sentinel | Typed vdict "string list"

record tool_spec =
  ts_name :: string
  description :: string
  family :: "string option"
  effect :: effect
  read_domains :: "string list"
  write_domains :: "string list"
  parallel_safe :: bool
  timeout_seconds :: nat
  side_effect_class :: side_effect_class
  request_local :: bool
  committed_statuses :: "string list option"
  outcome_examples :: "vdict list"
  trigger_examples :: "string list"
  mutex_notes :: "string list"
  required_any_non_null_args :: "string list option"
  allow_field_validators :: bool
  input_fields :: "string list"
  field_validators :: "string list"
  input_model :: "vdict \<Rightarrow> arg_error + vdict"
  parse_raw :: "string \<Rightarrow> parsed"
  output_model :: "vdict \<Rightarrow> vdict option"

type_synonym registry = "(string, tool_spec) dict"

definition FAMILIES :: "string list" where
  "FAMILIES = [''shopping'', ''reminders'', ''recipes'', ''menu'', ''household'', ''tasks'',
     ''checklists'', ''onboarding'', ''ui'', ''memory'', ''utility'', ''web'']"

definition is_durable_write :: "tool_spec \<Rightarrow> bool" where
  "is_durable_write s \<longleftrightarrow>
     effect s = EffWrite \<and> side_effect_class s = TransactionalWrite \<and> \<not> request_local s"

section \<open>Construction\<close>

datatype spec_error =
    SpecField string
  | NameBlank | NameShape | NameWhitespace
  | TextBlank string | TextControl string | TextWhitespace string
  | DomainBlank string nat | DomainWhitespace string nat | DomainControl string nat
  | DomainUnknown string nat
  | ReadWithWriteDomains | WriteWithoutDomains | ExternalForbidden | RequestLocalRead
  | FieldValidators "string list" | ReadOnlyWrite
  | RequiredAnyEmpty | RequiredAnyBlank string | RequiredAnyUnknown string

definition control_chars :: string where
  "control_chars = [chr 10, chr 13, chr 9, chr 0]"

definition has_control :: "string \<Rightarrow> bool" where
  "has_control s = list_ex (\<lambda>c. c \<in> set control_chars) s"

text \<open>\<open>_TOOL_NAME_PATTERN.fullmatch\<close> with \<open>^[a-z][a-z0-9_]*$\<close>.\<close>

definition tool_name_ok :: "string \<Rightarrow> bool" where
  "tool_name_ok s =
     (case s of
        [] \<Rightarrow> False
      | c # cs \<Rightarrow> in_ranges [(97, 122)] c \<and>
          list_all (in_ranges [(97, 122), (48, 57), (95, 95)]) cs)"

definition check_prompt_line :: "string \<Rightarrow> string \<Rightarrow> spec_error option" where
  "check_prompt_line what s =
     (if strip s = [] then Some (TextBlank what)
      else if has_control s then Some (TextControl what)
      else if s \<noteq> strip s then Some (TextWhitespace what) else None)"

text \<open>
  The checks of the texts. The marker test of \<open>mutex_notes\<close> concerns a character outside
  the model's strings, none of which starts with it.
\<close>

definition validate_spec_texts :: "tool_spec \<Rightarrow> spec_error option" where
  "validate_spec_texts s =
     first_error
       ([if strip (ts_name s) = [] then Some NameBlank else None,
         if \<not> tool_name_ok (ts_name s) then Some NameShape else None,
         if ts_name s \<noteq> strip (ts_name s) then Some NameWhitespace else None,
         check_prompt_line ''description'' (description s)] @
        map (check_prompt_line ''trigger_example'') (trigger_examples s) @
        map (check_prompt_line ''mutex_note'') (mutex_notes s))"

definition check_domains :: "string \<Rightarrow> string list \<Rightarrow> spec_error option" where
  "check_domains kind doms =
     first_error (map (\<lambda>(i, d).
        if strip d = [] then Some (DomainBlank kind i)
        else if d \<noteq> strip d then Some (DomainWhitespace kind i)
        else if has_control d then Some (DomainControl kind i)
        else if d \<notin> set FAMILIES then Some (DomainUnknown kind i)
        else None) (enumerate 0 doms))"

definition check_required_any :: "tool_spec \<Rightarrow> spec_error option" where
  "check_required_any s =
     (case required_any_non_null_args s of
        None \<Rightarrow> None
      | Some [] \<Rightarrow> Some RequiredAnyEmpty
      | Some names \<Rightarrow> first_error (map (\<lambda>n.
          if strip n = [] then Some (RequiredAnyBlank n)
          else if n \<notin> set (input_fields s) then Some (RequiredAnyUnknown n) else None) names))"

definition validate_spec_scheduling :: "tool_spec \<Rightarrow> spec_error option" where
  "validate_spec_scheduling s =
     first_error
       [check_domains ''read_domains'' (read_domains s),
        check_domains ''write_domains'' (write_domains s),
        if effect s = EffRead \<and> write_domains s \<noteq> [] then Some ReadWithWriteDomains else None,
        if effect s = EffWrite \<and> write_domains s = [] then Some WriteWithoutDomains else None,
        if side_effect_class s = ExternalSideEffect then Some ExternalForbidden else None,
        if request_local s \<and> effect s \<noteq> EffWrite then Some RequestLocalRead else None,
        if \<not> allow_field_validators s \<and> field_validators s \<noteq> []
        then Some (FieldValidators (sort (field_validators s))) else None,
        if side_effect_class s = ReadOnly \<and> effect s \<noteq> EffRead then Some ReadOnlyWrite else None,
        check_required_any s]"

text \<open>\<open>ToolSpec(...)\<close>: the \<open>Field\<close> constraints, then \<open>_validate_invariants\<close>.\<close>

definition tool_spec_validate :: "tool_spec \<Rightarrow> spec_error option" where
  "tool_spec_validate s =
     first_error
       [if ts_name s = [] then Some (SpecField ''name'') else None,
        if description s = [] then Some (SpecField ''description'') else None,
        if timeout_seconds s < 1 \<or> 600 < timeout_seconds s
        then Some (SpecField ''timeout_seconds'') else None,
        validate_spec_texts s, validate_spec_scheduling s]"

text \<open>The no-op rejector used before references are resolved: \<open>True\<close> when it does not raise.\<close>

definition validate_args_satisfy_required_any :: "tool_spec \<Rightarrow> vdict \<Rightarrow> bool" where
  "validate_args_satisfy_required_any s raw_args =
     (case required_any_non_null_args s of
        None \<Rightarrow> True
      | Some names \<Rightarrow> list_ex (\<lambda>n. case dget raw_args n of None \<Rightarrow> False | Some v \<Rightarrow> v \<noteq> VNone) names)"

section \<open>Execution-time boundaries\<close>

definition validate_args_at_execute_time :: "tool_spec \<Rightarrow> vdict \<Rightarrow> arg_error + vdict" where
  "validate_args_at_execute_time s resolved_args = input_model s resolved_args"

datatype output_error = PlannerGap | OutputInvalid

text \<open>
  The sentinel is recognised before the output model sees it, and computed fields are left
  out of what is validated again.
\<close>

definition dispatch_typed_output ::
    "(string \<Rightarrow> parsed) \<Rightarrow> (vdict \<Rightarrow> vdict option) \<Rightarrow> string \<Rightarrow> output_error + vdict" where
  "dispatch_typed_output parse om raw =
     (case parse raw of
        Sentinel \<Rightarrow> Inl PlannerGap
      | Typed flds computed \<Rightarrow>
          (case om (filter (\<lambda>(k, v). k \<notin> set computed) flds) of
             None \<Rightarrow> Inl OutputInvalid
           | Some d \<Rightarrow> Inr d))"

definition process_output :: "tool_spec \<Rightarrow> string \<Rightarrow> output_error + vdict" where
  "process_output s raw = dispatch_typed_output (parse_raw s) (output_model s) raw"

section \<open>Operation identity and retries\<close>

datatype identity_error = BlankTurnKey | BlankStepOrTool

definition unit_sep :: char where "unit_sep = chr 31"

text \<open>\<open>sha1hex\<close> stands for \<open>hashlib.sha1(...).hexdigest()\<close> of the encoded payload.\<close>

definition allocate_operation_id ::
    "(string \<Rightarrow> string) \<Rightarrow> string \<Rightarrow> string \<Rightarrow> string \<Rightarrow> identity_error + string" where
  "allocate_operation_id sha1hex turn_key step_id tool_name =
     (if turn_key = [] then Inl BlankTurnKey
      else if step_id = [] \<or> tool_name = [] then Inl BlankStepOrTool
      else Inr (''op_'' @ sha1hex (turn_key @ [unit_sep] @ step_id @ [unit_sep] @ tool_name)))"

datatype exc =
    ExcTimeout | ExcConnection | ExcDatabase bool | ExcOther
  \<comment> \<open>the flag: the driver's connection was found to be invalid\<close>

definition is_retriable :: "exc \<Rightarrow> bool \<Rightarrow> bool" where
  "is_retriable e durable =
     (if durable then False
      else case e of ExcTimeout \<Rightarrow> True | ExcConnection \<Rightarrow> True
           | ExcDatabase invalidated \<Rightarrow> invalidated | ExcOther \<Rightarrow> False)"

section \<open>Properties\<close>

lemma check_domains_None:
  "check_domains kind doms = None \<Longrightarrow> set doms \<subseteq> set FAMILIES"
proof
  fix d assume n: "check_domains kind doms = None" and "d \<in> set doms"
  then obtain i where "(i, d) \<in> set (enumerate 0 doms)"
    by (metis in_set_impl_in_set_zip2 length_upt enumerate_eq_zip add_diff_cancel_left')
  with n show "d \<in> set FAMILIES"
    by (force simp: check_domains_def first_error_None split: if_splits)
qed

text \<open>
  a tool specification that can be constructed gives the scheduler a coherent contract.
  Its domains are families of the closed taxonomy, a tool writes exactly when it declares
  write domains, no tool has external side effects, only writes are request-local, and the
  durable writes (the ones recovery must be able to probe) are exactly the writes that are not
  request-local.
\<close>

theorem constructed_spec_scheduling:
  assumes "tool_spec_validate s = None"
  shows "set (read_domains s) \<union> set (write_domains s) \<subseteq> set FAMILIES \<and>
    (effect s = EffWrite \<longleftrightarrow> write_domains s \<noteq> []) \<and>
    side_effect_class s \<noteq> ExternalSideEffect \<and>
    (request_local s \<longrightarrow> effect s = EffWrite) \<and>
    (is_durable_write s \<longleftrightarrow> effect s = EffWrite \<and> \<not> request_local s)"
proof -
  have v: "validate_spec_scheduling s = None"
    using assms by (simp add: tool_spec_validate_def first_error_None)
  have c: "effect s = EffRead \<longrightarrow> write_domains s = []" "effect s = EffWrite \<longrightarrow> write_domains s \<noteq> []"
    "side_effect_class s \<noteq> ExternalSideEffect" "request_local s \<longrightarrow> effect s = EffWrite"
    "side_effect_class s = ReadOnly \<longrightarrow> effect s = EffRead"
    using v by (auto simp: validate_spec_scheduling_def first_error_None split: if_splits)
  have "set (read_domains s) \<union> set (write_domains s) \<subseteq> set FAMILIES"
    using v check_domains_None by (auto simp: validate_spec_scheduling_def first_error_None)
  then show ?thesis
    using c by (cases "effect s"; cases "side_effect_class s") (auto simp: is_durable_write_def)
qed

definition sample_write :: tool_spec where
  "sample_write = \<lparr>ts_name = ''add_task'', description = ''add'', family = Some ''tasks'', effect = EffWrite,
     read_domains = [], write_domains = [''tasks''], parallel_safe = False, timeout_seconds = 15,
     side_effect_class = TransactionalWrite, request_local = False, committed_statuses = None, outcome_examples = [],
     trigger_examples = [], mutex_notes = [], required_any_non_null_args = None,
     allow_field_validators = False, input_fields = [''title''], field_validators = [],
     input_model = Inr, parse_raw = (\<lambda>raw. Typed [(''status'', VStr raw)] []),
     output_model = Some\<rparr>"

definition sample_read :: tool_spec where
  "sample_read = sample_write\<lparr>ts_name := ''list_tasks'', effect := EffRead,
     read_domains := [''tasks''], write_domains := []\<rparr>"

theorem constructed_spec_scheduling_witness:
  "tool_spec_validate sample_write = None \<and> is_durable_write sample_write \<and>
   \<not> is_durable_write sample_read"
proof -
  have v: "tool_spec_validate sample_write = None" "tool_spec_validate sample_read = None"
    by code_simp+
  show ?thesis
    using constructed_spec_scheduling [OF v(1)] constructed_spec_scheduling [OF v(2)] v
    by (simp add: sample_write_def sample_read_def)
qed

lemma join_last_unique:
  "a @ c # b = a' @ c # b' \<Longrightarrow> c \<notin> set b \<Longrightarrow> c \<notin> set b' \<Longrightarrow> a = a' \<and> b = b'"
proof (induction a arbitrary: a')
  case Nil
  then show ?case by (cases a') auto
next
  case (Cons x a)
  then show ?case by (cases a') auto
qed

lemma unit_sep_not_digit: "\<not> is_digit unit_sep"
  by code_simp

lemma action_key_no_sep: "action_key_ok k \<Longrightarrow> unit_sep \<notin> set k \<and> k \<noteq> []"
proof -
  assume "action_key_ok k"
  then obtain d ds where k: "k = CHR ''s'' # d # ds" "is_digit d"
    and ds: "dropWhile is_digit ds \<in> {[], [chr 10]}"
    by (auto simp: action_key_ok_def split: list.splits)
  have "set ds = set (takeWhile is_digit ds) \<union> set (dropWhile is_digit ds)"
    by (metis set_append takeWhile_dropWhile_id)
  also have "set (dropWhile is_digit ds) \<subseteq> {chr 10}" using ds by fastforce
  finally have "set ds \<subseteq> Collect is_digit \<union> {chr 10}" by (auto dest!: set_takeWhileD)
  moreover have "unit_sep \<noteq> CHR ''s''" "unit_sep \<noteq> chr 10" by code_simp+
  ultimately show ?thesis using k unit_sep_not_digit by auto
qed

lemma tool_name_no_sep: "tool_name_ok t \<Longrightarrow> unit_sep \<notin> set t \<and> t \<noteq> []"
  by (auto simp: tool_name_ok_def list_all_iff in_ranges_def unit_sep_def chr_def
      split: list.splits)

text \<open>
  operation ids identify steps. For action keys and tool names of the shapes the schema
  and the registry enforce, equal ids mean the same turn, the same step and the same tool, for
  every digest function without collisions and whatever the turn key contains: the separator
  cannot occur in the last two fields.
\<close>

theorem operation_id_injective:
  assumes "inj sha1hex"
    and "action_key_ok step" "action_key_ok step'" "tool_name_ok tname" "tool_name_ok tname'"
    and "turn \<noteq> []" "turn' \<noteq> []"
    and "allocate_operation_id sha1hex turn step tname = allocate_operation_id sha1hex turn' step' tname'"
  shows "turn = turn' \<and> step = step' \<and> tname = tname'"
proof -
  note k = action_key_no_sep [OF assms(2)] action_key_no_sep [OF assms(3)]
    tool_name_no_sep [OF assms(4)] tool_name_no_sep [OF assms(5)]
  have "turn @ unit_sep # step @ unit_sep # tname = turn' @ unit_sep # step' @ unit_sep # tname'"
    using assms(1,6-8) k by (simp add: allocate_operation_id_def inj_eq)
  then have "(turn @ unit_sep # step) @ unit_sep # tname = (turn' @ unit_sep # step') @ unit_sep # tname'"
    by simp
  from join_last_unique [OF this] k have "turn @ unit_sep # step = turn' @ unit_sep # step'" "tname = tname'"
    by auto
  with join_last_unique [of turn unit_sep step turn' step'] k show ?thesis by auto
qed

theorem operation_id_injective_witness:
  "allocate_operation_id id ''turn'' ''s1'' ''add_task'' \<noteq> allocate_operation_id id ''turn'' ''s2'' ''add_task''"
proof
  assume eq: "allocate_operation_id id ''turn'' ''s1'' ''add_task'' =
    allocate_operation_id id ''turn'' ''s2'' ''add_task''"
  have "action_key_ok ''s1''" "action_key_ok ''s2''" "tool_name_ok ''add_task''" by code_simp+
  from operation_id_injective [OF inj_on_id this(1,2,3,3) _ _ eq] show False by simp
qed

end
