(* ===== verification/Interpolation.thy ===== *)
theory Interpolation
  imports PyValue
begin

text \<open>
  \<open>src/sreda/runtime/planner/interpolation.py\<close>: references \<open>${step.field}\<close> inside the
  arguments of a plan, how they are found and how they are resolved against the outputs of
  the steps that have run. The regular expression is a deterministic scanner here, proved
  equal to its grammar; \<open>finditer\<close> and \<open>sub\<close> are one pass that cuts a text into pieces.
\<close>

section \<open>The reference scanner\<close>

text \<open>
  \<open>_REF_PATTERN = \${([A-Za-z_]\w*(?:\.[A-Za-z_]\w*)*)}\<close>. After the opening brace and a first
  letter, \<open>path_tail\<close> takes the longest \<open>\w*(?:\.[A-Za-z_]\w*)*\<close>; the next character must
  then be the closing brace. Giving characters back never helps: what the longest match
  leaves out is never followed by a brace earlier.
\<close>

fun path_tail :: "string \<Rightarrow> string \<times> string" where
  "path_tail [] = ([], [])"
| "path_tail [c] = (if is_word c then ([c], []) else ([], [c]))"
| "path_tail (c # d # ds) =
     (if is_word c then (let (p, r) = path_tail (d # ds) in (c # p, r))
      else if c = CHR ''.'' \<and> is_alphau d then (let (p, r) = path_tail ds in (c # d # p, r))
      else ([], c # d # ds))"

definition match_ref :: "string \<Rightarrow> (string \<times> string) option" where
  "match_ref s =
     (case s of
        c0 # c1 # c # cs \<Rightarrow>
          if c0 = CHR ''$'' \<and> c1 = CHR ''{'' \<and> is_alphau c then
            (case path_tail cs of
               (p, e # rest) \<Rightarrow> if e = CHR ''}'' then Some (c # p, rest) else None
             | (p, []) \<Rightarrow> None)
          else None
      | _ \<Rightarrow> None)"

text \<open>The grammar: dotted segments, each a letter or underscore and then word characters.\<close>

definition seg_ok :: "string \<Rightarrow> bool" where
  "seg_ok s \<longleftrightarrow> s \<noteq> [] \<and> is_alphau (hd s) \<and> list_all is_word (tl s)"

definition path_ok :: "string \<Rightarrow> bool" where
  "path_ok p \<longleftrightarrow> list_all seg_ok (split_on (CHR ''.'') p)"

definition ref_token :: "string \<Rightarrow> string" where
  "ref_token p = ''${'' @ p @ ''}''"

fun tail_ok :: "string \<Rightarrow> bool" where
  "tail_ok [] = True"
| "tail_ok [c] = is_word c"
| "tail_ok (c # d # ds) =
     (if is_word c then tail_ok (d # ds) else c = CHR ''.'' \<and> is_alphau d \<and> tail_ok ds)"

lemma tail_ok_split:
  "tail_ok s \<longleftrightarrow> list_all is_word (hd (split_on (CHR ''.'') s)) \<and>
     list_all seg_ok (tl (split_on (CHR ''.'') s))"
proof (induction s rule: tail_ok.induct)
  case (3 c d ds)
  obtain p ps where ps: "split_on (CHR ''.'') ds = p # ps" by (rule split_on_ConsE)
  show ?case
  proof (cases "is_word c")
    case True
    then have "c \<noteq> CHR ''.''" by auto
    with True 3 show ?thesis
      by (auto simp: ps split: list.splits if_splits)
  next
    case False
    then show ?thesis
    proof (cases "c = CHR ''.''")
      case True
      with False 3(2) show ?thesis
        by (cases "is_alphau d") (auto simp: ps seg_ok_def is_word_alphau split: if_splits)
    next
      case c: False
      with False show ?thesis by (auto simp: ps)
    qed
  qed
qed (auto simp: seg_ok_def)

lemma path_ok_Cons: "path_ok (c # p) \<longleftrightarrow> is_alphau c \<and> tail_ok p"
proof -
  obtain q qs where qs: "split_on (CHR ''.'') p = q # qs" by (rule split_on_ConsE)
  show ?thesis
    by (cases "c = CHR ''.''") (auto simp: path_ok_def tail_ok_split qs seg_ok_def)
qed

lemma path_ok_Nil [simp]: "\<not> path_ok []"
  by (simp add: path_ok_def seg_ok_def)

text \<open>The scanner is sound and takes everything up to the closing brace.\<close>

lemma path_tail_sound: "path_tail s = (p, r) \<Longrightarrow> s = p @ r \<and> tail_ok p"
proof (induction s arbitrary: p r rule: path_tail.induct)
  case (3 c d ds)
  then show ?case
  proof (cases "is_word c")
    case True
    obtain p' r' where "path_tail (d # ds) = (p', r')" by fastforce
    with True 3 show ?thesis by (cases p') auto
  next
    case False
    obtain p' r' where "path_tail ds = (p', r')" by fastforce
    with False 3 show ?thesis by (auto split: if_splits)
  qed
qed (auto split: if_splits)

lemma path_tail_complete: "tail_ok p \<Longrightarrow> path_tail (p @ CHR ''}'' # r) = (p, CHR ''}'' # r)"
proof (induction p rule: tail_ok.induct)
  case 1
  then show ?case by (cases r) auto
next
  case (2 c)
  then show ?case by (cases r) auto
next
  case (3 c d ds)
  show ?case
  proof (cases "is_word c")
    case True
    with 3 show ?thesis by simp
  next
    case False
    with 3 show ?thesis by simp
  qed
qed

lemma tail_ok_no_brace: "tail_ok p \<Longrightarrow> CHR ''}'' \<notin> set p"
  by (induction p rule: tail_ok.induct) (auto split: if_splits simp: is_word_alphau)

lemma path_ok_no_brace: "path_ok p \<Longrightarrow> CHR ''}'' \<notin> set p"
  by (cases p) (auto simp: path_ok_Cons dest: tail_ok_no_brace)

lemma match_ref_correct:
  "match_ref s = Some (p, rest) \<longleftrightarrow> path_ok p \<and> s = ref_token p @ rest"
proof
  assume "match_ref s = Some (p, rest)"
  then show "path_ok p \<and> s = ref_token p @ rest"
    by (auto simp: match_ref_def ref_token_def path_ok_Cons split: list.splits if_splits prod.splits
        dest!: path_tail_sound)
next
  assume *: "path_ok p \<and> s = ref_token p @ rest"
  then obtain c q where "p = c # q" by (cases p) auto
  with * show "match_ref s = Some (p, rest)"
    by (simp add: match_ref_def ref_token_def path_ok_Cons path_tail_complete)
qed

lemma match_ref_length: "match_ref s = Some (p, rest) \<Longrightarrow> length rest < length s"
  by (auto simp: match_ref_correct ref_token_def)

section \<open>finditer\<close>

datatype piece = Lit char | Ref string

text \<open>
  One left-to-right pass: at each position a reference if one starts there, a literal
  character otherwise; after a reference the scan goes on behind its closing brace.
\<close>

function pieces :: "string \<Rightarrow> piece list" where
  "pieces [] = []"
| "pieces (c # cs) =
     (case match_ref (c # cs) of
        Some (p, rest) \<Rightarrow> Ref p # pieces rest
      | None \<Rightarrow> Lit c # pieces cs)"
  by pat_completeness auto
termination
  by (relation "measure length") (auto dest: match_ref_length)

definition piece_refs :: "piece list \<Rightarrow> string list" where
  "piece_refs ps = concat (map (\<lambda>x. case x of Ref p \<Rightarrow> [p] | Lit c \<Rightarrow> []) ps)"

definition render_piece :: "piece \<Rightarrow> string" where
  "render_piece x = (case x of Ref p \<Rightarrow> ref_token p | Lit c \<Rightarrow> [c])"

definition refs_of :: "string \<Rightarrow> string list" where
  "refs_of s = piece_refs (pieces s)"

lemma piece_refs_simps [simp]:
  "piece_refs [] = []" "piece_refs (Ref p # ps) = p # piece_refs ps"
  "piece_refs (Lit c # ps) = piece_refs ps"
  by (simp_all add: piece_refs_def)

lemma pieces_lossless: "concat (map render_piece (pieces s)) = s"
  by (induction s rule: pieces.induct)
    (auto simp: render_piece_def match_ref_correct split: option.splits)

lemma refs_of_path_ok: "p \<in> set (refs_of s) \<Longrightarrow> path_ok p"
  unfolding refs_of_def
  by (induction s rule: pieces.induct) (auto simp: match_ref_correct split: option.splits)

lemma pieces_ref_token: "path_ok p \<Longrightarrow> pieces (ref_token p @ s) = Ref p # pieces s"
proof -
  assume "path_ok p"
  then have "match_ref (ref_token p @ s) = Some (p, s)" by (simp add: match_ref_correct)
  moreover obtain c cs where "ref_token p @ s = c # cs" by (auto simp: ref_token_def)
  ultimately show ?thesis by simp
qed

lemma piece_refs_Nil_lits: "piece_refs ps = [] \<Longrightarrow> \<exists>cs. ps = map Lit cs"
proof (induction ps)
  case (Cons x ps)
  then show ?case by (cases x) (auto intro: exI [where x = "_ # _"])
qed simp

lemma refs_of_Nil_pieces: "refs_of s = [] \<Longrightarrow> pieces s = map Lit s"
proof -
  assume "refs_of s = []"
  then obtain cs where cs: "pieces s = map Lit cs"
    by (auto simp: refs_of_def dest: piece_refs_Nil_lits)
  moreover have "concat (map render_piece (map Lit cs)) = cs"
    by (induction cs) (auto simp: render_piece_def)
  ultimately show ?thesis using pieces_lossless [of s] by simp
qed

section \<open>Introspection helpers\<close>

definition search_ref :: "string \<Rightarrow> bool" where
  "search_ref s \<longleftrightarrow> refs_of s \<noteq> []"

fun contains_ref :: "pyval \<Rightarrow> bool" where
  "contains_ref (VStr s) = search_ref s"
| "contains_ref (VDict kvs) = list_ex (\<lambda>(k, v). contains_ref v) kvs"
| "contains_ref (VList xs) = list_ex contains_ref xs"
| "contains_ref (VTuple xs) = list_ex contains_ref xs"
| "contains_ref _ = False"

definition is_full_ref_string :: "pyval \<Rightarrow> bool" where
  "is_full_ref_string value =
     (case value of
        VStr s \<Rightarrow> (case match_ref s of Some (p, rest) \<Rightarrow> rest = [] | None \<Rightarrow> False)
      | _ \<Rightarrow> False)"

fun iter_refs :: "pyval \<Rightarrow> string list" where
  "iter_refs (VStr s) = refs_of s"
| "iter_refs (VDict kvs) = concat (map (\<lambda>(k, v). iter_refs v) kvs)"
| "iter_refs (VList xs) = concat (map iter_refs xs)"
| "iter_refs (VTuple xs) = concat (map iter_refs xs)"
| "iter_refs _ = []"

text \<open>\<open>extract_step_id\<close> raises \<open>ValueError\<close> on the empty path: \<open>None\<close>.\<close>

definition extract_step_id :: "string \<Rightarrow> string option" where
  "extract_step_id path = (if path = [] then None else Some (hd (split_on (CHR ''.'') path)))"

lemma contains_ref_iter_refs: "contains_ref v \<longleftrightarrow> iter_refs v \<noteq> []"
  by (induction v rule: pyval_walk_induct) (force simp: search_ref_def list_ex_iff)+

lemma iter_refs_path_ok: "p \<in> set (iter_refs v) \<Longrightarrow> path_ok p"
  by (induction v rule: pyval_walk_induct) (auto simp: refs_of_path_ok)

section \<open>Malformed tokens\<close>

text \<open>
  \<open>_BROAD_REF_TOKEN_PATTERN = \${[^}]*}\<close>: everything up to the first closing brace.
  \<open>_STRICT_REF_PATH_PATTERN\<close>: dotted segments that start with a letter.
\<close>

definition broad_at :: "string \<Rightarrow> (string \<times> string) option" where
  "broad_at s =
     (case s of
        c0 # c1 # cs \<Rightarrow>
          if c0 = CHR ''$'' \<and> c1 = CHR ''{'' then
            (case dropWhile (\<lambda>c. c \<noteq> CHR ''}'') cs of
               [] \<Rightarrow> None
             | _ # rest \<Rightarrow> Some (takeWhile (\<lambda>c. c \<noteq> CHR ''}'') cs, rest))
          else None
      | _ \<Rightarrow> None)"

definition strict_path :: "string \<Rightarrow> bool" where
  "strict_path inner \<longleftrightarrow>
     list_all (\<lambda>s. s \<noteq> [] \<and> is_alpha (hd s) \<and> list_all is_word (tl s))
       (split_on (CHR ''.'') inner)"

definition has_private_segment :: "string \<Rightarrow> bool" where
  "has_private_segment inner \<longleftrightarrow>
     list_ex (\<lambda>seg. seg \<noteq> [] \<and> hd seg = CHR ''_'') (split_on (CHR ''.'') inner)"

lemma broad_at_correct:
  "broad_at s = Some (inner, rest) \<longleftrightarrow> CHR ''}'' \<notin> set inner \<and> s = ref_token inner @ rest"
proof
  assume "broad_at s = Some (inner, rest)"
  then obtain cs e where s: "s = CHR ''$'' # CHR ''{'' # cs"
    and e: "dropWhile (\<lambda>c. c \<noteq> CHR ''}'') cs = e # rest"
    and inner: "inner = takeWhile (\<lambda>c. c \<noteq> CHR ''}'') cs"
    by (auto simp: broad_at_def split: list.splits if_splits)
  have "e = CHR ''}''" using e by (metis (mono_tags, lifting) hd_dropWhile list.distinct(1) list.sel(1))
  moreover have "cs = inner @ e # rest" unfolding inner by (metis e takeWhile_dropWhile_id)
  ultimately show "CHR ''}'' \<notin> set inner \<and> s = ref_token inner @ rest"
    by (auto simp: s inner ref_token_def dest: set_takeWhileD)
next
  assume "CHR ''}'' \<notin> set inner \<and> s = ref_token inner @ rest"
  then show "broad_at s = Some (inner, rest)"
    by (auto simp: broad_at_def ref_token_def takeWhile_append dropWhile_append)
qed

lemma broad_at_length: "broad_at s = Some (inner, rest) \<Longrightarrow> length rest < length s"
  by (auto simp: broad_at_correct ref_token_def)

function broad_tokens :: "string \<Rightarrow> string list" where
  "broad_tokens [] = []"
| "broad_tokens (c # cs) =
     (case broad_at (c # cs) of
        Some (inner, rest) \<Rightarrow> inner # broad_tokens rest
      | None \<Rightarrow> broad_tokens cs)"
  by pat_completeness auto
termination
  by (relation "measure length") (auto dest: broad_at_length)

text \<open>The yielded tokens keep their wrapper.\<close>

fun iter_malformed_ref_tokens :: "pyval \<Rightarrow> string list" where
  "iter_malformed_ref_tokens (VStr s) =
     map ref_token
       (filter (\<lambda>inner. \<not> strict_path inner \<or> has_private_segment inner) (broad_tokens s))"
| "iter_malformed_ref_tokens (VDict kvs) =
     concat (map (\<lambda>(k, v). iter_malformed_ref_tokens v) kvs)"
| "iter_malformed_ref_tokens (VList xs) = concat (map iter_malformed_ref_tokens xs)"
| "iter_malformed_ref_tokens (VTuple xs) = concat (map iter_malformed_ref_tokens xs)"
| "iter_malformed_ref_tokens _ = []"

lemma strict_path_ok: "strict_path p \<Longrightarrow> path_ok p"
  unfolding strict_path_def path_ok_def
  by (auto simp: list_all_iff seg_ok_def is_alphau_iff)

lemma strict_path_not_private: "strict_path p \<Longrightarrow> \<not> has_private_segment p"
  by (auto simp: strict_path_def has_private_segment_def list_all_iff list_ex_iff is_alpha_def
      in_ranges_def)

text \<open>
  Where every broad token is strict, the executor's scanner sees exactly those tokens: the
  two regular expressions agree on every text the plan-time check lets through.
\<close>

lemma broad_tokens_eq_refs_of:
  "\<forall>inner\<in>set (broad_tokens s). strict_path inner \<Longrightarrow> refs_of s = broad_tokens s"
proof (induction s rule: pieces.induct)
  case 1
  show ?case by (simp add: refs_of_def)
next
  case (2 c cs)
  show ?case
  proof (cases "match_ref (c # cs)")
    case None
    have "broad_at (c # cs) = None"
    proof (rule ccontr)
      assume "broad_at (c # cs) \<noteq> None"
      then obtain inner rest where b: "broad_at (c # cs) = Some (inner, rest)" by auto
      with 2(3) have "path_ok inner" by (auto intro: strict_path_ok)
      with b None show False by (metis broad_at_correct match_ref_correct option.distinct(1))
    qed
    with None 2(1,3) show ?thesis by (simp add: refs_of_def)
  next
    case (Some pr)
    obtain p rest where pr: "pr = (p, rest)" by (cases pr)
    have m: "match_ref (c # cs) = Some (p, rest)" using Some pr by simp
    then have "path_ok p \<and> c # cs = ref_token p @ rest" by (simp only: match_ref_correct)
    then have "broad_at (c # cs) = Some (p, rest)"
      by (simp only: broad_at_correct path_ok_no_brace simp_thms not_False_eq_True)
    then have bt: "broad_tokens (c # cs) = p # broad_tokens rest" by simp
    have "refs_of (c # cs) = p # refs_of rest" by (simp add: refs_of_def m)
    moreover have "refs_of rest = broad_tokens rest"
      using 2(2) [OF m refl] 2(3) unfolding bt by simp
    ultimately show ?thesis by (simp only: bt)
  qed
qed

lemma malformed_Nil_refs:
  "iter_malformed_ref_tokens v = [] \<Longrightarrow> p \<in> set (iter_refs v) \<Longrightarrow> strict_path p"
proof (induction v rule: pyval_walk_induct)
  case (Str s)
  then have strict: "\<forall>inner\<in>set (broad_tokens s). strict_path inner"
    by (auto simp: filter_empty_conv)
  with Str(2) show ?case by (simp add: broad_tokens_eq_refs_of [OF strict])
next
  case (Dict kvs)
  from Dict(3) obtain k v where kv: "(k, v) \<in> set kvs" "p \<in> set (iter_refs v)" by auto
  with Dict(2) have "iter_malformed_ref_tokens v = []" by auto
  with kv show ?case by (blast intro: Dict(1))
qed auto

section \<open>Resolution\<close>

datatype ref_error =
    EmptyPath
  | UnknownNode string string \<comment> \<open>path, node id\<close>
  | PrivateField string string \<comment> \<open>path, field\<close>
  | MissingField string string
  | BadAccess string string

text \<open>One step of the walk: a dictionary is read by key, anything else by attribute.\<close>

definition step_field :: "string \<Rightarrow> pyval \<Rightarrow> string \<Rightarrow> ref_error + pyval" where
  "step_field path cur f =
     (if f \<noteq> [] \<and> hd f = CHR ''_'' then Inl (PrivateField path f)
      else (case cur of
              VDict d \<Rightarrow> (case dget d f of
                            None \<Rightarrow> Inl (MissingField path f)
                          | Some v \<Rightarrow> Inr v)
            | _ \<Rightarrow> (case py_getattr cur f of
                      None \<Rightarrow> Inl (BadAccess path f)
                    | Some v \<Rightarrow> Inr v)))"

fun walk_fields :: "string \<Rightarrow> pyval \<Rightarrow> string list \<Rightarrow> ref_error + pyval" where
  "walk_fields path cur [] = Inr cur"
| "walk_fields path cur (f # fs) =
     bind_res (step_field path cur f) (\<lambda>nxt. walk_fields path nxt fs)"

definition resolve_path :: "string \<Rightarrow> vdict \<Rightarrow> ref_error + pyval" where
  "resolve_path path st =
     (case split_on (CHR ''.'') path of
        [] \<Rightarrow> Inl EmptyPath
      | node_id # fields \<Rightarrow>
          if node_id = [] then Inl EmptyPath
          else (case dget st node_id of
                  None \<Rightarrow> Inl (UnknownNode path node_id)
                | Some out \<Rightarrow> walk_fields path out fields))"

text \<open>The replacement callback of \<open>sub\<close>, on one piece of the text.\<close>

definition sub_piece :: "vdict \<Rightarrow> piece \<Rightarrow> ref_error + string" where
  "sub_piece st x =
     (case x of
        Lit c \<Rightarrow> Inr [c]
      | Ref p \<Rightarrow> bind_res (resolve_path p st) (\<lambda>v. Inr (py_str v)))"

definition resolve_in_string :: "string \<Rightarrow> vdict \<Rightarrow> ref_error + pyval" where
  "resolve_in_string s st =
     (let ms = refs_of s in
      if ms = [] then Inr (VStr s)
      else if length ms = 1 \<and> ref_token (hd ms) = s then resolve_path (hd ms) st
      else bind_res (map_res (sub_piece st) (pieces s)) (\<lambda>ss. Inr (VStr (concat ss))))"

text \<open>Tuples are not walked here, unlike in the introspection helpers.\<close>

fun resolve_refs :: "pyval \<Rightarrow> vdict \<Rightarrow> ref_error + pyval" where
  "resolve_refs (VDict kvs) st =
     bind_res (map_res (\<lambda>(k, v). bind_res (resolve_refs v st) (\<lambda>r. Inr (k, r))) kvs)
       (\<lambda>kvs'. Inr (VDict kvs'))"
| "resolve_refs (VList xs) st =
     bind_res (map_res (\<lambda>x. resolve_refs x st) xs) (\<lambda>ys. Inr (VList ys))"
| "resolve_refs (VStr s) st = resolve_in_string s st"
| "resolve_refs v st = Inr v"

subsection \<open>What a resolution reads\<close>

lemma extract_step_id_path_ok:
  "path_ok p \<Longrightarrow> extract_step_id p = Some (hd (split_on (CHR ''.'') p))"
  by (auto simp: extract_step_id_def)

lemma path_ok_hd: "path_ok p \<Longrightarrow> hd (split_on (CHR ''.'') p) \<noteq> []"
  by (cases "split_on (CHR ''.'') p") (auto simp: path_ok_def seg_ok_def)

text \<open>The output of the step a path names is all \<open>_resolve_path\<close> looks at.\<close>

lemma resolve_path_cong:
  assumes "path_ok p" and "dget st (the (extract_step_id p)) = dget st' (the (extract_step_id p))"
  shows "resolve_path p st = resolve_path p st'"
  using assms by (auto simp: resolve_path_def extract_step_id_path_ok split: list.splits)

lemma resolve_path_Inr_known:
  "path_ok p \<Longrightarrow> resolve_path p st = Inr r \<Longrightarrow> the (extract_step_id p) \<in> set (dkeys st)"
  by (auto simp: resolve_path_def extract_step_id_path_ok dest!: dget_Some_mem
      split: list.splits if_splits option.splits) force

lemma map_res_weak_cong: "(\<And>x. x \<in> set xs \<Longrightarrow> f x = g x) \<Longrightarrow> map_res f xs = map_res g xs"
  by (rule map_res_cong) auto

lemma refs_of_member: "Ref p \<in> set (pieces s) \<longleftrightarrow> p \<in> set (refs_of s)"
proof -
  have "Ref p \<in> set ps \<longleftrightarrow> p \<in> set (piece_refs ps)" for ps
    by (induction ps) (auto split: piece.splits simp: piece_refs_def)
  then show ?thesis by (simp add: refs_of_def)
qed

text \<open>The steps a value mentions.\<close>

definition ref_steps :: "pyval \<Rightarrow> string set" where
  "ref_steps v = set (map (\<lambda>p. the (extract_step_id p)) (iter_refs v))"

lemma ref_steps_simps [simp]:
  "ref_steps (VDict kvs) = (\<Union>(k, v)\<in>set kvs. ref_steps v)"
  "ref_steps (VList xs) = (\<Union>x\<in>set xs. ref_steps x)"
  by (auto simp: ref_steps_def)

lemma resolve_in_string_cong:
  assumes "\<And>p. p \<in> set (refs_of s) \<Longrightarrow> resolve_path p st = resolve_path p st'"
  shows "resolve_in_string s st = resolve_in_string s st'"
proof -
  have "map_res (sub_piece st) (pieces s) = map_res (sub_piece st') (pieces s)"
    by (rule map_res_weak_cong)
      (auto simp: sub_piece_def assms refs_of_member split: piece.splits)
  moreover have "refs_of s \<noteq> [] \<Longrightarrow> resolve_path (hd (refs_of s)) st = resolve_path (hd (refs_of s)) st'"
    by (rule assms) simp
  ultimately show ?thesis unfolding resolve_in_string_def Let_def by (auto simp only: if_cancel split: if_split)
qed

lemma resolve_refs_agree:
  "(\<And>n. n \<in> ref_steps v \<Longrightarrow> dget st n = dget st' n) \<Longrightarrow> resolve_refs v st = resolve_refs v st'"
proof (induction v rule: pyval_walk_induct)
  case (Str s)
  have "resolve_path p st = resolve_path p st'" if "p \<in> set (refs_of s)" for p
    using that Str [of "the (extract_step_id p)"]
    by (intro resolve_path_cong) (auto simp: ref_steps_def refs_of_path_ok)
  then show ?case by (simp, intro resolve_in_string_cong)
next
  case (List xs)
  then have "map_res (\<lambda>x. resolve_refs x st) xs = map_res (\<lambda>x. resolve_refs x st') xs"
    by (intro map_res_weak_cong) auto
  then show ?case by simp
next
  case (Dict kvs)
  then have "map_res (\<lambda>(k, v). bind_res (resolve_refs v st) (\<lambda>r. Inr (k, r))) kvs =
      map_res (\<lambda>(k, v). bind_res (resolve_refs v st') (\<lambda>r. Inr (k, r))) kvs"
    by (intro map_res_weak_cong) (fastforce split: prod.splits)
  then show ?case by simp
qed auto

lemma resolve_in_string_known:
  assumes "resolve_in_string s st = Inr r" and "p \<in> set (refs_of s)"
  shows "the (extract_step_id p) \<in> set (dkeys st)"
proof -
  have ok: "path_ok p" using assms(2) by (rule refs_of_path_ok)
  have "\<exists>v. resolve_path p st = Inr v"
  proof (cases "length (refs_of s) = 1 \<and> ref_token (hd (refs_of s)) = s")
    case True
    then have p: "refs_of s = [p]" using assms(2) by (cases "refs_of s") auto
    with True have "ref_token p = s" by simp
    with assms(1) show ?thesis unfolding resolve_in_string_def Let_def p by auto
  next
    case False
    moreover have "refs_of s \<noteq> []" using assms(2) by auto
    ultimately obtain ss where "map_res (sub_piece st) (pieces s) = Inr ss"
      using assms(1) unfolding resolve_in_string_def Let_def
      by (auto simp only: if_False bind_res_eq_Inr)
    moreover have "Ref p \<in> set (pieces s)" using assms(2) by (simp add: refs_of_member)
    ultimately obtain t where "sub_piece st (Ref p) = Inr t" by (blast dest: map_res_InrD)
    then show ?thesis by (auto simp: sub_piece_def bind_res_eq_Inr)
  qed
  with ok show ?thesis by (auto dest: resolve_path_Inr_known)
qed

lemma resolve_refs_known:
  "is_json v \<Longrightarrow> resolve_refs v st = Inr r \<Longrightarrow> n \<in> ref_steps v \<Longrightarrow> n \<in> set (dkeys st)"
proof (induction v arbitrary: r rule: pyval_walk_induct)
  case (Str s)
  then show ?case by (auto simp: ref_steps_def dest: resolve_in_string_known)
next
  case (List xs)
  then obtain x where "x \<in> set xs" "n \<in> ref_steps x" by auto
  with List show ?case by (auto simp: bind_res_eq_Inr list_all_iff dest!: map_res_InrD)
next
  case (Dict kvs)
  then obtain k v where kv: "(k, v) \<in> set kvs" "n \<in> ref_steps v" by auto
  with Dict(2,3) obtain r' where "resolve_refs v st = Inr r'" "is_json v"
    by (auto simp: bind_res_eq_Inr list_all_iff dest!: map_res_InrD)
  with Dict(1) kv show ?case by blast
qed (auto simp: ref_steps_def)

lemma PrivateField_walk:
  "walk_fields path cur fs = Inl (PrivateField q f) \<Longrightarrow> f \<in> set fs \<and> f \<noteq> [] \<and> hd f = CHR ''_''"
  by (induction fs arbitrary: cur)
    (auto simp: bind_res_eq_Inl step_field_def split: if_splits pyval.splits option.splits)

lemma EmptyPath_walk: "walk_fields path cur fs \<noteq> Inl EmptyPath"
  by (induction fs arbitrary: cur)
    (auto simp: bind_res_eq_Inl step_field_def split: if_splits pyval.splits option.splits)

text \<open>The two failures the plan-time syntax check is meant to exclude.\<close>

definition syntax_error :: "ref_error \<Rightarrow> bool" where
  "syntax_error e = (case e of EmptyPath \<Rightarrow> True | PrivateField p f \<Rightarrow> True | _ \<Rightarrow> False)"

lemma resolve_path_no_syntax_error:
  assumes "strict_path p" and "resolve_path p st = Inl e"
  shows "\<not> syntax_error e"
proof
  assume se: "syntax_error e"
  obtain n fs where sp: "split_on (CHR ''.'') p = n # fs" by (rule split_on_ConsE)
  have "\<not> has_private_segment p" using assms(1) by (rule strict_path_not_private)
  then have np: "\<And>f. f \<in> set fs \<Longrightarrow> f \<noteq> [] \<Longrightarrow> hd f \<noteq> CHR ''_''"
    by (auto simp: has_private_segment_def sp list_ex_iff)
  have "n \<noteq> []" using assms(1) by (simp add: strict_path_def sp)
  with assms(2) se sp obtain out where "walk_fields p out fs = Inl e"
    by (auto simp: resolve_path_def syntax_error_def split: option.splits)
  with se np show False
    by (cases e) (auto simp: syntax_error_def EmptyPath_walk dest: PrivateField_walk)
qed

lemma resolve_in_string_InlD:
  assumes "resolve_in_string s st = Inl e"
  shows "\<exists>p\<in>set (refs_of s). resolve_path p st = Inl e"
proof (cases "length (refs_of s) = 1 \<and> ref_token (hd (refs_of s)) = s")
  case True
  then obtain p where p: "refs_of s = [p]" by (cases "refs_of s") auto
  with True have "ref_token p = s" by simp
  with assms show ?thesis unfolding resolve_in_string_def Let_def p by auto
next
  case False
  moreover have "refs_of s \<noteq> []" using assms by (auto simp: resolve_in_string_def)
  ultimately have "map_res (sub_piece st) (pieces s) = Inl e"
    using assms unfolding resolve_in_string_def Let_def
    by (auto simp only: if_False bind_res_eq_Inl)
  then obtain x where "x \<in> set (pieces s)" "sub_piece st x = Inl e" by (blast dest: map_res_Inl)
  then show ?thesis
    by (auto simp: sub_piece_def bind_res_eq_Inl refs_of_member split: piece.splits)
qed

lemma resolve_refs_InlD:
  "resolve_refs v st = Inl e \<Longrightarrow> \<exists>p\<in>set (iter_refs v). resolve_path p st = Inl e"
proof (induction v rule: pyval_walk_induct)
  case (Str s)
  then show ?case by (simp add: resolve_in_string_InlD)
next
  case (List xs)
  then obtain x where x: "x \<in> set xs" "resolve_refs x st = Inl e"
    by (auto simp: bind_res_eq_Inl dest!: map_res_Inl)
  then show ?case using List(1) [OF x] by auto
next
  case (Dict kvs)
  then obtain k v where kv: "(k, v) \<in> set kvs" "resolve_refs v st = Inl e"
    by (auto simp: bind_res_eq_Inl dest!: map_res_Inl)
  then show ?case using Dict(1) [OF kv] by auto
qed auto

section \<open>Properties\<close>

text \<open>The reference scanner accepts exactly the grammar of \<open>_REF_PATTERN\<close>: it reports a
  reference with path \<open>p\<close> at the start of a text and leaves \<open>rest\<close> if and only if \<open>p\<close> is a
  non-empty sequence of dotted identifiers and the text is \<open>${p}\<close> followed by \<open>rest\<close>.\<close>

theorem match_ref_iff_grammar:
  "match_ref s = Some (p, rest) \<longleftrightarrow>
     list_all (\<lambda>seg. seg \<noteq> [] \<and> is_alphau (hd seg) \<and> list_all is_word (tl seg))
       (split_on (CHR ''.'') p) \<and>
     s = ''${'' @ p @ ''}'' @ rest"
  using match_ref_correct [of s p rest] by (simp add: path_ok_def seg_ok_def [abs_def] ref_token_def)

text \<open>Resolution reads nothing but the outputs of the steps a value mentions: two states
  that agree on the step ids extracted from the value's references resolve it to the same
  value or the same error. This is what makes the dependency graph built from \<open>iter_refs\<close>
  sufficient.\<close>

theorem resolve_refs_noninterference:
  assumes "\<forall>p\<in>set (iter_refs v). \<forall>n. extract_step_id p = Some n \<longrightarrow> dget st n = dget st' n"
  shows "resolve_refs v st = resolve_refs v st'"
proof (rule resolve_refs_agree)
  fix n assume "n \<in> ref_steps v"
  then obtain p where p: "p \<in> set (iter_refs v)" "n = the (extract_step_id p)"
    by (auto simp: ref_steps_def)
  then have "extract_step_id p = Some n"
    by (auto dest!: iter_refs_path_ok simp: extract_step_id_path_ok)
  with assms p(1) show "dget st n = dget st' n" by blast
qed

theorem resolve_refs_noninterference_witness:
  "resolve_refs (VStr ''${s1.a}'') [(''s1'', VDict [(''a'', VInt 1)])] =
   resolve_refs (VStr ''${s1.a}'') [(''s2'', VNone), (''s1'', VDict [(''a'', VInt 1)])]"
proof (rule resolve_refs_noninterference)
  show "\<forall>p\<in>set (iter_refs (VStr ''${s1.a}'')). \<forall>n. extract_step_id p = Some n \<longrightarrow>
    dget [(''s1'', VDict [(''a'', VInt 1)])] n =
    dget [(''s2'', VNone), (''s1'', VDict [(''a'', VInt 1)])] n"
  proof -
    have "iter_refs (VStr ''${s1.a}'') = [''s1.a'']" by code_simp
    moreover have "extract_step_id ''s1.a'' = Some ''s1''" by code_simp
    ultimately show ?thesis by simp
  qed
qed

text \<open>A successful resolution of a JSON value proves that every step it mentions has an
  output in the state: no reference is dropped or defaulted.\<close>

theorem resolve_refs_all_known:
  assumes "is_json v" and "resolve_refs v st = Inr r" and "p \<in> set (iter_refs v)"
  shows "\<exists>n. extract_step_id p = Some n \<and> n \<in> set (dkeys st)"
proof -
  have "path_ok p" using assms(3) by (rule iter_refs_path_ok)
  moreover have "the (extract_step_id p) \<in> ref_steps v" using assms(3) by (simp add: ref_steps_def)
  ultimately show ?thesis
    using resolve_refs_known [OF assms(1,2)] by (auto simp: extract_step_id_path_ok)
qed

theorem resolve_refs_all_known_witness:
  "\<exists>n. extract_step_id ''s1.a'' = Some n \<and> n \<in> set (dkeys [(''s1'', VDict [(''a'', VInt 1)])])"
proof (rule resolve_refs_all_known)
  show "is_json (VList [VStr ''x ${s1.a}''])" by simp
  show "resolve_refs (VList [VStr ''x ${s1.a}'']) [(''s1'', VDict [(''a'', VInt 1)])] =
    Inr (VList [VStr ''x 1''])" by code_simp
  have "iter_refs (VList [VStr ''x ${s1.a}'']) = [''s1.a'']" by code_simp
  then show "''s1.a'' \<in> set (iter_refs (VList [VStr ''x ${s1.a}'']))" by simp
qed

text \<open>The plan-time check for malformed tokens covers the executor's own guards: if
  \<open>iter_malformed_ref_tokens\<close> yields nothing for a value, resolving it never fails with an
  empty path or a private (underscore) field, whatever the state.\<close>

theorem malformed_check_covers_resolution:
  assumes "iter_malformed_ref_tokens v = []"
  shows "resolve_refs v st \<noteq> Inl EmptyPath \<and> resolve_refs v st \<noteq> Inl (PrivateField q f)"
proof -
  have "\<not> syntax_error e" if "resolve_refs v st = Inl e" for e
    using that assms by (meson malformed_Nil_refs resolve_path_no_syntax_error resolve_refs_InlD)
  then show ?thesis by (fastforce simp: syntax_error_def)
qed

theorem malformed_check_covers_resolution_witness:
  "iter_malformed_ref_tokens (VStr ''${s1.a}'') = [] \<and>
   resolve_refs (VStr ''${s1.a}'') [] \<noteq> Inl EmptyPath \<and>
   iter_malformed_ref_tokens (VStr ''${s1._a}'') = [''${s1._a}''] \<and>
   resolve_refs (VStr ''${s1._a}'') [(''s1'', VNone)] = Inl (PrivateField ''s1._a'' ''_a'')"
proof -
  have a: "iter_malformed_ref_tokens (VStr ''${s1.a}'') = []" by code_simp
  have b: "iter_malformed_ref_tokens (VStr ''${s1._a}'') = [''${s1._a}'']" by code_simp
  have c: "resolve_refs (VStr ''${s1._a}'') [(''s1'', VNone)] = Inl (PrivateField ''s1._a'' ''_a'')"
    by code_simp
  show ?thesis using a b c malformed_check_covers_resolution [OF a, of "[]"] by blast
qed

text \<open>Type preservation: a string that is exactly one reference resolves to the raw
  referenced value; any other string that resolves gives a string.\<close>

theorem resolve_string_type:
  assumes "resolve_refs (VStr s) st = Inr r"
  shows "if is_full_ref_string (VStr s)
         then \<exists>p. s = ''${'' @ p @ ''}'' \<and> resolve_path p st = Inr r
         else \<exists>t. r = VStr t"
proof (cases "is_full_ref_string (VStr s)")
  case True
  then obtain p where m: "match_ref s = Some (p, [])"
    by (auto simp: is_full_ref_string_def split: option.splits)
  then have ok: "path_ok p" and s: "s = ref_token p" by (auto simp: match_ref_correct)
  then have "refs_of s = [p]" using pieces_ref_token [OF ok, of "[]"] by (simp add: refs_of_def)
  with assms s have "resolve_path p st = Inr r" by (simp add: resolve_in_string_def)
  with True s show ?thesis by (auto simp: ref_token_def)
next
  case False
  have "\<not> (length (refs_of s) = 1 \<and> ref_token (hd (refs_of s)) = s)"
  proof
    assume *: "length (refs_of s) = 1 \<and> ref_token (hd (refs_of s)) = s"
    then have "hd (refs_of s) \<in> set (refs_of s)" by (cases "refs_of s") auto
    then have "path_ok (hd (refs_of s))" by (rule refs_of_path_ok)
    with * have "match_ref s = Some (hd (refs_of s), [])" by (simp add: match_ref_correct)
    with False show False by (simp add: is_full_ref_string_def)
  qed
  with False assms show ?thesis
    by (auto simp: resolve_in_string_def Let_def bind_res_eq_Inr split: if_splits)
qed

theorem resolve_string_type_witness:
  "is_full_ref_string (VStr ''${s1.n}'') \<and>
   (\<exists>p. ''${s1.n}'' = ''${'' @ p @ ''}'' \<and>
     resolve_path p [(''s1'', VDict [(''n'', VInt 7)])] = Inr (VInt 7))"
proof -
  have a: "is_full_ref_string (VStr ''${s1.n}'')" by code_simp
  have r: "resolve_refs (VStr ''${s1.n}'') [(''s1'', VDict [(''n'', VInt 7)])] = Inr (VInt 7)"
    by code_simp
  show ?thesis using resolve_string_type [OF r] unfolding if_P [OF a] by (simp add: a)
qed

text \<open>Attribute access is not restricted to dictionaries: a path whose last segment is the
  name of a method of the referenced list resolves to the bound method instead of raising
  \<open>InvalidReferenceError\<close>, for every list.\<close>

theorem list_method_reference_resolves:
  "resolve_refs (VStr ''${s1.items.count}'') [(''s1'', VDict [(''items'', VList xs)])] =
     Inr (VMethod (VList xs) ''count'')"
proof -
  have "refs_of ''${s1.items.count}'' = [''s1.items.count'']" by code_simp
  moreover have "split_on (CHR ''.'') ''s1.items.count'' = [''s1'', ''items'', ''count'']" by code_simp
  ultimately show ?thesis
    by (simp add: resolve_in_string_def ref_token_def resolve_path_def step_field_def list_methods_def)
qed

end
