(* ===== verification/PlanCompiler.thy ===== *)
theory PlanCompiler
  imports ToolSpec Interpolation
begin

text \<open>
  \<open>runtime/planner/plan_compiler.py\<close> and the execution graph of
  \<open>runtime/planner/validator.py\<close>: from a validated plan to layers of steps that may run
  together. The contract the executor relies on is the locale \<open>layered\<close>; it is interpreted on
  \<open>compile_plan\<close> at the end.
\<close>

section \<open>The execution graph\<close>

type_synonym graph = "(string, string set) dict"

text \<open>\<open>_build_args_dep_graph\<close>: references inside \<open>args\<close> and \<open>depends_on\<close>, within the plan.\<close>

definition args_producers :: "actions \<Rightarrow> string \<Rightarrow> action \<Rightarrow> string set" where
  "args_producers acts step_id a =
     {d \<in> ref_steps (VDict (args a)) \<union> set (depends_on a). d \<noteq> step_id \<and> d \<in> set (dkeys acts)}"

definition build_args_dep_graph :: "actions \<Rightarrow> graph" where
  "build_args_dep_graph acts = map (\<lambda>(sid, a). (sid, args_producers acts sid a)) acts"

text \<open>\<open>graph.setdefault(branch.next, set()).add(step_id)\<close>\<close>

definition add_edge :: "string \<Rightarrow> string \<Rightarrow> graph \<Rightarrow> graph" where
  "add_edge node dep g =
     dput g node (insert dep (case dget g node of None \<Rightarrow> {} | Some s \<Rightarrow> s))"

definition add_next_edge :: "actions \<Rightarrow> string \<Rightarrow> outcome_branch \<Rightarrow> graph \<Rightarrow> graph" where
  "add_next_edge acts step_id b g =
     (case next_step b of
        None \<Rightarrow> g
      | Some n \<Rightarrow> if n \<noteq> [] \<and> n \<noteq> step_id \<and> n \<in> set (dkeys acts) then add_edge n step_id g else g)"

definition build_full_dep_graph :: "actions \<Rightarrow> graph" where
  "build_full_dep_graph acts =
     fold (\<lambda>(sid, a). fold (add_next_edge acts sid) (expected_outcomes a)) acts
       (build_args_dep_graph acts)"

section \<open>Layers\<close>

datatype compile_error = UnknownTool string string | Unplaced "string list"

text \<open>The steps whose needs are all placed, sorted.\<close>

definition ready_steps :: "graph \<Rightarrow> string set \<Rightarrow> string list" where
  "ready_steps g placed =
     sort (map fst (filter (\<lambda>(node, deps). node \<notin> placed \<and> deps - placed = {}) g))"

lemma set_ready: "set (ready_steps g placed) =
    {node. \<exists>deps. (node, deps) \<in> set g \<and> node \<notin> placed \<and> deps \<subseteq> placed}"
  by (force simp: ready_steps_def)

function topo_loop :: "graph \<Rightarrow> string set \<Rightarrow> compile_error + string list list" where
  "topo_loop g placed =
     (if card placed < length g then
        (let ready = ready_steps g placed in
         if ready = [] then Inl (Unplaced (sort (filter (\<lambda>n. n \<notin> placed) (dkeys g))))
         else bind_res (topo_loop g (placed \<union> set ready)) (\<lambda>ls. Inr (ready # ls)))
      else Inr [])"
  by auto
termination
proof (relation "measure (\<lambda>(g, placed). card (set (dkeys g) - placed))", goal_cases)
  case (2 g placed ready)
  then obtain n where "n \<in> set ready" by (metis list.set_sel(1))
  with 2 have "n \<in> set (dkeys g)" "n \<notin> placed" "n \<in> set ready" by (force simp: set_ready)+
  then have "set (dkeys g) - (placed \<union> set ready) \<subset> set (dkeys g) - placed" by auto
  then show ?case by (auto intro: psubset_card_mono)
qed auto

declare topo_loop.simps [simp del]

definition topological_layers :: "graph \<Rightarrow> compile_error + string list list" where
  "topological_layers g = (if g = [] then Inr [] else topo_loop g {})"

section \<open>Running in parallel\<close>

definition disjoint_list :: "string list \<Rightarrow> string list \<Rightarrow> bool" where
  "disjoint_list xs ys = list_all (\<lambda>x. x \<notin> set ys) xs"

definition can_run_parallel :: "tool_spec \<Rightarrow> tool_spec \<Rightarrow> bool" where
  "can_run_parallel a b =
     (if effect a = EffRead \<and> effect b = EffRead then True
      else if effect a \<noteq> effect b then
        (let (writer, reader) = (if effect a = EffWrite then (a, b) else (b, a))
         in disjoint_list (write_domains writer) (read_domains reader))
      else if \<not> disjoint_list (write_domains a) (write_domains b) then False
      else parallel_safe a \<and> parallel_safe b)"

text \<open>\<open>registry[plan.actions[step].tool]\<close>; \<open>None\<close> is a \<open>KeyError\<close>.\<close>

definition spec_of :: "actions \<Rightarrow> registry \<Rightarrow> string \<Rightarrow> tool_spec option" where
  "spec_of acts reg sid = (case dget acts sid of None \<Rightarrow> None | Some a \<Rightarrow> dget reg (tool a))"

definition steps_compatible :: "actions \<Rightarrow> registry \<Rightarrow> string \<Rightarrow> string \<Rightarrow> bool" where
  "steps_compatible acts reg s t =
     (case (spec_of acts reg s, spec_of acts reg t) of
        (Some a, Some b) \<Rightarrow> can_run_parallel a b
      | _ \<Rightarrow> False)"

text \<open>The first sub-layer that takes the step, or a new one at the end.\<close>

fun place_step :: "(string \<Rightarrow> string \<Rightarrow> bool) \<Rightarrow> string \<Rightarrow> string list list \<Rightarrow> string list list" where
  "place_step ok s [] = [[s]]"
| "place_step ok s (sub # subs) =
     (if list_all (ok s) sub then (sub @ [s]) # subs else sub # place_step ok s subs)"

definition partition_layer :: "(string \<Rightarrow> string \<Rightarrow> bool) \<Rightarrow> string list \<Rightarrow> string list list" where
  "partition_layer ok layer = fold (place_step ok) layer []"

section \<open>Failure modes\<close>

datatype fail_mode = Partial | HonestPartial

text \<open>\<open>_all_pairs_disjoint_write_domains\<close>: the loop with \<open>seen_domains\<close>.\<close>

fun domains_disjoint :: "string set \<Rightarrow> string list \<Rightarrow> bool" where
  "domains_disjoint seen [] = True"
| "domains_disjoint seen (d # ds) = (d \<notin> seen \<and> domains_disjoint (insert d seen) ds)"

definition all_pairs_disjoint_write_domains :: "action list \<Rightarrow> registry \<Rightarrow> bool" where
  "all_pairs_disjoint_write_domains writes reg =
     domains_disjoint {}
       (concat (map (\<lambda>a. case dget reg (tool a) of None \<Rightarrow> [] | Some s \<Rightarrow> write_domains s) writes))"

definition actions_by_group :: "actions \<Rightarrow> (string, action list) dict" where
  "actions_by_group acts =
     fold (\<lambda>(sid, a) d. dput d (intent_group a)
        ((case dget d (intent_group a) of None \<Rightarrow> [] | Some xs \<Rightarrow> xs) @ [a])) acts []"

definition is_write_action :: "registry \<Rightarrow> action \<Rightarrow> bool" where
  "is_write_action reg a =
     (case dget reg (tool a) of None \<Rightarrow> False | Some s \<Rightarrow> effect s = EffWrite)"

definition group_fail_mode :: "registry \<Rightarrow> string set \<Rightarrow> string \<Rightarrow> action list \<Rightarrow> fail_mode" where
  "group_fail_mode reg groups g as =
     (let writes = filter (is_write_action reg) as in
      if writes = [] then Partial
      else if all_pairs_disjoint_write_domains writes reg \<and> groups - {g} \<noteq> {} then Partial
      else HonestPartial)"

definition infer_fail_modes :: "actions \<Rightarrow> registry \<Rightarrow> (string, fail_mode) dict" where
  "infer_fail_modes acts reg =
     (let by = actions_by_group acts
      in map (\<lambda>(g, as). (g, group_fail_mode reg (set (dkeys by)) g as)) by)"

section \<open>Compilation\<close>

record execution_plan =
  layers :: "string list list"
  fail_modes :: "(string, fail_mode) dict"
  ep_plan :: plan

definition all_step_ids :: "execution_plan \<Rightarrow> string list" where
  "all_step_ids ep = concat (layers ep)"

definition fail_mode_for :: "execution_plan \<Rightarrow> string \<Rightarrow> fail_mode option" where
  "fail_mode_for ep sid =
     (case dget (actions (ep_plan ep)) sid of
        None \<Rightarrow> None | Some a \<Rightarrow> dget (fail_modes ep) (intent_group a))"

definition unknown_tool :: "actions \<Rightarrow> registry \<Rightarrow> compile_error option" where
  "unknown_tool acts reg =
     first_error (map (\<lambda>(sid, a).
        if tool a \<in> set (dkeys reg) then None else Some (UnknownTool sid (tool a))) acts)"

definition compile_plan :: "plan \<Rightarrow> registry \<Rightarrow> compile_error + execution_plan" where
  "compile_plan p reg =
     (case unknown_tool (actions p) reg of
        Some e \<Rightarrow> Inl e
      | None \<Rightarrow>
          if actions p = [] then Inr \<lparr>layers = [], fail_modes = [], ep_plan = p\<rparr>
          else bind_res (topological_layers (build_full_dep_graph (actions p))) (\<lambda>topo.
            Inr \<lparr>layers = concat (map (partition_layer (steps_compatible (actions p) reg)) topo),
                 fail_modes = infer_fail_modes (actions p) reg, ep_plan = p\<rparr>))"

section \<open>The execution graph as a relation\<close>

text \<open>Step \<open>n\<close> cannot run before the steps it reads or names in \<open>depends_on\<close>.\<close>

definition data_needs :: "actions \<Rightarrow> string \<Rightarrow> string set" where
  "data_needs acts n = (case dget acts n of None \<Rightarrow> {} | Some a \<Rightarrow> args_producers acts n a)"

text \<open>Nor before the steps with a branch that leads to it.\<close>

definition next_sources :: "actions \<Rightarrow> string \<Rightarrow> string set" where
  "next_sources acts n =
     {d. n \<noteq> [] \<and> d \<noteq> n \<and>
        (\<exists>a. (d, a) \<in> set acts \<and> (\<exists>b\<in>set (expected_outcomes a). next_step b = Some n))}"

definition exec_needs :: "actions \<Rightarrow> string \<Rightarrow> string set" where
  "exec_needs acts n = data_needs acts n \<union> next_sources acts n"

abbreviation exec_rel :: "actions \<Rightarrow> (string \<times> string) set" where
  "exec_rel acts \<equiv> needs (set (dkeys acts)) (exec_needs acts)"

lemma dkeys_dput_mem: "k \<in> set (dkeys d) \<Longrightarrow> dkeys (dput d k v) = dkeys d"
  by (induction d) auto

lemma add_edge_keys: "n \<in> set (dkeys g) \<Longrightarrow> dkeys (add_edge n d g) = dkeys g"
  by (simp add: add_edge_def dkeys_dput_mem del: map_fst_zip)

lemma add_next_edge_keys:
  "dkeys g = dkeys acts \<Longrightarrow> dkeys (add_next_edge acts s b g) = dkeys acts"
  by (auto simp: add_next_edge_def add_edge_keys split: option.splits)

lemma dget_add_next_edge:
  assumes "dkeys g = dkeys acts"
  shows "dget (add_next_edge acts s b g) n =
    map_option (\<lambda>ds. ds \<union> {d. d = s \<and> next_step b = Some n \<and> n \<noteq> [] \<and> n \<noteq> s}) (dget g n)"
proof -
  have "\<exists>v. dget g n = Some v" if "n \<in> set (dkeys acts)"
    using that by (metis assms dget_None_iff not_None_eq)
  moreover have "dget g n = None" if "n \<notin> set (dkeys acts)"
    using that by (metis assms dget_None_iff)
  ultimately show ?thesis
    by (cases "n \<in> set (dkeys acts)")
      (force simp: add_next_edge_def add_edge_def split: option.splits)+
qed

lemma fold_next_edges:
  assumes "dkeys g = dkeys acts"
  shows "dkeys (fold (add_next_edge acts s) bs g) = dkeys acts \<and>
    dget (fold (add_next_edge acts s) bs g) n =
      map_option (\<lambda>ds. ds \<union> {d. d = s \<and> n \<noteq> [] \<and> n \<noteq> s \<and> (\<exists>b\<in>set bs. next_step b = Some n)}) (dget g n)"
  using assms
proof (induction bs arbitrary: g)
  case (Cons b bs)
  then show ?case
    using Cons.IH [OF add_next_edge_keys [OF Cons.prems, of s b]]
    by (cases "dget g n") (auto simp: dget_add_next_edge)
qed (auto simp: option.map_ident)

lemma fold_all_edges:
  assumes "dkeys g = dkeys acts"
  shows "dkeys (fold (\<lambda>(s, a). fold (add_next_edge acts s) (expected_outcomes a)) as g) = dkeys acts \<and>
    dget (fold (\<lambda>(s, a). fold (add_next_edge acts s) (expected_outcomes a)) as g) n =
      map_option (\<lambda>ds. ds \<union> {d. n \<noteq> [] \<and> d \<noteq> n \<and> (\<exists>a. (d, a) \<in> set as \<and>
        (\<exists>b\<in>set (expected_outcomes a). next_step b = Some n))}) (dget g n)"
  using assms
proof (induction as arbitrary: g)
  case (Cons x as)
  obtain s a where x: "x = (s, a)" by (cases x)
  note f = fold_next_edges [OF Cons.prems, of s "expected_outcomes a"]
  show ?case
    using Cons.IH [OF conjunct1 [OF f]] f by (cases "dget g n") (auto simp: x)
qed (auto simp: option.map_ident)

lemma build_args_dep_graph_simps [simp]:
  "dkeys (build_args_dep_graph acts) = dkeys acts"
  "dget (build_args_dep_graph acts) n =
     (case dget acts n of None \<Rightarrow> None | Some a \<Rightarrow> Some (data_needs acts n))"
proof -
  show "dkeys (build_args_dep_graph acts) = dkeys acts"
    by (simp add: build_args_dep_graph_def comp_def case_prod_beta)
  have "dget (map (\<lambda>(sid, a). (sid, args_producers acts' sid a)) acts) n =
      (case dget acts n of None \<Rightarrow> None | Some a \<Rightarrow> Some (args_producers acts' n a))" for acts'
    by (induction acts) (auto split: option.splits)
  then show "dget (build_args_dep_graph acts) n =
      (case dget acts n of None \<Rightarrow> None | Some a \<Rightarrow> Some (data_needs acts n))"
    by (auto simp: build_args_dep_graph_def data_needs_def split: option.splits)
qed

lemma full_graph_keys [simp]: "dkeys (build_full_dep_graph acts) = dkeys acts"
  unfolding build_full_dep_graph_def by (rule conjunct1 [OF fold_all_edges]) simp

lemma full_graph_get:
  assumes "n \<in> set (dkeys acts)"
  shows "dget (build_full_dep_graph acts) n = Some (exec_needs acts n)"
proof -
  obtain a where "dget acts n = Some a" using assms by (metis dget_None_iff not_None_eq)
  then show ?thesis
    unfolding build_full_dep_graph_def
    using fold_all_edges [of "build_args_dep_graph acts" acts acts n]
    by (simp add: exec_needs_def next_sources_def)
qed

lemma exec_needs_keys: "exec_needs acts n \<subseteq> set (dkeys acts) - {n}"
  by (force simp: exec_needs_def data_needs_def next_sources_def args_producers_def
      split: option.splits)

section \<open>The layers are a topological sort\<close>

lemma graph_entry: "dict_ok g \<Longrightarrow> (n, ds) \<in> set g \<longleftrightarrow> n \<in> set (dkeys g) \<and> ds = the (dget g n)"
  by (force simp: mem_dget dest: dget_Some_mem simp: dget_None_iff)

lemma distinct_ready: "dict_ok g \<Longrightarrow> distinct (ready_steps g placed)"
  by (simp add: ready_steps_def dict_ok_def distinct_map_filter)

lemma placed_lt:
  "placed \<subseteq> set (dkeys g) \<Longrightarrow> dict_ok g \<Longrightarrow> card placed < length g \<longleftrightarrow> placed \<noteq> set (dkeys g)"
  by (metis List.finite_set card_mono card_subset_eq dict_ok_def distinct_card length_map
      nat_less_le order_refl)

lemma topo_loop_Inr:
  "dict_ok g \<Longrightarrow> placed \<subseteq> set (dkeys g) \<Longrightarrow> topo_loop g placed = Inr L \<Longrightarrow>
     distinct (concat L) \<and> set (concat L) = set (dkeys g) - placed \<and> [] \<notin> set L \<and>
     (\<forall>As l Bs n ds. L = As @ l # Bs \<longrightarrow> n \<in> set l \<longrightarrow> dget g n = Some ds \<longrightarrow>
        ds \<subseteq> placed \<union> set (concat As))"
proof (induction g placed arbitrary: L rule: topo_loop.induct)
  case (1 g placed)
  let ?r = "ready_steps g placed"
  show ?case
  proof (cases "card placed < length g")
    case False
    then have "L = []" using 1(4) by (subst (asm) topo_loop.simps) simp
    with 1(2,3) False placed_lt [OF 1(3,2)] show ?thesis by auto
  next
    case True
    from 1(4) True obtain ls where r: "?r \<noteq> []" and ls: "topo_loop g (placed \<union> set ?r) = Inr ls"
      and L: "L = ?r # ls"
      by (subst (asm) topo_loop.simps) (auto simp: Let_def bind_res_eq_Inr split: if_splits)
    have sub: "set ?r \<subseteq> set (dkeys g) - placed" by (force simp: set_ready)
    with 1(3) have "placed \<union> set ?r \<subseteq> set (dkeys g)" by auto
    note IH = 1(1) [OF True refl r 1(2) this ls]
    have "distinct (concat L)" "set (concat L) = set (dkeys g) - placed" "[] \<notin> set L"
      using IH distinct_ready [OF 1(2), of placed] sub r by (auto simp: L)
    moreover have "ds \<subseteq> placed \<union> set (concat As)"
      if "L = As @ l # Bs" "n \<in> set l" "dget g n = Some ds" for As l Bs n ds
    proof (cases As)
      case Nil
      with that have "n \<in> set ?r" by (simp add: L)
      with that(3) 1(2) have "ds \<subseteq> placed" by (auto simp: set_ready mem_dget)
      then show ?thesis by blast
    next
      case (Cons x As')
      with that have "x = ?r" "ls = As' @ l # Bs" by (auto simp: L)
      with IH that(2,3) Cons show ?thesis by fastforce
    qed
    ultimately show ?thesis by blast
  qed
qed

definition closed_graph :: "graph \<Rightarrow> bool" where
  "closed_graph g \<longleftrightarrow> dict_ok g \<and> (\<forall>(n, ds)\<in>set g. ds \<subseteq> set (dkeys g))"

abbreviation graph_rel :: "graph \<Rightarrow> (string \<times> string) set" where
  "graph_rel g \<equiv> needs (set (dkeys g)) (\<lambda>n. the (dget g n))"

lemma ready_acc:
  assumes "dict_ok g" and "placed \<subseteq> Wellfounded.acc (graph_rel g)" and "n \<in> set (ready_steps g placed)"
  shows "n \<in> Wellfounded.acc (graph_rel g)"
proof (rule needs_acc_step)
  fix d assume "d \<in> the (dget g n)"
  moreover from assms(1,3) have "the (dget g n) \<subseteq> placed" by (auto simp: set_ready graph_entry)
  ultimately show "d \<in> Wellfounded.acc (graph_rel g)" using assms(2) by blast
qed

lemma not_ready_waits:
  assumes "closed_graph g" and "ready_steps g placed = []" and "n \<in> set (dkeys g) - placed"
  shows "\<exists>d\<in>set (dkeys g) - placed. d \<in> the (dget g n)"
proof -
  from assms(3) obtain ds where ds: "(n, ds) \<in> set g" by auto
  then have g: "dget g n = Some ds" "ds \<subseteq> set (dkeys g)"
    using assms(1) mem_dget by (fastforce simp: closed_graph_def)+
  have "n \<notin> set (ready_steps g placed)" using assms(2) by simp
  with ds assms(3) have "\<not> ds \<subseteq> placed" by (auto simp: set_ready)
  with g show ?thesis by auto
qed

text \<open>A failing sort stops with exactly the inaccessible steps.\<close>

lemma topo_loop_acc:
  "closed_graph g \<Longrightarrow> placed \<subseteq> set (dkeys g) \<Longrightarrow> placed \<subseteq> Wellfounded.acc (graph_rel g) \<Longrightarrow>
     (case topo_loop g placed of
        Inr L \<Rightarrow> set (dkeys g) \<subseteq> Wellfounded.acc (graph_rel g)
      | Inl e \<Rightarrow> \<exists>us. e = Unplaced us \<and> us \<noteq> [] \<and> sorted us \<and>
          set us = set (dkeys g) - Wellfounded.acc (graph_rel g))"
proof (induction g placed rule: topo_loop.induct)
  case (1 g placed)
  let ?r = "ready_steps g placed"
  have g: "dict_ok g" using 1(2) by (simp add: closed_graph_def)
  show ?case
  proof (cases "card placed < length g")
    case False
    with placed_lt [OF 1(3) g] 1(4) show ?thesis by (subst topo_loop.simps) simp
  next
    case True
    show ?thesis
    proof (cases "?r = []")
      case True': True
      have "placed = set (dkeys g) \<inter> Wellfounded.acc (graph_rel g)"
        using 1(3,4) not_ready_waits [OF 1(2) True'] by (rule closed_complete_is_acc)
      moreover have "placed \<noteq> set (dkeys g)" using placed_lt [OF 1(3) g] True by simp
      ultimately show ?thesis using True True'
        by (subst topo_loop.simps) (auto simp: Let_def simp flip: set_empty)
    next
      case False
      have "set ?r \<subseteq> set (dkeys g)" by (force simp: set_ready)
      then have "placed \<union> set ?r \<subseteq> set (dkeys g)" "placed \<union> set ?r \<subseteq> Wellfounded.acc (graph_rel g)"
        using 1(3,4) ready_acc [OF g 1(4)] by auto
      from 1(1) [OF True refl False 1(2) this] show ?thesis
        using True False by (subst topo_loop.simps) (auto simp: bind_res_def split: sum.splits)
    qed
  qed
qed

section \<open>Partitioning\<close>

lemma mset_place_step: "mset (concat (place_step ok s subs)) = add_mset s (mset (concat subs))"
  by (induction subs) auto

lemma mset_partition: "mset (concat (partition_layer ok layer)) = mset layer"
proof -
  have "mset (concat (fold (place_step ok) layer subs)) = mset layer + mset (concat subs)" for subs
    by (induction layer arbitrary: subs) (auto simp: mset_place_step)
  then show ?thesis by (simp add: partition_layer_def)
qed

lemma set_concat_partition [simp]: "set (concat (partition_layer ok layer)) = set layer"
  by (metis mset_partition set_mset_mset)

text \<open>Inside a sub-layer every later member was checked against every earlier one.\<close>

lemma place_step_ok:
  "\<forall>sub\<in>set subs. sub \<noteq> [] \<and> sorted_wrt (\<lambda>a b. ok b a) sub \<Longrightarrow>
     \<forall>sub\<in>set (place_step ok s subs). sub \<noteq> [] \<and> sorted_wrt (\<lambda>a b. ok b a) sub"
  by (induction subs) (auto simp: sorted_wrt_append list_all_iff)

lemma fold_place_ok:
  "\<forall>sub\<in>set subs. sub \<noteq> [] \<and> sorted_wrt (\<lambda>a b. ok b a) sub \<Longrightarrow>
     \<forall>sub\<in>set (fold (place_step ok) layer subs). sub \<noteq> [] \<and> sorted_wrt (\<lambda>a b. ok b a) sub"
proof (induction layer arbitrary: subs)
  case (Cons s layer)
  show ?case using Cons.IH [OF place_step_ok [OF Cons.prems]] by simp
qed simp

lemma partition_ok:
  "sub \<in> set (partition_layer ok layer) \<Longrightarrow> sub \<noteq> [] \<and> sorted_wrt (\<lambda>a b. ok b a) sub"
  using fold_place_ok [of "[]" ok layer] by (simp add: partition_layer_def)

lemma disjoint_list_iff: "disjoint_list xs ys \<longleftrightarrow> set xs \<inter> set ys = {}"
  by (auto simp: disjoint_list_def list_all_iff)

lemma can_run_parallel_sym: "can_run_parallel a b \<longleftrightarrow> can_run_parallel b a"
  by (cases "effect a"; cases "effect b") (auto simp: can_run_parallel_def disjoint_list_iff)

lemma steps_compatible_sym: "steps_compatible acts reg s t \<longleftrightarrow> steps_compatible acts reg t s"
  using can_run_parallel_sym by (auto simp: steps_compatible_def split: option.splits)

lemma sorted_wrt_sym:
  "sorted_wrt R xs \<Longrightarrow> (\<And>a b. R a b \<Longrightarrow> R b a) \<Longrightarrow> x \<in> set xs \<Longrightarrow> y \<in> set xs \<Longrightarrow> x \<noteq> y \<Longrightarrow> R x y"
  by (induction xs) auto

text \<open>Splitting the flattened list of sub-layers at a sub-layer.\<close>

lemma concat_map_split:
  "concat (map f xs) = As @ l # Bs \<Longrightarrow>
     \<exists>us x vs a b. xs = us @ x # vs \<and> f x = a @ l # b \<and> As = concat (map f us) @ a"
proof (induction xs arbitrary: As)
  case (Cons x xs)
  then have e: "f x @ concat (map f xs) = As @ l # Bs" by simp
  from e consider (here) b where "f x = As @ l # b"
    | (later) As' where "As = f x @ As'" "concat (map f xs) = As' @ l # Bs"
    by (auto simp: append_eq_append_conv2 append_eq_Cons_conv)
  then show ?case
  proof cases
    case here
    then have "x # xs = [] @ x # xs \<and> f x = As @ l # b \<and> As = concat (map f []) @ As" by simp
    then show ?thesis by blast
  next
    case later
    from Cons.IH [OF later(2)] obtain us y vs a b where
      "xs = us @ y # vs" "f y = a @ l # b" "As' = concat (map f us) @ a" by blast
    with later(1) have "x # xs = (x # us) @ y # vs \<and> f y = a @ l # b \<and>
        As = concat (map f (x # us)) @ a" by simp
    then show ?thesis by blast
  qed
qed simp

lemma mset_concat_map_perm:
  "(\<And>x. mset (concat (f x)) = mset x) \<Longrightarrow> mset (concat (concat (map f xs))) = mset (concat xs)"
  by (induction xs) auto

section \<open>The contract of the compiled layers\<close>

locale layered =
  fixes wf_in :: "'p \<Rightarrow> bool" and steps :: "'p \<Rightarrow> 's list" and need :: "'p \<Rightarrow> 's \<Rightarrow> 's set"
    and compat :: "'p \<Rightarrow> 's \<Rightarrow> 's \<Rightarrow> bool" and lay :: "'p \<Rightarrow> 's list list option"
  assumes lay_steps: "wf_in p \<Longrightarrow> distinct (steps p)"
    and lay_perm: "wf_in p \<Longrightarrow> lay p = Some L \<Longrightarrow> mset (concat L) = mset (steps p)"
    and lay_nonempty: "wf_in p \<Longrightarrow> lay p = Some L \<Longrightarrow> [] \<notin> set L"
    and lay_needs: "wf_in p \<Longrightarrow> lay p = Some (As @ l # Bs) \<Longrightarrow> s \<in> set l \<Longrightarrow>
      need p s \<subseteq> set (concat As)"
    and lay_compat: "wf_in p \<Longrightarrow> lay p = Some L \<Longrightarrow> l \<in> set L \<Longrightarrow> s \<in> set l \<Longrightarrow> t \<in> set l \<Longrightarrow>
      s \<noteq> t \<Longrightarrow> compat p s t"
begin

lemma once: "wf_in p \<Longrightarrow> lay p = Some L \<Longrightarrow> distinct (concat L) \<and> set (concat L) = set (steps p)"
  by (metis lay_perm lay_steps mset_eq_imp_distinct_iff mset_eq_setD)

lemma prefix_closed:
  assumes "wf_in p" and "lay p = Some (As @ Bs)" and "s \<in> set (concat As)"
  shows "need p s \<subseteq> set (concat As)"
proof -
  from assms(3) obtain As1 l As2 where "As = As1 @ l # As2" "s \<in> set l"
    by (metis UN_E set_concat split_list)
  with lay_needs [of p As1 l "As2 @ Bs" s] assms(1,2) show ?thesis by auto
qed

lemma layer_independent:
  assumes "wf_in p" and "lay p = Some L" and "l \<in> set L" and "s \<in> set l"
  shows "need p s \<inter> set l = {}"
proof -
  from assms(3) obtain As Bs where L: "L = As @ l # Bs" by (auto dest: split_list)
  have "need p s \<subseteq> set (concat As)"
    by (rule lay_needs [OF assms(1) assms(2) [unfolded L] assms(4)])
  with once [OF assms(1,2)] show ?thesis by (auto simp: L)
qed

lemma first_layer_free:
  "wf_in p \<Longrightarrow> lay p = Some (l # Bs) \<Longrightarrow> s \<in> set l \<Longrightarrow> need p s = {}"
  using lay_needs [of p "[]" l Bs s] by simp

end

definition compiled_layers :: "plan \<times> registry \<Rightarrow> string list list option" where
  "compiled_layers pr =
     (case compile_plan (fst pr) (snd pr) of Inl _ \<Rightarrow> None | Inr ep \<Rightarrow> Some (layers ep))"

lemma compile_plan_InrD:
  assumes "compile_plan p reg = Inr ep"
  obtains (empty) "actions p = []" "ep = \<lparr>layers = [], fail_modes = [], ep_plan = p\<rparr>"
  | (layers) topo where "actions p \<noteq> []" "topo_loop (build_full_dep_graph (actions p)) {} = Inr topo"
    "unknown_tool (actions p) reg = None"
    "ep = \<lparr>layers = concat (map (partition_layer (steps_compatible (actions p) reg)) topo),
           fail_modes = infer_fail_modes (actions p) reg, ep_plan = p\<rparr>"
proof -
  have "build_full_dep_graph (actions p) \<noteq> []" if "actions p \<noteq> []"
    using that full_graph_keys [of "actions p"] by (metis map_is_Nil_conv)
  then show ?thesis using assms that
    by (auto simp: compile_plan_def bind_res_eq_Inr topological_layers_def split: option.splits if_splits)
qed

lemma dict_ok_full_graph: "dict_ok acts \<Longrightarrow> dict_ok (build_full_dep_graph acts)"
  by (simp add: dict_ok_def)

lemma compiled_layersD:
  assumes "dict_ok (actions p)" and "compiled_layers (p, reg) = Some L"
  obtains topo where "L = concat (map (partition_layer (steps_compatible (actions p) reg)) topo)"
    "distinct (concat topo)" "set (concat topo) = set (dkeys (actions p))"
    "\<And>As l Bs n. topo = As @ l # Bs \<Longrightarrow> n \<in> set l \<Longrightarrow> exec_needs (actions p) n \<subseteq> set (concat As)"
proof -
  from assms(2) obtain ep where ep: "compile_plan p reg = Inr ep" "L = PlanCompiler.layers ep"
    by (auto simp: compiled_layers_def split: sum.splits)
  show ?thesis
  proof (cases rule: compile_plan_InrD [OF ep(1)])
    case 1
    with ep(2) that [of "[]"] show ?thesis by simp
  next
    case (2 topo)
    note t = topo_loop_Inr [OF dict_ok_full_graph [OF assms(1)] _ 2(2)]
    show ?thesis
    proof (rule that)
      fix As l Bs n assume s: "topo = As @ l # Bs" "n \<in> set l"
      then have "n \<in> set (dkeys (actions p))" using t by auto
      from full_graph_get [OF this] s t show "exec_needs (actions p) n \<subseteq> set (concat As)"
        by (fastforce simp del: set_concat)
    qed (use ep(2) 2(4) t in auto)
  qed
qed

interpretation cl: layered
  "\<lambda>(p, reg). dict_ok (actions p)" "\<lambda>(p, reg). dkeys (actions p)"
  "\<lambda>(p, reg). exec_needs (actions p)" "\<lambda>(p, reg). steps_compatible (actions p) reg" compiled_layers
proof (unfold_locales, goal_cases)
  case (1 pr)
  then show ?case by (auto simp: dict_ok_def)
next
  case (2 pr L)
  obtain p reg where pr: "pr = (p, reg)" by (cases pr)
  with 2 obtain topo where L: "L = concat (map (partition_layer (steps_compatible (actions p) reg)) topo)"
    "distinct (concat topo)" "set (concat topo) = set (dkeys (actions p))"
    by (auto elim!: compiled_layersD)
  have "mset (concat topo) = mset (dkeys (actions p))"
    using L(2,3) 2(1) set_eq_iff_mset_eq_distinct [of "concat topo" "dkeys (actions p)"]
    by (auto simp only: dict_ok_def pr prod.case)
  with L(1) show ?case by (simp add: mset_concat_map_perm [OF mset_partition] pr)
next
  case (3 pr L)
  obtain p reg where pr: "pr = (p, reg)" by (cases pr)
  with 3 show ?case by (fastforce elim!: compiled_layersD dest: partition_ok)
next
  case (4 pr As l Bs s)
  obtain p reg where pr: "pr = (p, reg)" by (cases pr)
  let ?f = "partition_layer (steps_compatible (actions p) reg)"
  from 4 pr obtain topo where L: "As @ l # Bs = concat (map ?f topo)"
    and t: "\<And>As l Bs n. topo = As @ l # Bs \<Longrightarrow> n \<in> set l \<Longrightarrow> exec_needs (actions p) n \<subseteq> set (concat As)"
    by (auto elim!: compiled_layersD)
  from concat_map_split [OF L [symmetric]] obtain us x vs a b where
    s: "topo = us @ x # vs" "?f x = a @ l # b" "As = concat (map ?f us) @ a" by blast
  have "s \<in> set x" using 4(3) s(2) set_concat_partition [of "steps_compatible (actions p) reg" x]
    by auto
  then have "exec_needs (actions p) s \<subseteq> set (concat us)" by (rule t [OF s(1)])
  also have "\<dots> = set (concat (concat (map ?f us)))"
    by (metis mset_concat_map_perm mset_partition set_mset_mset)
  finally show ?case using s(3) by (auto simp: pr)
next
  case (5 pr L l s t)
  obtain p reg where pr: "pr = (p, reg)" by (cases pr)
  with 5(1-3) obtain x where "l \<in> set (partition_layer (steps_compatible (actions p) reg) x)"
    by (auto elim!: compiled_layersD)
  with 5(4-6) show ?case
    using sorted_wrt_sym [of "\<lambda>a b. steps_compatible (actions p) reg b a" l] steps_compatible_sym
    by (auto dest!: partition_ok simp: pr)
qed

section \<open>Properties\<close>

lemma closed_full_graph: "dict_ok acts \<Longrightarrow> closed_graph (build_full_dep_graph acts)"
proof -
  assume ok: "dict_ok acts"
  let ?g = "build_full_dep_graph acts"
  have "ds \<subseteq> set (dkeys acts)" if e: "(n, ds) \<in> set ?g" for n ds
  proof -
    have n: "n \<in> set (dkeys acts)" using e full_graph_keys [of acts] by (metis fst_conv imageI set_map)
    have "dget ?g n = Some ds" using e ok by (intro mem_dget dict_ok_full_graph)
    with full_graph_get [OF n] exec_needs_keys [of acts n] show ?thesis by auto
  qed
  with ok show ?thesis by (auto simp: closed_graph_def dict_ok_full_graph simp del: set_map)
qed

lemma graph_rel_full:
  "needs (set (dkeys acts)) (\<lambda>n. the (dget (build_full_dep_graph acts) n)) = exec_rel acts"
  by (auto simp: needs_def full_graph_get simp del: set_map)

lemma unknown_tool_None:
  "unknown_tool acts reg = None \<longleftrightarrow> (\<forall>(s, a)\<in>set acts. tool a \<in> set (dkeys reg))"
  unfolding unknown_tool_def by (induction acts) (auto simp del: set_map split: if_splits)

lemma topo_loop_total:
  assumes "dict_ok acts"
  shows "(\<exists>L. topo_loop (build_full_dep_graph acts) {} = Inr L) \<longleftrightarrow> acyclic (exec_rel acts)"
    and "topo_loop (build_full_dep_graph acts) {} = Inl e \<Longrightarrow>
      \<exists>us. e = Unplaced us \<and> sorted us \<and> us \<noteq> [] \<and>
        set us = set (dkeys acts) - Wellfounded.acc (exec_rel acts)"
proof -
  note acc = topo_loop_acc [OF closed_full_graph [OF assms], of "{}",
      unfolded full_graph_keys graph_rel_full]
  note ac = acc_all_acyclic [of "set (dkeys acts)" "exec_needs acts"]
  show "(\<exists>L. topo_loop (build_full_dep_graph acts) {} = Inr L) \<longleftrightarrow> acyclic (exec_rel acts)"
  proof (cases "topo_loop (build_full_dep_graph acts) {}")
    case (Inl e)
    with acc have "\<not> set (dkeys acts) \<subseteq> Wellfounded.acc (exec_rel acts)"
      by (simp del: set_map) (metis Diff_eq_empty_iff set_empty)
    with Inl ac show ?thesis by simp
  next
    case (Inr L)
    with acc ac show ?thesis by simp
  qed
  show "topo_loop (build_full_dep_graph acts) {} = Inl e \<Longrightarrow>
      \<exists>us. e = Unplaced us \<and> sorted us \<and> us \<noteq> [] \<and>
        set us = set (dkeys acts) - Wellfounded.acc (exec_rel acts)"
    using acc by (simp del: set_map) blast
qed

text \<open>
  compilation succeeds exactly when every tool is registered and the execution
  relation (references in arguments, depends\_on and branch targets) has no cycle.
\<close>

theorem compile_plan_iff:
  assumes "dict_ok (actions p)"
  shows "(\<exists>ep. compile_plan p reg = Inr ep) \<longleftrightarrow>
    (\<forall>(s, a)\<in>set (actions p). tool a \<in> set (dkeys reg)) \<and> acyclic (exec_rel (actions p))"
proof (cases "actions p = []")
  case True
  have "acyclic (exec_rel ([] :: actions))" by (simp add: needs_def acyclic_def)
  with True show ?thesis by (simp add: compile_plan_def unknown_tool_def)
next
  case False
  then have "build_full_dep_graph (actions p) \<noteq> []"
    using full_graph_keys [of "actions p"] by (metis map_is_Nil_conv)
  with False show ?thesis
    unfolding topo_loop_total(1) [OF assms, symmetric] unknown_tool_None [symmetric]
    by (auto simp: compile_plan_def topological_layers_def bind_res_eq_Inr split: option.splits)
qed

definition sample_registry :: registry where
  "sample_registry = [(''add_task'', sample_write), (''list_tasks'', sample_read)]"

definition ref_action :: "string \<Rightarrow> string \<Rightarrow> action" where
  "ref_action t r = (sample_action [])\<lparr>tool := t, args := [(''x'', VStr r)]\<rparr>"

text \<open>Two readers, a writer that uses the first, and a pair that wait for each other.\<close>

definition plan_ok3 :: plan where
  "plan_ok3 = sample_plan [(''s1'', ref_action ''list_tasks'' ''all''),
     (''s2'', ref_action ''add_task'' ''${s1.id}''), (''s3'', ref_action ''list_tasks'' ''all'')]"

definition plan_cyclic :: plan where
  "plan_cyclic = sample_plan [(''s1'', ref_action ''list_tasks'' ''${s2.id}''),
     (''s2'', ref_action ''add_task'' ''${s1.id}''), (''s3'', ref_action ''list_tasks'' ''all'')]"

lemma plan_samples:
  "compiled_layers (plan_ok3, sample_registry) = Some [[''s1'', ''s3''], [''s2'']]"
  "compile_plan plan_cyclic sample_registry = Inl (Unplaced [''s1'', ''s2''])"
  "dict_ok (actions plan_ok3)" "dict_ok (actions plan_cyclic)"
  by code_simp+

theorem compile_plan_iff_witness:
  "acyclic (exec_rel (actions plan_ok3)) \<and> \<not> acyclic (exec_rel (actions plan_cyclic))"
proof -
  have "\<exists>ep. compile_plan plan_ok3 sample_registry = Inr ep"
    using plan_samples(1) by (auto simp: compiled_layers_def split: sum.splits)
  moreover have "\<forall>(s, a)\<in>set (actions plan_cyclic). tool a \<in> set (dkeys sample_registry)"
    by code_simp
  ultimately show ?thesis
    using compile_plan_iff [OF plan_samples(3), of sample_registry]
      compile_plan_iff [OF plan_samples(4), of sample_registry] plan_samples(2) by auto
qed

text \<open>
  when compilation of a plan with registered tools fails, the error names exactly the
  steps that can never start, that is, the steps outside the well-founded part of the
  execution relation: those on a cycle and those that wait for one.
\<close>

theorem compile_error_names_stuck_steps:
  assumes "dict_ok (actions p)" and "\<forall>(s, a)\<in>set (actions p). tool a \<in> set (dkeys reg)"
    and "compile_plan p reg = Inl e"
  shows "\<exists>us. e = Unplaced us \<and> sorted us \<and> us \<noteq> [] \<and>
    set us = set (dkeys (actions p)) - Wellfounded.acc (exec_rel (actions p))"
proof -
  have "unknown_tool (actions p) reg = None" using assms(2) by (simp add: unknown_tool_None)
  with assms(3) have "topo_loop (build_full_dep_graph (actions p)) {} = Inl e"
    by (auto simp: compile_plan_def topological_layers_def bind_res_eq_Inl split: if_splits)
  then show ?thesis by (rule topo_loop_total(2) [OF assms(1)])
qed

theorem compile_error_names_stuck_steps_witness:
  "set (dkeys (actions plan_cyclic)) - Wellfounded.acc (exec_rel (actions plan_cyclic)) = {''s1'', ''s2''}"
proof -
  have "\<forall>(s, a)\<in>set (actions plan_cyclic). tool a \<in> set (dkeys sample_registry)" by code_simp
  from compile_error_names_stuck_steps [OF plan_samples(4) this plan_samples(2)] show ?thesis
    by (auto simp del: set_map)
qed

text \<open>
  C38: the layers are a schedule. Every step of the plan is in them exactly once; a step's
  needs all lie in strictly earlier layers, so nothing inside a layer waits for anything else
  in it; and any two steps of one layer may run in parallel by the domain rule.
\<close>

theorem compiled_layers_schedule:
  assumes "dict_ok (actions p)" and "compiled_layers (p, reg) = Some (As @ l # Bs)"
  shows "mset (concat (As @ l # Bs)) = mset (dkeys (actions p)) \<and>
    (\<forall>s\<in>set l. exec_needs (actions p) s \<subseteq> set (concat As)) \<and>
    (\<forall>s\<in>set l. \<forall>t\<in>set l. s \<noteq> t \<longrightarrow> steps_compatible (actions p) reg s t)"
  using cl.lay_perm [of "(p, reg)"] cl.lay_needs [of "(p, reg)"] cl.lay_compat [of "(p, reg)"] assms
  by fastforce

theorem compiled_layers_schedule_witness:
  "exec_needs (actions plan_ok3) ''s2'' \<subseteq> {''s1'', ''s3''} \<and>
   steps_compatible (actions plan_ok3) sample_registry ''s1'' ''s3''"
proof -
  have a: "compiled_layers (plan_ok3, sample_registry) = Some ([[''s1'', ''s3'']] @ [''s2''] # [])"
    and b: "compiled_layers (plan_ok3, sample_registry) = Some ([] @ [''s1'', ''s3''] # [[''s2'']])"
    by (simp_all add: plan_samples)
  from compiled_layers_schedule [OF plan_samples(3) a] compiled_layers_schedule [OF plan_samples(3) b]
  show ?thesis by simp
qed

lemma domains_disjoint_distinct:
  "domains_disjoint seen ds \<longleftrightarrow> distinct ds \<and> set ds \<inter> seen = {}"
  by (induction ds arbitrary: seen) auto

text \<open>The grouping loop: first appearances in order, actions of a group in plan order.\<close>

lemma actions_by_group_get:
  "dget (actions_by_group acts) g =
     (let as = filter (\<lambda>a. intent_group a = g) (dvals acts) in if as = [] then None else Some as)"
proof -
  have "dget (fold (\<lambda>(sid, a) d. dput d (intent_group a)
          ((case dget d (intent_group a) of None \<Rightarrow> [] | Some xs \<Rightarrow> xs) @ [a])) acts d) g =
      (case dget d g of
         None \<Rightarrow> (let as = filter (\<lambda>a. intent_group a = g) (dvals acts) in if as = [] then None else Some as)
       | Some xs \<Rightarrow> Some (xs @ filter (\<lambda>a. intent_group a = g) (dvals acts)))" for d
    by (induction acts arbitrary: d) (auto simp: Let_def split: option.splits)
  from this [of "[]"] show ?thesis by (simp add: actions_by_group_def)
qed

lemma group_keys: "g \<in> set (dkeys (actions_by_group acts)) \<longleftrightarrow> g \<in> intent_group ` set (dvals acts)"
proof -
  have "g \<in> set (dkeys (actions_by_group acts)) \<longleftrightarrow> dget (actions_by_group acts) g \<noteq> None"
    by (metis dget_None_iff)
  also have "\<dots> \<longleftrightarrow> g \<in> intent_group ` set (dvals acts)"
    by (auto simp: actions_by_group_get Let_def filter_empty_conv simp del: set_map)
  finally show ?thesis .
qed

lemma if_if_or: "(if P then x else if Q then x else y) = (if P \<or> Q then x else y)"
  by simp

lemma dget_map_pair: "dget (map (\<lambda>(k, v). (k, f k v)) d) k = map_option (f k) (dget d k)"
  by (induction d) auto

text \<open>
  every intent group of the plan gets a failure mode, and it is \<open>Partial\<close> exactly when
  the group writes nothing, or when the write domains of its writes are listed without any
  repetition and the plan has another group.
\<close>

theorem infer_fail_modes_spec:
  "dget (infer_fail_modes acts reg) g =
     (if g \<notin> intent_group ` set (dvals acts) then None
      else let writes = filter (is_write_action reg) (filter (\<lambda>a. intent_group a = g) (dvals acts));
               doms = concat (map (\<lambda>a. case dget reg (tool a) of None \<Rightarrow> [] | Some s \<Rightarrow> write_domains s) writes)
        in Some (if writes = [] \<or> distinct doms \<and> (\<exists>h\<in>intent_group ` set (dvals acts). h \<noteq> g)
                 then Partial else HonestPartial))"
proof -
  let ?as = "filter (\<lambda>a. intent_group a = g) (dvals acts)"
  let ?G = "intent_group ` set (dvals acts)"
  have k: "set (dkeys (actions_by_group acts)) = ?G" using group_keys by blast
  have m: "g \<notin> ?G \<longleftrightarrow> ?as = []" by (auto simp: filter_empty_conv simp del: set_map)
  have o: "?G - {g} \<noteq> {} \<longleftrightarrow> (\<exists>h\<in>?G. h \<noteq> g)" by blast
  have "dget (infer_fail_modes acts reg) g =
      (if ?as = [] then None else Some (group_fail_mode reg ?G g ?as))"
    by (simp only: infer_fail_modes_def Let_def dget_map_pair actions_by_group_get k) simp
  moreover have "group_fail_mode reg ?G g ?as =
      (let writes = filter (is_write_action reg) ?as;
           doms = concat (map (\<lambda>a. case dget reg (tool a) of None \<Rightarrow> [] | Some s \<Rightarrow> write_domains s) writes)
       in if writes = [] \<or> distinct doms \<and> (\<exists>h\<in>?G. h \<noteq> g) then Partial else HonestPartial)"
    unfolding group_fail_mode_def Let_def all_pairs_disjoint_write_domains_def
      domains_disjoint_distinct o inf_bot_right simp_thms
    by (rule if_if_or)
  ultimately show ?thesis by (simp only: m Let_def)
qed

text \<open>
  A single write that lists one of its domains twice counts as an overlap, although the
  helper's comment speaks of two write actions sharing a domain.
\<close>

lemma single_write_repeated_domain:
  "\<not> all_pairs_disjoint_write_domains [sample_action []]
       [(''add_task'', sample_write\<lparr>write_domains := [''tasks'', ''tasks'']\<rparr>)]"
  by code_simp

end
