(* ===== verification/Selector.thy ===== *)
theory Selector
  imports Interpolation
begin

text \<open>
  \<open>src/sreda/runtime/planner/selector.py\<close>, the resolution side: the \<open>.only\<close> selector, the
  public labels of ambiguous items, and the sentinel that keeps a selected value from being
  scanned for references a second time. The routing of an ambiguous abort to its
  clarification is in the theory \<open>Executor\<close>.
\<close>

section \<open>Public labels\<close>

text \<open>
  \<open>_ID_PATTERN = \b(?:rem|rec|...)_[0-9a-f]{16,}\b\<close>, ignoring case. Both ends are word
  boundaries and every character of a match is a word character, so a match is always a
  whole maximal run of word characters; \<open>sub("")\<close> drops the runs that have this shape.
\<close>

definition id_prefixes :: "string list" where
  "id_prefixes = [''rem'', ''rec'', ''sh'', ''task'', ''checklist'', ''clitem'', ''menu'', ''mpi'',
     ''fm'', ''tsk'', ''chk'', ''fam'', ''mem'', ''ui'']"

definition lower_ascii :: "char \<Rightarrow> char" where
  "lower_ascii c = (let n = of_char c in if 65 \<le> n \<and> n \<le> (90 :: nat) then chr (n + 32) else c)"

definition is_hex_ci :: "char \<Rightarrow> bool" where
  "is_hex_ci c \<longleftrightarrow> in_ranges [(48, 57), (65, 70), (97, 102)] c"

definition id_run :: "string \<Rightarrow> bool" where
  "id_run w \<longleftrightarrow>
     (case dropWhile (\<lambda>c. c \<noteq> CHR ''_'') w of
        [] \<Rightarrow> False
      | _ # hex \<Rightarrow> map lower_ascii (takeWhile (\<lambda>c. c \<noteq> CHR ''_'') w) \<in> set id_prefixes \<and>
          16 \<le> length hex \<and> list_all is_hex_ci hex)"

text \<open>\<open>word_runs\<close> lists the maximal runs; \<open>strip_ids\<close> is the substitution.\<close>

function strip_ids :: "string \<Rightarrow> string" where
  "strip_ids s =
     (let w = takeWhile is_word s; rest = dropWhile is_word s; kept = (if id_run w then [] else w)
      in case rest of [] \<Rightarrow> kept | c # cs \<Rightarrow> kept @ c # strip_ids cs)"
  by pat_completeness auto
termination
proof (relation "measure length", goal_cases)
  case (2 s w rest kept c cs)
  then have "length (c # cs) \<le> length s" by (metis length_dropWhile_le)
  then show ?case by simp
qed simp

declare strip_ids.simps [simp del]

function word_runs :: "string \<Rightarrow> string list" where
  "word_runs s =
     (let w = takeWhile is_word s; rest = dropWhile is_word s
      in w # (case rest of [] \<Rightarrow> [] | c # cs \<Rightarrow> word_runs cs))"
  by pat_completeness auto
termination
proof (relation "measure length", goal_cases)
  case (2 s w rest c cs)
  then have "length (c # cs) \<le> length s" by (metis length_dropWhile_le)
  then show ?case by simp
qed simp

declare word_runs.simps [simp del]

text \<open>\<open>re.sub(r"\[\s*\]", "", cleaned)\<close>\<close>

definition brackets_at :: "string \<Rightarrow> string option" where
  "brackets_at s =
     (case s of
        [] \<Rightarrow> None
      | c # cs \<Rightarrow>
          if c = CHR ''['' then
            (case dropWhile is_space cs of
               [] \<Rightarrow> None
             | d # rest \<Rightarrow> if d = CHR '']'' then Some rest else None)
          else None)"

lemma brackets_at_length: "brackets_at s = Some rest \<Longrightarrow> length rest < length s"
proof -
  assume "brackets_at s = Some rest"
  then obtain c cs where s: "s = c # cs" and d: "dropWhile is_space cs = CHR '']'' # rest"
    by (auto simp: brackets_at_def split: list.splits if_splits)
  have "length (dropWhile is_space cs) \<le> length cs" by (rule length_dropWhile_le)
  with s d show ?thesis by simp
qed

function drop_brackets :: "string \<Rightarrow> string" where
  "drop_brackets [] = []"
| "drop_brackets (c # cs) =
     (case brackets_at (c # cs) of
        Some rest \<Rightarrow> drop_brackets rest
      | None \<Rightarrow> c # drop_brackets cs)"
  by pat_completeness auto
termination
  by (relation "measure length") (auto dest: brackets_at_length)

text \<open>\<open>re.sub(r"\s{2,}", " ", cleaned)\<close>: runs of two or more spaces; a single one is kept.\<close>

function collapse_spaces :: "string \<Rightarrow> string" where
  "collapse_spaces [] = []"
| "collapse_spaces [c] = [c]"
| "collapse_spaces (c # d # cs) =
     (if is_space c \<and> is_space d then CHR '' '' # collapse_spaces (dropWhile is_space cs)
      else c # collapse_spaces (d # cs))"
  by pat_completeness auto
termination
proof (relation "measure length", goal_cases)
  case (2 c d cs)
  have "length (dropWhile is_space cs) \<le> length cs" by (rule length_dropWhile_le)
  then show ?case by simp
qed auto

definition clean_label :: "nat \<Rightarrow> string \<Rightarrow> string option" where
  "clean_label max_len raw =
     (let c1 = strip (strip_ids raw);
          c2 = strip (drop_brackets c1);
          c3 = collapse_spaces c2
      in if c3 = [] then None else Some (take max_len c3))"

definition non_blank :: "pyval option \<Rightarrow> string option" where
  "non_blank v = (case v of Some (VStr s) \<Rightarrow> (if strip s \<noteq> [] then Some s else None) | _ \<Rightarrow> None)"

text \<open>A dictionary falls through to the next key when a label cleans to nothing; an object
  whose \<open>raw_line\<close> is non-blank does not.\<close>

fun first_label :: "nat \<Rightarrow> (string \<Rightarrow> pyval option) \<Rightarrow> string list \<Rightarrow> string option" where
  "first_label n look [] = None"
| "first_label n look (k # ks) =
     (case non_blank (look k) of
        None \<Rightarrow> first_label n look ks
      | Some s \<Rightarrow> (case clean_label n s of None \<Rightarrow> first_label n look ks | Some l \<Rightarrow> Some l))"

definition selector_public_label :: "nat \<Rightarrow> pyval \<Rightarrow> string option" where
  "selector_public_label max_len item =
     (case item of
        VDict d \<Rightarrow> first_label max_len (dget d) [''raw_line'', ''title'', ''name'']
      | _ \<Rightarrow> (case non_blank (py_getattr item ''raw_line'') of
                Some s \<Rightarrow> clean_label max_len s
              | None \<Rightarrow> first_label max_len (py_getattr item) [''title'', ''name'']))"

section \<open>The selector\<close>

definition has_only_segment :: "string \<Rightarrow> bool" where
  "has_only_segment path \<longleftrightarrow> ''only'' \<in> set (split_on (CHR ''.'') path)"

datatype sel_error =
    SelRef ref_error
  | SelNoOnly string
  | SelNeedsField string
  | SelNotList string
  | SelAmbiguous string nat "string list" \<comment> \<open>ref path, count, public options\<close>

definition lift_ref :: "ref_error + 'a \<Rightarrow> sel_error + 'a" where
  "lift_ref r = (case r of Inl e \<Rightarrow> Inl (SelRef e) | Inr x \<Rightarrow> Inr x)"

definition public_options :: "pyval list \<Rightarrow> string list" where
  "public_options xs =
     concat (map (\<lambda>x. case selector_public_label 60 x of None \<Rightarrow> [] | Some l \<Rightarrow> [l]) (take 5 xs))"

text \<open>What the code does once the value before \<open>only\<close> is known.\<close>

definition select_only :: "string \<Rightarrow> string list \<Rightarrow> pyval \<Rightarrow> sel_error + pyval" where
  "select_only path after current =
     (case current of
        VList xs \<Rightarrow>
          (case xs of
             [element] \<Rightarrow> lift_ref (walk_fields path element after)
           | _ \<Rightarrow> Inl (SelAmbiguous path (length xs) (public_options xs)))
      | _ \<Rightarrow> Inl (SelNotList path))"

definition resolve_only_ref :: "string \<Rightarrow> vdict \<Rightarrow> sel_error + pyval" where
  "resolve_only_ref path st =
     (let parts = split_on (CHR ''.'') path;
          before = takeWhile (\<lambda>p. p \<noteq> ''only'') parts
      in case dropWhile (\<lambda>p. p \<noteq> ''only'') parts of
           [] \<Rightarrow> Inl (SelNoOnly path)
         | _ # after \<Rightarrow>
             (case before of
                step_id # seg # segs \<Rightarrow>
                  (case dget st step_id of
                     None \<Rightarrow> Inl (SelRef (UnknownNode path step_id))
                   | Some out \<Rightarrow>
                       bind_res (lift_ref (walk_fields path out (seg # segs)))
                         (select_only path after))
              | _ \<Rightarrow> Inl (SelNeedsField path)))"

section \<open>The pre-pass\<close>

definition sub_piece_sel :: "vdict \<Rightarrow> piece \<Rightarrow> sel_error + string" where
  "sub_piece_sel st x =
     (case x of
        Lit c \<Rightarrow> Inr [c]
      | Ref p \<Rightarrow>
          if has_only_segment p then bind_res (resolve_only_ref p st) (\<lambda>v. Inr (py_str v))
          else bind_res (lift_ref (resolve_path p st)) (\<lambda>v. Inr (py_str v)))"

definition resolve_selector_in_string :: "string \<Rightarrow> vdict \<Rightarrow> sel_error + pyval" where
  "resolve_selector_in_string s st =
     (let ms = refs_of s in
      if ms = [] then Inr (VStr s)
      else if filter has_only_segment ms = [] then Inr (VStr s)
      else if length ms = 1 \<and> ref_token (hd ms) = s
      then bind_res (resolve_only_ref (hd ms) st) (\<lambda>v. Inr (VLit v))
      else bind_res (map_res (sub_piece_sel st) (pieces s)) (\<lambda>ss. Inr (VLit (VStr (concat ss)))))"

fun resolve_selector_refs :: "pyval \<Rightarrow> vdict \<Rightarrow> sel_error + pyval" where
  "resolve_selector_refs (VDict kvs) st =
     bind_res (map_res (\<lambda>(k, v). bind_res (resolve_selector_refs v st) (\<lambda>r. Inr (k, r))) kvs)
       (\<lambda>kvs'. Inr (VDict kvs'))"
| "resolve_selector_refs (VList xs) st =
     bind_res (map_res (\<lambda>x. resolve_selector_refs x st) xs) (\<lambda>ys. Inr (VList ys))"
| "resolve_selector_refs (VStr s) st = resolve_selector_in_string s st"
| "resolve_selector_refs v st = Inr v"

text \<open>Peeling the sentinels off afterwards.\<close>

fun unwrap_resolved :: "pyval \<Rightarrow> pyval" where
  "unwrap_resolved (VLit v) = unwrap_resolved v"
| "unwrap_resolved (VDict kvs) = VDict (map (\<lambda>(k, v). (k, unwrap_resolved v)) kvs)"
| "unwrap_resolved (VList xs) = VList (map unwrap_resolved xs)"
| "unwrap_resolved v = v"

text \<open>The order the executor must use: selectors, then plain references, then unwrapping.\<close>

definition resolve_args :: "pyval \<Rightarrow> vdict \<Rightarrow> sel_error + pyval" where
  "resolve_args args st =
     bind_res (resolve_selector_refs args st) (\<lambda>a.
       bind_res (lift_ref (resolve_refs a st)) (\<lambda>r. Inr (unwrap_resolved r)))"

section \<open>Lemmas\<close>

lemma id_run_Nil [simp]: "\<not> id_run []"
  by (simp add: id_run_def)

lemma word_runs_cut:
  "list_all is_word w \<Longrightarrow> \<not> is_word c \<Longrightarrow> word_runs (w @ c # s) = w # word_runs s"
  by (subst word_runs.simps) (simp add: takeWhile_append2 dropWhile_append2 list_all_iff)

lemma word_runs_whole: "list_all is_word w \<Longrightarrow> word_runs w = [w]"
  by (subst word_runs.simps) (simp add: takeWhile_eq_all_conv [THEN iffD2] dropWhile_eq_Nil_conv
      [THEN iffD2] list_all_iff)

lemma takeWhile_word: "list_all is_word (takeWhile is_word s)"
  by (auto simp: list_all_iff dest: set_takeWhileD)

lemma strip_ids_runs: "w \<in> set (word_runs (strip_ids s)) \<Longrightarrow> \<not> id_run w"
proof (induction s arbitrary: w rule: strip_ids.induct)
  case (1 s)
  let ?w = "takeWhile is_word s" and ?k = "if id_run (takeWhile is_word s) then [] else takeWhile is_word s"
  have k: "list_all is_word ?k" "\<not> id_run ?k" using takeWhile_word [of s] by auto
  show ?case
  proof (cases "dropWhile is_word s")
    case Nil
    then have "strip_ids s = ?k" by (subst strip_ids.simps) (simp only: Let_def list.case)
    with 1(2) k show ?thesis by (auto simp: word_runs_whole)
  next
    case (Cons c cs)
    then have c: "\<not> is_word c" by (metis hd_dropWhile list.distinct(1) list.sel(1))
    have "strip_ids s = ?k @ c # strip_ids cs" by (subst strip_ids.simps) (simp add: Let_def Cons)
    then have "word_runs (strip_ids s) = ?k # word_runs (strip_ids cs)"
      by (simp only: word_runs_cut [OF k(1) c])
    with 1(2) consider "w = ?k" | "w \<in> set (word_runs (strip_ids cs))" by auto
    then show ?thesis
    proof cases
      case 1
      with k(2) show ?thesis by (simp only: not_False_eq_True)
    next
      case 2
      then show ?thesis by (rule "1.IH" [OF refl refl refl Cons])
    qed
  qed
qed

lemma first_label_bounds: "first_label n look ks = Some l \<Longrightarrow> l \<noteq> [] \<or> n = 0"
  by (induction ks) (auto simp: clean_label_def Let_def split: option.splits if_splits)

lemma lift_ref_simps [simp]:
  "lift_ref (Inr x) = Inr x" "lift_ref (Inl e) = Inl (SelRef e)"
  "lift_ref r = Inr y \<longleftrightarrow> r = Inr y"
  "lift_ref r = Inl d \<longleftrightarrow> (\<exists>e'. d = SelRef e' \<and> r = Inl e')"
  by (cases r; auto simp add: lift_ref_def)+

lemma has_only_hd_unaffected: "path_ok p \<Longrightarrow> the (extract_step_id p) = hd (split_on (CHR ''.'') p)"
  by (simp add: extract_step_id_path_ok)

lemma takeWhile_dropWhile_split:
  "dropWhile (\<lambda>p. p \<noteq> x) ps = y # after \<Longrightarrow>
     ps = takeWhile (\<lambda>p. p \<noteq> x) ps @ x # after \<and> x \<notin> set (takeWhile (\<lambda>p. p \<noteq> x) ps)"
proof -
  assume a: "dropWhile (\<lambda>p. p \<noteq> x) ps = y # after"
  then have "y = x" by (metis (mono_tags, lifting) hd_dropWhile list.distinct(1) list.sel(1))
  then have "ps = takeWhile (\<lambda>p. p \<noteq> x) ps @ x # after" by (metis a takeWhile_dropWhile_id)
  then show ?thesis by (auto dest: set_takeWhileD)
qed

lemma takeWhile_cut [simp]:
  "x \<notin> set as \<Longrightarrow> takeWhile (\<lambda>p. p \<noteq> x) (as @ x # bs) = as"
  "x \<notin> set as \<Longrightarrow> dropWhile (\<lambda>p. p \<noteq> x) (as @ x # bs) = x # bs"
  by (induction as) auto

lemma select_only_Ambiguous:
  "select_only path after cur = Inl (SelAmbiguous q n options) \<Longrightarrow>
     \<exists>xs. cur = VList xs \<and> length xs \<noteq> 1 \<and> q = path \<and> n = length xs \<and> options = public_options xs"
  by (cases cur) (auto simp: select_only_def split: list.splits)

text \<open>The selector written out on a path whose first \<open>only\<close> is known.\<close>

lemma resolve_only_ref_at:
  assumes "split_on (CHR ''.'') path = (sid # f # fs) @ ''only'' # after"
    and "''only'' \<notin> set (sid # f # fs)" and "dget st sid = Some out"
    and "walk_fields path out (f # fs) = Inr cur"
  shows "resolve_only_ref path st = select_only path after cur"
proof -
  have "takeWhile (\<lambda>p. p \<noteq> ''only'') (split_on (CHR ''.'') path) = sid # f # fs"
    "dropWhile (\<lambda>p. p \<noteq> ''only'') (split_on (CHR ''.'') path) = ''only'' # after"
    unfolding assms(1) using assms(2) by (simp_all only: takeWhile_cut not_False_eq_True)
  then show ?thesis
    using assms(3,4) by (simp add: resolve_only_ref_def del: walk_fields.simps)
qed

lemma resolve_only_ref_cases:
  assumes "resolve_only_ref path st = Inr v"
  obtains sid f fs after out x where
    "split_on (CHR ''.'') path = (sid # f # fs) @ ''only'' # after"
    "''only'' \<notin> set (sid # f # fs)" "dget st sid = Some out"
    "walk_fields path out (f # fs) = Inr (VList [x])" "walk_fields path x after = Inr v"
proof -
  let ?ps = "split_on (CHR ''.'') path"
  obtain y after where d: "dropWhile (\<lambda>p. p \<noteq> ''only'') ?ps = y # after"
    using assms by (auto simp: resolve_only_ref_def Let_def split: list.splits)
  note sp = takeWhile_dropWhile_split [OF d]
  obtain sid f fs out where b: "takeWhile (\<lambda>p. p \<noteq> ''only'') ?ps = sid # f # fs"
    and out: "dget st sid = Some out"
    using assms d by (auto simp: resolve_only_ref_def Let_def split: list.splits option.splits)
  obtain cur where w: "walk_fields path out (f # fs) = Inr cur"
    using assms d b out
    by (auto simp: resolve_only_ref_def Let_def bind_res_eq_Inr simp del: walk_fields.simps)
  have "resolve_only_ref path st = select_only path after cur"
    using sp w out unfolding b by (intro resolve_only_ref_at) auto
  with assms obtain x where "cur = VList [x]" "walk_fields path x after = Inr v"
    by (auto simp: select_only_def split: pyval.splits list.splits)
  with sp w out show thesis unfolding b by (intro that) auto
qed

lemma resolve_only_ref_cong:
  assumes "path_ok p" and "dget st (the (extract_step_id p)) = dget st' (the (extract_step_id p))"
  shows "resolve_only_ref p st = resolve_only_ref p st'"
proof -
  let ?ps = "split_on (CHR ''.'') p"
  have "dget st (hd ?ps) = dget st' (hd ?ps)"
    using assms by (simp add: extract_step_id_path_ok)
  moreover have "sid = hd ?ps" if "takeWhile (\<lambda>p. p \<noteq> ''only'') ?ps = sid # rest" for sid rest
    using that by (cases ?ps) (auto split: if_splits)
  ultimately show ?thesis
    by (cases "takeWhile (\<lambda>p. p \<noteq> ''only'') ?ps") (simp_all only: resolve_only_ref_def Let_def list.case)
qed

lemma resolve_selector_in_string_cong:
  assumes "\<And>p. p \<in> set (refs_of s) \<Longrightarrow>
    dget st (the (extract_step_id p)) = dget st' (the (extract_step_id p))"
  shows "resolve_selector_in_string s st = resolve_selector_in_string s st'"
proof -
  have eq: "resolve_only_ref p st = resolve_only_ref p st'" "resolve_path p st = resolve_path p st'"
    if "p \<in> set (refs_of s)" for p
    using that assms by (auto intro: resolve_only_ref_cong resolve_path_cong dest: refs_of_path_ok)
  have "map_res (sub_piece_sel st) (pieces s) = map_res (sub_piece_sel st') (pieces s)"
    by (rule map_res_weak_cong)
      (auto simp: sub_piece_sel_def eq refs_of_member split: piece.splits)
  moreover have "refs_of s \<noteq> [] \<Longrightarrow>
      resolve_only_ref (hd (refs_of s)) st = resolve_only_ref (hd (refs_of s)) st'"
    by (rule eq) simp
  ultimately show ?thesis
    unfolding resolve_selector_in_string_def Let_def by (auto simp only: if_cancel split: if_split)
qed

lemma resolve_selector_refs_agree:
  "(\<And>n. n \<in> ref_steps v \<Longrightarrow> dget st n = dget st' n) \<Longrightarrow>
     resolve_selector_refs v st = resolve_selector_refs v st'"
proof (induction v rule: pyval_walk_induct)
  case (Str s)
  then show ?case by (simp, intro resolve_selector_in_string_cong) (auto simp: ref_steps_def)
next
  case (List xs)
  then have "map_res (\<lambda>x. resolve_selector_refs x st) xs = map_res (\<lambda>x. resolve_selector_refs x st') xs"
    by (intro map_res_weak_cong) auto
  then show ?case by simp
next
  case (Dict kvs)
  then have "map_res (\<lambda>(k, v). bind_res (resolve_selector_refs v st) (\<lambda>r. Inr (k, r))) kvs =
      map_res (\<lambda>(k, v). bind_res (resolve_selector_refs v st') (\<lambda>r. Inr (k, r))) kvs"
    by (intro map_res_weak_cong) (fastforce split: prod.splits)
  then show ?case by simp
qed auto

text \<open>The pre-pass introduces no reference: what it leaves mentions no new step.\<close>

lemma resolve_selector_in_string_refs:
  "resolve_selector_in_string s st = Inr r \<Longrightarrow>
     (r = VStr s \<and> filter has_only_segment (refs_of s) = []) \<or> (\<exists>v. r = VLit v)"
  by (auto simp: resolve_selector_in_string_def Let_def bind_res_eq_Inr split: if_splits)

lemma resolve_selector_refs_iter:
  "resolve_selector_refs v st = Inr r \<Longrightarrow> is_json v \<Longrightarrow> p \<in> set (iter_refs r) \<Longrightarrow>
     p \<in> set (iter_refs v) \<and> \<not> has_only_segment p"
proof (induction v arbitrary: r rule: pyval_walk_induct)
  case (Str s)
  then show ?case
    by (auto dest!: resolve_selector_in_string_refs simp: filter_empty_conv)
next
  case (List xs)
  then obtain ys where r: "r = VList ys" "map_res (\<lambda>x. resolve_selector_refs x st) xs = Inr ys"
    by (auto simp: bind_res_eq_Inr)
  with List(4) obtain y where y: "y \<in> set ys" "p \<in> set (iter_refs y)" by auto
  with r obtain x where x: "x \<in> set xs" "resolve_selector_refs x st = Inr y"
    by (blast dest: map_res_Inr_memD)
  with List(3) have "is_json x" by (simp add: list_all_iff)
  then have "p \<in> set (iter_refs x) \<and> \<not> has_only_segment p" using List(1) [OF x] y(2) by blast
  with x(1) show ?case by auto
next
  case (Dict kvs)
  then obtain kvs' where r: "r = VDict kvs'"
    "map_res (\<lambda>(k, v). bind_res (resolve_selector_refs v st) (\<lambda>r. Inr (k, r))) kvs = Inr kvs'"
    by (auto simp: bind_res_eq_Inr)
  with Dict(4) obtain k y where y: "(k, y) \<in> set kvs'" "p \<in> set (iter_refs y)" by auto
  with r obtain x where x: "(k, x) \<in> set kvs" "resolve_selector_refs x st = Inr y"
    by (force dest: map_res_Inr_memD simp: bind_res_eq_Inr)
  with Dict(3) have "is_json x" by (auto simp: list_all_iff)
  then have "p \<in> set (iter_refs x) \<and> \<not> has_only_segment p" using Dict(1) [OF x] y(2) by blast
  with x(1) show ?case by auto
qed auto

lemma unwrap_json: "is_json v \<Longrightarrow> unwrap_resolved v = v"
proof (induction v rule: pyval_walk_induct)
  case (List xs)
  then show ?case by (auto simp: list_all_iff map_idI)
next
  case (Dict kvs)
  then show ?case by (auto simp: list_all_iff intro!: map_idI)
qed auto

lemma resolve_refs_agree_json:
  "(\<And>n. n \<in> ref_steps v \<Longrightarrow> dget st n = dget st' n) \<Longrightarrow> is_json v \<Longrightarrow>
     resolve_selector_refs v st = Inr a \<Longrightarrow> resolve_refs a st = resolve_refs a st'"
  by (rule resolve_refs_agree) (auto simp: ref_steps_def dest: resolve_selector_refs_iter)

lemma resolve_args_agree:
  assumes "\<And>n. n \<in> ref_steps v \<Longrightarrow> dget st n = dget st' n" and "is_json v"
  shows "resolve_args v st = resolve_args v st'"
proof -
  have "resolve_selector_refs v st = resolve_selector_refs v st'"
    using assms(1) by (rule resolve_selector_refs_agree)
  moreover have "resolve_refs a st = resolve_refs a st'" if "resolve_selector_refs v st = Inr a" for a
    using assms that by (rule resolve_refs_agree_json)
  ultimately show ?thesis
    by (cases "resolve_selector_refs v st'") (auto simp: resolve_args_def)
qed

section \<open>Properties\<close>

text \<open>The \<open>.only\<close> selector succeeds exactly when the field before it holds a list with one
  element, and then gives the value found by walking the remaining fields from that element;
  in particular a list of two or more items is never silently narrowed to one of them.\<close>

theorem only_selects_iff_singleton:
  "resolve_only_ref path st = Inr v \<longleftrightarrow>
     (\<exists>sid f fs after out x.
        split_on (CHR ''.'') path = sid # f # fs @ ''only'' # after \<and>
        ''only'' \<notin> set (sid # f # fs) \<and> dget st sid = Some out \<and>
        walk_fields path out (f # fs) = Inr (VList [x]) \<and> walk_fields path x after = Inr v)"
    (is "?l \<longleftrightarrow> ?r")
proof
  assume ?l then show ?r
    by (rule resolve_only_ref_cases) (intro exI conjI; simp)
next
  assume ?r
  then obtain sid f fs after out x where *:
    "split_on (CHR ''.'') path = (sid # f # fs) @ ''only'' # after"
    "''only'' \<notin> set (sid # f # fs)" "dget st sid = Some out"
    "walk_fields path out (f # fs) = Inr (VList [x])" "walk_fields path x after = Inr v"
    by auto
  from resolve_only_ref_at [OF *(1-4)] *(5) show ?l by (simp add: select_only_def)
qed

text \<open>An ambiguous selection reports the actual number of items (zero, or two and more),
  and at most five labels, each non-empty and at most sixty characters long.\<close>

theorem only_ambiguity_report:
  assumes "resolve_only_ref path st = Inl (SelAmbiguous q n options)"
  shows "q = path \<and> n \<noteq> 1 \<and> length options \<le> 5 \<and> length options \<le> n \<and>
    (\<forall>l\<in>set options. l \<noteq> [] \<and> length l \<le> 60)"
proof -
  obtain xs where xs: "q = path" "n = length xs" "options = public_options xs" "length xs \<noteq> 1"
    using assms
    by (auto simp: resolve_only_ref_def Let_def bind_res_eq_Inl simp del: walk_fields.simps
        split: list.splits option.splits dest!: select_only_Ambiguous)
  have label: "l \<noteq> [] \<and> length l \<le> 60" if "clean_label 60 s = Some l" for s l
    using that by (auto simp: clean_label_def Let_def split: if_splits)
  have first: "l \<noteq> [] \<and> length l \<le> 60" if "first_label 60 look ks = Some l" for look ks l
    using that by (induction ks) (auto dest: label split: option.splits)
  have item: "l \<noteq> [] \<and> length l \<le> 60" if "selector_public_label 60 x = Some l" for x l
    using that by (auto simp: selector_public_label_def dest: label first
        split: pyval.splits option.splits)
  have len: "length (concat (map (\<lambda>x. case f x of None \<Rightarrow> [] | Some l \<Rightarrow> [l]) ys)) \<le> length ys"
    for f :: "pyval \<Rightarrow> string option" and ys
    by (induction ys) (auto split: option.splits)
  have "length options \<le> length (take 5 xs)" unfolding xs public_options_def by (rule len)
  with xs show ?thesis
    by (auto simp: public_options_def dest: item [OF sym] split: option.splits)
qed

theorem only_ambiguity_report_witness:
  "resolve_only_ref ''s1.xs.only'' [(''s1'', VDict [(''xs'', VList [])])] =
     Inl (SelAmbiguous ''s1.xs.only'' 0 []) \<and> (0 :: nat) \<noteq> 1"
proof -
  have h: "resolve_only_ref ''s1.xs.only'' [(''s1'', VDict [(''xs'', VList [])])] =
     Inl (SelAmbiguous ''s1.xs.only'' 0 [])" by code_simp
  show ?thesis using h only_ambiguity_report [OF h] by blast
qed

text \<open>After the selector pre-pass over a JSON value no \<open>.only\<close> reference is left for
  \<open>resolve_refs\<close>, and every reference that is left was in the original value.\<close>

theorem selector_prepass_complete:
  assumes "is_json v" and "resolve_selector_refs v st = Inr r" and "p \<in> set (iter_refs r)"
  shows "p \<in> set (iter_refs v) \<and> \<not> has_only_segment p"
  using resolve_selector_refs_iter [OF assms(2,1,3)] .

theorem selector_prepass_complete_witness:
  "''s1.b'' \<in> set (iter_refs (VList [VStr ''${s1.a.only}'', VStr ''${s1.b}''])) \<and>
   \<not> has_only_segment ''s1.b''"
proof (rule selector_prepass_complete)
  show "is_json (VList [VStr ''${s1.a.only}'', VStr ''${s1.b}''])" by simp
  show "resolve_selector_refs (VList [VStr ''${s1.a.only}'', VStr ''${s1.b}''])
      [(''s1'', VDict [(''a'', VList [VInt 3])])] = Inr (VList [VLit (VInt 3), VStr ''${s1.b}''])"
    by code_simp
  have "iter_refs (VList [VLit (VInt 3), VStr ''${s1.b}'']) = [''s1.b'']" by code_simp
  then show "''s1.b'' \<in> set (iter_refs (VList [VLit (VInt 3), VStr ''${s1.b}'']))" by simp
qed

text \<open>No second scan: for a string that holds a \<open>.only\<close> reference the executor's three
  passes give exactly what the selector pre-pass computed. User text inside a selected value
  that looks like a reference is passed on as text.\<close>

theorem selected_values_not_rescanned:
  assumes "list_ex has_only_segment (refs_of s)"
  shows "resolve_args (VStr s) st =
    bind_res (resolve_selector_in_string s st) (\<lambda>r. Inr (unwrap_resolved r))"
proof -
  have "\<exists>v. r = VLit v" if "resolve_selector_in_string s st = Inr r" for r
    using resolve_selector_in_string_refs [OF that] assms by (auto simp: filter_empty_conv list_ex_iff)
  then show ?thesis
    by (cases "resolve_selector_in_string s st") (auto simp: resolve_args_def)
qed

theorem selected_values_not_rescanned_witness:
  "resolve_args (VStr ''${s1.xs.only}'') [(''s1'', VDict [(''xs'', VList [VStr ''${s9.boom}''])])] =
     Inr (VStr ''${s9.boom}'')"
proof -
  have "list_ex has_only_segment (refs_of ''${s1.xs.only}'')" by code_simp
  moreover have "resolve_selector_in_string ''${s1.xs.only}''
      [(''s1'', VDict [(''xs'', VList [VStr ''${s9.boom}''])])] = Inr (VLit (VStr ''${s9.boom}''))"
    by code_simp
  ultimately show ?thesis by (simp add: selected_values_not_rescanned)
qed

text \<open>Id scrubbing: after the substitution of \<open>_ID_PATTERN\<close> no maximal run of word
  characters of the result is an internal id, whatever the title contained.\<close>

theorem strip_ids_leaves_no_id:
  "list_all (\<lambda>w. \<not> id_run w) (word_runs (strip_ids s))"
  by (auto simp: list_all_iff dest: strip_ids_runs)

text \<open>The later passes of \<open>_clean\<close> join what they cut: an id can appear in a label that was
  not one run in the title.\<close>

lemma label_can_reassemble_id:
  "clean_label 60 ''rem_[]0123456789abcdef'' = Some ''rem_0123456789abcdef'' \<and>
   id_run ''rem_0123456789abcdef''"
  by code_simp

end
