(* ===== verification/StepLedger.thy ===== *)
theory StepLedger
  imports Prelude
begin

text \<open>
  \<open>runtime/planner/step_ledger.py\<close> and the table \<open>step_execution_ledger\<close> of
  \<open>db/models/planner.py\<close>: one row per step of an execution, opened before a tool is invoked
  and closed afterwards. The table is keyed by \<open>(execution_id, step_id)\<close>, which is one of its
  unique constraints; the other one, on \<open>operation_id\<close>, is checked when a row is inserted.
  Times are integers (microseconds). What the executor relies on is the locale \<open>step_log\<close>.
\<close>

record ledger_row =
  lr_tool :: "string option"
  lr_operation_id :: string
  lr_status :: string
  lr_created_at :: int
  lr_updated_at :: int

type_synonym ledger_key = "string \<times> string"
type_synonym ledger = "(ledger_key, ledger_row) dict"

datatype ledger_error =
    OperationIdDiverged string string
  | ToolDiverged "string option" string
  | OperationIdTaken string
  | InvalidStatus string
  | NoRow ledger_key

definition TERMINAL_STATUSES :: "string list" where
  "TERMINAL_STATUSES = [''committed'', ''unknown'', ''unknown_pending'']"

definition LEDGER_STATUSES :: "string list" where
  "LEDGER_STATUSES = ''started'' # TERMINAL_STATUSES"

text \<open>
  An existing row is returned unchanged if the caller derives the same identity; a new row
  starts as \<open>started\<close>, unless another row already has its operation id.
\<close>

definition open_step ::
    "ledger \<Rightarrow> ledger_key \<Rightarrow> string option \<Rightarrow> string \<Rightarrow> int \<Rightarrow> ledger_error + ledger \<times> ledger_row" where
  "open_step led key tname op now =
     (case dget led key of
        Some ex \<Rightarrow>
          if lr_operation_id ex \<noteq> op then Inl (OperationIdDiverged (lr_operation_id ex) op)
          else (case tname of
                  Some t \<Rightarrow> if lr_tool ex \<noteq> Some t then Inl (ToolDiverged (lr_tool ex) t) else Inr (led, ex)
                | None \<Rightarrow> Inr (led, ex))
      | None \<Rightarrow>
          if list_ex (\<lambda>r. lr_operation_id r = op) (dvals led) then Inl (OperationIdTaken op)
          else (let row = \<lparr>lr_tool = tname, lr_operation_id = op, lr_status = ''started'',
                           lr_created_at = now, lr_updated_at = now\<rparr>
                in Inr (dput led key row, row)))"

definition mark_step_status ::
    "ledger \<Rightarrow> ledger_key \<Rightarrow> string \<Rightarrow> int \<Rightarrow> ledger_error + ledger" where
  "mark_step_status led key st now =
     (if st \<notin> set TERMINAL_STATUSES then Inl (InvalidStatus st)
      else case dget led key of
        None \<Rightarrow> Inl (NoRow key)
      | Some row \<Rightarrow> Inr (dput led key (row\<lparr>lr_status := st, lr_updated_at := now\<rparr>)))"

text \<open>
  \<open>_best_effort_mark\<close> of \<open>runtime/planner/executor.py\<close>: whatever fails (\<open>fault\<close>: the session,
  the commit), the ledger keeps what it had and nothing is raised.
\<close>

definition best_effort_mark :: "bool \<Rightarrow> ledger \<Rightarrow> ledger_key \<Rightarrow> string \<Rightarrow> int \<Rightarrow> ledger" where
  "best_effort_mark fault led key st now =
     (if fault then led
      else case mark_step_status led key st now of Inl e \<Rightarrow> led | Inr led' \<Rightarrow> led')"

section \<open>The table's constraints\<close>

definition ledger_ok :: "ledger \<Rightarrow> bool" where
  "ledger_ok led \<longleftrightarrow>
     dict_ok led \<and> distinct (map lr_operation_id (dvals led)) \<and>
     (\<forall>r\<in>set (dvals led). lr_status r \<in> set LEDGER_STATUSES \<and> lr_created_at r \<le> lr_updated_at r)"

lemma dput_new: "k \<notin> set (dkeys d) \<Longrightarrow> dput d k v = d @ [(k, v)]"
  by (induction d) auto

lemma dput_old_vals:
  "dget d k = Some v \<Longrightarrow> f v' = f v \<Longrightarrow> map f (dvals (dput d k v')) = map f (dvals d)"
  by (induction d) auto

lemma set_dput: "set (dvals (dput d k v)) \<subseteq> insert v (set (dvals d))"
  by (induction d) auto

lemma ledger_ok_Nil [simp]: "ledger_ok []"
  by (simp add: ledger_ok_def)

lemma open_step_ok [inv_intros]:
  assumes "ledger_ok led" and "open_step led key tname op now = Inr (led', row)"
  shows "ledger_ok led'"
proof (cases "dget led key")
  case None
  with assms(2) have new: "led' = dput led key row" "lr_status row = ''started''"
    "lr_operation_id row = op" "lr_created_at row = lr_updated_at row"
    and op: "op \<notin> lr_operation_id ` set (dvals led)"
    by (auto simp: open_step_def list_ex_iff Let_def split: if_splits)
  have "key \<notin> set (dkeys led)" using None by (metis dget_None_iff)
  then have "led' = led @ [(key, row)]" by (simp add: new(1) dput_new)
  moreover have "key \<notin> fst ` set led" "op \<notin> lr_operation_id ` snd ` set led"
    using \<open>key \<notin> set (dkeys led)\<close> op by auto
  ultimately show ?thesis using assms(1) new(2-4)
    by (auto simp: ledger_ok_def dict_ok_def LEDGER_STATUSES_def)
next
  case (Some ex)
  with assms show ?thesis by (auto simp: open_step_def split: if_splits option.splits)
qed

lemma mark_step_status_ok [inv_intros]:
  assumes "ledger_ok led" and "mark_step_status led key st now = Inr led'"
    and "\<forall>r\<in>set (dvals led). lr_updated_at r \<le> now"
  shows "ledger_ok led'"
proof -
  from assms(2) obtain row where row: "dget led key = Some row" "st \<in> set TERMINAL_STATUSES"
    and led': "led' = dput led key (row\<lparr>lr_status := st, lr_updated_at := now\<rparr>)"
    by (auto simp: mark_step_status_def split: if_splits option.splits)
  have mem: "row \<in> set (dvals led)" using dget_Some_mem [OF row(1)] by force
  have "map lr_operation_id (dvals led') = map lr_operation_id (dvals led)"
    unfolding led' by (rule dput_old_vals [OF row(1)]) simp
  moreover have "lr_created_at row \<le> now" using assms(1,3) mem by (force simp: ledger_ok_def)
  ultimately show ?thesis
    using assms(1) row(2) set_dput [of key "row\<lparr>lr_status := st, lr_updated_at := now\<rparr>" led]
    by (auto simp: ledger_ok_def led' LEDGER_STATUSES_def simp del: set_map)
qed

section \<open>What a client of the ledger may rely on\<close>

locale step_log =
  fixes opn :: "'l \<Rightarrow> 'k \<Rightarrow> 'i \<Rightarrow> 't \<Rightarrow> 'e + 'l"
    and mrk :: "'l \<Rightarrow> 'k \<Rightarrow> 's \<Rightarrow> 't \<Rightarrow> 'l"
    and row_of :: "'l \<Rightarrow> 'k \<Rightarrow> 'r option"
    and fits :: "'r \<Rightarrow> 'i \<Rightarrow> bool"
  assumes opn_row: "opn l k i t = Inr l' \<Longrightarrow> \<exists>r. row_of l' k = Some r \<and> fits r i"
    and opn_other: "opn l k i t = Inr l' \<Longrightarrow> j \<noteq> k \<Longrightarrow> row_of l' j = row_of l j"
    and opn_existing: "row_of l k = Some r \<Longrightarrow> fits r i \<Longrightarrow> opn l k i t = Inr l"
    and opn_diverged: "row_of l k = Some r \<Longrightarrow> \<not> fits r i \<Longrightarrow> \<exists>e. opn l k i t = Inl e"
    and mrk_other: "j \<noteq> k \<Longrightarrow> row_of (mrk l k s t) j = row_of l j"
    and mrk_fits: "row_of l k = Some r \<Longrightarrow> \<exists>r'. row_of (mrk l k s t) k = Some r' \<and> fits r' = fits r"
begin

text \<open>Opening again after any closing mark finds the row and changes nothing.\<close>

lemma resume:
  assumes "opn l k i t = Inr l'"
  shows "opn (mrk l' k s t') k i t'' = Inr (mrk l' k s t')"
proof -
  from opn_row [OF assms(1)] obtain r where r: "row_of l' k = Some r" "fits r i" by blast
  from mrk_fits [OF r(1)] obtain r' where "row_of (mrk l' k s t') k = Some r'" "fits r' i"
    using r(2) by metis
  then show ?thesis by (rule opn_existing)
qed

text \<open>A row once opened under an identity is never handed to another one.\<close>

lemma no_takeover:
  assumes "opn l k i t = Inr l'" and "opn (mrk l' k s t') k i' t'' = Inr l''"
  shows "\<exists>r. row_of l'' k = Some r \<and> fits r i \<and> fits r i'"
proof -
  from opn_row [OF assms(1)] obtain r where r: "row_of l' k = Some r" "fits r i" by blast
  from mrk_fits [OF r(1)] obtain r' where r': "row_of (mrk l' k s t') k = Some r'" "fits r' = fits r"
    by metis
  have "fits r' i'" using opn_diverged [OF r'(1), of i' t''] assms(2) by auto
  then have "l'' = mrk l' k s t'" using opn_existing [OF r'(1), of i' t''] assms(2) by simp
  with r r' \<open>fits r' i'\<close> show ?thesis by simp
qed

end

definition open_row :: "ledger \<Rightarrow> ledger_key \<Rightarrow> string \<times> string \<Rightarrow> int \<Rightarrow> ledger_error + ledger" where
  "open_row led key i now = map_sum id fst (open_step led key (Some (fst i)) (snd i) now)"

definition row_fits :: "ledger_row \<Rightarrow> string \<times> string \<Rightarrow> bool" where
  "row_fits r i \<longleftrightarrow> lr_tool r = Some (fst i) \<and> lr_operation_id r = snd i"

definition close_row :: "ledger \<Rightarrow> ledger_key \<Rightarrow> bool \<times> string \<Rightarrow> int \<Rightarrow> ledger" where
  "close_row led key s now = best_effort_mark (fst s) led key (snd s) now"

lemma best_effort_mark_get:
  "dget (best_effort_mark fault led key st now) j =
     (if j = key \<and> \<not> fault \<and> st \<in> set TERMINAL_STATUSES
      then map_option (\<lambda>r. r\<lparr>lr_status := st, lr_updated_at := now\<rparr>) (dget led key) else dget led j)"
  by (auto simp: best_effort_mark_def mark_step_status_def split: option.splits)

lemma open_step_get:
  "open_step led key tname op now = Inr (led', row) \<Longrightarrow>
     dget led' key = Some row \<and> lr_operation_id row = op \<and>
     (\<forall>t. tname = Some t \<longrightarrow> lr_tool row = tname) \<and> (\<forall>j. j \<noteq> key \<longrightarrow> dget led' j = dget led j)"
  by (auto simp: open_step_def Let_def split: option.splits if_splits)

lemma open_row_Inr:
  "open_row led key i now = Inr led' \<longleftrightarrow> (\<exists>row. open_step led key (Some (fst i)) (snd i) now = Inr (led', row))"
  by (auto simp: open_row_def map_sum_def split: sum.splits)

interpretation sl: step_log open_row close_row dget row_fits
proof (unfold_locales, goal_cases)
  case (1 l k i t l')
  then show ?case by (auto simp: open_row_Inr row_fits_def dest!: open_step_get)
next
  case (2 l k i t l' j)
  then show ?case by (auto simp: open_row_Inr dest!: open_step_get)
next
  case (3 l k r i t)
  then show ?case by (simp add: open_row_def open_step_def row_fits_def)
next
  case (4 l k r i t)
  then show ?case by (auto simp: open_row_def open_step_def row_fits_def)
next
  case (5 j k l s t)
  then show ?case by (simp add: close_row_def best_effort_mark_get)
next
  case (6 l k r s t)
  then show ?case by (auto simp: close_row_def best_effort_mark_get row_fits_def fun_eq_iff)
qed

section \<open>Properties\<close>

text \<open>
  C40: opening a step is idempotent across a crash: whatever closing mark was written in
  between, and whether or not that write failed, opening the step again under the same
  identity returns the existing ledger unchanged, so the recorded status is never reset.
\<close>

theorem open_step_resume:
  assumes "open_step led key (Some t) op now = Inr (led', row)"
    and "led'' = best_effort_mark fault led' key st now'"
  shows "\<exists>row'. open_step led'' key (Some t) op now'' = Inr (led'', row')"
proof -
  have "open_row led key (t, op) now = Inr led'" using assms(1) by (auto simp: open_row_Inr)
  from sl.resume [OF this, of "(fault, st)" now' now''] show ?thesis
    by (simp add: close_row_def assms(2) open_row_Inr)
qed

theorem open_step_resume_witness:
  "\<exists>led row row'. open_step [] (''e1'', ''s1'') (Some ''add_task'') ''op_1'' 5 = Inr (led, row) \<and>
     open_step (best_effort_mark False led (''e1'', ''s1'') ''committed'' 6) (''e1'', ''s1'')
       (Some ''add_task'') ''op_1'' 9
     = Inr (best_effort_mark False led (''e1'', ''s1'') ''committed'' 6, row')"
proof -
  obtain led row where "open_step [] (''e1'', ''s1'') (Some ''add_task'') ''op_1'' 5 = Inr (led, row)"
    by (simp add: open_step_def Let_def)
  with open_step_resume [OF this refl] show ?thesis by blast
qed

text \<open>
  the ledger's constraints are an invariant of both writers: keys and operation ids stay
  unique, statuses stay in the allowed set and no row is updated before it was created, for
  every opening and for every marking at a time that is not before the rows' last update.
\<close>

theorem ledger_constraints_kept:
  assumes "ledger_ok led" and "\<forall>r\<in>set (dvals led). lr_updated_at r \<le> now"
  shows "(\<forall>led' row. open_step led key tname op now = Inr (led', row) \<longrightarrow> ledger_ok led') \<and>
    ledger_ok (best_effort_mark fault led key st now)"
  using open_step_ok [OF assms(1)] mark_step_status_ok [OF assms(1) _ assms(2)] assms(1)
  by (auto simp: best_effort_mark_def split: sum.splits)

theorem ledger_constraints_kept_witness:
  "ledger_ok (best_effort_mark False
     [((''e1'', ''s1''), \<lparr>lr_tool = None, lr_operation_id = ''op_1'', lr_status = ''started'',
        lr_created_at = 1, lr_updated_at = 1\<rparr>)] (''e1'', ''s1'') ''unknown'' 2)"
  by (rule conjunct2 [OF ledger_constraints_kept])
    (auto simp: ledger_ok_def dict_ok_def LEDGER_STATUSES_def)

end
