(* ===== verification/Executor.thy ===== *)
theory Executor
  imports PlanCompiler Selector StepLedger
begin

text \<open>
  \<open>runtime/planner/executor.py\<close>: running a compiled plan layer by layer. Tools, the clock,
  the digest function and failures of the ledger database are an environment record, so a
  theorem over all environments covers every way the tools can behave. The coroutines of one
  batch are run in batch order: they read the same snapshot of the outputs and write the
  ledger rows of different steps. \<open>calls\<close> records the tool invocations.
\<close>

section \<open>Results\<close>

datatype step_status =
  StOk | StError | StTimeout | StUnknownOutcome | StPlanGap | StArgViolation | StSkipped

datatype abort_reason = AbortStatus step_status | AbortWriteTimeout

datatype skip_reason =
    BranchNotSelected
  | UpstreamSkipped "string list"
  | UpstreamUnavailable "string list"
  | HonestGroupFailed
  | Halted abort_reason

text \<open>What varies in \<open>error_summary\<close>.\<close>

datatype summary =
    SelectorAmbiguity sel_error
  | SelectorResolve sel_error
  | RefResolve ref_error
  | ArgInvalid
  | ArgInternalError
  | TimeoutAfter nat
  | ToolException string
  | ContractViolation
  | ProcessOutputFailure
  | NoBranch pyval
  | SkippedBecause skip_reason
  | BarrierAmbiguity sel_error

record step_result =
  step_id :: string
  sr_tool :: string
  status :: step_status
  parsed_output :: "vdict option"
  raw_output :: "string option"
  latency_ms :: nat
  error_summary :: "summary option"
  matched_branch_index :: "nat option"
  matched_status :: "string option"
  selected_compose :: "composer_call option"

datatype outcome = Completed | PartialFailure | Failed | Aborted | AbortedPartial

record abort_public =
  ap_options :: "string list"
  ap_count :: nat

record abort_internal =
  source_step_id :: string
  target_tool :: string
  arg_path :: string

text \<open>\<open>abort_kind\<close> is \<open>selector_ambiguity\<close> exactly when the details are present.\<close>

record execution_log =
  steps :: "step_result list"
  outcome :: outcome
  abort_details :: "(abort_public \<times> abort_internal) option"

definition by_step_id :: "execution_log \<Rightarrow> (string, step_result) dict" where
  "by_step_id log = fold (\<lambda>s d. dput d (step_id s) s) (steps log) []"

definition successful_step_ids :: "execution_log \<Rightarrow> string list" where
  "successful_step_ids log = map step_id (filter (\<lambda>s. status s = StOk) (steps log))"

definition terminal_composes :: "execution_log \<Rightarrow> (string \<times> composer_call) list" where
  "terminal_composes log =
     concat (map (\<lambda>s. case selected_compose s of
                        Some c \<Rightarrow> if status s = StOk then [(step_id s, c)] else []
                      | None \<Rightarrow> []) (steps log))"

definition terminal_compose :: "execution_log \<Rightarrow> composer_call option" where
  "terminal_compose log = (case terminal_composes log of [] \<Rightarrow> None | (s, c) # _ \<Rightarrow> Some c)"

section \<open>The environment\<close>

datatype call_result = Returned string nat | TimedOut nat | Raised string nat
  \<comment> \<open>raw output, nothing, or the exception, each with the elapsed milliseconds\<close>

record exec_env =
  env_registry :: registry
  tools_by_name :: "string set"
  tool_call :: "string \<Rightarrow> vdict \<Rightarrow> call_result"
  ledger_ids :: "(string \<times> string) option" \<comment> \<open>execution id and turn key when the ledger is enabled\<close>
  sha1hex :: "string \<Rightarrow> string"
  clock :: int
  open_fault :: "string \<Rightarrow> bool"
  mark_fault :: "string \<Rightarrow> bool"

datatype exec_exn =
    MissingSpec string string
  | MissingTool string string
  | EmptyTurnKey
  | EmptyExecutionId
  | IdentityExn identity_error
  | LedgerExn ledger_error
  | LedgerFault

section \<open>Branch matching\<close>

definition output_field :: "vdict \<Rightarrow> string \<Rightarrow> pyval" where
  "output_field out f = (case dget out f of None \<Rightarrow> VNone | Some v \<Rightarrow> v)"

definition branch_matches :: "vdict \<Rightarrow> outcome_branch \<Rightarrow> bool" where
  "branch_matches out b = list_all (\<lambda>(f, expected). py_eq (output_field out f) expected) (match b)"

fun match_from :: "nat \<Rightarrow> nat \<Rightarrow> outcome_branch list \<Rightarrow> vdict \<Rightarrow> (nat \<times> outcome_branch) option" where
  "match_from idx last_idx [] out = None"
| "match_from idx last_idx (b # bs) out =
     (if match b = [] then
        (if idx = last_idx then Some (idx, b) else match_from (Suc idx) last_idx bs out)
      else if branch_matches out b then Some (idx, b)
      else match_from (Suc idx) last_idx bs out)"

definition match_branch :: "outcome_branch list \<Rightarrow> vdict \<Rightarrow> (nat \<times> outcome_branch) option" where
  "match_branch bs out = match_from 0 (length bs - 1) bs out"

section \<open>One step\<close>

definition blank_result :: "string \<Rightarrow> string \<Rightarrow> step_status \<Rightarrow> summary option \<Rightarrow> step_result" where
  "blank_result sid t st sm =
     \<lparr>step_id = sid, sr_tool = t, status = st, parsed_output = None, raw_output = None,
      latency_ms = 0, error_summary = sm, matched_branch_index = None, matched_status = None,
      selected_compose = None\<rparr>"

definition state_value :: "(string, vdict) dict \<Rightarrow> vdict" where
  "state_value outs = map (\<lambda>(k, d). (k, VDict d)) outs"

text \<open>Resolving and validating the arguments; every failure here is before the invocation.\<close>

definition prepare_args :: "action \<Rightarrow> tool_spec \<Rightarrow> vdict \<Rightarrow> summary + vdict" where
  "prepare_args a spec st =
     (case resolve_selector_refs (VDict (args a)) st of
        Inl (SelAmbiguous p n opts) \<Rightarrow> Inl (SelectorAmbiguity (SelAmbiguous p n opts))
      | Inl e \<Rightarrow> Inl (SelectorResolve e)
      | Inr v \<Rightarrow>
          (case resolve_refs v st of
             Inl e \<Rightarrow> Inl (RefResolve e)
           | Inr r \<Rightarrow>
               (case unwrap_resolved r of
                  VDict d \<Rightarrow>
                    (case validate_args_at_execute_time spec d of
                       Inl ArgValidation \<Rightarrow> Inl ArgInvalid
                     | Inl ArgInternal \<Rightarrow> Inl ArgInternalError
                     | Inr d' \<Rightarrow> Inr d')
                | _ \<Rightarrow> Inl ArgInternalError)))"

text \<open>
  The result of an invocation, with the closing status for the ledger: none for a step
  without durable effect that did not end well.
\<close>

definition if_durable :: "tool_spec \<Rightarrow> string \<Rightarrow> string option" where
  "if_durable spec st = (if is_durable_write spec then Some st else None)"

definition finish_output ::
    "string \<Rightarrow> action \<Rightarrow> tool_spec \<Rightarrow> string \<Rightarrow> nat \<Rightarrow> step_result \<times> string option" where
  "finish_output sid a spec raw ms =
     (let base = (blank_result sid (tool a) StPlanGap None)\<lparr>raw_output := Some raw, latency_ms := ms\<rparr> in
      case process_output spec raw of
        Inl PlannerGap \<Rightarrow>
          (base\<lparr>error_summary := Some ContractViolation\<rparr>, if_durable spec ''unknown'')
      | Inl OutputInvalid \<Rightarrow>
          (base\<lparr>error_summary := Some ProcessOutputFailure\<rparr>, if_durable spec ''unknown'')
      | Inr out \<Rightarrow>
          (case match_branch (expected_outcomes a) out of
             None \<Rightarrow>
               (base\<lparr>status := StUnknownOutcome, parsed_output := Some out,
                     error_summary := Some (NoBranch (output_field out ''status''))\<rparr>,
                if_durable spec ''unknown'')
           | Some (i, b) \<Rightarrow>
               (base\<lparr>status := StOk, parsed_output := Some out, matched_branch_index := Some i,
                     matched_status := (case dget (match b) ''status'' of Some (VStr s) \<Rightarrow> Some s | _ \<Rightarrow> None),
                     selected_compose := br_compose b\<rparr>,
                Some ''committed'')))"

definition finish_step ::
    "string \<Rightarrow> action \<Rightarrow> tool_spec \<Rightarrow> call_result \<Rightarrow> step_result \<times> string option" where
  "finish_step sid a spec r =
     (case r of
        TimedOut ms \<Rightarrow>
          ((blank_result sid (tool a) StTimeout (Some (TimeoutAfter (timeout_seconds spec))))\<lparr>latency_ms := ms\<rparr>,
           if_durable spec ''unknown_pending'')
      | Raised e ms \<Rightarrow>
          ((blank_result sid (tool a) StError (Some (ToolException e)))\<lparr>latency_ms := ms\<rparr>,
           if_durable spec ''unknown'')
      | Returned raw ms \<Rightarrow> finish_output sid a spec raw ms)"

text \<open>\<open>_execute_one_step\<close>: the new ledger, the invocations made, and the result or exception.\<close>

type_synonym calls = "(string \<times> vdict) list"

definition open_for :: "exec_env \<Rightarrow> ledger \<Rightarrow> string \<Rightarrow> action \<Rightarrow> exec_exn + ledger" where
  "open_for env led sid a =
     (case ledger_ids env of
        None \<Rightarrow> Inr led
      | Some (exid, turn) \<Rightarrow>
          (case allocate_operation_id (sha1hex env) turn sid (tool a) of
             Inl e \<Rightarrow> Inl (IdentityExn e)
           | Inr op \<Rightarrow>
               if open_fault env sid then Inl LedgerFault
               else (case open_step led (exid, sid) (Some (tool a)) op (clock env) of
                       Inl e \<Rightarrow> Inl (LedgerExn e)
                     | Inr (led', row) \<Rightarrow> Inr led')))"

definition close_for :: "exec_env \<Rightarrow> ledger \<Rightarrow> string \<Rightarrow> string option \<Rightarrow> ledger" where
  "close_for env led sid mk =
     (case (ledger_ids env, mk) of
        (Some (exid, turn), Some st) \<Rightarrow>
          best_effort_mark (mark_fault env sid) led (exid, sid) st (clock env)
      | _ \<Rightarrow> led)"

definition execute_one_step ::
    "exec_env \<Rightarrow> vdict \<Rightarrow> ledger \<Rightarrow> string \<Rightarrow> action \<Rightarrow> tool_spec \<Rightarrow>
     ledger \<times> calls \<times> (exec_exn + step_result)" where
  "execute_one_step env snap led sid a spec =
     (case prepare_args a spec snap of
        Inl sm \<Rightarrow> (led, [], Inr (blank_result sid (tool a) StArgViolation (Some sm)))
      | Inr d \<Rightarrow>
          (case open_for env led sid a of
             Inl e \<Rightarrow> (led, [], Inl e)
           | Inr led1 \<Rightarrow>
               (case finish_step sid a spec (tool_call env sid d) of
                  (r, mk) \<Rightarrow> (close_for env led1 sid mk, [(sid, d)], Inr r))))"

section \<open>Batches\<close>

text \<open>
  Two steps of one \<open>honest_partial\<close> group are never in the same batch. \<open>None\<close> in
  \<open>fail_modes\<close> counts as \<open>honest_partial\<close>.
\<close>

definition group_of :: "plan \<Rightarrow> string \<Rightarrow> string" where
  "group_of p sid = (case dget (actions p) sid of None \<Rightarrow> [] | Some a \<Rightarrow> intent_group a)"

definition is_honest :: "execution_plan \<Rightarrow> string \<Rightarrow> bool" where
  "is_honest ep g = (dget (fail_modes ep) g \<noteq> Some Partial)"

fun layer_batches_loop ::
    "(string \<Rightarrow> string) \<Rightarrow> (string \<Rightarrow> bool) \<Rightarrow> string list \<Rightarrow> string set \<Rightarrow> string list \<Rightarrow> string list list" where
  "layer_batches_loop grp honest current seen [] = (if current = [] then [] else [current])"
| "layer_batches_loop grp honest current seen (sid # sids) =
     (if honest (grp sid) \<and> grp sid \<in> seen
      then current # layer_batches_loop grp honest [sid] {grp sid} sids
      else layer_batches_loop grp honest (current @ [sid])
             (if honest (grp sid) then insert (grp sid) seen else seen) sids)"

definition build_layer_batches :: "execution_plan \<Rightarrow> string list \<Rightarrow> string list list" where
  "build_layer_batches ep sids =
     layer_batches_loop (group_of (ep_plan ep)) (is_honest ep) [] {} sids"

section \<open>The state of an execution\<close>

record exec_state =
  step_outputs :: "(string, vdict) dict"
  failed_intent_groups :: "string set"
  enabled :: "string set"
  skipped_step_ids :: "string set"
  failed_step_ids :: "(string, step_status) dict"
  results :: "step_result list"
  aborted :: "abort_reason option"
  abort_info :: "(abort_public \<times> abort_internal) option"
  st_ledger :: ledger
  st_calls :: calls
  crash :: "exec_exn option"

definition compute_enabled_initial :: "actions \<Rightarrow> string set" where
  "compute_enabled_initial acts =
     set (dkeys acts) -
     set (concat (map (\<lambda>(sid, a). concat (map (\<lambda>b. case next_step b of None \<Rightarrow> [] | Some n \<Rightarrow> [n])
        (expected_outcomes a))) acts))"

definition build_data_dep_graph :: "actions \<Rightarrow> graph" where
  "build_data_dep_graph acts = map (\<lambda>(sid, a). (sid, args_producers acts sid a)) acts"

definition data_deps :: "actions \<Rightarrow> string \<Rightarrow> string set" where
  "data_deps acts sid = (case dget (build_data_dep_graph acts) sid of None \<Rightarrow> {} | Some ds \<Rightarrow> ds)"

definition tool_of :: "plan \<Rightarrow> string \<Rightarrow> string" where
  "tool_of p sid = (case dget (actions p) sid of None \<Rightarrow> ''<unknown>'' | Some a \<Rightarrow> tool a)"

definition skip_result :: "plan \<Rightarrow> string \<Rightarrow> skip_reason \<Rightarrow> step_result" where
  "skip_result p sid why = blank_result sid (tool_of p sid) StSkipped (Some (SkippedBecause why))"

definition record_skip :: "plan \<Rightarrow> skip_reason \<Rightarrow> string \<Rightarrow> exec_state \<Rightarrow> exec_state" where
  "record_skip p why sid S =
     S\<lparr>results := results S @ [skip_result p sid why],
       skipped_step_ids := insert sid (skipped_step_ids S)\<rparr>"

section \<open>Partitioning a layer\<close>

definition status_name :: "step_status \<Rightarrow> string" where
  "status_name st = (case st of StOk \<Rightarrow> ''ok'' | StError \<Rightarrow> ''error'' | StTimeout \<Rightarrow> ''timeout''
     | StUnknownOutcome \<Rightarrow> ''unknown_outcome'' | StPlanGap \<Rightarrow> ''plan_gap''
     | StArgViolation \<Rightarrow> ''arg_violation'' | StSkipped \<Rightarrow> ''skipped'')"

definition skip_check :: "execution_plan \<Rightarrow> exec_state \<Rightarrow> string \<Rightarrow> skip_reason option" where
  "skip_check ep S sid =
     (let deps = data_deps (actions (ep_plan ep)) sid;
          unavailable_skipped = filter (\<lambda>d. d \<in> skipped_step_ids S) (dkeys (actions (ep_plan ep)));
          unavailable_failed = filter (\<lambda>(d, st). d \<in> deps) (failed_step_ids S);
          g = group_of (ep_plan ep) sid
      in if sid \<notin> enabled S then Some BranchNotSelected
         else if deps \<inter> skipped_step_ids S \<noteq> {}
         then Some (UpstreamSkipped (sort (filter (\<lambda>d. d \<in> deps) unavailable_skipped)))
         else if unavailable_failed \<noteq> []
         then Some (UpstreamUnavailable
                (sort (map (\<lambda>(d, st). status_name st @ '':'' @ d) unavailable_failed)))
         else if is_honest ep g \<and> g \<in> failed_intent_groups S then Some HonestGroupFailed
         else None)"

fun partition_runnable :: "execution_plan \<Rightarrow> string list \<Rightarrow> exec_state \<Rightarrow> exec_state \<times> string list" where
  "partition_runnable ep [] S = (S, [])"
| "partition_runnable ep (sid # sids) S =
     (case skip_check ep S sid of
        Some why \<Rightarrow> partition_runnable ep sids (record_skip (ep_plan ep) why sid S)
      | None \<Rightarrow> (case partition_runnable ep sids S of (S', run) \<Rightarrow> (S', sid # run)))"

text \<open>The filter before each batch: groups that failed in an earlier batch of the layer.\<close>

fun refilter_batch :: "execution_plan \<Rightarrow> string list \<Rightarrow> exec_state \<Rightarrow> exec_state \<times> string list" where
  "refilter_batch ep [] S = (S, [])"
| "refilter_batch ep (sid # sids) S =
     (let g = group_of (ep_plan ep) sid in
      if is_honest ep g \<and> g \<in> failed_intent_groups S
      then refilter_batch ep sids (record_skip (ep_plan ep) HonestGroupFailed sid S)
      else (case refilter_batch ep sids S of (S', run) \<Rightarrow> (S', sid # run)))"

section \<open>The selector barrier\<close>

definition action_of :: "plan \<Rightarrow> string \<Rightarrow> action option" where
  "action_of p sid = dget (actions p) sid"

fun find_ambiguous :: "plan \<Rightarrow> vdict \<Rightarrow> string list \<Rightarrow> (string \<times> string \<times> nat \<times> string list) option" where
  "find_ambiguous p snap [] = None"
| "find_ambiguous p snap (sid # sids) =
     (case action_of p sid of
        None \<Rightarrow> find_ambiguous p snap sids
      | Some a \<Rightarrow>
          (case resolve_selector_refs (VDict (args a)) snap of
             Inl (SelAmbiguous path n opts) \<Rightarrow> Some (sid, path, n, opts)
           | _ \<Rightarrow> find_ambiguous p snap sids))"

definition barrier_abort ::
    "execution_plan \<Rightarrow> string list \<Rightarrow> string list list \<Rightarrow> string \<times> string \<times> nat \<times> string list \<Rightarrow>
     exec_state \<Rightarrow> exec_state" where
  "barrier_abort ep batch later amb S =
     (case amb of (sid, path, n, opts) \<Rightarrow>
        let p = ep_plan ep;
            why = Halted (AbortStatus StArgViolation);
            src = (if path \<noteq> [] then hd (split_on (CHR ''.'') path) else sid);
            r = blank_result sid (tool_of p sid) StArgViolation
                  (Some (BarrierAmbiguity (SelAmbiguous path n opts)));
            S1 = S\<lparr>aborted := Some (AbortStatus StArgViolation),
                   abort_info := Some (\<lparr>ap_options = opts, ap_count = n\<rparr>,
                     \<lparr>source_step_id = src, target_tool = tool_of p sid, arg_path = path\<rparr>),
                   results := results S @ [r]\<rparr>
        in fold (record_skip p why) (filter (\<lambda>s. s \<noteq> sid) batch @ concat later) S1)"

section \<open>Running a batch\<close>

text \<open>Building the coroutines fails for a step without specification or tool.\<close>

fun check_batch :: "exec_env \<Rightarrow> plan \<Rightarrow> string list \<Rightarrow> exec_exn option" where
  "check_batch env p [] = None"
| "check_batch env p (sid # sids) =
     (if dget (env_registry env) (tool_of p sid) = None then Some (MissingSpec sid (tool_of p sid))
      else if tool_of p sid \<notin> tools_by_name env then Some (MissingTool sid (tool_of p sid))
      else check_batch env p sids)"

text \<open>
  \<open>asyncio.gather\<close>: every coroutine runs to its end; the first exception, in batch order, is
  what is raised.
\<close>

fun run_batch ::
    "exec_env \<Rightarrow> plan \<Rightarrow> vdict \<Rightarrow> string list \<Rightarrow> ledger \<Rightarrow> ledger \<times> calls \<times> (exec_exn + step_result list)" where
  "run_batch env p snap [] led = (led, [], Inr [])"
| "run_batch env p snap (sid # sids) led =
     (case (action_of p sid, dget (env_registry env) (tool_of p sid)) of
        (Some a, Some spec) \<Rightarrow>
          (case execute_one_step env snap led sid a spec of
             (led1, cs1, r1) \<Rightarrow>
               (case run_batch env p snap sids led1 of
                  (led2, cs2, rs) \<Rightarrow>
                    (led2, cs1 @ cs2, bind_res r1 (\<lambda>r. bind_res rs (\<lambda>rs. Inr (r # rs))))))
      | _ \<Rightarrow> (led, [], Inl (MissingSpec sid (tool_of p sid))))"

definition is_write_tool :: "registry \<Rightarrow> string \<Rightarrow> bool" where
  "is_write_tool reg t = (case dget reg t of None \<Rightarrow> True | Some s \<Rightarrow> effect s = EffWrite)"

definition fail_group :: "execution_plan \<Rightarrow> string \<Rightarrow> exec_state \<Rightarrow> exec_state" where
  "fail_group ep g S =
     (if is_honest ep g then S\<lparr>failed_intent_groups := insert g (failed_intent_groups S)\<rparr> else S)"

text \<open>The loop over the gathered results; the outputs become visible after the layer.\<close>

definition process_result ::
    "execution_plan \<Rightarrow> registry \<Rightarrow> string \<times> step_result \<Rightarrow>
     exec_state \<times> (string, vdict) dict \<Rightarrow> exec_state \<times> (string, vdict) dict" where
  "process_result ep reg sr So =
     (case (sr, So) of ((sid, r), (S0, outs)) \<Rightarrow>
        let S = S0\<lparr>results := results S0 @ [r]\<rparr>;
            g = group_of (ep_plan ep) sid
        in case status r of
             StOk \<Rightarrow>
               (case (matched_branch_index r, action_of (ep_plan ep) sid) of
                  (Some i, Some a) \<Rightarrow>
                    (case next_step (expected_outcomes a ! i) of
                       Some n \<Rightarrow> S\<lparr>enabled := insert n (enabled S)\<rparr>
                     | None \<Rightarrow> S)
                | _ \<Rightarrow> S, dput outs sid (case parsed_output r of None \<Rightarrow> [] | Some d \<Rightarrow> d))
           | StError \<Rightarrow> (fail_group ep g (S\<lparr>failed_step_ids := dput (failed_step_ids S) sid StError\<rparr>), outs)
           | StTimeout \<Rightarrow>
               (let S1 = S\<lparr>failed_step_ids := dput (failed_step_ids S) sid StTimeout\<rparr> in
                if is_write_tool reg (tool_of (ep_plan ep) sid) \<and> aborted S1 = None
                then S1\<lparr>aborted := Some AbortWriteTimeout\<rparr>
                else fail_group ep g S1, outs)
           | StSkipped \<Rightarrow> (fail_group ep g (S\<lparr>failed_step_ids := dput (failed_step_ids S) sid StSkipped\<rparr>), outs)
           | st \<Rightarrow> (if aborted S = None then S\<lparr>aborted := Some (AbortStatus st)\<rparr> else S, outs))"

text \<open>The batches of one layer. A state with \<open>crash\<close> set is the raised exception.\<close>

definition drain :: "execution_plan \<Rightarrow> abort_reason \<Rightarrow> string list \<Rightarrow> exec_state \<Rightarrow> exec_state" where
  "drain ep why sids S = fold (record_skip (ep_plan ep) (Halted why)) sids S"

definition gather_batch ::
    "exec_env \<Rightarrow> execution_plan \<Rightarrow> vdict \<Rightarrow> string list \<Rightarrow> exec_state \<times> (string, vdict) dict \<Rightarrow>
     exec_state \<times> (string, vdict) dict" where
  "gather_batch env ep snap batch So =
     (case So of (S, outs) \<Rightarrow>
        case run_batch env (ep_plan ep) snap batch (st_ledger S) of
          (led, cs, rs) \<Rightarrow>
            let S1 = S\<lparr>st_ledger := led, st_calls := st_calls S @ cs\<rparr>
            in case rs of
                 Inl e \<Rightarrow> (S1\<lparr>crash := Some e\<rparr>, outs)
               | Inr rs \<Rightarrow> fold (process_result ep (env_registry env)) (zip batch rs) (S1, outs))"

fun run_batches ::
    "exec_env \<Rightarrow> execution_plan \<Rightarrow> vdict \<Rightarrow> string list list \<Rightarrow> exec_state \<times> (string, vdict) dict \<Rightarrow>
     exec_state \<times> (string, vdict) dict" where
  "run_batches env ep snap [] So = So"
| "run_batches env ep snap (batch # later) (S0, outs) =
     (case refilter_batch ep batch S0 of
        (S, filtered) \<Rightarrow>
          if filtered = [] then run_batches env ep snap later (S, outs)
          else (case find_ambiguous (ep_plan ep) snap filtered of
                  Some amb \<Rightarrow> (barrier_abort ep filtered later amb S, outs)
                | None \<Rightarrow>
                    (case check_batch env (ep_plan ep) filtered of
                       Some e \<Rightarrow> (S\<lparr>crash := Some e\<rparr>, outs)
                     | None \<Rightarrow>
                         (case gather_batch env ep snap filtered (S, outs) of
                            (S1, outs1) \<Rightarrow>
                              if crash S1 \<noteq> None then (S1, outs1)
                              else (case aborted S1 of
                                      Some why \<Rightarrow> (drain ep why (concat later) S1, outs1)
                                    | None \<Rightarrow> run_batches env ep snap later (S1, outs1))))))"

text \<open>One layer, all layers.\<close>

definition run_layer :: "exec_env \<Rightarrow> execution_plan \<Rightarrow> string list \<Rightarrow> exec_state \<Rightarrow> exec_state" where
  "run_layer env ep layer S =
     (case aborted S of
        Some why \<Rightarrow> drain ep why layer S
      | None \<Rightarrow>
          (case partition_runnable ep layer S of
             (S1, runnable) \<Rightarrow>
               if runnable = [] then S1
               else (case run_batches env ep (state_value (step_outputs S1))
                            (build_layer_batches ep runnable) (S1, []) of
                       (S2, outs) \<Rightarrow>
                         if crash S2 \<noteq> None then S2
                         else S2\<lparr>step_outputs := fold (\<lambda>(k, d) o'. dput o' k d) outs (step_outputs S2)\<rparr>)))"

fun run_layers :: "exec_env \<Rightarrow> execution_plan \<Rightarrow> string list list \<Rightarrow> exec_state \<Rightarrow> exec_state" where
  "run_layers env ep [] S = S"
| "run_layers env ep (l # ls) S =
     (let S' = run_layer env ep l S in if crash S' \<noteq> None then S' else run_layers env ep ls S')"

section \<open>The outcome\<close>

definition may_have_committed_write :: "registry \<Rightarrow> step_result \<Rightarrow> bool" where
  "may_have_committed_write reg r =
     (if status r \<notin> {StOk, StUnknownOutcome, StPlanGap, StTimeout} then False
      else case dget reg (sr_tool r) of
        None \<Rightarrow> True
      | Some spec \<Rightarrow>
          if effect spec \<noteq> EffWrite then False
          else (case (status r, committed_statuses spec) of
                  (StOk, Some cs) \<Rightarrow>
                    (case output_field (case parsed_output r of None \<Rightarrow> [] | Some d \<Rightarrow> d) ''status'' of
                       VStr s \<Rightarrow> s \<in> set cs
                     | _ \<Rightarrow> True)
                | _ \<Rightarrow> True))"

definition summarise_outcome :: "step_result list \<Rightarrow> bool \<Rightarrow> registry \<Rightarrow> outcome" where
  "summarise_outcome rs ab reg =
     (if ab then (if list_ex (may_have_committed_write reg) rs then AbortedPartial else Aborted)
      else let relevant = filter (\<lambda>r. status r \<noteq> StSkipped) rs;
               has_failure = list_ex (\<lambda>r. status r \<in> {StError, StTimeout}) relevant;
               has_success = list_ex (\<lambda>r. status r = StOk) relevant
           in if has_failure \<and> has_success then PartialFailure
              else if has_failure then Failed else Completed)"

section \<open>The public entry\<close>

definition initial_state :: "actions \<Rightarrow> ledger \<Rightarrow> exec_state" where
  "initial_state acts led =
     \<lparr>step_outputs = [], failed_intent_groups = {}, enabled = compute_enabled_initial acts,
      skipped_step_ids = {}, failed_step_ids = [], results = [], aborted = None, abort_info = None,
      st_ledger = led, st_calls = [], crash = None\<rparr>"

definition ledger_precondition :: "exec_env \<Rightarrow> exec_exn option" where
  "ledger_precondition env =
     (case ledger_ids env of
        None \<Rightarrow> None
      | Some (exid, turn) \<Rightarrow>
          if turn = [] then Some EmptyTurnKey else if exid = [] then Some EmptyExecutionId else None)"

definition final_state :: "exec_env \<Rightarrow> execution_plan \<Rightarrow> ledger \<Rightarrow> exec_state" where
  "final_state env ep led = run_layers env ep (layers ep) (initial_state (actions (ep_plan ep)) led)"

definition execute_plan ::
    "exec_env \<Rightarrow> execution_plan \<Rightarrow> ledger \<Rightarrow> ledger \<times> calls \<times> (exec_exn + execution_log)" where
  "execute_plan env ep led =
     (case ledger_precondition env of
        Some e \<Rightarrow> (led, [], Inl e)
      | None \<Rightarrow>
          if layers ep = []
          then (led, [], Inr \<lparr>steps = [], outcome = Completed, abort_details = None\<rparr>)
          else (let S = final_state env ep led in
                (st_ledger S, st_calls S,
                 case crash S of
                   Some e \<Rightarrow> Inl e
                 | None \<Rightarrow>
                     Inr \<lparr>steps = results S,
                          outcome = summarise_outcome (results S) (aborted S \<noteq> None) (env_registry env),
                          abort_details = abort_info S\<rparr>)))"

section \<open>Composing after an execution\<close>

text \<open>
  \<open>clarification_compose_for_abort\<close> and the choice made by \<open>compose_for_execution\<close> in
  \<open>runtime/planner/selector.py\<close>. The generic acknowledgement is a constant text.
\<close>

definition clarification_compose_for_abort :: "string \<Rightarrow> execution_log \<Rightarrow> composer_call option" where
  "clarification_compose_for_abort done_text log =
     (case abort_details log of
        None \<Rightarrow> None
      | Some (pub, priv) \<Rightarrow>
          let d = [(''options'', VList (map VStr (ap_options pub))), (''count'', VInt (int (ap_count pub)))];
              partial = (outcome log = AbortedPartial)
          in Some \<lparr>cc_kind = KTemplate, template_id = Some ''selector_ambiguity_clarification'',
               template_data = d @ [(''partial'', VBool partial)] @
                 (if partial then [(''done_summary'', VStr done_text)] else []),
               llm_prompt_key = None\<rparr>)"

definition effective_call :: "string \<Rightarrow> composer_call \<Rightarrow> execution_log \<Rightarrow> composer_call" where
  "effective_call done_text plan_call log =
     (case clarification_compose_for_abort done_text log of Some c \<Rightarrow> c | None \<Rightarrow> plan_call)"

end
