(* ===== verification/ExecutorProps.thy ===== *)
theory ExecutorProps
  imports Executor
begin

text \<open>
  What an execution guarantees. The central invariant \<open>exec_inv\<close> speaks about the log as it
  grows: every entry is justified by the entries before it, the bookkeeping sets of the
  executor are functions of the log, and the calls and the ledger agree with it.
\<close>

section \<open>Reading the log\<close>

definition next_of :: "execution_plan \<Rightarrow> step_result \<Rightarrow> string option" where
  "next_of ep r =
     (case (matched_branch_index r, action_of (ep_plan ep) (step_id r)) of
        (Some i, Some a) \<Rightarrow> next_step (expected_outcomes a ! i)
      | _ \<Rightarrow> None)"

definition invoked :: "step_result \<Rightarrow> bool" where
  "invoked r \<longleftrightarrow> status r \<notin> {StSkipped, StArgViolation}"

text \<open>The data dependencies of a step have all ended well, and something leads to it.\<close>

definition reached :: "execution_plan \<Rightarrow> step_result list \<Rightarrow> string \<Rightarrow> bool" where
  "reached ep xs sid \<longleftrightarrow>
     (\<forall>d\<in>data_needs (actions (ep_plan ep)) sid. \<exists>q\<in>set xs. step_id q = d \<and> status q = StOk) \<and>
     (sid \<in> compute_enabled_initial (actions (ep_plan ep)) \<or>
      (\<exists>q\<in>set xs. status q = StOk \<and> next_of ep q = Some sid))"

text \<open>No step of its group went wrong before, if the group is \<open>honest_partial\<close>.\<close>

definition group_clean :: "execution_plan \<Rightarrow> step_result list \<Rightarrow> string \<Rightarrow> bool" where
  "group_clean ep xs sid \<longleftrightarrow>
     (is_honest ep (group_of (ep_plan ep) sid) \<longrightarrow>
      (\<forall>q\<in>set xs. group_of (ep_plan ep) (step_id q) = group_of (ep_plan ep) sid \<longrightarrow>
         status q \<in> {StOk, StSkipped}))"

definition entry_ok :: "execution_plan \<Rightarrow> step_result list \<Rightarrow> step_result \<Rightarrow> bool" where
  "entry_ok ep xs r \<longleftrightarrow>
     (status r \<noteq> StSkipped \<longrightarrow> reached ep xs (step_id r) \<and> group_clean ep xs (step_id r))"

definition log_ok :: "execution_plan \<Rightarrow> step_result list \<Rightarrow> bool" where
  "log_ok ep rs \<longleftrightarrow> (\<forall>i < length rs. entry_ok ep (take i rs) (rs ! i))"

lemma log_ok_Nil [simp]: "log_ok ep []"
  by (simp add: log_ok_def)

lemma log_ok_snoc [simp]: "log_ok ep (rs @ [r]) \<longleftrightarrow> log_ok ep rs \<and> entry_ok ep rs r"
  by (auto simp: log_ok_def nth_append less_Suc_eq)

lemma log_okD: "log_ok ep (xs @ r # ys) \<Longrightarrow> entry_ok ep xs r"
  by (auto simp: log_ok_def dest: spec [of _ "length xs"])

lemma reached_mono: "reached ep xs sid \<Longrightarrow> set xs \<subseteq> set ys \<Longrightarrow> reached ep ys sid"
  unfolding reached_def by blast

lemma data_deps_needs: "data_deps acts sid = data_needs acts sid"
  using build_args_dep_graph_simps(2) [of acts sid]
  by (auto simp: data_deps_def build_data_dep_graph_def build_args_dep_graph_def data_needs_def
      split: option.splits)

section \<open>The status a ledger row is closed with\<close>

definition closing :: "tool_spec \<Rightarrow> step_status \<Rightarrow> string" where
  "closing spec st =
     (case st of
        StOk \<Rightarrow> ''committed''
      | StTimeout \<Rightarrow> if is_durable_write spec then ''unknown_pending'' else ''started''
      | _ \<Rightarrow> if is_durable_write spec then ''unknown'' else ''started'')"

text \<open>
  The ledger after a log: an invoked step has a row, closed as \<open>closing\<close> says unless the
  closing write failed, in which case it is still \<open>started\<close>; other rows are as before.
\<close>

definition ledger_agrees :: "exec_env \<Rightarrow> ledger \<Rightarrow> ledger \<Rightarrow> step_result list \<Rightarrow> bool" where
  "ledger_agrees env led0 led rs \<longleftrightarrow>
     (case ledger_ids env of
        None \<Rightarrow> led = led0
      | Some (exid, turn) \<Rightarrow>
          (\<forall>r\<in>set rs. invoked r \<longrightarrow>
             (\<exists>spec row. dget (env_registry env) (sr_tool r) = Some spec \<and>
                dget led (exid, step_id r) = Some row \<and> lr_tool row = Some (sr_tool r) \<and>
                allocate_operation_id (sha1hex env) turn (step_id r) (sr_tool r) =
                  Inr (lr_operation_id row) \<and>
                lr_status row = (if mark_fault env (step_id r) then ''started''
                                 else closing spec (status r)))) \<and>
          (\<forall>k. (\<forall>r\<in>set rs. invoked r \<longrightarrow> k \<noteq> (exid, step_id r)) \<longrightarrow> dget led k = dget led0 k))"

section \<open>The invariant\<close>

definition books_ok :: "execution_plan \<Rightarrow> exec_state \<Rightarrow> bool" where
  "books_ok ep S \<longleftrightarrow>
     log_ok ep (results S) \<and>
     skipped_step_ids S = set (map step_id (filter (\<lambda>r. status r = StSkipped) (results S))) \<and>
     set (dkeys (failed_step_ids S)) =
       set (map step_id (filter (\<lambda>r. status r \<in> {StError, StTimeout}) (results S))) \<and>
     enabled S = compute_enabled_initial (actions (ep_plan ep)) \<union>
       {n. \<exists>q\<in>set (results S). status q = StOk \<and> next_of ep q = Some n} \<and>
     (\<forall>r\<in>set (results S). sr_tool r = tool_of (ep_plan ep) (step_id r))"

definition calls_ok :: "exec_state \<Rightarrow> bool" where
  "calls_ok S \<longleftrightarrow> map fst (st_calls S) = map step_id (filter invoked (results S))"

definition quiet :: "execution_plan \<Rightarrow> registry \<Rightarrow> exec_state \<Rightarrow> bool" where
  "quiet ep reg S \<longleftrightarrow>
     (\<forall>r\<in>set (results S).
        status r \<notin> {StUnknownOutcome, StPlanGap, StArgViolation} \<and>
        (status r = StTimeout \<longrightarrow> \<not> is_write_tool reg (sr_tool r)) \<and>
        (status r \<in> {StError, StTimeout} \<and> is_honest ep (group_of (ep_plan ep) (step_id r)) \<longrightarrow>
           group_of (ep_plan ep) (step_id r) \<in> failed_intent_groups S))"

definition exec_inv :: "exec_env \<Rightarrow> execution_plan \<Rightarrow> ledger \<Rightarrow> exec_state \<Rightarrow> bool" where
  "exec_inv env ep led0 S \<longleftrightarrow>
     books_ok ep S \<and> calls_ok S \<and>
     (aborted S = None \<longrightarrow> quiet ep (env_registry env) S) \<and>
     ledger_agrees env led0 (st_ledger S) (results S)"

subsection \<open>Skipping\<close>

lemma skip_result_simps [simp]:
  "step_id (skip_result p sid why) = sid" "status (skip_result p sid why) = StSkipped"
  "sr_tool (skip_result p sid why) = tool_of p sid" "\<not> invoked (skip_result p sid why)"
  by (simp_all add: skip_result_def blank_result_def invoked_def)

lemma ledger_agrees_not_invoked [simp]:
  "\<not> invoked r \<Longrightarrow> ledger_agrees env led0 led (rs @ [r]) = ledger_agrees env led0 led rs"
  by (simp add: ledger_agrees_def split: option.split prod.split)

lemma record_skip_simps [simp]:
  "results (record_skip p why sid S) = results S @ [skip_result p sid why]"
  "aborted (record_skip p why sid S) = aborted S" "crash (record_skip p why sid S) = crash S"
  "failed_intent_groups (record_skip p why sid S) = failed_intent_groups S"
  "enabled (record_skip p why sid S) = enabled S"
  "failed_step_ids (record_skip p why sid S) = failed_step_ids S"
  "st_ledger (record_skip p why sid S) = st_ledger S" "st_calls (record_skip p why sid S) = st_calls S"
  "step_outputs (record_skip p why sid S) = step_outputs S"
  "abort_info (record_skip p why sid S) = abort_info S"
  "skipped_step_ids (record_skip p why sid S) = insert sid (skipped_step_ids S)"
  by (simp_all add: record_skip_def)

lemma exec_inv_skip [inv_intros]:
  assumes "exec_inv env ep led0 S"
  shows "exec_inv env ep led0 (record_skip (ep_plan ep) why sid S)"
proof -
  have "books_ok ep (record_skip (ep_plan ep) why sid S)"
    using assms unfolding exec_inv_def books_ok_def by (auto simp: entry_ok_def)
  moreover have "ledger_agrees env led0 (st_ledger S) (results S @ [skip_result (ep_plan ep) sid why])"
    using assms by (simp add: exec_inv_def)
  ultimately show ?thesis using assms by (auto simp: exec_inv_def quiet_def calls_ok_def)
qed

text \<open>What a run of skips leaves alone.\<close>

definition only_skips :: "execution_plan \<Rightarrow> exec_state \<Rightarrow> exec_state \<Rightarrow> string list \<Rightarrow> bool" where
  "only_skips ep S S' sids \<longleftrightarrow>
     (\<exists>rs. results S' = results S @ rs \<and> map step_id rs = sids \<and> (\<forall>r\<in>set rs. status r = StSkipped)) \<and>
     aborted S' = aborted S \<and> crash S' = crash S \<and> failed_intent_groups S' = failed_intent_groups S \<and>
     enabled S' = enabled S \<and> failed_step_ids S' = failed_step_ids S \<and> st_ledger S' = st_ledger S \<and>
     st_calls S' = st_calls S \<and> step_outputs S' = step_outputs S \<and> abort_info S' = abort_info S"

lemma only_skips_refl [simp]: "only_skips ep S S []"
  by (auto simp: only_skips_def)

lemma only_skips_step: "only_skips ep (record_skip p why sid S) S' sids \<Longrightarrow> only_skips ep S S' (sid # sids)"
  by (auto simp: only_skips_def)

lemma fold_skips:
  "exec_inv env ep led0 S \<Longrightarrow>
     exec_inv env ep led0 (fold (record_skip (ep_plan ep) why) sids S) \<and>
     only_skips ep S (fold (record_skip (ep_plan ep) why) sids S) sids"
proof (induction sids arbitrary: S)
  case (Cons sid sids)
  from Cons.IH [OF exec_inv_skip [OF Cons.prems, of why sid]] show ?case
    by (auto intro: only_skips_step)
qed simp

text \<open>A step that may run now, and batches that keep \<open>honest_partial\<close> groups apart.\<close>

definition runnable_now :: "execution_plan \<Rightarrow> exec_state \<Rightarrow> string \<Rightarrow> bool" where
  "runnable_now ep S sid \<longleftrightarrow> reached ep (results S) sid"

definition apart :: "execution_plan \<Rightarrow> string list \<Rightarrow> bool" where
  "apart ep sids \<longleftrightarrow>
     distinct (filter (is_honest ep) (map (group_of (ep_plan ep)) sids))"

lemma apart_Cons:
  "apart ep (s # sids) \<Longrightarrow> apart ep sids \<and>
     (is_honest ep (group_of (ep_plan ep) s) \<longrightarrow>
      (\<forall>t\<in>set sids. group_of (ep_plan ep) t \<noteq> group_of (ep_plan ep) s))"
  by (auto simp: apart_def image_iff split: if_splits)

lemma only_skips_reached:
  "only_skips ep S S' sids \<Longrightarrow> reached ep (results S) s \<Longrightarrow> reached ep (results S') s"
  by (erule reached_mono) (auto simp: only_skips_def)

subsection \<open>Partitioning and refiltering\<close>

lemma quiet_ok:
  "quiet ep reg S \<Longrightarrow> r \<in> set (results S) \<Longrightarrow> status r \<in> {StOk, StError, StTimeout, StSkipped}"
  unfolding quiet_def by (cases "status r") auto

lemma skip_check_None:
  assumes "exec_inv env ep led0 S" and "aborted S = None" and "skip_check ep S sid = None"
    and "data_needs (actions (ep_plan ep)) sid \<subseteq> step_id ` set (results S)"
  shows "reached ep (results S) sid \<and>
    \<not> (is_honest ep (group_of (ep_plan ep) sid) \<and> group_of (ep_plan ep) sid \<in> failed_intent_groups S)"
proof -
  let ?acts = "actions (ep_plan ep)"
  from assms(1,2) have b: "books_ok ep S" and q: "quiet ep (env_registry env) S"
    by (simp_all add: exec_inv_def)
  from assms(3) have en: "sid \<in> enabled S"
    and sk: "data_needs ?acts sid \<inter> skipped_step_ids S = {}"
    and fl: "data_needs ?acts sid \<inter> set (dkeys (failed_step_ids S)) = {}"
    and g: "\<not> (is_honest ep (group_of (ep_plan ep) sid) \<and> group_of (ep_plan ep) sid \<in> failed_intent_groups S)"
    by (force simp: skip_check_def Let_def data_deps_needs filter_empty_conv split: if_splits)+
  have "\<exists>r\<in>set (results S). step_id r = d \<and> status r = StOk" if d: "d \<in> data_needs ?acts sid" for d
  proof -
    from assms(4) d obtain r where r: "r \<in> set (results S)" "step_id r = d" by auto
    from quiet_ok [OF q r(1)] sk fl b r d have "status r = StOk"
      by (fastforce simp: books_ok_def)
    with r show ?thesis by blast
  qed
  moreover have "sid \<in> compute_enabled_initial ?acts \<or>
      (\<exists>q\<in>set (results S). status q = StOk \<and> next_of ep q = Some sid)"
    using en b by (auto simp: books_ok_def)
  ultimately show ?thesis using g by (simp add: reached_def)
qed

lemma partition_runnable:
  "exec_inv env ep led0 S \<Longrightarrow> aborted S = None \<Longrightarrow>
     \<forall>s\<in>set layer. data_needs (actions (ep_plan ep)) s \<subseteq> step_id ` set (results S) \<Longrightarrow>
     partition_runnable ep layer S = (S', run) \<Longrightarrow>
     \<exists>sk. exec_inv env ep led0 S' \<and> only_skips ep S S' sk \<and> mset sk + mset run = mset layer \<and>
       (\<forall>s\<in>set run. reached ep (results S') s)"
proof (induction layer arbitrary: S S' run)
  case (Cons s layer)
  show ?case
  proof (cases "skip_check ep S s")
    case None
    then obtain run' where r: "partition_runnable ep layer S = (S', run')" "run = s # run'"
      using Cons.prems(4) by (auto split: prod.splits)
    from Cons.IH [OF Cons.prems(1,2) _ r(1)] Cons.prems(3) obtain sk where
      "exec_inv env ep led0 S'" "only_skips ep S S' sk" "mset sk + mset run' = mset layer"
      "\<forall>s\<in>set run'. reached ep (results S') s" by auto
    moreover have "reached ep (results S') s"
      using skip_check_None [OF Cons.prems(1,2) None] Cons.prems(3) only_skips_reached calculation(2)
      by auto
    ultimately show ?thesis by (intro exI [of _ sk]) (simp add: r(2))
  next
    case (Some why)
    let ?S = "record_skip (ep_plan ep) why s S"
    have "partition_runnable ep layer ?S = (S', run)" using Cons.prems(4) Some by simp
    moreover have "\<forall>s\<in>set layer. data_needs (actions (ep_plan ep)) s \<subseteq> step_id ` set (results ?S)"
      using Cons.prems(3) by auto
    ultimately obtain sk where "exec_inv env ep led0 S'" "only_skips ep ?S S' sk"
      "mset sk + mset run = mset layer" "\<forall>s\<in>set run. reached ep (results S') s"
      using Cons.IH [OF exec_inv_skip [OF Cons.prems(1), of why s], of S' run] Cons.prems(2) by auto
    then show ?thesis by (intro exI [of _ "s # sk"]) (auto intro: only_skips_step)
  qed
qed auto

lemma refilter_batch:
  "exec_inv env ep led0 S \<Longrightarrow> refilter_batch ep batch S = (S', run) \<Longrightarrow>
     \<exists>sk. exec_inv env ep led0 S' \<and> only_skips ep S S' sk \<and> mset sk + mset run = mset batch \<and>
       subseq run batch \<and>
       (\<forall>s\<in>set run. \<not> (is_honest ep (group_of (ep_plan ep) s) \<and>
          group_of (ep_plan ep) s \<in> failed_intent_groups S))"
proof (induction batch arbitrary: S S' run)
  case (Cons s batch)
  show ?case
  proof (cases "is_honest ep (group_of (ep_plan ep) s) \<and> group_of (ep_plan ep) s \<in> failed_intent_groups S")
    case False
    then obtain run' where r: "refilter_batch ep batch S = (S', run')" "run = s # run'"
      using Cons.prems(2) by (auto simp: Let_def split: prod.splits if_splits)
    from Cons.IH [OF Cons.prems(1) r(1)] obtain sk where
      "exec_inv env ep led0 S'" "only_skips ep S S' sk" "mset sk + mset run' = mset batch" "subseq run' batch"
      "\<forall>s\<in>set run'. \<not> (is_honest ep (group_of (ep_plan ep) s) \<and>
         group_of (ep_plan ep) s \<in> failed_intent_groups S)" by auto
    then show ?thesis using False by (intro exI [of _ sk]) (auto simp: r(2))
  next
    case True
    let ?S = "record_skip (ep_plan ep) HonestGroupFailed s S"
    have "refilter_batch ep batch ?S = (S', run)" using Cons.prems(2) True by (simp add: Let_def)
    from Cons.IH [OF exec_inv_skip [OF Cons.prems(1)] this] obtain sk where
      "exec_inv env ep led0 S'" "only_skips ep ?S S' sk" "mset sk + mset run = mset batch" "subseq run batch"
      "\<forall>t\<in>set run. \<not> (is_honest ep (group_of (ep_plan ep) t) \<and>
         group_of (ep_plan ep) t \<in> failed_intent_groups S)" by auto
    then show ?thesis by (intro exI [of _ "s # sk"]) (auto intro: only_skips_step)
  qed
qed auto

lemma subseq_distinct: "subseq xs ys \<Longrightarrow> distinct ys \<Longrightarrow> distinct xs"
  by (auto simp: subseq_conv_nths distinct_nthsI)

lemma subseq_apart: "subseq run batch \<Longrightarrow> apart ep batch \<Longrightarrow> apart ep run"
  unfolding apart_def by (meson subseq_distinct subseq_filter subseq_map)

lemma layer_batches_apart:
  "honest_seen = {g \<in> grp ` set current. honest g} \<Longrightarrow>
   distinct (filter honest (map grp current)) \<Longrightarrow>
   batch \<in> set (layer_batches_loop grp honest current honest_seen sids) \<Longrightarrow>
   distinct (filter honest (map grp batch))"
proof (induction grp honest current honest_seen sids rule: layer_batches_loop.induct)
  case (2 grp honest current seen sid sids)
  show ?case
  proof (cases "honest (grp sid) \<and> grp sid \<in> seen")
    case True
    with 2(5) consider "batch = current" | "batch \<in> set (layer_batches_loop grp honest [sid] {grp sid} sids)"
      by auto
    then show ?thesis
    proof cases
      case 2
      have "{grp sid} = {g \<in> grp ` set [sid]. honest g}" using True by auto
      from "2.IH"(1) [OF True this _ 2] show ?thesis by simp
    qed (use 2 in simp)
  next
    case False
    with 2 show ?thesis by (intro "2.IH"(2)) (auto split: if_splits)
  qed
qed (auto split: if_splits)

lemma layer_batches_concat:
  "concat (layer_batches_loop grp honest current seen sids) = current @ sids"
  by (induction grp honest current seen sids rule: layer_batches_loop.induct) auto

lemma build_layer_batches:
  "concat (build_layer_batches ep sids) = sids"
  "batch \<in> set (build_layer_batches ep sids) \<Longrightarrow> apart ep batch"
  using layer_batches_apart [of "{}" "group_of (ep_plan ep)" "[]" "is_honest ep" batch sids]
  by (simp_all add: build_layer_batches_def layer_batches_concat apart_def)

subsection \<open>One step and one batch\<close>

lemma finish_step_facts:
  assumes "finish_step sid a spec c = (r, mk)"
  shows "step_id r = sid \<and> sr_tool r = tool a \<and> invoked r \<and>
    (case mk of None \<Rightarrow> closing spec (status r) = ''started''
     | Some m \<Rightarrow> m = closing spec (status r) \<and> m \<in> set TERMINAL_STATUSES) \<and>
    (status r = StOk \<longrightarrow> parsed_output r \<noteq> None \<and>
      (\<exists>out i b. process_output spec (case c of Returned raw ms \<Rightarrow> raw | _ \<Rightarrow> []) = Inr out \<and>
         parsed_output r = Some out \<and> match_branch (expected_outcomes a) out = Some (i, b) \<and>
         matched_branch_index r = Some i \<and> selected_compose r = br_compose b))"
  using assms
  by (auto simp: finish_step_def finish_output_def Let_def blank_result_def invoked_def closing_def
      if_durable_def TERMINAL_STATUSES_def
      split: call_result.splits sum.splits output_error.splits option.splits prod.splits if_splits)

definition fresh_ledger :: "exec_env \<Rightarrow> ledger \<Rightarrow> bool" where
  "fresh_ledger env led0 \<longleftrightarrow>
     (\<forall>exid turn s. ledger_ids env = Some (exid, turn) \<longrightarrow> dget led0 (exid, s) = None)"

lemma ledger_agrees_fresh:
  assumes "ledger_agrees env led0 led rs" and "fresh_ledger env led0"
    and "sid \<notin> step_id ` set rs" and "ledger_ids env = Some (exid, turn)"
  shows "dget led (exid, sid) = None"
proof -
  have "\<forall>r\<in>set rs. invoked r \<longrightarrow> (exid, sid) \<noteq> (exid, step_id r)" using assms(3) by auto
  then have "dget led (exid, sid) = dget led0 (exid, sid)"
    using assms(1,4) by (auto simp: ledger_agrees_def)
  with assms(2,4) show ?thesis by (auto simp: fresh_ledger_def)
qed

lemma open_for_facts:
  assumes "open_for env led sid a = Inr led1" and "ledger_ids env = Some (exid, turn)"
    and "dget led (exid, sid) = None"
  shows "\<exists>row. dget led1 (exid, sid) = Some row \<and> lr_tool row = Some (tool a) \<and>
    allocate_operation_id (sha1hex env) turn sid (tool a) = Inr (lr_operation_id row) \<and>
    lr_status row = ''started'' \<and> (\<forall>k. k \<noteq> (exid, sid) \<longrightarrow> dget led1 k = dget led k)"
  using assms
  by (auto simp: open_for_def open_step_def Let_def split: sum.splits if_splits)

lemma close_for_get:
  assumes "ledger_ids env = Some (exid, turn)" and "dget led (exid, sid) = Some row"
    and "lr_status row = ''started''"
    and "case mk of None \<Rightarrow> cl = ''started'' | Some m \<Rightarrow> m = cl \<and> m \<in> set TERMINAL_STATUSES"
  shows "(\<exists>row'. dget (close_for env led sid mk) (exid, sid) = Some row' \<and> lr_tool row' = lr_tool row \<and>
      lr_operation_id row' = lr_operation_id row \<and>
      lr_status row' = (if mark_fault env sid then ''started'' else cl)) \<and>
    (\<forall>k. k \<noteq> (exid, sid) \<longrightarrow> dget (close_for env led sid mk) k = dget led k)"
  using assms by (auto simp: close_for_def best_effort_mark_get split: option.splits)

lemma one_step:
  assumes "execute_one_step env snap led sid a spec = (led', cs, Inr r)"
    and "dget (env_registry env) (tool a) = Some spec"
    and "ledger_agrees env led0 led rs" and "fresh_ledger env led0" and "sid \<notin> step_id ` set rs"
  shows "step_id r = sid \<and> sr_tool r = tool a \<and> status r \<noteq> StSkipped \<and>
    map fst cs = (if invoked r then [sid] else []) \<and> ledger_agrees env led0 led' (rs @ [r])"
proof (cases "prepare_args a spec snap")
  case (Inl sm)
  with assms(1,3) show ?thesis
    by (auto simp: execute_one_step_def blank_result_def invoked_def)
next
  case (Inr d)
  with assms(1) obtain led1 mk where o: "open_for env led sid a = Inr led1"
    and f: "finish_step sid a spec (tool_call env sid d) = (r, mk)"
    and led': "led' = close_for env led1 sid mk" and cs: "cs = [(sid, d)]"
    by (auto simp: execute_one_step_def split: sum.splits prod.splits)
  note r = finish_step_facts [OF f]
  have "ledger_agrees env led0 led' (rs @ [r])"
  proof (cases "ledger_ids env")
    case None
    with assms(3) o show ?thesis by (simp add: ledger_agrees_def led' close_for_def open_for_def)
  next
    case (Some p)
    then obtain exid turn where L: "ledger_ids env = Some (exid, turn)" by (cases p) auto
    from open_for_facts [OF o L ledger_agrees_fresh [OF assms(3-5) L]] obtain row where
      row: "dget led1 (exid, sid) = Some row" "lr_tool row = Some (tool a)" "lr_status row = ''started''"
        "allocate_operation_id (sha1hex env) turn sid (tool a) = Inr (lr_operation_id row)"
        "\<And>k. k \<noteq> (exid, sid) \<Longrightarrow> dget led1 k = dget led k" by blast
    have "case mk of None \<Rightarrow> closing spec (status r) = ''started''
        | Some m \<Rightarrow> m = closing spec (status r) \<and> m \<in> set TERMINAL_STATUSES" using r by blast
    from close_for_get [OF L row(1,3) this] row obtain row' where
      row': "dget led' (exid, sid) = Some row'" "lr_tool row' = Some (tool a)"
        "allocate_operation_id (sha1hex env) turn sid (tool a) = Inr (lr_operation_id row')"
        "lr_status row' = (if mark_fault env sid then ''started'' else closing spec (status r))"
        "\<And>k. k \<noteq> (exid, sid) \<Longrightarrow> dget led' k = dget led k"
      unfolding led' by (metis (no_types, lifting))
    have "step_id q \<noteq> sid" if "q \<in> set rs" for q using assms(5) that by auto
    with assms(2,3) L r row' show ?thesis by (auto simp: ledger_agrees_def)
  qed
  with r cs show ?thesis by (auto simp: invoked_def)
qed

lemma check_batch_None:
  "check_batch env p batch = None \<Longrightarrow> s \<in> set batch \<Longrightarrow>
     \<exists>spec. dget (env_registry env) (tool_of p s) = Some spec"
  by (induction batch) (auto split: if_splits)

text \<open>What the results of a batch look like.\<close>

definition batch_results :: "plan \<Rightarrow> string list \<Rightarrow> step_result list \<Rightarrow> bool" where
  "batch_results p sids rs \<longleftrightarrow>
     list_all2 (\<lambda>s r. step_id r = s \<and> sr_tool r = tool_of p s \<and> status r \<noteq> StSkipped) sids rs"

lemma run_batch_facts:
  "run_batch env p snap batch led = (led', cs, Inr rs) \<Longrightarrow>
     ledger_agrees env led0 led xs \<Longrightarrow> fresh_ledger env led0 \<Longrightarrow>
     distinct batch \<Longrightarrow> set batch \<inter> step_id ` set xs = {} \<Longrightarrow>
     batch_results p batch rs \<and> map fst cs = map step_id (filter invoked rs) \<and>
     ledger_agrees env led0 led' (xs @ rs)"
proof (induction batch arbitrary: led led' cs rs xs)
  case Nil
  then show ?case by (simp add: batch_results_def)
next
  case (Cons sid batch)
  from Cons.prems(1) obtain a spec led1 cs1 r cs2 rs2 where
    a: "action_of p sid = Some a" and spec: "dget (env_registry env) (tool_of p sid) = Some spec"
    and s: "execute_one_step env snap led sid a spec = (led1, cs1, Inr r)"
    and b: "run_batch env p snap batch led1 = (led', cs2, Inr rs2)" and rs: "rs = r # rs2" "cs = cs1 @ cs2"
    by (auto simp: bind_res_eq_Inr split: option.splits prod.splits)
  have t: "tool_of p sid = tool a" using a by (simp add: tool_of_def action_of_def)
  have "sid \<notin> step_id ` set xs" using Cons.prems(5) by auto
  note o = one_step [OF s spec [unfolded t] Cons.prems(2,3) this]
  then have "set batch \<inter> step_id ` set (xs @ [r]) = {}" using Cons.prems(4,5) by auto
  from Cons.IH [OF b _ Cons.prems(3) _ this] o Cons.prems(4) show ?case
    by (auto simp: rs batch_results_def t)
qed

section \<open>Processing the results\<close>

definition watch :: "execution_plan \<Rightarrow> registry \<Rightarrow> exec_state \<Rightarrow> bool" where
  "watch ep reg S \<longleftrightarrow> books_ok ep S \<and> (aborted S = None \<longrightarrow> quiet ep reg S)"

definition same_world :: "exec_state \<Rightarrow> exec_state \<Rightarrow> bool" where
  "same_world S S' \<longleftrightarrow> st_ledger S' = st_ledger S \<and> st_calls S' = st_calls S \<and> crash S' = crash S \<and>
     step_outputs S' = step_outputs S \<and> abort_info S' = abort_info S"

lemma same_world_trans: "same_world S S1 \<Longrightarrow> same_world S1 S2 \<Longrightarrow> same_world S S2"
  by (simp add: same_world_def)

lemma fail_group_simps [simp]:
  "results (fail_group ep g S) = results S" "aborted (fail_group ep g S) = aborted S"
  "enabled (fail_group ep g S) = enabled S" "skipped_step_ids (fail_group ep g S) = skipped_step_ids S"
  "failed_step_ids (fail_group ep g S) = failed_step_ids S"
  "st_ledger (fail_group ep g S) = st_ledger S" "st_calls (fail_group ep g S) = st_calls S"
  "crash (fail_group ep g S) = crash S" "step_outputs (fail_group ep g S) = step_outputs S"
  "abort_info (fail_group ep g S) = abort_info S"
  "failed_intent_groups (fail_group ep g S) =
     (if is_honest ep g then insert g (failed_intent_groups S) else failed_intent_groups S)"
  by (simp_all add: fail_group_def)

lemma dkeys_dput_set: "set (dkeys (dput d k v)) = insert k (set (dkeys d))"
  by (induction d) auto

lemma process_result_facts:
  assumes "watch ep reg S" and "reached ep (results S) sid" and "group_clean ep (results S) sid"
    and "step_id r = sid" "sr_tool r = tool_of (ep_plan ep) sid" "status r \<noteq> StSkipped"
    and "process_result ep reg (sid, r) (S, outs) = (S', outs')"
  shows "watch ep reg S' \<and> results S' = results S @ [r] \<and> same_world S S' \<and>
    (aborted S \<noteq> None \<longrightarrow> aborted S' \<noteq> None)"
proof -
  have e: "entry_ok ep (results S) r" using assms(2-4) by (simp add: entry_ok_def)
  have abort: "watch ep reg S1 \<and> results S1 = results S @ [r] \<and> same_world S S1 \<and>
      (aborted S \<noteq> None \<longrightarrow> aborted S1 \<noteq> None)"
    if "status r \<in> {StUnknownOutcome, StPlanGap, StArgViolation}"
      and "S1 = (if aborted S = None then S\<lparr>results := results S @ [r], aborted := Some (AbortStatus (status r))\<rparr>
                 else S\<lparr>results := results S @ [r]\<rparr>)" for S1
    using assms(1,5) e that by (auto simp: watch_def books_ok_def same_world_def assms(4))
  have nx: "next_of ep r = (case (matched_branch_index r, action_of (ep_plan ep) sid) of
        (Some i, Some a) \<Rightarrow> next_step (expected_outcomes a ! i) | _ \<Rightarrow> None)"
    using assms(4) by (simp add: next_of_def)
  consider (StOk) "status r = StOk" | (StError) "status r = StError" | (StTimeout) "status r = StTimeout"
    | (Ab) "status r \<in> {StUnknownOutcome, StPlanGap, StArgViolation}"
    using assms(6) by (cases "status r") auto
  then show ?thesis
  proof cases
    case StOk
    have "S' = S\<lparr>results := results S @ [r], enabled := enabled S \<union> {n. next_of ep r = Some n}\<rparr>"
      using assms(7) StOk by (auto simp: process_result_def Let_def nx split: option.splits)
    with assms(1,5) e StOk show ?thesis
      by (auto simp: watch_def books_ok_def quiet_def same_world_def assms(4))
  next
    case StError
    have "S' = fail_group ep (group_of (ep_plan ep) sid)
        (S\<lparr>results := results S @ [r], failed_step_ids := dput (failed_step_ids S) sid StError\<rparr>)"
      using assms(7) StError by (simp add: process_result_def Let_def)
    with assms(1,5) e StError show ?thesis
      by (auto simp: watch_def books_ok_def quiet_def same_world_def assms(4) dkeys_dput_set simp del: set_map)
  next
    case StTimeout
    let ?S = "S\<lparr>results := results S @ [r], failed_step_ids := dput (failed_step_ids S) sid StTimeout\<rparr>"
    have "S' = (if is_write_tool reg (tool_of (ep_plan ep) sid) \<and> aborted S = None
        then ?S\<lparr>aborted := Some AbortWriteTimeout\<rparr> else fail_group ep (group_of (ep_plan ep) sid) ?S)"
      using assms(7) StTimeout by (auto simp: process_result_def Let_def)
    with assms(1,5) e StTimeout show ?thesis
      by (auto simp: watch_def books_ok_def quiet_def same_world_def assms(4) dkeys_dput_set simp del: set_map)
  next
    case Ab
    then have "S' = (if aborted S = None
        then S\<lparr>results := results S @ [r], aborted := Some (AbortStatus (status r))\<rparr>
        else S\<lparr>results := results S @ [r]\<rparr>)"
      using assms(7) by (elim insertE) (auto simp: process_result_def Let_def)
    with Ab show ?thesis by (rule abort)
  qed
qed

text \<open>Steps of a batch stay clean while the others are processed: they are apart.\<close>

lemma group_clean_snoc:
  assumes "group_clean ep xs t"
    and "is_honest ep (group_of (ep_plan ep) (step_id r)) \<longrightarrow>
      group_of (ep_plan ep) t \<noteq> group_of (ep_plan ep) (step_id r)"
  shows "group_clean ep (xs @ [r]) t"
  using assms by (auto simp: group_clean_def)

lemma process_batch:
  "watch ep reg S \<Longrightarrow> batch_results (ep_plan ep) batch rs \<Longrightarrow> apart ep batch \<Longrightarrow>
     \<forall>s\<in>set batch. reached ep (results S) s \<and> group_clean ep (results S) s \<Longrightarrow>
     fold (process_result ep reg) (zip batch rs) (S, outs) = (S', outs') \<Longrightarrow>
     watch ep reg S' \<and> results S' = results S @ rs \<and> same_world S S'"
proof (induction batch arbitrary: rs S outs)
  case Nil
  then show ?case by (simp add: batch_results_def same_world_def)
next
  case (Cons sid batch)
  from Cons.prems(2) obtain r rs2 where rs: "rs = r # rs2" and r: "step_id r = sid"
    "sr_tool r = tool_of (ep_plan ep) sid" "status r \<noteq> StSkipped" and b: "batch_results (ep_plan ep) batch rs2"
    by (auto simp: batch_results_def list_all2_Cons1)
  obtain S1 outs1 where p: "process_result ep reg (sid, r) (S, outs) = (S1, outs1)" by fastforce
  have rc: "reached ep (results S) sid" "group_clean ep (results S) sid" using Cons.prems(4) by auto
  note f = process_result_facts [OF Cons.prems(1) rc r p]
  have "\<forall>s\<in>set batch. reached ep (results S1) s \<and> group_clean ep (results S1) s"
  proof
    fix t assume t: "t \<in> set batch"
    have "is_honest ep (group_of (ep_plan ep) (step_id r)) \<longrightarrow>
        group_of (ep_plan ep) t \<noteq> group_of (ep_plan ep) (step_id r)"
      using apart_Cons [OF Cons.prems(3)] t r(1) by auto
    then have "group_clean ep (results S @ [r]) t"
      using Cons.prems(4) t by (intro group_clean_snoc) auto
    moreover have "reached ep (results S @ [r]) t"
      by (rule reached_mono [of ep "results S"]) (use Cons.prems(4) t in auto)
    ultimately show "reached ep (results S1) t \<and> group_clean ep (results S1) t" using f by simp
  qed
  moreover have "fold (process_result ep reg) (zip batch rs2) (S1, outs1) = (S', outs')"
    using Cons.prems(5) p by (simp add: rs)
  ultimately have "watch ep reg S' \<and> results S' = results S1 @ rs2 \<and> same_world S1 S'"
    using f apart_Cons [OF Cons.prems(3)] by (intro Cons.IH [OF _ b]) blast+
  with f show ?case by (simp add: rs same_world_def)
qed

lemma quiet_clean:
  assumes "quiet ep reg S"
    and "\<not> (is_honest ep (group_of (ep_plan ep) s) \<and> group_of (ep_plan ep) s \<in> failed_intent_groups S)"
  shows "group_clean ep (results S) s"
  unfolding group_clean_def
proof (intro impI ballI)
  fix q assume h: "is_honest ep (group_of (ep_plan ep) s)" "q \<in> set (results S)"
    and g: "group_of (ep_plan ep) (step_id q) = group_of (ep_plan ep) s"
  from quiet_ok [OF assms(1) h(2)] assms h g show "status q \<in> {StOk, StSkipped}"
    unfolding quiet_def by fastforce
qed

lemma exec_inv_gather:
  assumes "exec_inv env ep led0 S" and "aborted S = None" and "crash S = None" and "fresh_ledger env led0"
    and "apart ep batch" and "distinct batch" and "set batch \<inter> step_id ` set (results S) = {}"
    and "\<forall>s\<in>set batch. reached ep (results S) s \<and>
      \<not> (is_honest ep (group_of (ep_plan ep) s) \<and> group_of (ep_plan ep) s \<in> failed_intent_groups S)"
    and "gather_batch env ep snap batch (S, outs) = (S', outs')" and "crash S' = None"
  shows "exec_inv env ep led0 S' \<and> map step_id (results S') = map step_id (results S) @ batch \<and>
    set (results S) \<subseteq> set (results S')"
proof -
  obtain led cs rs0 where rb: "run_batch env (ep_plan ep) snap batch (st_ledger S) = (led, cs, rs0)"
    by (metis prod_cases3)
  let ?S1 = "S\<lparr>st_ledger := led, st_calls := st_calls S @ cs\<rparr>"
  from assms(9,10) rb obtain rs where rs: "rs0 = Inr rs"
    and fold: "fold (process_result ep (env_registry env)) (zip batch rs) (?S1, outs) = (S', outs')"
    by (cases rs0) (auto simp: gather_batch_def Let_def)
  note i = assms(1)[unfolded exec_inv_def]
  have q: "quiet ep (env_registry env) S" using i assms(2) by simp
  note b = run_batch_facts [OF rb [unfolded rs] conjunct2 [OF conjunct2 [OF conjunct2 [OF i]]] assms(4,6,7)]
  have w: "watch ep (env_registry env) ?S1" using i by (auto simp: watch_def books_ok_def quiet_def)
  have r: "\<forall>s\<in>set batch. reached ep (results ?S1) s \<and> group_clean ep (results ?S1) s"
    using assms(8) quiet_clean [OF q] by simp
  from process_batch [OF w _ assms(5) r fold] b
  have p: "watch ep (env_registry env) S'" "results S' = results S @ rs" "same_world ?S1 S'" by auto
  have "calls_ok S'" using b i p by (simp add: calls_ok_def same_world_def)
  moreover have "map step_id rs = batch"
    using b by (auto simp: batch_results_def list_all2_conv_all_nth intro: nth_equalityI)
  ultimately show ?thesis using b p by (auto simp: exec_inv_def watch_def same_world_def)
qed

section \<open>Batches, layers, executions\<close>

abbreviation ids :: "exec_state \<Rightarrow> string list" where
  "ids S \<equiv> map step_id (results S)"

lemma only_skips_ids: "only_skips ep S S' sk \<Longrightarrow> ids S' = ids S @ sk \<and> set (results S) \<subseteq> set (results S')"
  by (auto simp: only_skips_def)

lemma find_ambiguous_mem: "find_ambiguous p snap sids = Some (sid, path, n, opts) \<Longrightarrow> sid \<in> set sids"
  by (induction sids) (auto split: option.splits sum.splits sel_error.splits)

lemma exec_inv_barrier:
  assumes "exec_inv env ep led0 S" and "aborted S = None" and "sid \<in> set batch" and "distinct batch"
    and "reached ep (results S) sid"
    and "\<not> (is_honest ep (group_of (ep_plan ep) sid) \<and> group_of (ep_plan ep) sid \<in> failed_intent_groups S)"
  shows "exec_inv env ep led0 (barrier_abort ep batch later (sid, path, n, opts) S) \<and>
    mset (ids (barrier_abort ep batch later (sid, path, n, opts) S)) =
      mset (ids S) + mset batch + mset (concat later) \<and>
    set (results S) \<subseteq> set (results (barrier_abort ep batch later (sid, path, n, opts) S))"
proof -
  let ?r = "blank_result sid (tool_of (ep_plan ep) sid) StArgViolation
      (Some (BarrierAmbiguity (SelAmbiguous path n opts)))"
  define S1 where "S1 = S\<lparr>aborted := Some (AbortStatus StArgViolation),
     abort_info := Some (\<lparr>ap_options = opts, ap_count = n\<rparr>,
       \<lparr>source_step_id = (if path \<noteq> [] then hd (split_on (CHR ''.'') path) else sid),
        target_tool = tool_of (ep_plan ep) sid, arg_path = path\<rparr>),
     results := results S @ [?r]\<rparr>"
  have e: "barrier_abort ep batch later (sid, path, n, opts) S =
      fold (record_skip (ep_plan ep) (Halted (AbortStatus StArgViolation)))
        (filter (\<lambda>s. s \<noteq> sid) batch @ concat later) S1"
    by (simp add: barrier_abort_def Let_def S1_def)
  have r: "step_id ?r = sid" "sr_tool ?r = tool_of (ep_plan ep) sid" "status ?r = StArgViolation" "\<not> invoked ?r"
    by (simp_all add: blank_result_def invoked_def)
  have "quiet ep (env_registry env) S" using assms(1,2) by (simp add: exec_inv_def)
  from quiet_clean [OF this assms(6)] assms(5) have "entry_ok ep (results S) ?r"
    by (simp add: entry_ok_def r)
  then have "exec_inv env ep led0 S1"
    using assms(1) r by (auto simp: exec_inv_def S1_def books_ok_def calls_ok_def)
  note f = fold_skips [OF this, of "Halted (AbortStatus StArgViolation)"
      "filter (\<lambda>s. s \<noteq> sid) batch @ concat later"]
  have "filter (\<lambda>s. s \<noteq> sid) batch = remove1 sid batch"
    using assms(4) by (auto simp: distinct_remove1_removeAll removeAll_filter_not_eq intro: filter_cong)
  then have "mset (filter (\<lambda>s. s \<noteq> sid) batch) + {#sid#} = mset batch"
    using assms(3) by simp
  moreover have "ids S1 = ids S @ [sid]" by (simp add: S1_def r)
  moreover have "ids (barrier_abort ep batch later (sid, path, n, opts) S) =
      ids S1 @ filter (\<lambda>s. s \<noteq> sid) batch @ concat later"
    "set (results S1) \<subseteq> set (results (barrier_abort ep batch later (sid, path, n, opts) S))"
    using f unfolding e by (auto dest!: only_skips_ids)
  moreover have "set (results S) \<subseteq> set (results S1)" by (auto simp: S1_def)
  ultimately show ?thesis using f unfolding e [symmetric] by (simp del: mset_map)
qed

lemma run_batches_inv:
  "exec_inv env ep led0 S \<Longrightarrow> aborted S = None \<Longrightarrow> crash S = None \<Longrightarrow> fresh_ledger env led0 \<Longrightarrow>
   \<forall>b\<in>set bs. apart ep b \<Longrightarrow> distinct (concat bs) \<Longrightarrow> set (concat bs) \<inter> set (ids S) = {} \<Longrightarrow>
   \<forall>s\<in>set (concat bs). reached ep (results S) s \<Longrightarrow>
   run_batches env ep snap bs (S, outs) = (S', outs') \<Longrightarrow> crash S' = None \<Longrightarrow>
     exec_inv env ep led0 S' \<and> mset (ids S') = mset (ids S) + mset (concat bs) \<and>
       set (results S) \<subseteq> set (results S')"
proof (induction bs arbitrary: S outs)
  case (Cons batch later)
  obtain S1 run where rf: "refilter_batch ep batch S = (S1, run)" by fastforce
  from refilter_batch [OF Cons.prems(1) rf] obtain sk where
    i1: "exec_inv env ep led0 S1" and sk: "only_skips ep S S1 sk" and m: "mset sk + mset run = mset batch"
    and sub: "subseq run batch"
    and g: "\<forall>s\<in>set run. \<not> (is_honest ep (group_of (ep_plan ep) s) \<and>
         group_of (ep_plan ep) s \<in> failed_intent_groups S1)"
    by (auto simp: only_skips_def)
  note [simp] = Cons.prems(2,3)
  have s1: "aborted S1 = None" "crash S1 = None" using sk by (simp_all add: only_skips_def)
  have idsS1: "ids S1 = ids S @ sk" and mono1: "set (results S) \<subseteq> set (results S1)"
    using only_skips_ids [OF sk] by simp_all
  have setm: "set sk \<union> set run = set batch" by (metis m set_mset_mset set_mset_union)
  have dj: "set sk \<inter> set run = {}" "distinct run"
    using Cons.prems(6) m by (metis distinct_append distinct_concat_map_memD list.set_intros(1)
        mset_append mset_eq_imp_distinct_iff)+
  have re1: "reached ep (results S1) s" if "s \<in> set batch \<union> set (concat later)" for s
    using Cons.prems(8) that by (intro only_skips_reached [OF sk]) auto
  have run_re: "\<forall>s\<in>set run. reached ep (results S1) s" using re1 setm by auto
  have dj1: "set run \<inter> set (ids S1) = {}" "set (concat later) \<inter> set (ids S1) = {}"
    using Cons.prems(6,7) dj setm by (auto simp: idsS1)
  have dlater: "distinct (concat later)" "set (concat later) \<inter> set batch = {}" using Cons.prems(6) by auto
  show ?case
  proof (cases "run = []")
    case True
    with m have "mset sk = mset batch" by simp
    with Cons.IH [OF i1 s1 Cons.prems(4) _ dlater(1) dj1(2) _ _ Cons.prems(10)] re1 Cons.prems(5,9) rf True
    show ?thesis using mono1 by (simp add: idsS1) blast
  next
    case False
    show ?thesis
    proof (cases "find_ambiguous (ep_plan ep) snap run")
      case (Some amb)
      obtain sid path n opts where amb: "amb = (sid, path, n, opts)" by (cases amb)
      have sid: "sid \<in> set run" using find_ambiguous_mem Some amb by blast
      have S': "S' = barrier_abort ep run later (sid, path, n, opts) S1"
        using Cons.prems(9) rf False Some amb by simp
      show ?thesis
        using exec_inv_barrier [OF i1 s1(1) sid dj(2), of later path n opts] run_re sid g m mono1
        by (simp add: S' idsS1 ac_simps) blast
    next
      case None
      have cb: "check_batch env (ep_plan ep) run = None"
        using Cons.prems(9,10) rf False None by (auto split: option.splits)
      obtain S2 outs2 where ga: "gather_batch env ep snap run (S1, outs) = (S2, outs2)" by fastforce
      have c2: "crash S2 = None"
        using Cons.prems(9,10) rf False None cb ga by (auto split: if_splits option.splits)
      have ap: "apart ep run" using subseq_apart [OF sub] Cons.prems(5) by simp
      have gi: "exec_inv env ep led0 S2" "ids S2 = ids S1 @ run" "set (results S1) \<subseteq> set (results S2)"
        using exec_inv_gather [OF i1 s1 Cons.prems(4) ap dj(2) _ _ ga c2] dj1(1) run_re g by auto
      show ?thesis
      proof (cases "aborted S2")
        case (Some why)
        have "S' = drain ep why (concat later) S2"
          using Cons.prems(9) rf False None cb ga c2 Some by simp
        with fold_skips [OF gi(1), of "Halted why" "concat later"]
        have "exec_inv env ep led0 S'" "ids S' = ids S @ sk @ run @ concat later"
          "set (results S2) \<subseteq> set (results S')"
          by (auto simp: drain_def gi(2) idsS1 dest!: only_skips_ids)
        with mono1 gi(3) show ?thesis by (simp del: mset_map add: m [symmetric])
      next
        case None': None
        have "run_batches env ep snap later (S2, outs2) = (S', outs')"
          using Cons.prems(9) rf False None cb ga c2 None' by simp
        moreover have "set (concat later) \<inter> set (ids S2) = {}"
          using dj1(2) dlater(2) setm by (auto simp: gi(2))
        moreover have "\<forall>s\<in>set (concat later). reached ep (results S2) s"
          using re1 gi(3) reached_mono by blast
        moreover have "\<forall>b\<in>set later. apart ep b" using Cons.prems(5) by simp
        ultimately have ih: "exec_inv env ep led0 S'" "mset (ids S') = mset (ids S2) + mset (concat later)"
          "set (results S2) \<subseteq> set (results S')"
          using Cons.IH [OF gi(1) None' c2 Cons.prems(4) _ dlater(1) _ _ _ Cons.prems(10)] by blast+
        have "set (results S) \<subseteq> set (results S')" using mono1 gi(3) ih(3) by blast
        with ih(1,2) show ?thesis by (simp add: gi(2) idsS1 m [symmetric] del: mset_map)
      qed
    qed
  qed
qed simp

text \<open>The layers the compiler produces, seen by the executor.\<close>

definition well_layered :: "execution_plan \<Rightarrow> bool" where
  "well_layered ep \<longleftrightarrow>
     distinct (concat (layers ep)) \<and>
     (\<forall>As l Bs s. layers ep = As @ l # Bs \<longrightarrow> s \<in> set l \<longrightarrow>
        data_needs (actions (ep_plan ep)) s \<subseteq> set (concat As))"

lemma compiled_well_layered:
  assumes "compile_plan p reg = Inr ep" and "dict_ok (actions p)"
  shows "well_layered ep \<and> ep_plan ep = p \<and> set (concat (layers ep)) = set (dkeys (actions p))"
proof -
  have L: "compiled_layers (p, reg) = Some (layers ep)" using assms(1) by (simp add: compiled_layers_def)
  have p: "ep_plan ep = p" using assms(1) by (auto elim: compile_plan_InrD)
  have "data_needs (actions p) s \<subseteq> set (concat As)"
    if "layers ep = As @ l # Bs" "s \<in> set l" for As l Bs s
    using cl.lay_needs [of "(p, reg)" As l Bs s] assms(2) L that by (auto simp: exec_needs_def)
  moreover have "distinct (concat (layers ep))" "set (concat (layers ep)) = set (dkeys (actions p))"
    using cl.once [of "(p, reg)"] assms(2) L by auto
  ultimately show ?thesis by (simp add: well_layered_def p)
qed

lemma run_layer_inv:
  assumes "exec_inv env ep led0 S" and "crash S = None" and "fresh_ledger env led0"
    and "distinct layer" and "set layer \<inter> set (ids S) = {}"
    and "\<forall>s\<in>set layer. data_needs (actions (ep_plan ep)) s \<subseteq> set (ids S)"
    and "crash (run_layer env ep layer S) = None"
  shows "exec_inv env ep led0 (run_layer env ep layer S) \<and>
    mset (ids (run_layer env ep layer S)) = mset (ids S) + mset layer \<and>
    set (results S) \<subseteq> set (results (run_layer env ep layer S))"
proof (cases "aborted S")
  case (Some why)
  with fold_skips [OF assms(1), of "Halted why" layer]
  have "exec_inv env ep led0 (run_layer env ep layer S)" "ids (run_layer env ep layer S) = ids S @ layer"
    "set (results S) \<subseteq> set (results (run_layer env ep layer S))"
    by (auto simp: run_layer_def drain_def dest!: only_skips_ids)
  then show ?thesis by (simp del: mset_map)
next
  case None
  obtain S1 run where pr: "partition_runnable ep layer S = (S1, run)" by fastforce
  have "\<forall>s\<in>set layer. data_needs (actions (ep_plan ep)) s \<subseteq> step_id ` set (results S)"
    using assms(6) by simp
  from partition_runnable [OF assms(1) None this pr] obtain sk where
    i1: "exec_inv env ep led0 S1" and sk: "only_skips ep S S1 sk" and m: "mset sk + mset run = mset layer"
    and re: "\<forall>s\<in>set run. reached ep (results S1) s" by auto
  have s1: "aborted S1 = None" "crash S1 = None" "ids S1 = ids S @ sk"
    "set (results S) \<subseteq> set (results S1)"
    using sk None assms(2) only_skips_ids [OF sk] by (simp_all add: only_skips_def)
  show ?thesis
  proof (cases "run = []")
    case True
    with m i1 None pr s1(4) show ?thesis by (simp add: run_layer_def s1(3) del: mset_map)
  next
    case False
    obtain S2 outs where rb: "run_batches env ep (state_value (step_outputs S1))
        (build_layer_batches ep run) (S1, []) = (S2, outs)" by fastforce
    have c2: "crash S2 = None" using assms(7) None pr False rb by (auto simp: run_layer_def split: if_splits)
    have d: "distinct run" "set sk \<inter> set run = {}"
      using assms(4) m by (metis distinct_append mset_append mset_eq_imp_distinct_iff)+
    have "set run \<subseteq> set layer" by (metis m mset_subset_eq_add_right set_mset_mono set_mset_mset)
    with d assms(5) have dj: "set (concat (build_layer_batches ep run)) \<inter> set (ids S1) = {}"
      by (auto simp: build_layer_batches s1(3) simp del: set_concat)
    have S2: "exec_inv env ep led0 S2 \<and>
        mset (ids S2) = mset (ids S1) + mset (concat (build_layer_batches ep run)) \<and>
        set (results S1) \<subseteq> set (results S2)"
      using run_batches_inv [OF i1 s1(1,2) assms(3) _ _ dj _ rb c2] d re build_layer_batches
      by (simp del: set_concat mset_map)
    have "run_layer env ep layer S =
        S2\<lparr>step_outputs := fold (\<lambda>(k, d) o'. dput o' k d) outs (step_outputs S2)\<rparr>"
      using None pr False rb c2 by (simp add: run_layer_def)
    moreover have "exec_inv env ep led0 (S2\<lparr>step_outputs := x\<rparr>) = exec_inv env ep led0 S2" for x
      by (simp add: exec_inv_def books_ok_def calls_ok_def quiet_def)
    ultimately show ?thesis using S2 m s1(4) by (simp add: s1(3) build_layer_batches del: mset_map) blast
  qed
qed

lemma run_layers_inv:
  "exec_inv env ep led0 S \<Longrightarrow> crash S = None \<Longrightarrow> fresh_ledger env led0 \<Longrightarrow> well_layered ep \<Longrightarrow>
     layers ep = As @ Bs @ Cs \<Longrightarrow> mset (ids S) = mset (concat As) \<Longrightarrow>
     crash (run_layers env ep Bs S) = None \<Longrightarrow>
     exec_inv env ep led0 (run_layers env ep Bs S) \<and>
       mset (ids (run_layers env ep Bs S)) = mset (concat (As @ Bs)) \<and>
       set (results S) \<subseteq> set (results (run_layers env ep Bs S))"
proof (induction Bs arbitrary: As S)
  case (Cons l Bs)
  let ?S = "run_layer env ep l S"
  have c: "crash ?S = None" using Cons.prems(7) by (auto simp: Let_def split: if_splits)
  have set: "set (ids S) = set (concat As)" using Cons.prems(6) by (metis set_mset_mset)
  have "\<forall>s\<in>set l. data_needs (actions (ep_plan ep)) s \<subseteq> set (ids S)"
    unfolding set using Cons.prems(4,5) unfolding well_layered_def append_Cons by blast
  moreover have "distinct l" "set l \<inter> set (ids S) = {}"
    using Cons.prems(4,5) by (auto simp: well_layered_def set simp del: set_map)
  moreover have "layers ep = (As @ [l]) @ Bs @ Cs" using Cons.prems(5) by simp
  ultimately have l: "exec_inv env ep led0 ?S" "mset (ids ?S) = mset (concat (As @ [l]))"
    "set (results S) \<subseteq> set (results ?S)" "layers ep = (As @ [l]) @ Bs @ Cs"
    using run_layer_inv [OF Cons.prems(1-3) _ _ _ c] Cons.prems(6) by (simp_all del: mset_map set_map)
  show ?case
    using Cons.IH [OF l(1) c Cons.prems(3,4) l(4) l(2)] Cons.prems(7) c l(3)
    by (simp add: Let_def del: mset_map) blast
qed (simp del: mset_map)

lemma initial_inv: "exec_inv env ep led (initial_state (actions (ep_plan ep)) led)"
  by (auto simp: exec_inv_def books_ok_def calls_ok_def quiet_def initial_state_def ledger_agrees_def
      split: option.splits)

text \<open>Everything the invariant says about a finished execution.\<close>

lemma execute_plan_inv:
  assumes "execute_plan env ep led = (led', cs, Inr log)" and "well_layered ep" and "fresh_ledger env led"
  shows "log_ok ep (steps log) \<and> mset (map step_id (steps log)) = mset (concat (layers ep)) \<and>
    map fst cs = map step_id (filter invoked (steps log)) \<and>
    ledger_agrees env led led' (steps log) \<and>
    (\<forall>r\<in>set (steps log). sr_tool r = tool_of (ep_plan ep) (step_id r)) \<and>
    (\<exists>ab. outcome log = summarise_outcome (steps log) ab (env_registry env) \<and>
       (\<not> ab \<longrightarrow> (\<forall>r\<in>set (steps log). status r \<notin> {StUnknownOutcome, StPlanGap, StArgViolation} \<and>
          (status r = StTimeout \<longrightarrow> \<not> is_write_tool (env_registry env) (sr_tool r)))))"
proof (cases "layers ep = []")
  case True
  with assms(1) show ?thesis
    by (auto simp: execute_plan_def ledger_agrees_def summarise_outcome_def
        intro!: exI [of _ False] split: option.splits if_splits)
next
  case False
  let ?S = "final_state env ep led"
  from assms(1) False have e: "led' = st_ledger ?S" "cs = st_calls ?S" "crash ?S = None"
    and log: "log = \<lparr>steps = results ?S,
       outcome = summarise_outcome (results ?S) (aborted ?S \<noteq> None) (env_registry env),
       abort_details = abort_info ?S\<rparr>"
    by (auto simp: execute_plan_def Let_def split: option.splits)
  have "layers ep = [] @ layers ep @ []" "crash (initial_state (actions (ep_plan ep)) led) = None"
    "ids (initial_state (actions (ep_plan ep)) led) = []"
    by (simp_all add: initial_state_def)
  from run_layers_inv [OF initial_inv this(2) assms(3,2) this(1)] this(3) e(3)
  have "exec_inv env ep led ?S \<and> mset (ids ?S) = mset (concat (layers ep))"
    by (simp add: final_state_def del: mset_map)
  then show ?thesis
    by (auto simp: log e exec_inv_def books_ok_def calls_ok_def quiet_def
        intro!: exI [of _ "aborted ?S \<noteq> None"])
qed

section \<open>Aborts\<close>

definition aborting :: "registry \<Rightarrow> step_result \<Rightarrow> bool" where
  "aborting reg r \<longleftrightarrow>
     status r \<in> {StUnknownOutcome, StPlanGap, StArgViolation} \<or>
     status r = StTimeout \<and> is_write_tool reg (sr_tool r)"

lemma run_layers_append:
  "crash S = None \<Longrightarrow> run_layers env ep (As @ Bs) S =
     (let S' = run_layers env ep As S in if crash S' \<noteq> None then S' else run_layers env ep Bs S')"
  by (induction As arbitrary: S) (auto simp: Let_def)

lemma run_layers_aborted:
  "aborted S \<noteq> None \<Longrightarrow> crash S = None \<Longrightarrow>
     \<exists>rs. results (run_layers env ep Bs S) = results S @ rs \<and> map step_id rs = concat Bs \<and>
       (\<forall>r\<in>set rs. status r = StSkipped) \<and> aborted (run_layers env ep Bs S) = aborted S"
proof (induction Bs arbitrary: S)
  case (Cons l Bs)
  obtain why where w: "aborted S = Some why" using Cons.prems(1) by auto
  have d: "aborted (fold (record_skip p y) l S) = aborted S \<and> crash (fold (record_skip p y) l S) = crash S \<and>
      results (fold (record_skip p y) l S) = results S @ map (\<lambda>s. skip_result p s y) l" for p y
    by (induction l arbitrary: S) auto
  let ?S = "run_layer env ep l S"
  have l: "?S = fold (record_skip (ep_plan ep) (Halted why)) l S" by (simp add: run_layer_def w drain_def)
  have c: "crash ?S = None" "aborted ?S \<noteq> None" using d Cons.prems w by (simp_all add: l)
  from Cons.IH [OF c(2,1)] obtain rs where "results (run_layers env ep Bs ?S) = results ?S @ rs"
    "map step_id rs = concat Bs" "\<forall>r\<in>set rs. status r = StSkipped"
    "aborted (run_layers env ep Bs ?S) = aborted ?S" by blast
  then show ?case
    using d c(1) by (intro exI [of _ "map (\<lambda>s. skip_result (ep_plan ep) s (Halted why)) l @ rs"])
      (auto simp: Let_def l comp_def)
qed simp

section \<open>Properties\<close>

definition sample_env :: exec_env where
  "sample_env = \<lparr>env_registry = sample_registry, tools_by_name = {''add_task'', ''list_tasks''},
     tool_call = (\<lambda>sid d. Returned ''ok'' 5), ledger_ids = Some (''e1'', ''turn''), sha1hex = id,
     clock = 7, open_fault = (\<lambda>_. False), mark_fault = (\<lambda>_. False)\<rparr>"

text \<open>A read, a write of what it returned, a write of a missing field, and a read after it.\<close>

definition sample_chain :: plan where
  "sample_chain = sample_plan [(''s1'', ref_action ''list_tasks'' ''all''),
     (''s2'', ref_action ''add_task'' ''${s1.status}''), (''s3'', ref_action ''add_task'' ''${s2.nope}''),
     (''s4'', ref_action ''list_tasks'' ''${s3.status}'')]"

definition sample_ep :: execution_plan where
  "sample_ep = \<lparr>layers = [[''s1''], [''s2''], [''s3''], [''s4'']],
     fail_modes = [(''g'', HonestPartial)], ep_plan = sample_chain\<rparr>"

definition sample_log :: execution_log where
  "sample_log = projr (snd (snd (execute_plan sample_env sample_ep [])))"

definition sample_ledger :: ledger where
  "sample_ledger = fst (execute_plan sample_env sample_ep [])"

lemma sample_compiles:
  "compile_plan sample_chain sample_registry = Inr sample_ep" "dict_ok (actions sample_chain)"
  by code_simp+

lemma sample_run_eval:
  "(case execute_plan sample_env sample_ep [] of (led, cs, r) \<Rightarrow>
      (map (\<lambda>(k, r). (k, lr_status r)) led, map fst cs,
       case r of Inl e \<Rightarrow> None | Inr log \<Rightarrow> Some (map (\<lambda>s. (step_id s, status s)) (steps log), outcome log))) =
   ([((''e1'', ''s1''), ''committed''), ((''e1'', ''s2''), ''committed'')], [''s1'', ''s2''],
    Some ([(''s1'', StOk), (''s2'', StOk), (''s3'', StArgViolation), (''s4'', StSkipped)], AbortedPartial))"
  by code_simp

lemma sample_run:
  obtains cs a b c d where
    "execute_plan sample_env sample_ep [] = (sample_ledger, cs, Inr sample_log)"
    "map fst cs = [''s1'', ''s2'']" "steps sample_log = [a, b, c, d]"
    "map step_id [a, b, c, d] = [''s1'', ''s2'', ''s3'', ''s4'']"
    "map status [a, b, c, d] = [StOk, StOk, StArgViolation, StSkipped]"
    "outcome sample_log = AbortedPartial"
    "map (\<lambda>(k, r). (k, lr_status r)) sample_ledger =
       [((''e1'', ''s1''), ''committed''), ((''e1'', ''s2''), ''committed'')]"
proof -
  obtain led cs r where e: "execute_plan sample_env sample_ep [] = (led, cs, r)" by (metis prod_cases3)
  with sample_run_eval obtain log where r: "r = Inr log"
    "map (\<lambda>s. (step_id s, status s)) (steps log) =
       [(''s1'', StOk), (''s2'', StOk), (''s3'', StArgViolation), (''s4'', StSkipped)]"
    "outcome log = AbortedPartial" "map fst cs = [''s1'', ''s2'']"
    "map (\<lambda>(k, r). (k, lr_status r)) led =
       [((''e1'', ''s1''), ''committed''), ((''e1'', ''s2''), ''committed'')]"
    by (auto split: sum.splits)
  from r(2) obtain a b c d where "steps log = [a, b, c, d]"
    "map step_id [a, b, c, d] = [''s1'', ''s2'', ''s3'', ''s4'']"
    "map status [a, b, c, d] = [StOk, StOk, StArgViolation, StSkipped]"
    by (auto simp: map_eq_Cons_conv)
  with e r that show thesis by (auto simp: sample_ledger_def sample_log_def)
qed

lemma fresh_Nil [simp]: "fresh_ledger env []"
  by (simp add: fresh_ledger_def)

text \<open>
  C3: the log of a finished execution of a compiled plan is complete: it has exactly one entry
  for every action of the plan, whatever the tools did and wherever the plan was aborted.
\<close>

theorem execution_log_complete:
  assumes "compile_plan p reg = Inr ep" and "dict_ok (actions p)" and "fresh_ledger env led"
    and "execute_plan env ep led = (led', cs, Inr log)"
  shows "mset (map step_id (steps log)) = mset (dkeys (actions p))"
proof -
  note w = compiled_well_layered [OF assms(1,2)]
  have "mset (concat (layers ep)) = mset (dkeys (actions p))"
    using w assms(2) set_eq_iff_mset_eq_distinct [of "concat (layers ep)" "dkeys (actions p)"]
    by (auto simp only: well_layered_def dict_ok_def)
  with execute_plan_inv [OF assms(4) _ assms(3)] w show ?thesis by (simp del: mset_map)
qed

theorem execution_log_complete_witness:
  "mset (map step_id (steps sample_log)) = mset [''s1'', ''s2'', ''s3'', ''s4'']"
proof (rule sample_run)
  fix cs assume "execute_plan sample_env sample_ep [] = (sample_ledger, cs, Inr sample_log)"
  from execution_log_complete [OF sample_compiles fresh_Nil this] show ?thesis
    by (simp add: sample_chain_def sample_plan_def)
qed

text \<open>
  C2: no step runs out of order. For every entry of the log that is not a skip, at the time
  it ran all its data dependencies had already ended with \<open>ok\<close>, it was a root or a matched
  branch of a step that ended with \<open>ok\<close> had led to it, and no other step of its intent group
  had failed before if the group is \<open>honest_partial\<close>.
\<close>

theorem executed_step_justified:
  assumes "compile_plan p reg = Inr ep" and "dict_ok (actions p)" and "fresh_ledger env led"
    and "execute_plan env ep led = (led', cs, Inr log)"
    and "steps log = xs @ r # ys" and "status r \<noteq> StSkipped"
  shows "reached ep xs (step_id r) \<and> group_clean ep xs (step_id r)"
proof -
  have "log_ok ep (steps log)"
    using execute_plan_inv [OF assms(4) _ assms(3)] compiled_well_layered [OF assms(1,2)] by blast
  then have "entry_ok ep xs r" unfolding assms(5) by (rule log_okD)
  with assms(6) show ?thesis by (simp add: entry_ok_def)
qed

theorem executed_step_justified_witness:
  "\<exists>a b c d. steps sample_log = [a, b, c, d] \<and> reached sample_ep [a] ''s2''"
proof (rule sample_run)
  fix cs a b c d
  assume e: "execute_plan sample_env sample_ep [] = (sample_ledger, cs, Inr sample_log)"
    and s: "steps sample_log = [a, b, c, d]"
    and i: "map step_id [a, b, c, d] = [''s1'', ''s2'', ''s3'', ''s4'']"
    and t: "map status [a, b, c, d] = [StOk, StOk, StArgViolation, StSkipped]"
  from executed_step_justified [OF sample_compiles fresh_Nil e, of "[a]" b "[c, d]"] s i t
  show ?thesis by simp
qed



end
