(* ===== verification/ExecutorOutcome.thy ===== *)
theory ExecutorOutcome
  imports ExecutorProps
begin

text \<open>
  Aborts, outcomes, the ledger and branch matching: what a caller of the executor, the
  recovery scanner and the composer may conclude from a finished execution.
\<close>

section \<open>Aborts\<close>

lemma well_layered_split:
  assumes "well_layered ep" and "layers ep = As @ l # Bs"
  shows "distinct (concat As)" "distinct l" "distinct (concat Bs)" "set l \<inter> set (concat As) = {}"
    "set l \<inter> set (concat Bs) = {}" "set (concat As) \<inter> set (concat Bs) = {}"
  using assms by (auto simp: well_layered_def)

text \<open>
  C5: an abort ends the execution at its layer. When a step of some layer ends with an
  unknown outcome, a contract gap or an argument violation, or is a write that timed out,
  every step of every later layer is skipped.
\<close>

theorem abort_stops_later_layers:
  assumes "compile_plan p reg = Inr ep" and "dict_ok (actions p)" and "fresh_ledger env led"
    and "execute_plan env ep led = (led', cs, Inr log)" and "layers ep = As @ l # Bs"
    and "r \<in> set (steps log)" "step_id r \<in> set l" "aborting (env_registry env) r"
    and "q \<in> set (steps log)" "step_id q \<in> set (concat Bs)"
  shows "status q = StSkipped"
proof -
  note w = conjunct1 [OF compiled_well_layered [OF assms(1,2)]]
  note sp = well_layered_split [OF w assms(5)]
  let ?S0 = "initial_state (actions (ep_plan ep)) led"
  let ?S1 = "run_layers env ep (As @ [l]) ?S0"
  have fin: "final_state env ep led = run_layers env ep ((As @ [l]) @ Bs) ?S0"
    by (simp add: final_state_def assms(5))
  have ne: "layers ep \<noteq> []" using assms(5) by simp
  from assms(4) ne have c: "crash (final_state env ep led) = None"
    and st: "steps log = results (final_state env ep led)"
    by (auto simp: execute_plan_def Let_def split: option.splits)
  have c0: "crash ?S0 = None" by (simp add: initial_state_def)
  have f1: "final_state env ep led = (if crash ?S1 \<noteq> None then ?S1 else run_layers env ep Bs ?S1)"
    by (simp only: fin run_layers_append [OF c0] Let_def)
  with c have c1: "crash ?S1 = None" by (auto split: if_splits)
  have "layers ep = [] @ (As @ [l]) @ Bs" "ids ?S0 = []" by (simp_all add: assms(5) initial_state_def)
  from run_layers_inv [OF initial_inv c0 assms(3) w this(1) _ c1] this(2)
  have i1: "exec_inv env ep led ?S1" "mset (ids ?S1) = mset (concat (As @ [l]))"
    by (simp_all del: mset_map)
  then have set1: "set (ids ?S1) = set (concat (As @ [l]))" by (metis set_mset_mset)
  have "aborted ?S1 \<noteq> None"
  proof
    assume ab: "aborted ?S1 = None"
    have "layers ep = (As @ [l]) @ Bs @ []" by (simp add: assms(5))
    from run_layers_inv [OF i1(1) c1 assms(3) w this i1(2)] c f1 c1
    have sub: "set (results ?S1) \<subseteq> set (steps log)" and
      m: "mset (map step_id (steps log)) = mset (concat (layers ep))"
      by (auto simp: st assms(5) simp del: mset_map)
    from m w have d: "distinct (map step_id (steps log))"
      using mset_eq_imp_distinct_iff unfolding well_layered_def by blast
    have "step_id r \<in> set (ids ?S1)" using assms(7) unfolding set1 by simp
    then obtain r' where r': "r' \<in> set (results ?S1)" "step_id r' = step_id r" by auto
    with sub d assms(6) have "r' = r" by (metis distinct_map inj_onD subsetD)
    moreover have "quiet ep (env_registry env) ?S1" using i1 ab by (simp add: exec_inv_def)
    ultimately show False using assms(8) r'(1) by (auto simp: quiet_def aborting_def)
  qed
  from run_layers_aborted [OF this c1, of env ep Bs] obtain rs where
    rs: "steps log = results ?S1 @ rs" "\<forall>r\<in>set rs. status r = StSkipped"
    using f1 c1 st by auto
  have "step_id q \<notin> set (ids ?S1)" using assms(10) sp unfolding set1 by auto
  with assms(9) rs show ?thesis by auto
qed

theorem abort_stops_later_layers_witness:
  "\<exists>a b c d. steps sample_log = [a, b, c, d] \<and> status c = StArgViolation \<and> status d = StSkipped"
proof (rule sample_run)
  fix cs a b c d
  assume e: "execute_plan sample_env sample_ep [] = (sample_ledger, cs, Inr sample_log)"
    and s: "steps sample_log = [a, b, c, d]"
    and i: "map step_id [a, b, c, d] = [''s1'', ''s2'', ''s3'', ''s4'']"
    and t: "map status [a, b, c, d] = [StOk, StOk, StArgViolation, StSkipped]"
  have L: "layers sample_ep = [[''s1''], [''s2'']] @ [''s3''] # [[''s4'']]" by (simp add: sample_ep_def)
  have "status d = StSkipped"
    by (rule abort_stops_later_layers [OF sample_compiles fresh_Nil e L, of c])
      (use s i t in \<open>auto simp: aborting_def\<close>)
  with s t show ?thesis by simp
qed

section \<open>Outcomes\<close>

text \<open>An \<open>ok\<close> whose status the tool declares not to be a mutation.\<close>

definition declared_noop :: "registry \<Rightarrow> step_result \<Rightarrow> bool" where
  "declared_noop reg r \<longleftrightarrow>
     (\<exists>spec cs s out. dget reg (sr_tool r) = Some spec \<and> committed_statuses spec = Some cs \<and>
        parsed_output r = Some out \<and> dget out ''status'' = Some (VStr s) \<and> s \<notin> set cs)"

lemma not_committed_cases:
  assumes "\<not> may_have_committed_write reg r" and "is_write_tool reg (sr_tool r)" and "invoked r"
  shows "status r = StError \<or> status r = StOk \<and> declared_noop reg r"
  using assms
  by (cases "status r")
    (auto simp: may_have_committed_write_def is_write_tool_def invoked_def declared_noop_def
      output_field_def split: option.splits pyval.splits if_splits)

lemma outcome_facts:
  assumes "compile_plan p reg = Inr ep" and "dict_ok (actions p)" and "fresh_ledger env led"
    and "execute_plan env ep led = (led', cs, Inr log)"
    and "r \<in> set (steps log)" "invoked r"
  shows "(outcome log = Completed \<longrightarrow> status r = StOk) \<and>
    (outcome log = Failed \<and> is_write_tool (env_registry env) (sr_tool r) \<longrightarrow> status r = StError) \<and>
    (outcome log = Aborted \<and> is_write_tool (env_registry env) (sr_tool r) \<longrightarrow>
       status r = StError \<or> status r = StOk \<and> declared_noop (env_registry env) r) \<and>
    (outcome log = AbortedPartial \<longrightarrow>
       (\<exists>q\<in>set (steps log). invoked q \<and> is_write_tool (env_registry env) (sr_tool q)))"
proof -
  let ?reg = "env_registry env"
  from execute_plan_inv [OF assms(4) _ assms(3)] compiled_well_layered [OF assms(1,2)] obtain ab where
    o: "outcome log = summarise_outcome (steps log) ab ?reg" and
    q: "\<not> ab \<Longrightarrow> r \<in> set (steps log) \<Longrightarrow> status r \<notin> {StUnknownOutcome, StPlanGap, StArgViolation} \<and>
       (status r = StTimeout \<longrightarrow> \<not> is_write_tool ?reg (sr_tool r))" for r by blast
  show ?thesis
  proof (cases ab)
    case True
    have "outcome log = Aborted \<longrightarrow> \<not> may_have_committed_write ?reg r"
      using o True assms(5) by (auto simp: summarise_outcome_def list_ex_iff split: if_splits)
    moreover have "may_have_committed_write ?reg q \<Longrightarrow> invoked q \<and> is_write_tool ?reg (sr_tool q)" for q
      by (auto simp: may_have_committed_write_def invoked_def is_write_tool_def
          split: if_splits option.splits)
    ultimately show ?thesis
      using o True not_committed_cases [of ?reg r] assms(6)
      by (auto simp: summarise_outcome_def list_ex_iff split: if_splits)
  next
    case False
    from q [OF False assms(5)] assms(6) have
      "status r = StOk \<or> status r = StError \<or> status r = StTimeout \<and> \<not> is_write_tool ?reg (sr_tool r)"
      by (cases "status r") (auto simp: invoked_def)
    with o False assms(5) show ?thesis
      by (fastforce simp: summarise_outcome_def Let_def list_ex_iff split: if_splits)
  qed
qed



section \<open>The ledger after an execution\<close>

text \<open>
  C7: the step ledger tells the truth about the log. After an execution with the ledger
  enabled, exactly the invoked steps have new rows, under the operation id derived from the turn,
  the step and the tool; a row is \<open>committed\<close> for a step that ended well, \<open>unknown_pending\<close> for
  a durable write that timed out, \<open>unknown\<close> for one that ended badly in any other way, and
  \<open>started\<close> for anything without durable effect or when the closing write itself failed.
\<close>

theorem ledger_matches_log:
  assumes "compile_plan p reg = Inr ep" and "dict_ok (actions p)" and "fresh_ledger env led"
    and "execute_plan env ep led = (led', cs, Inr log)" and "ledger_ids env = Some (exid, turn)"
  shows "(\<forall>r\<in>set (steps log). invoked r \<longrightarrow>
       (\<exists>spec row. dget (env_registry env) (sr_tool r) = Some spec \<and>
          dget led' (exid, step_id r) = Some row \<and> lr_tool row = Some (sr_tool r) \<and>
          allocate_operation_id (sha1hex env) turn (step_id r) (sr_tool r) = Inr (lr_operation_id row) \<and>
          lr_status row = (if mark_fault env (step_id r) then ''started'' else closing spec (status r)))) \<and>
    (\<forall>k. (\<forall>r\<in>set (steps log). invoked r \<longrightarrow> k \<noteq> (exid, step_id r)) \<longrightarrow> dget led' k = dget led k)"
proof -
  have "ledger_agrees env led led' (steps log)"
    using execute_plan_inv [OF assms(4) _ assms(3)] compiled_well_layered [OF assms(1,2)] by blast
  with assms(5) show ?thesis by (simp add: ledger_agrees_def)
qed

theorem ledger_matches_log_witness:
  "dget sample_ledger (''e1'', ''s3'') = None \<and>
   (\<exists>row. dget sample_ledger (''e1'', ''s2'') = Some row \<and> lr_status row = ''committed'')"
proof (rule sample_run)
  fix cs a b c d
  assume e: "execute_plan sample_env sample_ep [] = (sample_ledger, cs, Inr sample_log)"
    and s: "steps sample_log = [a, b, c, d]"
    and i: "map step_id [a, b, c, d] = [''s1'', ''s2'', ''s3'', ''s4'']"
    and t: "map status [a, b, c, d] = [StOk, StOk, StArgViolation, StSkipped]"
  have "ledger_ids sample_env = Some (''e1'', ''turn'')" by (simp add: sample_env_def)
  note l = ledger_matches_log [OF sample_compiles fresh_Nil e this]
  have "invoked b" "b \<in> set (steps sample_log)" "step_id b = ''s2''" "status b = StOk"
    using s i t by (auto simp: invoked_def)
  moreover have "dget sample_ledger (''e1'', ''s3'') = dget [] (''e1'', ''s3'')"
    using conjunct2 [OF l] s i t by (auto simp: invoked_def)
  ultimately show ?thesis using conjunct1 [OF l]
    by (force simp: closing_def sample_env_def)
qed

section \<open>Branch matching\<close>

definition fires :: "outcome_branch list \<Rightarrow> vdict \<Rightarrow> nat \<Rightarrow> bool" where
  "fires bs out i \<longleftrightarrow>
     (if match (bs ! i) = [] then i = length bs - 1 else branch_matches out (bs ! i))"

lemma match_from_spec:
  "match_from idx last_idx bs out = Some (i, b) \<longleftrightarrow>
     (\<exists>k < length bs. i = idx + k \<and> b = bs ! k \<and>
        (if match (bs ! k) = [] then idx + k = last_idx else branch_matches out (bs ! k)) \<and>
        (\<forall>j<k. \<not> (if match (bs ! j) = [] then idx + j = last_idx else branch_matches out (bs ! j))))"
proof (induction bs arbitrary: idx)
  case (Cons x bs)
  let ?f = "\<lambda>k. if match ((x # bs) ! k) = [] then idx + k = last_idx else branch_matches out ((x # bs) ! k)"
  show ?case
  proof (cases "?f 0")
    case True
    then have "match_from idx last_idx (x # bs) out = Some (idx, x)" by (auto split: if_splits)
    moreover have "(\<exists>k < length (x # bs). i = idx + k \<and> b = (x # bs) ! k \<and> ?f k \<and> (\<forall>j<k. \<not> ?f j)) \<longleftrightarrow>
        i = idx \<and> b = x"
      using True by (metis add.right_neutral bot_nat_0.not_eq_extremum length_greater_0_conv
          list.distinct(1) not_less_zero nth_Cons_0)
    ultimately show ?thesis by auto
  next
    case False
    then have "match_from idx last_idx (x # bs) out = match_from (Suc idx) last_idx bs out"
      by (auto split: if_splits)
    moreover have "(\<exists>k < length (x # bs). i = idx + k \<and> b = (x # bs) ! k \<and> ?f k \<and> (\<forall>j<k. \<not> ?f j)) \<longleftrightarrow>
        (\<exists>k < length bs. i = idx + Suc k \<and> b = bs ! k \<and> ?f (Suc k) \<and> (\<forall>j<k. \<not> ?f (Suc j)))"
      (is "?L \<longleftrightarrow> ?R")
    proof
      assume ?L
      then obtain k where k: "k < length (x # bs)" "i = idx + k" "b = (x # bs) ! k" "?f k" "\<forall>j<k. \<not> ?f j"
        by blast
      with False obtain k' where "k = Suc k'" by (cases k) auto
      with k show ?R by (intro exI [of _ k']) auto
    next
      assume ?R
      then obtain k where k: "k < length bs" "i = idx + Suc k" "b = bs ! k" "?f (Suc k)"
        "\<forall>j<k. \<not> ?f (Suc j)" by blast
      have "\<not> ?f j" if "j < Suc k" for j using k(5) False that by (cases j) auto
      with k show ?L by (intro exI [of _ "Suc k"]) auto
    qed
    ultimately show ?thesis using Cons.IH [of "Suc idx"] by simp
  qed
qed simp

text \<open>
  branch matching picks the first branch that fires. A branch with conditions fires when
  all of them hold of the output (a missing field counts as \<open>None\<close>); one without conditions fires
  only in last position, so a misplaced catch-all never hides the branches behind it.
\<close>

theorem match_branch_spec:
  "match_branch bs out = Some (i, b) \<longleftrightarrow>
     i < length bs \<and> b = bs ! i \<and> fires bs out i \<and>
     list_all (\<lambda>j. \<not> fires bs out j) [0..<i]"
  unfolding match_branch_def match_from_spec fires_def by (auto simp: list_all_iff)

section \<open>Executions return\<close>

definition runnable_env :: "exec_env \<Rightarrow> plan \<Rightarrow> string set \<Rightarrow> bool" where
  "runnable_env env p V \<longleftrightarrow> ledger_ids env = None \<and>
     (\<forall>s\<in>V. \<exists>a spec. action_of p s = Some a \<and> dget (env_registry env) (tool_of p s) = Some spec \<and>
        tool_of p s \<in> tools_by_name env)"

lemma run_batch_returns:
  "runnable_env env p (set batch) \<Longrightarrow> \<exists>cs rs. run_batch env p snap batch led = (led, cs, Inr rs)"
proof (induction batch arbitrary: led)
  case (Cons s batch)
  then obtain a spec where "action_of p s = Some a" "dget (env_registry env) (tool_of p s) = Some spec"
    by (auto simp: runnable_env_def)
  moreover have "\<exists>cs r. execute_one_step env snap led s a spec = (led, cs, Inr r)"
    using Cons.prems
    by (auto simp: runnable_env_def execute_one_step_def open_for_def close_for_def
        split: sum.splits prod.splits)
  moreover have "\<exists>cs rs. run_batch env p snap batch led = (led, cs, Inr rs)"
    using Cons by (auto simp: runnable_env_def)
  ultimately show ?case by auto
qed simp

lemma crash_fold_skips [simp]: "crash (fold (record_skip p why) sids S) = crash S"
  by (induction sids arbitrary: S) auto

lemma crash_process:
  "crash (fst (fold (process_result ep reg) xs So)) = crash (fst So)"
proof (induction xs arbitrary: So)
  case (Cons x xs)
  have "crash (fst (process_result ep reg x So)) = crash (fst So)"
    by (cases x; cases So; cases "status (snd x)")
      (auto simp: process_result_def Let_def fail_group_def split: option.splits)
  with Cons show ?case by simp
qed simp

lemma check_batch_returns: "runnable_env env p (set batch) \<Longrightarrow> check_batch env p batch = None"
  by (induction batch) (auto simp: runnable_env_def)

lemma refilter_crash:
  "refilter_batch ep batch S = (S', run) \<Longrightarrow> crash S' = crash S \<and> set run \<subseteq> set batch"
  by (induction batch arbitrary: S S' run)
    (fastforce simp: Let_def split: if_splits prod.splits)+

lemma partition_crash:
  "partition_runnable ep l S = (S', run) \<Longrightarrow> crash S' = crash S \<and> set run \<subseteq> set l"
  by (induction l arbitrary: S S' run) (fastforce split: option.splits prod.splits)+

lemma runnable_env_subset: "runnable_env env p V \<Longrightarrow> W \<subseteq> V \<Longrightarrow> runnable_env env p W"
  by (auto simp: runnable_env_def)

lemma gather_crash:
  assumes "runnable_env env (ep_plan ep) (set batch)" and "crash S = None"
  shows "crash (fst (gather_batch env ep snap batch (S, outs))) = None"
proof -
  from run_batch_returns [OF assms(1), of snap "st_ledger S"] obtain cs rs where
    "run_batch env (ep_plan ep) snap batch (st_ledger S) = (st_ledger S, cs, Inr rs)" by blast
  with assms(2) show ?thesis by (simp add: gather_batch_def Let_def crash_process)
qed

lemma run_batches_crash:
  "runnable_env env (ep_plan ep) (set (concat bs)) \<Longrightarrow> crash S = None \<Longrightarrow>
     crash (fst (run_batches env ep snap bs (S, outs))) = None"
proof (induction bs arbitrary: S outs)
  case (Cons batch later)
  obtain S1 run where rf: "refilter_batch ep batch S = (S1, run)" by fastforce
  with refilter_crash [OF rf] Cons.prems(2) have c1: "crash S1 = None" and sub: "set run \<subseteq> set batch" by auto
  have re: "runnable_env env (ep_plan ep) (set run)" "runnable_env env (ep_plan ep) (set (concat later))"
    using Cons.prems(1) sub by (auto intro: runnable_env_subset)
  obtain S2 outs2 where ga: "gather_batch env ep snap run (S1, outs) = (S2, outs2)" by fastforce
  with gather_crash [OF re(1) c1, of snap outs] have c2: "crash S2 = None" by simp
  have "crash (fst (run_batches env ep snap later (S1, outs))) = None"
    "crash (fst (run_batches env ep snap later (S2, outs2))) = None"
    by (rule Cons.IH [OF re(2)], fact)+
  with c1 c2 rf ga check_batch_returns [OF re(1)] show ?case
    by (auto simp: barrier_abort_def Let_def drain_def split: option.splits prod.splits)
qed simp

lemma run_layer_crash:
  assumes "runnable_env env (ep_plan ep) (set l)" and "crash S = None"
  shows "crash (run_layer env ep l S) = None"
proof (cases "aborted S")
  case None
  obtain S1 run where pr: "partition_runnable ep l S = (S1, run)" by fastforce
  with partition_crash [OF pr] assms have "crash S1 = None" "runnable_env env (ep_plan ep) (set run)"
    by (auto intro: runnable_env_subset)
  then have "crash (fst (run_batches env ep (state_value (step_outputs S1)) (build_layer_batches ep run) (S1, []))) = None"
    by (intro run_batches_crash) (simp_all add: build_layer_batches del: set_concat)
  with None pr \<open>crash S1 = None\<close> show ?thesis
    by (auto simp: run_layer_def split: prod.splits)
qed (use assms in \<open>simp add: run_layer_def drain_def\<close>)

lemma run_layers_crash:
  "runnable_env env (ep_plan ep) (set (concat Ls)) \<Longrightarrow> crash S = None \<Longrightarrow>
     crash (run_layers env ep Ls S) = None"
proof (induction Ls arbitrary: S)
  case (Cons l Ls)
  have "crash (run_layer env ep l S) = None"
    by (rule run_layer_crash) (use Cons.prems in \<open>auto intro: runnable_env_subset\<close>)
  moreover have "runnable_env env (ep_plan ep) (set (concat Ls))"
    by (rule runnable_env_subset [OF Cons.prems(1)]) auto
  ultimately show ?case using Cons.IH by (simp add: Let_def)
qed simp

lemma execution_total:
  assumes "compile_plan p (env_registry env) = Inr ep" and "dict_ok (actions p)"
    and "ledger_ids env = None" and "set (dkeys (env_registry env)) \<subseteq> tools_by_name env"
  shows "\<exists>cs log. execute_plan env ep led = (led, cs, Inr log)"
proof -
  note w = compiled_well_layered [OF assms(1,2)]
  have "\<forall>(s, a)\<in>set (actions p). tool a \<in> set (dkeys (env_registry env))"
    using compile_plan_iff [OF assms(2)] assms(1) by blast
  then have "runnable_env env p (set (dkeys (actions p)))"
  proof (unfold runnable_env_def, intro conjI ballI)
    fix s assume "s \<in> set (dkeys (actions p))"
    then obtain a where a: "(s, a) \<in> set (actions p)" by auto
    then have g: "dget (actions p) s = Some a" using assms(2) by (intro mem_dget)
    have t: "tool a \<in> set (dkeys (env_registry env))"
      using \<open>\<forall>(s, a)\<in>set (actions p). tool a \<in> set (dkeys (env_registry env))\<close> a by blast
    then obtain spec where "dget (env_registry env) (tool a) = Some spec"
      by (metis dget_None_iff not_None_eq)
    with g t assms(4) show "\<exists>a spec. action_of p s = Some a \<and>
        dget (env_registry env) (tool_of p s) = Some spec \<and> tool_of p s \<in> tools_by_name env"
      by (auto simp: action_of_def tool_of_def simp del: set_map)
  qed (rule assms(3))
  with w have re: "runnable_env env (ep_plan ep) (set (concat (layers ep)))" by simp
  have "crash (final_state env ep led) = None"
    unfolding final_state_def by (rule run_layers_crash [OF re]) (simp add: initial_state_def)
  with assms(3) have "\<exists>led' cs log. execute_plan env ep led = (led', cs, Inr log)"
    by (simp add: execute_plan_def ledger_precondition_def Let_def)
  then obtain led' cs log where e: "execute_plan env ep led = (led', cs, Inr log)" by blast
  have "fresh_ledger env led" using assms(3) by (simp add: fresh_ledger_def)
  with execute_plan_inv [OF e] w assms(3) have "led' = led" by (auto simp: ledger_agrees_def)
  with e show ?thesis by blast
qed



end
