(* ===== verification/Leases.thy ===== *)
theory Leases
  imports Prelude
begin

text \<open>
  Leases with an expiry, as the message queue (\<open>workers/message_queue.py\<close>) and the recovery
  scanner (\<open>runtime/planner/recovery_scanner.py\<close>) use them: a claim takes rows whose lease is
  free or expired and gives them a lease of its own. Times are integers (microseconds).
\<close>

definition SEC :: int where "SEC = 1000000"

definition lease_free :: "int option \<Rightarrow> int \<Rightarrow> bool" where
  "lease_free l now \<longleftrightarrow> (case l of None \<Rightarrow> True | Some e \<Rightarrow> e < now)"

locale lease_table =
  fixes claim :: "'s \<Rightarrow> 'w \<Rightarrow> int \<Rightarrow> 's \<times> 'k list"
    and holder :: "'s \<Rightarrow> 'k \<Rightarrow> ('w \<times> int) option"
    and dur :: int
    and wf_s :: "'s \<Rightarrow> bool"
  assumes claim_free: "wf_s s \<Longrightarrow> claim s w now = (s', ks) \<Longrightarrow> k \<in> set ks \<Longrightarrow>
      lease_free (map_option snd (holder s k)) now"
    and claim_gives: "wf_s s \<Longrightarrow> claim s w now = (s', ks) \<Longrightarrow> k \<in> set ks \<Longrightarrow>
      holder s' k = Some (w, now + dur)"
    and claim_other: "wf_s s \<Longrightarrow> claim s w now = (s', ks) \<Longrightarrow> k \<notin> set ks \<Longrightarrow> holder s' k = holder s k"
    and claim_wf: "wf_s s \<Longrightarrow> claim s w now = (s', ks) \<Longrightarrow> wf_s s'"
begin

text \<open>A sequence of claims by any workers.\<close>

fun claims :: "'s \<Rightarrow> ('w \<times> int) list \<Rightarrow> 's \<times> 'k list" where
  "claims s [] = (s, [])"
| "claims s ((w, now) # xs) =
     (case claim s w now of (s1, ks) \<Rightarrow> (case claims s1 xs of (s2, ls) \<Rightarrow> (s2, ks @ ls)))"

lemma held_not_claimed:
  "wf_s s \<Longrightarrow> holder s k = Some (v, e) \<Longrightarrow> \<forall>(w, now)\<in>set xs. now \<le> e \<Longrightarrow> claims s xs = (s', ls) \<Longrightarrow>
     k \<notin> set ls \<and> holder s' k = Some (v, e) \<and> wf_s s'"
proof (induction xs arbitrary: s ls)
  case (Cons x xs)
  obtain w now where x: "x = (w, now)" by (cases x)
  obtain s1 ks where c: "claim s w now = (s1, ks)" by fastforce
  obtain ls2 where r: "claims s1 xs = (s', ls2)" "ls = ks @ ls2"
    using Cons.prems(4) c x by (auto split: prod.splits)
  have "k \<notin> set ks"
    using claim_free [OF Cons.prems(1) c] Cons.prems(2,3) x by (force simp: lease_free_def)
  moreover from this have "holder s1 k = Some (v, e)" using claim_other [OF Cons.prems(1) c] Cons.prems(2) by simp
  ultimately show ?case
    using Cons.IH [OF claim_wf [OF Cons.prems(1) c] _ _ r(1)] Cons.prems(3) r(2) by auto
qed simp

text \<open>While a lease runs, no worker claims the row again.\<close>

lemma exclusive:
  assumes "wf_s s" and "claim s w now = (s1, ks)" and "k \<in> set ks"
    and "\<forall>(v, t)\<in>set xs. t \<le> now + dur" and "claims s1 xs = (s2, ls)"
  shows "k \<notin> set ls \<and> holder s2 k = Some (w, now + dur)"
  using held_not_claimed [OF claim_wf [OF assms(1,2)] claim_gives [OF assms(1-3)] assms(4,5)] by blast

end

end
