(* ===== verification/Recovery.thy ===== *)
theory Recovery
  imports ToolSpec StepLedger Leases
begin

text \<open>
  \<open>runtime/planner/recovery.py\<close> (probe and decision) and
  \<open>runtime/planner/recovery_scanner.py\<close> (claim, recover, scan): what happens to executions
  whose worker died. The tables are dictionaries; a session that is rolled back leaves them
  as they were. The two audit tables are the lists of operation ids they hold.
\<close>

section \<open>Decisions\<close>

datatype recovery_action = Skip | MarkCommitted | MarkFailedNeedsManual | ReProbe

definition probe_operation :: "string list \<Rightarrow> string list \<Rightarrow> string \<Rightarrow> bool" where
  "probe_operation outbox feed op = (if op \<in> set outbox then True else op \<in> set feed)"

text \<open>\<open>None\<close> is the \<open>ValueError\<close> for an unrecognised status.\<close>

definition decide_recovery :: "string \<Rightarrow> bool \<Rightarrow> bool \<Rightarrow> bool \<Rightarrow> recovery_action option" where
  "decide_recovery st durable probed settled =
     (if st = ''committed'' then Some Skip
      else if st = ''started'' then
        (if \<not> durable then Some Skip
         else if probed then Some MarkCommitted else Some MarkFailedNeedsManual)
      else if st = ''unknown'' then
        (if \<not> durable then Some Skip
         else if probed then Some MarkCommitted else Some MarkFailedNeedsManual)
      else if st = ''unknown_pending'' then
        (if \<not> durable then Some Skip
         else if probed then Some MarkCommitted
         else if settled then Some MarkFailedNeedsManual else Some ReProbe)
      else None)"

section \<open>Executions and their claims\<close>

record exec_row =
  er_status :: string
  er_worker :: "string option"
  er_attempt :: int
  er_lease_until :: "int option"
  er_created_at :: int

type_synonym exec_table = "(string, exec_row) dict"

definition claimable :: "int \<Rightarrow> exec_row \<Rightarrow> bool" where
  "claimable now r \<longleftrightarrow> er_status r = ''in_progress'' \<and> lease_free (er_lease_until r) now"

text \<open>The oldest \<open>limit\<close> claimable rows, then the update of each.\<close>

definition claim_candidates :: "exec_table \<Rightarrow> int \<Rightarrow> nat \<Rightarrow> string list" where
  "claim_candidates execs now limit =
     take limit (map fst (sort_key (\<lambda>(k, r). er_created_at r) (filter (\<lambda>(k, r). claimable now r) execs)))"

definition claim_row :: "string \<Rightarrow> int \<Rightarrow> nat \<Rightarrow> exec_row \<Rightarrow> exec_row" where
  "claim_row worker now lease_seconds r =
     r\<lparr>er_worker := Some worker, er_attempt := er_attempt r + 1,
       er_lease_until := Some (now + int lease_seconds * SEC)\<rparr>"

definition claim_stale_executions ::
    "exec_table \<Rightarrow> string \<Rightarrow> int \<Rightarrow> nat \<Rightarrow> nat \<Rightarrow> exec_table \<times> string list" where
  "claim_stale_executions execs worker now lease_seconds limit =
     (let ids = claim_candidates execs now limit
      in (map (\<lambda>(k, r). (k, if k \<in> set ids then claim_row worker now lease_seconds r else r)) execs, ids))"

section \<open>Recovering one execution\<close>

datatype recover_status =
  RsNotFound | RsFailed | RsFailedNeedsManual | RsReProbePending | RsCommittedUnserved

text \<open>The flags of the loop over the ledger rows.\<close>

record recover_flags =
  rf_ledger :: ledger
  needs_manual :: bool
  re_probe_pending :: bool
  any_committed_durable :: bool
  earliest_deadline :: "int option"

definition row_durable :: "registry \<Rightarrow> ledger_row \<Rightarrow> bool" where
  "row_durable reg row =
     (case lr_tool row of
        None \<Rightarrow> True
      | Some t \<Rightarrow> if t = [] then True
                   else (case dget reg t of None \<Rightarrow> True | Some spec \<Rightarrow> is_durable_write spec))"

definition row_action :: "registry \<Rightarrow> string list \<Rightarrow> string list \<Rightarrow> int \<Rightarrow> nat \<Rightarrow> ledger_row \<Rightarrow> recovery_action option" where
  "row_action reg outbox feed now settle row =
     (let durable = row_durable reg row;
          probed = (if durable then probe_operation outbox feed (lr_operation_id row) else False);
          settled = (now - lr_updated_at row > int settle * SEC)
      in decide_recovery (lr_status row) durable probed settled)"

definition recover_row ::
    "registry \<Rightarrow> string list \<Rightarrow> string list \<Rightarrow> int \<Rightarrow> nat \<Rightarrow> ledger_key \<times> ledger_row \<Rightarrow> recover_flags \<Rightarrow> recover_flags option" where
  "recover_row reg outbox feed now settle kr F =
     (case kr of (key, row) \<Rightarrow>
        case row_action reg outbox feed now settle row of
          None \<Rightarrow> None
        | Some Skip \<Rightarrow>
            Some (if row_durable reg row \<and> lr_status row = ''committed''
                  then F\<lparr>any_committed_durable := True\<rparr> else F)
        | Some MarkCommitted \<Rightarrow>
            (case mark_step_status (rf_ledger F) key ''committed'' now of
               Inl e \<Rightarrow> None
             | Inr led \<Rightarrow> Some (F\<lparr>rf_ledger := led, any_committed_durable := True\<rparr>))
        | Some MarkFailedNeedsManual \<Rightarrow> Some (F\<lparr>needs_manual := True\<rparr>)
        | Some ReProbe \<Rightarrow>
            (let deadline = lr_updated_at row + int settle * SEC in
             Some (F\<lparr>re_probe_pending := True,
                     earliest_deadline :=
                       (case earliest_deadline F of
                          None \<Rightarrow> Some deadline
                        | Some d \<Rightarrow> if deadline < d then Some deadline else Some d)\<rparr>)))"

fun recover_rows ::
    "registry \<Rightarrow> string list \<Rightarrow> string list \<Rightarrow> int \<Rightarrow> nat \<Rightarrow> (ledger_key \<times> ledger_row) list \<Rightarrow>
     recover_flags \<Rightarrow> recover_flags option" where
  "recover_rows reg outbox feed now settle [] F = Some F"
| "recover_rows reg outbox feed now settle (kr # krs) F =
     (case recover_row reg outbox feed now settle kr F of
        None \<Rightarrow> None
      | Some F' \<Rightarrow> recover_rows reg outbox feed now settle krs F')"

definition rows_of :: "ledger \<Rightarrow> string \<Rightarrow> (ledger_key \<times> ledger_row) list" where
  "rows_of led exid = filter (\<lambda>((e, s), r). e = exid) led"

definition initial_flags :: "ledger \<Rightarrow> recover_flags" where
  "initial_flags led = \<lparr>rf_ledger = led, needs_manual = False, re_probe_pending = False,
     any_committed_durable = False, earliest_deadline = None\<rparr>"

definition backoff_lease :: "int \<Rightarrow> int option \<Rightarrow> int" where
  "backoff_lease now earliest =
     (let floor = now + SEC;
          b = (case earliest of None \<Rightarrow> floor | Some d \<Rightarrow> d)
      in if b < floor then floor else b)"

text \<open>\<open>None\<close>: an exception, which the scan turns into a rollback.\<close>

definition recover_execution ::
    "exec_table \<Rightarrow> ledger \<Rightarrow> string list \<Rightarrow> string list \<Rightarrow> string \<Rightarrow> registry \<Rightarrow> int \<Rightarrow> nat \<Rightarrow>
     (exec_table \<times> ledger \<times> recover_status) option" where
  "recover_execution execs led outbox feed exid reg now settle =
     (case dget execs exid of
        None \<Rightarrow> Some (execs, led, RsNotFound)
      | Some ex \<Rightarrow>
          (case recover_rows reg outbox feed now settle (rows_of led exid) (initial_flags led) of
             None \<Rightarrow> None
           | Some F \<Rightarrow>
               (let close = (\<lambda>st. dput execs exid (ex\<lparr>er_status := st, er_lease_until := None\<rparr>)) in
                Some
                 (if any_committed_durable F
                  then (close ''committed_unserved_needs_manual'', rf_ledger F, RsCommittedUnserved)
                  else if re_probe_pending F
                  then (dput execs exid
                          (ex\<lparr>er_lease_until := Some (backoff_lease now (earliest_deadline F))\<rparr>),
                        rf_ledger F, RsReProbePending)
                  else if needs_manual F
                  then (close ''failed_needs_manual'', rf_ledger F, RsFailedNeedsManual)
                  else (close ''failed'', rf_ledger F, RsFailed)))))"

section \<open>The scan\<close>

record scan_summary =
  n_claimed :: nat
  n_failed :: nat
  n_needs_manual :: nat
  n_unserved :: nat
  n_re_probe :: nat
  n_errored :: nat

record scan_state =
  sc_execs :: exec_table
  sc_ledger :: ledger
  sc_alerts :: "(string \<times> recover_status) list"
  sc_summary :: scan_summary

text \<open>Environment of a scan: claim failure, per-execution failure of the transaction, clock.\<close>

record scan_env =
  claim_fault :: bool
  commit_fault :: "string \<Rightarrow> bool"
  scan_clock :: "string \<Rightarrow> int"
  sc_outbox :: "string list"
  sc_feed :: "string list"
  has_alert_fn :: bool

definition tally :: "recover_status \<Rightarrow> scan_summary \<Rightarrow> scan_summary" where
  "tally st m =
     (case st of
        RsFailed \<Rightarrow> m\<lparr>n_failed := n_failed m + 1\<rparr>
      | RsFailedNeedsManual \<Rightarrow> m\<lparr>n_needs_manual := n_needs_manual m + 1\<rparr>
      | RsCommittedUnserved \<Rightarrow> m\<lparr>n_unserved := n_unserved m + 1\<rparr>
      | RsReProbePending \<Rightarrow> m\<lparr>n_re_probe := n_re_probe m + 1\<rparr>
      | RsNotFound \<Rightarrow> m\<lparr>n_errored := n_errored m + 1\<rparr>)"

definition alerts_for :: "recover_status \<Rightarrow> bool" where
  "alerts_for st \<longleftrightarrow> st = RsCommittedUnserved \<or> st = RsFailedNeedsManual"

definition scan_one :: "scan_env \<Rightarrow> registry \<Rightarrow> nat \<Rightarrow> string \<Rightarrow> scan_state \<Rightarrow> scan_state" where
  "scan_one env reg settle exid S =
     (let errored = S\<lparr>sc_summary := (sc_summary S)\<lparr>n_errored := n_errored (sc_summary S) + 1\<rparr>\<rparr> in
      if commit_fault env exid then errored
      else case recover_execution (sc_execs S) (sc_ledger S) (sc_outbox env) (sc_feed env) exid reg
                  (scan_clock env exid) settle of
        None \<Rightarrow> errored
      | Some (execs, led, st) \<Rightarrow>
          S\<lparr>sc_execs := execs, sc_ledger := led,
            sc_alerts := sc_alerts S @ (if alerts_for st \<and> has_alert_fn env then [(exid, st)] else []),
            sc_summary := tally st (sc_summary S)\<rparr>)"

definition zero_summary :: scan_summary where
  "zero_summary = \<lparr>n_claimed = 0, n_failed = 0, n_needs_manual = 0, n_unserved = 0, n_re_probe = 0, n_errored = 0\<rparr>"

definition run_recovery_scan ::
    "scan_env \<Rightarrow> exec_table \<Rightarrow> ledger \<Rightarrow> string \<Rightarrow> int \<Rightarrow> nat \<Rightarrow> nat \<Rightarrow> registry \<Rightarrow> nat \<Rightarrow> scan_state" where
  "run_recovery_scan env execs led worker now lease_seconds settle reg limit =
     (let S0 = \<lparr>sc_execs = execs, sc_ledger = led, sc_alerts = [], sc_summary = zero_summary\<rparr> in
      if claim_fault env then S0
      else (case claim_stale_executions execs worker now lease_seconds limit of
              (execs1, ids) \<Rightarrow>
                fold (scan_one env reg settle) ids
                  (S0\<lparr>sc_execs := execs1, sc_summary := zero_summary\<lparr>n_claimed := length ids\<rparr>\<rparr>)))"

section \<open>Severity\<close>

text \<open>
  The priority of the resolution: a committed write dominates a pending probe, which dominates
  a write that did not land.
\<close>

datatype severity = SevNone | SevManual | SevPending | SevCommitted

definition sev_rank :: "severity \<Rightarrow> nat" where
  "sev_rank s = (case s of SevNone \<Rightarrow> 0 | SevManual \<Rightarrow> 1 | SevPending \<Rightarrow> 2 | SevCommitted \<Rightarrow> 3)"

instantiation severity :: linorder
begin

definition less_eq_severity :: "severity \<Rightarrow> severity \<Rightarrow> bool" where
  "less_eq_severity a b \<longleftrightarrow> sev_rank a \<le> sev_rank b"

definition less_severity :: "severity \<Rightarrow> severity \<Rightarrow> bool" where
  "less_severity a b \<longleftrightarrow> sev_rank a < sev_rank b"

instance
  by standard (auto simp: less_eq_severity_def less_severity_def sev_rank_def split: severity.splits)

end

lemma sev_less_eq [simp]:
  "SevNone \<le> s" "s \<le> SevCommitted" "SevCommitted \<le> s \<longleftrightarrow> s = SevCommitted"
  "SevPending \<le> s \<longleftrightarrow> s = SevPending \<or> s = SevCommitted" "s \<le> SevNone \<longleftrightarrow> s = SevNone"
  "SevManual \<le> s \<longleftrightarrow> s \<noteq> SevNone"
  by (cases s; simp add: less_eq_severity_def sev_rank_def)+

definition row_severity :: "registry \<Rightarrow> string list \<Rightarrow> string list \<Rightarrow> int \<Rightarrow> nat \<Rightarrow> ledger_row \<Rightarrow> severity" where
  "row_severity reg outbox feed now settle row =
     (case row_action reg outbox feed now settle row of
        Some MarkCommitted \<Rightarrow> SevCommitted
      | Some ReProbe \<Rightarrow> SevPending
      | Some MarkFailedNeedsManual \<Rightarrow> SevManual
      | _ \<Rightarrow> if row_durable reg row \<and> lr_status row = ''committed'' then SevCommitted else SevNone)"

definition status_of_severity :: "severity \<Rightarrow> recover_status" where
  "status_of_severity s =
     (case s of SevNone \<Rightarrow> RsFailed | SevManual \<Rightarrow> RsFailedNeedsManual
      | SevPending \<Rightarrow> RsReProbePending | SevCommitted \<Rightarrow> RsCommittedUnserved)"

section \<open>The loop over the rows\<close>

lemma decide_recovery_table:
  "st \<in> set LEDGER_STATUSES \<Longrightarrow>
     decide_recovery st durable probed settled =
       Some (if st = ''committed'' \<or> \<not> durable then Skip
             else if probed then MarkCommitted
             else if st = ''unknown_pending'' \<and> \<not> settled then ReProbe else MarkFailedNeedsManual)"
  by (auto simp: decide_recovery_def LEDGER_STATUSES_def TERMINAL_STATUSES_def)

definition row_deadline :: "nat \<Rightarrow> ledger_row \<Rightarrow> int" where
  "row_deadline settle row = lr_updated_at row + int settle * SEC"

definition confirmed :: "int \<Rightarrow> ledger_row \<Rightarrow> ledger_row" where
  "confirmed now row = row\<lparr>lr_status := ''committed'', lr_updated_at := now\<rparr>"

lemma dput_old_keys: "k \<in> set (dkeys d) \<Longrightarrow> dkeys (dput d k v) = dkeys d"
  by (induction d) auto

lemma mark_committed:
  "k \<in> set (dkeys led) \<Longrightarrow> \<exists>led'. mark_step_status led k ''committed'' now = Inr led' \<and>
     set (dkeys led') = set (dkeys led) \<and>
     (\<forall>j. dget led' j = (if j = k then map_option (confirmed now) (dget led j) else dget led j))"
proof -
  assume k: "k \<in> set (dkeys led)"
  then obtain row where row: "dget led k = Some row" by (metis dget_None_iff not_None_eq)
  then have "mark_step_status led k ''committed'' now = Inr (dput led k (confirmed now row))"
    by (simp add: mark_step_status_def TERMINAL_STATUSES_def confirmed_def)
  moreover have "set (dkeys (dput led k v)) = set (dkeys led)" for v
    using dput_old_keys [OF k] by simp
  ultimately show ?thesis using row by auto
qed

lemma recover_rows_spec:
  fixes F :: recover_flags and reg :: registry and outbox feed :: "string list" and now :: int and settle :: nat
  defines "act \<equiv> row_action reg outbox feed now settle" and "sev \<equiv> row_severity reg outbox feed now settle"
  shows "\<forall>(k, r)\<in>set krs. lr_status r \<in> set LEDGER_STATUSES \<and> k \<in> set (dkeys (rf_ledger F)) \<Longrightarrow>
    distinct (map fst krs) \<Longrightarrow>
    \<exists>F'. recover_rows reg outbox feed now settle krs F = Some F' \<and>
      (any_committed_durable F' \<longleftrightarrow> any_committed_durable F \<or> SevCommitted \<in> sev ` snd ` set krs) \<and>
      (re_probe_pending F' \<longleftrightarrow> re_probe_pending F \<or> SevPending \<in> sev ` snd ` set krs) \<and>
      (needs_manual F' \<longleftrightarrow> needs_manual F \<or> SevManual \<in> sev ` snd ` set krs) \<and>
      (\<forall>d. earliest_deadline F' = Some d \<longrightarrow> earliest_deadline F = Some d \<or>
         (\<exists>r\<in>snd ` set krs. sev r = SevPending \<and> d = row_deadline settle r)) \<and>
      (earliest_deadline F' = None \<longrightarrow> earliest_deadline F = None \<and> SevPending \<notin> sev ` snd ` set krs) \<and>
      (\<forall>j. dget (rf_ledger F') j =
         (case map_of krs j of
            Some r \<Rightarrow> if act r = Some MarkCommitted then map_option (confirmed now) (dget (rf_ledger F) j)
                      else dget (rf_ledger F) j
          | None \<Rightarrow> dget (rf_ledger F) j))"
proof (induction krs arbitrary: F)
  case (Cons kr krs)
  obtain k r where kr: "kr = (k, r)" by (cases kr)
  have st: "lr_status r \<in> set LEDGER_STATUSES" and k: "k \<in> set (dkeys (rf_ledger F))"
    using Cons.prems(1) by (auto simp: kr simp del: set_map)
  have d: "distinct (map fst krs)" and nk: "k \<notin> fst ` set krs" using Cons.prems(2) by (auto simp: kr)
  have mk: "map_of krs k = None" using nk by (simp add: map_of_eq_None_iff)
  obtain a where a: "act r = Some a"
    using decide_recovery_table [OF st] by (auto simp: act_def row_action_def Let_def)
  note rr = a [unfolded act_def]
  have step: "\<exists>F1. recover_row reg outbox feed now settle kr F = Some F1 \<and>
      (any_committed_durable F1 \<longleftrightarrow> any_committed_durable F \<or> sev r = SevCommitted) \<and>
      (re_probe_pending F1 \<longleftrightarrow> re_probe_pending F \<or> sev r = SevPending) \<and>
      (needs_manual F1 \<longleftrightarrow> needs_manual F \<or> sev r = SevManual) \<and>
      (\<forall>d. earliest_deadline F1 = Some d \<longrightarrow> earliest_deadline F = Some d \<or>
         sev r = SevPending \<and> d = row_deadline settle r) \<and>
      (earliest_deadline F1 = None \<longrightarrow> earliest_deadline F = None \<and> sev r \<noteq> SevPending) \<and>
      set (dkeys (rf_ledger F1)) = set (dkeys (rf_ledger F)) \<and>
      (\<forall>j. dget (rf_ledger F1) j =
         (if j = k \<and> a = MarkCommitted then map_option (confirmed now) (dget (rf_ledger F) j)
          else dget (rf_ledger F) j))"
  proof (cases a)
    case MarkCommitted
    with mark_committed [OF k, of now] rr show ?thesis
      by (auto simp: recover_row_def kr sev_def row_severity_def simp del: set_map)
  qed (use rr in \<open>auto simp: recover_row_def kr sev_def row_severity_def row_deadline_def Let_def
      split: option.splits\<close>)
  then obtain F1 where F1: "recover_row reg outbox feed now settle kr F = Some F1"
    "any_committed_durable F1 \<longleftrightarrow> any_committed_durable F \<or> sev r = SevCommitted"
    "re_probe_pending F1 \<longleftrightarrow> re_probe_pending F \<or> sev r = SevPending"
    "needs_manual F1 \<longleftrightarrow> needs_manual F \<or> sev r = SevManual"
    "\<forall>d. earliest_deadline F1 = Some d \<longrightarrow> earliest_deadline F = Some d \<or>
         sev r = SevPending \<and> d = row_deadline settle r"
    "earliest_deadline F1 = None \<longrightarrow> earliest_deadline F = None \<and> sev r \<noteq> SevPending"
    "set (dkeys (rf_ledger F1)) = set (dkeys (rf_ledger F))"
    "\<forall>j. dget (rf_ledger F1) j = (if j = k \<and> a = MarkCommitted
        then map_option (confirmed now) (dget (rf_ledger F) j) else dget (rf_ledger F) j)"
    by (elim exE conjE) (rule that)
  have "\<forall>(k, r)\<in>set krs. lr_status r \<in> set LEDGER_STATUSES \<and> k \<in> set (dkeys (rf_ledger F1))"
    using Cons.prems(1) F1(7) by (simp del: set_map)
  from Cons.IH [OF this d] obtain F' where F': "recover_rows reg outbox feed now settle krs F1 = Some F'"
    "any_committed_durable F' \<longleftrightarrow> any_committed_durable F1 \<or> SevCommitted \<in> sev ` snd ` set krs"
    "re_probe_pending F' \<longleftrightarrow> re_probe_pending F1 \<or> SevPending \<in> sev ` snd ` set krs"
    "needs_manual F' \<longleftrightarrow> needs_manual F1 \<or> SevManual \<in> sev ` snd ` set krs"
    "\<forall>d. earliest_deadline F' = Some d \<longrightarrow> earliest_deadline F1 = Some d \<or>
         (\<exists>r\<in>snd ` set krs. sev r = SevPending \<and> d = row_deadline settle r)"
    "earliest_deadline F' = None \<longrightarrow> earliest_deadline F1 = None \<and> SevPending \<notin> sev ` snd ` set krs"
    "\<forall>j. dget (rf_ledger F') j = (case map_of krs j of
            Some r \<Rightarrow> if act r = Some MarkCommitted then map_option (confirmed now) (dget (rf_ledger F1) j)
                      else dget (rf_ledger F1) j
          | None \<Rightarrow> dget (rf_ledger F1) j)" by (elim exE conjE) (rule that)
  have "\<forall>j. dget (rf_ledger F') j = (case map_of (kr # krs) j of
            Some r \<Rightarrow> if act r = Some MarkCommitted then map_option (confirmed now) (dget (rf_ledger F) j)
                      else dget (rf_ledger F) j
          | None \<Rightarrow> dget (rf_ledger F) j)"
  proof
    fix j show "dget (rf_ledger F') j = (case map_of (kr # krs) j of
            Some r \<Rightarrow> if act r = Some MarkCommitted then map_option (confirmed now) (dget (rf_ledger F) j)
                      else dget (rf_ledger F) j
          | None \<Rightarrow> dget (rf_ledger F) j)"
      using mk a by (cases "j = k") (auto simp: kr F'(7) F1(8) split: option.splits)
  qed
  moreover have "\<forall>d. earliest_deadline F' = Some d \<longrightarrow> earliest_deadline F = Some d \<or>
         (\<exists>r\<in>snd ` set (kr # krs). sev r = SevPending \<and> d = row_deadline settle r)"
    using F'(5) F1(5) by (fastforce simp: kr)
  moreover have "earliest_deadline F' = None \<longrightarrow>
      earliest_deadline F = None \<and> SevPending \<notin> sev ` snd ` set (kr # krs)"
    using F'(6) F1(6) by (auto simp: kr)
  moreover have "recover_rows reg outbox feed now settle (kr # krs) F = Some F'" using F1(1) F'(1) by simp
  moreover have "any_committed_durable F' \<longleftrightarrow> any_committed_durable F \<or> SevCommitted \<in> sev ` snd ` set (kr # krs)"
    using F1(2) F'(2) by (auto simp: kr)
  moreover have "re_probe_pending F' \<longleftrightarrow> re_probe_pending F \<or> SevPending \<in> sev ` snd ` set (kr # krs)"
    using F1(3) F'(3) by (auto simp: kr)
  moreover have "needs_manual F' \<longleftrightarrow> needs_manual F \<or> SevManual \<in> sev ` snd ` set (kr # krs)"
    using F1(4) F'(4) by (auto simp: kr)
  ultimately show ?case by (intro exI [of _ F'] conjI)
qed simp

text \<open>
  What is known about the write behind a row, read off the row and the audit tables alone:
  nothing to recover, landed, possibly still in flight, or not landed.
\<close>

definition write_state :: "registry \<Rightarrow> string set \<Rightarrow> int \<Rightarrow> nat \<Rightarrow> ledger_row \<Rightarrow> severity" where
  "write_state reg audit now settle row =
     (if \<not> row_durable reg row then SevNone
      else if lr_status row = ''committed'' \<or> lr_operation_id row \<in> audit then SevCommitted
      else if lr_status row = ''unknown_pending'' \<and> now \<le> row_deadline settle row then SevPending
      else SevManual)"

lemma probe_operation_iff: "probe_operation outbox feed op \<longleftrightarrow> op \<in> set outbox \<union> set feed"
  by (simp add: probe_operation_def)

lemma row_severity_write_state:
  "lr_status row \<in> set LEDGER_STATUSES \<Longrightarrow>
     row_severity reg outbox feed now settle row = write_state reg (set outbox \<union> set feed) now settle row"
  by (auto simp: row_severity_def row_action_def decide_recovery_table write_state_def Let_def
      probe_operation_iff row_deadline_def)

lemma row_action_committed:
  "lr_status row \<in> set LEDGER_STATUSES \<Longrightarrow>
     row_action reg outbox feed now settle row = Some MarkCommitted \<longleftrightarrow>
       row_durable reg row \<and> lr_status row \<noteq> ''committed'' \<and> lr_operation_id row \<in> set outbox \<union> set feed"
  by (auto simp: row_action_def decide_recovery_table Let_def probe_operation_iff)

lemma rows_of_mem: "(k, r) \<in> set (rows_of led exid) \<longleftrightarrow> (k, r) \<in> set led \<and> fst k = exid"
  by (auto simp: rows_of_def)

lemma map_of_rows_of: "map_of (rows_of led exid) k = (if fst k = exid then dget led k else None)"
  by (induction led) (auto simp: rows_of_def)

lemma rows_of_ok:
  assumes "ledger_ok led"
  shows "\<forall>(k, r)\<in>set (rows_of led exid). lr_status r \<in> set LEDGER_STATUSES \<and> k \<in> set (dkeys led)"
    and "distinct (map fst (rows_of led exid))"
proof -
  show "\<forall>(k, r)\<in>set (rows_of led exid). lr_status r \<in> set LEDGER_STATUSES \<and> k \<in> set (dkeys led)"
    using assms by (force simp: rows_of_mem ledger_ok_def)
  show "distinct (map fst (rows_of led exid))"
    using assms unfolding ledger_ok_def dict_ok_def rows_of_def by (auto intro: distinct_map_filter)
qed

text \<open>The states of the writes of one execution.\<close>

definition write_states :: "registry \<Rightarrow> string set \<Rightarrow> int \<Rightarrow> nat \<Rightarrow> ledger \<Rightarrow> string \<Rightarrow> severity set" where
  "write_states reg audit now settle led exid =
     write_state reg audit now settle ` snd ` set (rows_of led exid)"

lemma severity_image:
  assumes "ledger_ok led"
  shows "row_severity reg outbox feed now settle ` snd ` set (rows_of led exid) =
    write_states reg (set outbox \<union> set feed) now settle led exid"
  unfolding write_states_def image_image
  using rows_of_ok(1) [OF assms, of exid] by (auto simp: row_severity_write_state intro!: image_cong)

definition worst :: "severity set \<Rightarrow> severity" where
  "worst S = Max (insert SevNone S)"

lemma worst_cases:
  assumes "finite S"
  shows "worst S = (if SevCommitted \<in> S then SevCommitted else if SevPending \<in> S then SevPending
    else if SevManual \<in> S then SevManual else SevNone)"
  unfolding worst_def using assms
  by (intro Max_eqI) (auto split: if_splits, (metis severity.exhaust sev_less_eq)+)

lemma status_of_severity_inject [simp]: "status_of_severity a = status_of_severity b \<longleftrightarrow> a = b"
  by (cases a; cases b) (simp_all add: status_of_severity_def)

text \<open>What recovery leaves in the row of the execution.\<close>

definition resolved_row :: "exec_row \<Rightarrow> recover_status \<Rightarrow> int \<Rightarrow> exec_row" where
  "resolved_row ex st lease =
     (case st of
        RsCommittedUnserved \<Rightarrow> ex\<lparr>er_status := ''committed_unserved_needs_manual'', er_lease_until := None\<rparr>
      | RsReProbePending \<Rightarrow> ex\<lparr>er_lease_until := Some lease\<rparr>
      | RsFailedNeedsManual \<Rightarrow> ex\<lparr>er_status := ''failed_needs_manual'', er_lease_until := None\<rparr>
      | RsFailed \<Rightarrow> ex\<lparr>er_status := ''failed'', er_lease_until := None\<rparr>
      | RsNotFound \<Rightarrow> ex)"

text \<open>The rows a recovery confirms.\<close>

definition landed_now :: "registry \<Rightarrow> string set \<Rightarrow> string \<Rightarrow> ledger_key \<Rightarrow> ledger_row \<Rightarrow> bool" where
  "landed_now reg audit exid k r \<longleftrightarrow>
     fst k = exid \<and> row_durable reg r \<and> lr_status r \<noteq> ''committed'' \<and> lr_operation_id r \<in> audit"

lemma initial_flags_simps:
  "rf_ledger (initial_flags led) = led" "needs_manual (initial_flags led) = False"
  "re_probe_pending (initial_flags led) = False" "any_committed_durable (initial_flags led) = False"
  "earliest_deadline (initial_flags led) = None"
  by (simp_all add: initial_flags_def)

lemma recover_execution_spec:
  fixes reg :: registry and outbox feed :: "string list" and now :: int and settle :: nat
  assumes ok: "ledger_ok led" and ex: "dget execs exid = Some ex"
  defines "S \<equiv> write_states reg (set outbox \<union> set feed) now settle led exid"
  shows "\<exists>led' lease. recover_execution execs led outbox feed exid reg now settle =
      Some (dput execs exid (resolved_row ex (status_of_severity (worst S)) lease), led',
            status_of_severity (worst S)) \<and>
    (\<forall>k. dget led' k = map_option (\<lambda>r. if landed_now reg (set outbox \<union> set feed) exid k r
                                       then confirmed now r else r) (dget led k)) \<and>
    (SevPending \<in> S \<longrightarrow> now + SEC \<le> lease \<and>
       (\<exists>r\<in>snd ` set (rows_of led exid). write_state reg (set outbox \<union> set feed) now settle r = SevPending \<and>
          row_deadline settle r \<le> lease))"
proof -
  have pre: "\<forall>(k, r)\<in>set (rows_of led exid). lr_status r \<in> set LEDGER_STATUSES \<and>
      k \<in> set (dkeys (rf_ledger (initial_flags led)))"
    using rows_of_ok(1) [OF ok] by (simp add: initial_flags_def del: set_map)
  have fin: "finite S" by (simp add: S_def write_states_def)
  note sv = severity_image [OF ok, of reg outbox feed now settle exid]
  have rs: "row_severity reg outbox feed now settle r = write_state reg (set outbox \<union> set feed) now settle r"
    if "r \<in> snd ` set (rows_of led exid)" for r
    using that rows_of_ok(1) [OF ok, of exid] by (fastforce intro: row_severity_write_state)
  note spec = recover_rows_spec [OF pre rows_of_ok(2) [OF ok], of reg outbox feed now settle,
      unfolded initial_flags_simps sv, folded S_def]
  from spec obtain F where
    F: "recover_rows reg outbox feed now settle (rows_of led exid) (initial_flags led) = Some F"
    "any_committed_durable F \<longleftrightarrow> False \<or> SevCommitted \<in> S" "re_probe_pending F \<longleftrightarrow> False \<or> SevPending \<in> S"
    "needs_manual F \<longleftrightarrow> False \<or> SevManual \<in> S"
    and dl: "\<forall>d. earliest_deadline F = Some d \<longrightarrow> None = Some d \<or>
      (\<exists>r\<in>snd ` set (rows_of led exid). row_severity reg outbox feed now settle r = SevPending \<and> d = row_deadline settle r)"
    and none: "earliest_deadline F = None \<longrightarrow> (None :: int option) = None \<and> SevPending \<notin> S"
    and led: "\<forall>j. dget (rf_ledger F) j = (case map_of (rows_of led exid) j of
        Some r \<Rightarrow> if row_action reg outbox feed now settle r = Some MarkCommitted
                  then map_option (confirmed now) (dget led j) else dget led j
      | None \<Rightarrow> dget led j)"
    by (elim exE conjE) (rule that)
  have "dget (rf_ledger F) k = map_option (\<lambda>r. if landed_now reg (set outbox \<union> set feed) exid k r
      then confirmed now r else r) (dget led k)" for k
  proof (cases "dget led k")
    case (Some r)
    then have "lr_status r \<in> set LEDGER_STATUSES" using ok by (force simp: ledger_ok_def dest: dget_Some_mem)
    then show ?thesis using Some by (auto simp: led map_of_rows_of landed_now_def row_action_committed)
  qed (simp add: led map_of_rows_of)
  moreover have "SevPending \<in> S \<longrightarrow> now + SEC \<le> backoff_lease now (earliest_deadline F) \<and>
       (\<exists>r\<in>snd ` set (rows_of led exid). write_state reg (set outbox \<union> set feed) now settle r = SevPending \<and>
          row_deadline settle r \<le> backoff_lease now (earliest_deadline F))"
  proof
    assume p: "SevPending \<in> S"
    with none obtain d where d: "earliest_deadline F = Some d" by blast
    from dl [rule_format, OF d] rs show "now + SEC \<le> backoff_lease now (earliest_deadline F) \<and>
       (\<exists>r\<in>snd ` set (rows_of led exid). write_state reg (set outbox \<union> set feed) now settle r = SevPending \<and>
          row_deadline settle r \<le> backoff_lease now (earliest_deadline F))"
      by (auto simp: backoff_lease_def d Let_def)
  qed
  moreover have "recover_execution execs led outbox feed exid reg now settle =
      Some (dput execs exid (resolved_row ex (status_of_severity (worst S)) (backoff_lease now (earliest_deadline F))),
            rf_ledger F, status_of_severity (worst S))"
    using F by (simp add: recover_execution_def ex worst_cases [OF fin] status_of_severity_def
        resolved_row_def Let_def)
  ultimately show ?thesis
    by (intro exI [of _ "rf_ledger F"] exI [of _ "backoff_lease now (earliest_deadline F)"]) simp
qed

section \<open>Claims\<close>

lemma claim_candidates_mem:
  assumes "dict_ok execs" and "k \<in> set (claim_candidates execs now limit)"
  shows "\<exists>r. dget execs k = Some r \<and> claimable now r"
proof -
  from assms(2) have "k \<in> fst ` set (filter (\<lambda>(k, r). claimable now r) execs)"
    by (auto simp: claim_candidates_def take_map dest!: in_set_takeD)
  with assms(1) show ?thesis by (auto dest: mem_dget)
qed

lemma dget_map_key: "dget (map (\<lambda>(k, v). (k, f k v)) d) k = map_option (f k) (dget d k)"
  by (induction d) auto

lemma claim_get:
  "claim_stale_executions execs w now ls limit = (execs', ids) \<Longrightarrow>
     dget execs' k = map_option (\<lambda>r. if k \<in> set ids then claim_row w now ls r else r) (dget execs k)"
  "claim_stale_executions execs w now ls limit = (execs', ids) \<Longrightarrow> dkeys execs' = dkeys execs"
  by (auto simp: claim_stale_executions_def Let_def dget_map_key)

lemma claim_mem:
  assumes "dict_ok execs" and "claim_stale_executions execs w now ls limit = (execs', ids)" and "k \<in> set ids"
  obtains r where "dget execs k = Some r" and "claimable now r" and "dget execs' k = Some (claim_row w now ls r)"
proof -
  have "ids = claim_candidates execs now limit" using assms(2) by (simp add: claim_stale_executions_def Let_def)
  with claim_candidates_mem [OF assms(1)] assms(3) obtain r where "dget execs k = Some r" "claimable now r" by blast
  with claim_get(1) [OF assms(2), of k] assms(3) show thesis by (auto intro: that)
qed

definition exec_holder :: "exec_table \<Rightarrow> string \<Rightarrow> (string \<times> int) option" where
  "exec_holder execs k =
     (case dget execs k of
        Some r \<Rightarrow> (case (er_worker r, er_lease_until r) of (Some w, Some e) \<Rightarrow> Some (w, e) | _ \<Rightarrow> None)
      | None \<Rightarrow> None)"

interpretation rc: lease_table
  "\<lambda>execs w now. claim_stale_executions execs w now ls limit" exec_holder "int ls * SEC" dict_ok
  for ls :: nat and limit :: nat
proof (unfold_locales, goal_cases)
  case (1 s w now s' ks k)
  then obtain r where "dget s k = Some r" "claimable now r" by (rule claim_mem)
  then show ?case by (auto simp: exec_holder_def claimable_def lease_free_def split: option.splits)
next
  case (2 s w now s' ks k)
  then obtain r where "dget s' k = Some (claim_row w now ls r)" by (rule claim_mem)
  then show ?case by (simp add: exec_holder_def claim_row_def)
next
  case (3 s w now s' ks k)
  with claim_get(1) [OF 3(2), of k] show ?case by (simp add: exec_holder_def map_option_case split: option.splits)
next
  case (4 s w now s' ks)
  with claim_get(2) [OF 4(2)] show ?case by (simp add: dict_ok_def)
qed

lemma sorted_take_le:
  "sorted (map f xs) \<Longrightarrow> x \<in> set (take n xs) \<Longrightarrow> y \<in> set xs \<Longrightarrow> y \<notin> set (take n xs) \<Longrightarrow> f x \<le> f y"
proof -
  assume s: "sorted (map f xs)" and x: "x \<in> set (take n xs)" and y: "y \<in> set xs" "y \<notin> set (take n xs)"
  have "y \<in> set (drop n xs)" using y by (metis UnE append_take_drop_id set_append)
  moreover have "sorted (map f (take n xs) @ map f (drop n xs))" using s by (metis append_take_drop_id map_append)
  ultimately show ?thesis using x by (auto simp: sorted_append)
qed

section \<open>Properties\<close>

text \<open>
  C30: what recovery does with an execution is decided by the worst state among its writes,
  in the order none, not landed, possibly in flight, landed: the returned status and the row
  of the execution are the ones of that maximum, no other execution is touched, and the
  ledger changes only in that rows of this execution whose operation is in an audit table
  become \<open>committed\<close>. On a consistent ledger recovery never raises.
\<close>

theorem recover_resolution:
  assumes "ledger_ok led" and "dget execs exid = Some ex"
  shows "\<exists>led' lease st. recover_execution execs led outbox feed exid reg now settle =
      Some (dput execs exid (resolved_row ex st lease), led', st) \<and>
    st = status_of_severity (worst (write_states reg (set outbox \<union> set feed) now settle led exid)) \<and>
    (\<forall>k. dget led' k = map_option (\<lambda>r. if landed_now reg (set outbox \<union> set feed) exid k r
                                       then confirmed now r else r) (dget led k))"
  using recover_execution_spec [OF assms] by blast

definition sample_rows :: ledger where
  "sample_rows =
     [((''e1'', ''s1''), \<lparr>lr_tool = Some ''add_task'', lr_operation_id = ''op_1'', lr_status = ''started'',
        lr_created_at = 1, lr_updated_at = 1\<rparr>),
      ((''e1'', ''s2''), \<lparr>lr_tool = Some ''send'', lr_operation_id = ''op_2'', lr_status = ''unknown_pending'',
        lr_created_at = 2, lr_updated_at = 2\<rparr>)]"

definition sample_exec :: exec_row where
  "sample_exec = \<lparr>er_status = ''in_progress'', er_worker = None, er_attempt = 0,
     er_lease_until = None, er_created_at = 0\<rparr>"

lemma sample_rows_ok: "ledger_ok sample_rows"
  by (simp add: ledger_ok_def dict_ok_def sample_rows_def LEDGER_STATUSES_def TERMINAL_STATUSES_def)

theorem recover_resolution_witness:
  "\<exists>led' lease. recover_execution [(''e1'', sample_exec)] sample_rows [''op_1''] [] ''e1'' [] 100 240 =
     Some (dput [(''e1'', sample_exec)] ''e1'' (resolved_row sample_exec RsCommittedUnserved lease),
           led', RsCommittedUnserved) \<and>
     dget led' (''e1'', ''s1'') = map_option (confirmed 100) (dget sample_rows (''e1'', ''s1''))"
proof -
  have w: "worst (write_states [] (set [''op_1''] \<union> set []) 100 240 sample_rows ''e1'') = SevCommitted"
    by (simp add: worst_cases write_states_def rows_of_def sample_rows_def write_state_def row_durable_def)
  have ex: "dget [(''e1'', sample_exec)] ''e1'' = Some sample_exec" by simp
  from recover_resolution [OF sample_rows_ok ex, of "[''op_1'']" "[]" "[]" 100 240]
  show ?thesis unfolding w
    by (elim exE conjE) (auto simp: status_of_severity_def landed_now_def sample_rows_def row_durable_def)
qed

definition pending_keys :: "registry \<Rightarrow> string set \<Rightarrow> int \<Rightarrow> nat \<Rightarrow> ledger \<Rightarrow> string \<Rightarrow> ledger_key set" where
  "pending_keys reg audit now settle led exid =
     {k \<in> set (dkeys led). fst k = exid \<and>
        (case dget led k of Some r \<Rightarrow> write_state reg audit now settle r = SevPending | None \<Rightarrow> False)}"

lemma write_state_pending:
  "write_state reg audit now settle r = SevPending \<longleftrightarrow>
     row_durable reg r \<and> lr_operation_id r \<notin> audit \<and> lr_status r = ''unknown_pending'' \<and>
     now \<le> row_deadline settle r"
  by (auto simp: write_state_def)

text \<open>
  waiting makes progress and does not spin. An execution left pending gets a lease of at
  least a second that ends at or after the deadline of one of its pending writes, so when the
  row is claimable again strictly fewer of its writes are pending, whatever the audit tables
  have gained by then.
\<close>

theorem reprobe_progress:
  assumes "ledger_ok led" and "dget execs exid = Some ex"
    and "recover_execution execs led outbox feed exid reg now settle = Some (execs', led', RsReProbePending)"
    and "dget execs' exid = Some ex'" and "claimable later ex'"
    and "set outbox \<union> set feed \<subseteq> audit"
  shows "now + SEC < later \<and>
    pending_keys reg audit later settle led' exid
      \<subset> pending_keys reg (set outbox \<union> set feed) now settle led exid"
proof -
  let ?A = "set outbox \<union> set feed"
  let ?S = "write_states reg ?A now settle led exid"
  from recover_execution_spec [OF assms(1,2), of outbox feed reg now settle,
      unfolded assms(3) option.inject prod.inject] obtain lease where
    st: "status_of_severity (worst ?S) = RsReProbePending"
    and execs': "execs' = dput execs exid (resolved_row ex RsReProbePending lease)"
    and led': "\<forall>k. dget led' k = map_option (\<lambda>r. if landed_now reg ?A exid k r then confirmed now r else r) (dget led k)"
    and bound: "SevPending \<in> ?S \<longrightarrow> now + SEC \<le> lease \<and>
       (\<exists>r\<in>snd ` set (rows_of led exid). write_state reg ?A now settle r = SevPending \<and>
          row_deadline settle r \<le> lease)"
    by (elim exE conjE) (rule that; simp)
  have "worst ?S = SevPending" using st by (cases "worst ?S") (simp_all add: status_of_severity_def)
  then have "SevPending \<in> ?S"
    by (simp add: worst_cases write_states_def split: if_splits)
  with bound obtain k0 r0 where low: "now + SEC \<le> lease" and r0: "(k0, r0) \<in> set (rows_of led exid)"
    "write_state reg ?A now settle r0 = SevPending" "row_deadline settle r0 \<le> lease" by auto
  have late: "lease < later" using assms(4,5) by (auto simp: execs' resolved_row_def claimable_def lease_free_def)
  have now: "now < later" using low late by (simp add: SEC_def)
  have k0: "dget led k0 = Some r0" "fst k0 = exid"
    using r0(1) assms(1) by (auto simp: rows_of_mem ledger_ok_def dict_ok_def)
  have sub: "k \<in> pending_keys reg ?A now settle led exid \<and>
      (\<exists>r. dget led k = Some r \<and> later \<le> row_deadline settle r)"
    if k: "k \<in> pending_keys reg audit later settle led' exid" for k
  proof -
    obtain r where r: "dget led' k = Some r" "write_state reg audit later settle r = SevPending" "fst k = exid"
      using k by (auto simp: pending_keys_def split: option.splits)
    then obtain q where q: "dget led k = Some q" "r = (if landed_now reg ?A exid k q then confirmed now q else q)"
      using led' by auto
    then have "r = q" using r(2) by (auto simp: write_state_pending confirmed_def split: if_splits)
    moreover have "k \<in> set (dkeys led)" using q(1) by (metis dget_None_iff not_None_eq)
    ultimately show ?thesis using r(2,3) q(1) assms(6) now
      by (auto simp: pending_keys_def write_state_pending simp del: set_map)
  qed
  moreover have "k0 \<in> pending_keys reg ?A now settle led exid"
    using k0 r0(2) by (auto simp: pending_keys_def dest: dget_Some_mem intro: rev_image_eqI)
  moreover have "k0 \<notin> pending_keys reg audit later settle led' exid"
    using sub [of k0] k0(1) r0(3) late by auto
  moreover have "now + SEC < later" using low late by linarith
  ultimately show ?thesis by blast
qed

definition pending_rows :: ledger where
  "pending_rows =
     [((''e1'', ''s2''), \<lparr>lr_tool = Some ''send'', lr_operation_id = ''op_2'', lr_status = ''unknown_pending'',
        lr_created_at = 2, lr_updated_at = 2\<rparr>)]"

theorem reprobe_progress_witness:
  "(100::int) + SEC < 300000000 \<and>
   pending_keys [] {''op_3''} 300000000 240 pending_rows ''e1''
     \<subset> pending_keys [] (set [] \<union> set []) 100 240 pending_rows ''e1''"
proof (rule reprobe_progress)
  show "ledger_ok pending_rows"
    by (simp add: ledger_ok_def dict_ok_def pending_rows_def LEDGER_STATUSES_def TERMINAL_STATUSES_def)
  show "dget [(''e1'', sample_exec)] ''e1'' = Some sample_exec" by simp
  show "recover_execution [(''e1'', sample_exec)] pending_rows [] [] ''e1'' [] 100 240 =
      Some ([(''e1'', sample_exec\<lparr>er_lease_until := Some 240000002\<rparr>)], pending_rows, RsReProbePending)"
    by code_simp
  show "dget [(''e1'', sample_exec\<lparr>er_lease_until := Some 240000002\<rparr>)] ''e1'' =
      Some (sample_exec\<lparr>er_lease_until := Some 240000002\<rparr>)" by simp
  show "claimable 300000000 (sample_exec\<lparr>er_lease_until := Some 240000002\<rparr>)"
    by (simp add: claimable_def sample_exec_def lease_free_def)
qed simp

lemma scan_one_account:
  "(let m = sc_summary (scan_one env reg settle exid S); m0 = sc_summary S in
     n_claimed m = n_claimed m0 \<and>
     n_failed m + n_needs_manual m + n_unserved m + n_re_probe m + n_errored m =
       Suc (n_failed m0 + n_needs_manual m0 + n_unserved m0 + n_re_probe m0 + n_errored m0) \<and>
     length (sc_alerts (scan_one env reg settle exid S)) + (if has_alert_fn env then n_needs_manual m0 + n_unserved m0 else 0) =
       length (sc_alerts S) + (if has_alert_fn env then n_needs_manual m + n_unserved m else 0))"
  by (auto simp: scan_one_def Let_def tally_def alerts_for_def
      split: option.splits prod.splits recover_status.splits)

lemma scan_fold_account:
  "(let m = sc_summary (fold (scan_one env reg settle) ids S); m0 = sc_summary S in
     n_claimed m = n_claimed m0 \<and>
     n_failed m + n_needs_manual m + n_unserved m + n_re_probe m + n_errored m =
       length ids + (n_failed m0 + n_needs_manual m0 + n_unserved m0 + n_re_probe m0 + n_errored m0) \<and>
     length (sc_alerts (fold (scan_one env reg settle) ids S)) +
         (if has_alert_fn env then n_needs_manual m0 + n_unserved m0 else 0) =
       length (sc_alerts S) + (if has_alert_fn env then n_needs_manual m + n_unserved m else 0))"
proof (induction ids arbitrary: S)
  case (Cons x xs)
  from Cons.IH [of "scan_one env reg settle x S"] scan_one_account [of env reg settle x S]
  show ?case by (simp add: Let_def split: if_splits)
qed (simp add: Let_def)

text \<open>
  the scan accounts for every execution it claimed: each one lands in exactly one bucket
  of the summary, faults and vanished rows included, and an alert goes out exactly for each
  committed resolution that needs a human.
\<close>

theorem recovery_scan_accounts:
  "(let R = run_recovery_scan env execs led worker now ls settle reg limit; m = sc_summary R in
     n_claimed m = n_failed m + n_needs_manual m + n_unserved m + n_re_probe m + n_errored m \<and>
     n_claimed m \<le> limit \<and>
     length (sc_alerts R) = (if has_alert_fn env then n_needs_manual m + n_unserved m else 0))"
proof -
  let ?S = "\<lparr>sc_execs = map (\<lambda>(k, r). (k, if k \<in> set (claim_candidates execs now limit)
        then claim_row worker now ls r else r)) execs, sc_ledger = led, sc_alerts = [],
      sc_summary = zero_summary\<lparr>n_claimed := length (claim_candidates execs now limit)\<rparr>\<rparr>"
  have "length (claim_candidates execs now limit) \<le> limit" by (simp add: claim_candidates_def)
  with scan_fold_account [of env reg settle "claim_candidates execs now limit" ?S] show ?thesis
    by (auto simp: run_recovery_scan_def claim_stale_executions_def zero_summary_def Let_def)
qed

text \<open>
  a claimed execution belongs to its worker for the whole lease: however many scans other
  workers run before the lease ends, none of them claims it, and the row still names the
  worker and the lease it was given.
\<close>

theorem claim_exclusive:
  assumes "dict_ok execs"
    and "claim_stale_executions execs w now ls limit = (execs1, ids)" and "exid \<in> set ids"
    and "\<forall>(v, t)\<in>set scans. t \<le> now + int ls * SEC"
    and "lease_table.claims (\<lambda>execs w now. claim_stale_executions execs w now ls limit) execs1 scans
           = (execs2, later_ids)"
  shows "exid \<notin> set later_ids \<and> exec_holder execs2 exid = Some (w, now + int ls * SEC)"
  using rc.exclusive [OF assms] .

theorem claim_exclusive_witness:
  "''e1'' \<notin> set [] \<and> exec_holder [(''e1'', claim_row ''w1'' 5 300 sample_exec)] ''e1'' =
     Some (''w1'', 5 + int 300 * SEC)"
proof (rule claim_exclusive [where scans = "[(''w2'', 9)]" and limit = 10])
  show "claim_stale_executions [(''e1'', sample_exec)] ''w1'' 5 300 10
      = ([(''e1'', claim_row ''w1'' 5 300 sample_exec)], [''e1''])"
    by (simp add: claim_stale_executions_def claim_candidates_def claimable_def sample_exec_def lease_free_def)
  have "claim_stale_executions [(''e1'', claim_row ''w1'' 5 300 sample_exec)] ''w2'' 9 300 10
      = ([(''e1'', claim_row ''w1'' 5 300 sample_exec)], [])"
    by (simp add: claim_stale_executions_def claim_candidates_def claimable_def
        sample_exec_def lease_free_def claim_row_def SEC_def)
  then show "lease_table.claims (\<lambda>execs w now. claim_stale_executions execs w now 300 10)
      [(''e1'', claim_row ''w1'' 5 300 sample_exec)] [(''w2'', 9)]
      = ([(''e1'', claim_row ''w1'' 5 300 sample_exec)], [])"
    by (simp add: rc.claims.simps)
qed (simp_all add: dict_ok_def SEC_def)

text \<open>
  a scan takes the oldest work first and leaves finished executions alone: what it claims
  is claimable, anything claimable it leaves behind is no older than what it took, and then
  only because the limit was reached.
\<close>

theorem claim_oldest_first:
  assumes "dict_ok execs" and "claim_stale_executions execs w now ls limit = (execs', ids)"
    and "dget execs a = Some ra" and "claimable now ra" and "a \<notin> set ids"
  shows "length ids = limit \<and> dget execs' a = Some ra \<and>
    (\<forall>b\<in>set ids. \<exists>rb. dget execs b = Some rb \<and> claimable now rb \<and> er_created_at rb \<le> er_created_at ra)"
proof -
  let ?L = "sort_key (\<lambda>(k, r). er_created_at r) (filter (\<lambda>(k, r). claimable now r) execs)"
  have ids: "ids = take limit (map fst ?L)"
    using assms(2) by (simp add: claim_stale_executions_def claim_candidates_def Let_def)
  have a: "(a, ra) \<in> set ?L" using assms(3,4) by (auto dest: dget_Some_mem)
  have na: "(a, ra) \<notin> set (take limit ?L)" using assms(5) by (force simp: ids take_map)
  have "length ids = limit" using a na by (cases "limit \<le> length ?L") (auto simp: ids)
  moreover have "dget execs' a = Some ra" using claim_get(1) [OF assms(2), of a] assms(3,5) by simp
  moreover have "\<exists>rb. dget execs b = Some rb \<and> claimable now rb \<and> er_created_at rb \<le> er_created_at ra"
    if b: "b \<in> set ids" for b
  proof -
    obtain rb where rb: "(b, rb) \<in> set (take limit ?L)" using b by (auto simp: ids take_map)
    have "sorted (map (\<lambda>(k, r). er_created_at r) ?L)" by simp
    from sorted_take_le [OF this rb a na] have "er_created_at rb \<le> er_created_at ra" by simp
    moreover have "(b, rb) \<in> set execs" "claimable now rb" using in_set_takeD [OF rb] by auto
    ultimately show ?thesis using mem_dget [OF assms(1)] by blast
  qed
  ultimately show ?thesis by blast
qed

theorem claim_oldest_first_witness:
  "length [''e2''] = 1 \<and>
   dget [(''e1'', sample_exec\<lparr>er_created_at := 7\<rparr>), (''e2'', claim_row ''w1'' 9 300 sample_exec)] ''e1'' =
     Some (sample_exec\<lparr>er_created_at := 7\<rparr>) \<and>
   (\<forall>b\<in>set [''e2'']. \<exists>rb. dget [(''e1'', sample_exec\<lparr>er_created_at := 7\<rparr>), (''e2'', sample_exec)] b = Some rb \<and>
      claimable 9 rb \<and> er_created_at rb \<le> er_created_at (sample_exec\<lparr>er_created_at := 7\<rparr>))"
proof (rule claim_oldest_first)
  show "claim_stale_executions [(''e1'', sample_exec\<lparr>er_created_at := 7\<rparr>), (''e2'', sample_exec)] ''w1'' 9 300 1
    = ([(''e1'', sample_exec\<lparr>er_created_at := 7\<rparr>), (''e2'', claim_row ''w1'' 9 300 sample_exec)], [''e2''])"
    by (simp add: claim_stale_executions_def claim_candidates_def claimable_def sample_exec_def lease_free_def)
qed (simp_all add: dict_ok_def claimable_def sample_exec_def lease_free_def)

end
