(* ===== verification/AuditFeed.thy ===== *)
theory AuditFeed
  imports Prelude PyValue "HOL-Library.List_Lexorder" "HOL-Library.Char_ord"
begin

text \<open>
  \<open>services/audit_feed.py\<close> and its tables (\<open>db/models/audit_feed.py\<close>): the outbox into which a
  data change writes its event in its own transaction, the durable feed, and the relay that
  moves rows from one to the other. The digest of a payload's canonical JSON is a parameter.
  Times are integers. \<open>fault\<close> arguments say what the database does at an insertion.
\<close>

section \<open>Tables\<close>

record audit_event =
  row_id :: nat
  ev_operation_id :: string
  ev_tenant :: string
  ev_user :: "string option"
  ev_source :: string
  entity_type :: string
  entity_id :: "string option"
  ev_action :: string
  payload :: "vdict option"
  payload_hash :: "string option"
  caused_by :: "vdict option"
  occurred_at :: int

record outbox_event = audit_event +
  enqueued :: int
  attempts :: nat
  last_attempt_at :: "int option"
  ev_last_error :: "string option"

record audit_db =
  outbox :: "outbox_event list"
  feed :: "audit_event list"
  next_outbox_id :: nat
  next_feed_id :: nat

text \<open>The source name of the assistant itself, as UTF-8 bytes.\<close>

definition SREDA :: string where
  "SREDA = [CHR 0xD1, CHR 0x81, CHR 0xD1, CHR 0x80, CHR 0xD0, CHR 0xB5, CHR 0xD0, CHR 0xB4, CHR 0xD0, CHR 0xB0]"

definition AUDIT_SOURCES :: "string list" where
  "AUDIT_SOURCES = [SREDA, ''mini-app'', ''api'', ''system'']"

definition AUDIT_ACTIONS :: "string list" where
  "AUDIT_ACTIONS = [''created'', ''updated'', ''deleted'', ''skipped'']"

definition AUDIT_ENTITY_TYPES :: "string list" where
  "AUDIT_ENTITY_TYPES =
     [''shopping_list_item'', ''family_reminder'', ''task'', ''recipe'', ''checklist'',
      ''checklist_item'', ''menu_plan'', ''menu_plan_item'', ''family_member'']"

definition outbox_ops :: "audit_db \<Rightarrow> string list" where
  "outbox_ops db = map ev_operation_id (outbox db)"

definition feed_ops :: "audit_db \<Rightarrow> string list" where
  "feed_ops db = map ev_operation_id (feed db)"

section \<open>Writing events\<close>

definition compute_payload_hash :: "(vdict \<Rightarrow> string) \<Rightarrow> vdict option \<Rightarrow> string" where
  "compute_payload_hash digest p = (case p of None \<Rightarrow> '''' | Some d \<Rightarrow> digest d)"

definition effective_hash :: "(vdict \<Rightarrow> string) \<Rightarrow> string option \<Rightarrow> vdict option \<Rightarrow> string" where
  "effective_hash digest stored p =
     (case stored of
        Some h \<Rightarrow> if h \<noteq> [] then h else compute_payload_hash digest p
      | None \<Rightarrow> compute_payload_hash digest p)"

definition row_hash :: "(vdict \<Rightarrow> string) \<Rightarrow> 'a audit_event_scheme \<Rightarrow> string" where
  "row_hash digest e = effective_hash digest (payload_hash e) (payload e)"

datatype emit_error =
    BadSource string | BadAction string | BadEntityType string
  | PayloadHashConflict string string string string \<comment> \<open>operation, existing hash, new hash, table\<close>
  | IntegrityFault
  | ForeignAuditRow string

text \<open>What the caller says about the change; the id and the bookkeeping are the table's.\<close>

definition find_op :: "string \<Rightarrow> 'a audit_event_scheme list \<Rightarrow> 'a audit_event_scheme option" where
  "find_op op es = find (\<lambda>e. ev_operation_id e = op) es"

definition emit_event ::
    "(vdict \<Rightarrow> string) \<Rightarrow> bool \<Rightarrow> audit_db \<Rightarrow> audit_event \<Rightarrow> int \<Rightarrow> emit_error + (audit_db \<times> audit_event)" where
  "emit_event digest race db ev now =
     (if ev_source ev \<notin> set AUDIT_SOURCES then Inl (BadSource (ev_source ev))
      else if ev_action ev \<notin> set AUDIT_ACTIONS then Inl (BadAction (ev_action ev))
      else if entity_type ev \<notin> set AUDIT_ENTITY_TYPES then Inl (BadEntityType (entity_type ev))
      else
        let new_hash = compute_payload_hash digest (payload ev);
            ev1 = ev\<lparr>payload_hash := Some new_hash\<rparr>
        in case find_op (ev_operation_id ev) (outbox db) of
             Some ex \<Rightarrow>
               (if row_hash digest ex \<noteq> new_hash
                then Inl (PayloadHashConflict (ev_operation_id ev) (row_hash digest ex) new_hash ''outbox'')
                else Inr (db, audit_event.truncate ex))
           | None \<Rightarrow>
               (case find_op (ev_operation_id ev) (feed db) of
                  Some ex \<Rightarrow>
                    (if row_hash digest ex \<noteq> new_hash
                     then Inl (PayloadHashConflict (ev_operation_id ev) (row_hash digest ex) new_hash ''feed'')
                     else Inr (db, ev1))
                | None \<Rightarrow>
                    if race then Inl IntegrityFault
                    else (let ev2 = ev1\<lparr>row_id := next_outbox_id db\<rparr> in
                          Inr (db\<lparr>outbox := outbox db @
                                 [audit_event.extend ev2
                                   (outbox_event.fields now 0 None None)],
                                 next_outbox_id := Suc (next_outbox_id db)\<rparr>, ev2))))"

text \<open>The provenance a tool runs under (\<open>ToolRuntimeContext\<close>); \<open>None\<close> outside of any.\<close>

record tool_ctx =
  ctx_origin :: "string option"
  ctx_turn_key :: "string option"
  ctx_thread_id :: "string option"
  ctx_channel :: "string option"
  ctx_tool_name :: string

definition opt_val :: "string option \<Rightarrow> pyval" where
  "opt_val s = (case s of None \<Rightarrow> VNone | Some x \<Rightarrow> VStr x)"

definition react_cause :: "tool_ctx \<Rightarrow> vdict" where
  "react_cause c =
     [(''source'', VStr ''react''), (''turn_key'', opt_val (ctx_turn_key c)),
      (''thread_id'', opt_val (ctx_thread_id c)), (''channel'', opt_val (ctx_channel c)),
      (''tool_name'', VStr (ctx_tool_name c))]"

definition foreign_row :: "audit_event \<Rightarrow> 'a audit_event_scheme \<Rightarrow> bool" where
  "foreign_row ev ex \<longleftrightarrow>
     entity_type ex \<noteq> entity_type ev \<or> entity_id ex \<noteq> entity_id ev \<or> ev_action ex \<noteq> ev_action ev \<or>
     (case caused_by ex of None \<Rightarrow> True | Some d \<Rightarrow> dget d ''source'' \<noteq> Some (VStr ''react''))"

definition emit_tool_audit ::
    "(vdict \<Rightarrow> string) \<Rightarrow> bool \<Rightarrow> tool_ctx option \<Rightarrow> audit_db \<Rightarrow> audit_event \<Rightarrow> int \<Rightarrow> emit_error + audit_db" where
  "emit_tool_audit digest race ctx db ev now =
     (case ctx of
        None \<Rightarrow> Inr db
      | Some c \<Rightarrow>
          if ctx_origin c \<noteq> Some ''react'' then Inr db
          else if (case find_op (ev_operation_id ev) (outbox db) of None \<Rightarrow> False | Some ex \<Rightarrow> foreign_row ev ex)
          then Inl (ForeignAuditRow (ev_operation_id ev))
          else if (case find_op (ev_operation_id ev) (feed db) of None \<Rightarrow> False | Some ex \<Rightarrow> foreign_row ev ex)
          then Inl (ForeignAuditRow (ev_operation_id ev))
          else (case emit_event digest race db
                       (ev\<lparr>ev_source := SREDA, payload := None, caused_by := Some (react_cause c)\<rparr>) now of
                  Inl IntegrityFault \<Rightarrow> Inr db
                | Inl e \<Rightarrow> Inl e
                | Inr (db', _) \<Rightarrow> Inr db'))"

section \<open>Reading\<close>

text \<open>Newest first, at most \<open>limit\<close> of each table, merged oldest first.\<close>

definition newest :: "nat \<Rightarrow> string \<Rightarrow> int \<Rightarrow> audit_event list \<Rightarrow> audit_event list" where
  "newest limit tenant since es =
     take limit (rev (sort_key (\<lambda>e. occurred_at e)
       (sort_key row_id (filter (\<lambda>e. ev_tenant e = tenant \<and> since \<le> occurred_at e) es))))"

fun dedup_ops :: "string set \<Rightarrow> audit_event list \<Rightarrow> audit_event list" where
  "dedup_ops seen [] = []"
| "dedup_ops seen (e # es) =
     (if ev_operation_id e \<in> seen then dedup_ops seen es
      else e # dedup_ops (insert (ev_operation_id e) seen) es)"

definition last_n :: "nat \<Rightarrow> 'a list \<Rightarrow> 'a list" where
  "last_n n xs = (if n = 0 then xs else drop (length xs - n) xs)"

definition read_recent_events :: "audit_db \<Rightarrow> string \<Rightarrow> int \<Rightarrow> nat \<Rightarrow> audit_event list" where
  "read_recent_events db tenant since limit =
     last_n limit (sort_key occurred_at (sort_key ev_operation_id (dedup_ops {}
       (newest limit tenant since (feed db) @
        newest limit tenant since (map audit_event.truncate (outbox db))))))"

section \<open>The relay\<close>

datatype relay_fault = RelayRace | RelayError string

definition feed_row :: "nat \<Rightarrow> outbox_event \<Rightarrow> audit_event" where
  "feed_row i e = (audit_event.truncate e)\<lparr>row_id := i\<rparr>"

definition put_outbox :: "outbox_event \<Rightarrow> outbox_event list \<Rightarrow> outbox_event list" where
  "put_outbox e es = map (\<lambda>x. if row_id x = row_id e then e else x) es"

definition drop_outbox :: "outbox_event \<Rightarrow> outbox_event list \<Rightarrow> outbox_event list" where
  "drop_outbox e es = filter (\<lambda>x. row_id x \<noteq> row_id e) es"

definition mark_attempt :: "int \<Rightarrow> string \<Rightarrow> outbox_event \<Rightarrow> outbox_event" where
  "mark_attempt now err e =
     e\<lparr>attempts := attempts e + 1, last_attempt_at := Some now, ev_last_error := Some err\<rparr>"

definition mismatch_error :: "string \<Rightarrow> string \<Rightarrow> string" where
  "mismatch_error feed_hash outbox_hash =
     ''payload_hash mismatch: feed='' @ repr_string feed_hash @ '' outbox='' @ repr_string outbox_hash"

text \<open>One row of the batch: the table and whether the row counts as relayed.\<close>

definition relay_row ::
    "(vdict \<Rightarrow> string) \<Rightarrow> (string \<Rightarrow> relay_fault option) \<Rightarrow> int \<Rightarrow> outbox_event \<Rightarrow> audit_db \<Rightarrow>
     emit_error + (audit_db \<times> bool)" where
  "relay_row digest fault now e db =
     (case find_op (ev_operation_id e) (feed db) of
        Some ex \<Rightarrow>
          (if row_hash digest ex \<noteq> row_hash digest e
           then Inr (db\<lparr>outbox := put_outbox (mark_attempt now (mismatch_error (row_hash digest ex) (row_hash digest e)) e)
                              (outbox db)\<rparr>, False)
           else Inr (db\<lparr>outbox := drop_outbox e (outbox db)\<rparr>, True))
      | None \<Rightarrow>
          (case fault (ev_operation_id e) of
             Some RelayRace \<Rightarrow> Inl IntegrityFault
           | Some (RelayError err) \<Rightarrow>
               Inr (db\<lparr>outbox := put_outbox (mark_attempt now (take 1000 err) e) (outbox db)\<rparr>, False)
           | None \<Rightarrow>
               Inr (db\<lparr>outbox := drop_outbox e (outbox db), feed := feed db @ [feed_row (next_feed_id db) e],
                       next_feed_id := Suc (next_feed_id db)\<rparr>, True)))"

fun relay_rows ::
    "(vdict \<Rightarrow> string) \<Rightarrow> (string \<Rightarrow> relay_fault option) \<Rightarrow> int \<Rightarrow> outbox_event list \<Rightarrow> audit_db \<Rightarrow> nat \<Rightarrow>
     emit_error + (audit_db \<times> nat)" where
  "relay_rows digest fault now [] db n = Inr (db, n)"
| "relay_rows digest fault now (e # es) db n =
     (case relay_row digest fault now e db of
        Inl err \<Rightarrow> Inl err
      | Inr (db', b) \<Rightarrow> relay_rows digest fault now es db' (if b then Suc n else n))"

definition relay_outbox ::
    "(vdict \<Rightarrow> string) \<Rightarrow> (string \<Rightarrow> relay_fault option) \<Rightarrow> audit_db \<Rightarrow> nat \<Rightarrow> int \<Rightarrow> emit_error + (audit_db \<times> nat)" where
  "relay_outbox digest fault db batch_size now =
     relay_rows digest fault now (take batch_size (sort_key enqueued (outbox db))) db 0"

section \<open>The tables' constraints\<close>

definition audit_ok :: "audit_db \<Rightarrow> bool" where
  "audit_ok db \<longleftrightarrow>
     distinct (outbox_ops db) \<and> distinct (feed_ops db) \<and>
     distinct (map row_id (outbox db)) \<and> (\<forall>e\<in>set (outbox db). row_id e < next_outbox_id db) \<and>
     distinct (map row_id (feed db)) \<and> (\<forall>e\<in>set (feed db). row_id e < next_feed_id db)"

lemma find_op_None: "find_op op es = None \<longleftrightarrow> op \<notin> ev_operation_id ` set es"
  by (auto simp: find_op_def find_None_iff)

lemma find_op_Some: "find_op op es = Some e \<Longrightarrow> e \<in> set es \<and> ev_operation_id e = op"
  by (auto simp: find_op_def find_Some_iff)

lemma find_op_append:
  "find_op op (xs @ ys) = (case find_op op xs of None \<Rightarrow> find_op op ys | Some e \<Rightarrow> Some e)"
  by (induction xs) (auto simp: find_op_def)

lemma find_op_mem: "find_op op es = Some e \<Longrightarrow> op \<in> ev_operation_id ` set es"
  by (metis find_op_Some imageI)

lemma truncate_simps [simp]:
  "ev_operation_id (audit_event.truncate e) = ev_operation_id e" "row_id (audit_event.truncate e) = row_id e"
  "ev_tenant (audit_event.truncate e) = ev_tenant e" "occurred_at (audit_event.truncate e) = occurred_at e"
  "payload (audit_event.truncate e) = payload e" "payload_hash (audit_event.truncate e) = payload_hash e"
  by (cases e; simp add: audit_event.defs)+

text \<open>The three results of emitting an event.\<close>

lemma emit_event_cases:
  assumes "emit_event digest race db ev now = Inr (db', r)"
  obtains (outbox) ex where "find_op (ev_operation_id ev) (outbox db) = Some ex" "db' = db"
      "row_hash digest ex = compute_payload_hash digest (payload ev)"
  | (feed) ex where "find_op (ev_operation_id ev) (outbox db) = None"
      "find_op (ev_operation_id ev) (feed db) = Some ex" "db' = db"
      "row_hash digest ex = compute_payload_hash digest (payload ev)"
  | (new) e where "find_op (ev_operation_id ev) (outbox db) = None" "find_op (ev_operation_id ev) (feed db) = None"
      "db' = db\<lparr>outbox := outbox db @ [e], next_outbox_id := Suc (next_outbox_id db)\<rparr>"
      "ev_operation_id e = ev_operation_id ev" "row_id e = next_outbox_id db" "\<not> race"
      "payload e = payload ev" "payload_hash e = Some (compute_payload_hash digest (payload ev))"
  using assms
  by (auto simp: emit_event_def Let_def audit_event.defs outbox_event.defs split: if_splits option.splits)

definition all_ops :: "audit_db \<Rightarrow> string set" where
  "all_ops db = set (outbox_ops db) \<union> set (feed_ops db)"

lemma emit_event_ok:
  assumes "audit_ok db" and "emit_event digest race db ev now = Inr (db', r)"
  shows "audit_ok db' \<and> all_ops db' = insert (ev_operation_id ev) (all_ops db)"
  using assms(2)
proof (cases rule: emit_event_cases)
  case (outbox ex)
  then show ?thesis using assms(1) find_op_mem [OF outbox(1)]
    by (simp add: all_ops_def outbox_ops_def insert_absorb)
next
  case (feed ex)
  then show ?thesis using assms(1) find_op_mem [OF feed(2)]
    by (simp add: all_ops_def feed_ops_def insert_absorb)
next
  case (new e)
  have "ev_operation_id ev \<notin> set (outbox_ops db)" using new(1) by (simp add: find_op_None outbox_ops_def)
  then show ?thesis using assms(1) new(3-5)
    by (auto simp: audit_ok_def all_ops_def outbox_ops_def feed_ops_def less_Suc_eq)
qed

lemma mark_attempt_simps [simp]:
  "row_id (mark_attempt now err e) = row_id e" "ev_operation_id (mark_attempt now err e) = ev_operation_id e"
  by (simp_all add: mark_attempt_def)

lemma put_outbox_map:
  assumes "distinct (map row_id es)" and "e \<in> set es" and "row_id e' = row_id e"
    and "ev_operation_id e' = ev_operation_id e"
  shows "map ev_operation_id (put_outbox e' es) = map ev_operation_id es"
    and "map row_id (put_outbox e' es) = map row_id es"
    and "x \<in> set es \<Longrightarrow> row_id x \<noteq> row_id e \<Longrightarrow> x \<in> set (put_outbox e' es)"
proof -
  have "x = e" if "x \<in> set es" "row_id x = row_id e" for x
    using assms(1,2) that by (auto simp: distinct_map dest: inj_onD)
  then show "map ev_operation_id (put_outbox e' es) = map ev_operation_id es"
    using assms(3,4) by (auto simp: put_outbox_def)
  show "map row_id (put_outbox e' es) = map row_id es" using assms(3) by (auto simp: put_outbox_def)
  show "x \<in> set es \<Longrightarrow> row_id x \<noteq> row_id e \<Longrightarrow> x \<in> set (put_outbox e' es)"
    using assms(3) by (force simp: put_outbox_def)
qed

lemma length_put_outbox [simp]: "length (put_outbox e es) = length es"
  by (simp add: put_outbox_def)

lemma drop_outbox_facts:
  assumes "distinct (map row_id es)" and "e \<in> set es"
  shows "set (drop_outbox e es) = set es - {e}" and "length es = Suc (length (drop_outbox e es))"
    and "distinct (map f es) \<Longrightarrow> distinct (map f (drop_outbox e es))"
proof -
  have eq: "drop_outbox e es = remove1 e es" using assms
  proof (induction es)
    case (Cons x es)
    show ?case
    proof (cases "x = e")
      case True
      then have "\<forall>y\<in>set es. row_id y \<noteq> row_id e" using Cons.prems(1) by (metis distinct.simps(2) image_eqI list.simps(9) set_map)
      then have "filter (\<lambda>y. row_id y \<noteq> row_id e) es = es" by (simp add: filter_id_conv)
      with True show ?thesis by (simp add: drop_outbox_def)
    next
      case False
      with Cons.prems have "e \<in> set es" "row_id x \<noteq> row_id e" by auto
      with Cons False show ?thesis by (simp add: drop_outbox_def)
    qed
  qed simp
  have "distinct es" using assms(1) by (simp add: distinct_map)
  then show "set (drop_outbox e es) = set es - {e}" by (simp add: eq)
  show "length es = Suc (length (drop_outbox e es))"
    using assms(2) by (simp add: eq length_remove1) (metis Suc_pred length_pos_if_in_set)
  show "distinct (map f es) \<Longrightarrow> distinct (map f (drop_outbox e es))"
    by (simp add: drop_outbox_def distinct_map_filter)
qed

lemma relay_row_spec:
  assumes ok: "audit_ok db" and e: "e \<in> set (outbox db)" and r: "relay_row digest fault now e db = Inr (db', b)"
  shows "audit_ok db' \<and> all_ops db' = all_ops db \<and>
    length (outbox db) = length (outbox db') + (if b then 1 else 0) \<and> prefix (feed db) (feed db') \<and>
    (\<forall>x\<in>set (outbox db). row_id x \<noteq> row_id e \<longrightarrow> x \<in> set (outbox db'))"
proof -
  have d: "distinct (map row_id (outbox db))" using ok by (simp add: audit_ok_def)
  note put = put_outbox_map [OF d e] and drp = drop_outbox_facts [OF d e]
    and drp_ops = drop_outbox_facts(3) [OF d e, of ev_operation_id] and drp_ids = drop_outbox_facts(3) [OF d e, of row_id]
  have kept: "audit_ok (db\<lparr>outbox := put_outbox (mark_attempt now err e) (outbox db)\<rparr>)" for err
    using ok put(1,2) [of "mark_attempt now err e"]
    by (simp add: audit_ok_def outbox_ops_def feed_ops_def) (metis (no_types, lifting) image_eqI imageE set_map)
  show ?thesis
  proof (cases "find_op (ev_operation_id e) (feed db)")
    case (Some ex)
    then have mem: "ev_operation_id e \<in> set (feed_ops db)" by (simp add: feed_ops_def find_op_mem)
    show ?thesis
    proof (cases "row_hash digest ex = row_hash digest e")
      case True
      with Some r have db': "db' = db\<lparr>outbox := drop_outbox e (outbox db)\<rparr>" "b" by (auto simp: relay_row_def)
      have "all_ops db' = all_ops db" using mem drp(1) e by (auto simp: all_ops_def outbox_ops_def feed_ops_def db')
      moreover have "audit_ok db'" using ok drp(1) drp_ops drp_ids
        by (simp add: audit_ok_def outbox_ops_def feed_ops_def db')
      ultimately show ?thesis using drp by (auto simp: db')
    next
      case False
      with Some r obtain err where db': "db' = db\<lparr>outbox := put_outbox (mark_attempt now err e) (outbox db)\<rparr>" "\<not> b"
        by (auto simp: relay_row_def)
      show ?thesis using put(1,3) [of "mark_attempt now err e"] kept db'(2)
        by (simp add: db'(1) all_ops_def outbox_ops_def feed_ops_def del: set_map)
    qed
  next
    case None
    show ?thesis
    proof (cases "fault (ev_operation_id e)")
      case None
      with r \<open>find_op _ _ = None\<close> have db': "db' = db\<lparr>outbox := drop_outbox e (outbox db),
          feed := feed db @ [feed_row (next_feed_id db) e], next_feed_id := Suc (next_feed_id db)\<rparr>" "b"
        by (auto simp: relay_row_def)
      have f: "ev_operation_id (feed_row i e) = ev_operation_id e" "row_id (feed_row i e) = i" for i
        by (simp_all add: feed_row_def)
      have n: "ev_operation_id e \<notin> set (feed_ops db)" using \<open>find_op _ _ = None\<close> by (simp add: find_op_None feed_ops_def)
      have "all_ops db' = all_ops db" using drp(1) e by (auto simp: all_ops_def outbox_ops_def feed_ops_def db' f)
      moreover have "audit_ok db'" using ok drp(1) drp_ops drp_ids n
        by (auto simp: audit_ok_def outbox_ops_def feed_ops_def db' f less_Suc_eq)
      ultimately show ?thesis using drp by (auto simp: db')
    next
      case (Some ft)
      with r \<open>find_op _ _ = None\<close> obtain err where
        db': "db' = db\<lparr>outbox := put_outbox (mark_attempt now err e) (outbox db)\<rparr>" "\<not> b"
        by (cases ft) (auto simp: relay_row_def)
      show ?thesis using put(1,3) [of "mark_attempt now err e"] kept db'(2)
        by (simp add: db'(1) all_ops_def outbox_ops_def feed_ops_def del: set_map)
    qed
  qed
qed

lemma relay_rows_spec:
  "audit_ok db \<Longrightarrow> set es \<subseteq> set (outbox db) \<Longrightarrow> distinct (map row_id es) \<Longrightarrow>
     relay_rows digest fault now es db n = Inr (db', m) \<Longrightarrow>
     audit_ok db' \<and> all_ops db' = all_ops db \<and> length (outbox db) + n = length (outbox db') + m \<and>
     prefix (feed db) (feed db')"
proof (induction es arbitrary: db n)
  case (Cons e es)
  obtain db1 b where r: "relay_row digest fault now e db = Inr (db1, b)"
    using Cons.prems(4) by (auto split: sum.splits)
  from relay_row_spec [OF Cons.prems(1) _ r] Cons.prems(2) have
    s: "audit_ok db1" "all_ops db1 = all_ops db" "length (outbox db) = length (outbox db1) + (if b then 1 else 0)"
      "prefix (feed db) (feed db1)" "\<forall>x\<in>set (outbox db). row_id x \<noteq> row_id e \<longrightarrow> x \<in> set (outbox db1)" by auto
  have "set es \<subseteq> set (outbox db1)"
  proof
    fix x assume x: "x \<in> set es"
    then have "row_id x \<noteq> row_id e" using Cons.prems(3) by (metis distinct.simps(2) image_eqI list.simps(9) set_map)
    moreover have "x \<in> set (outbox db)" using x Cons.prems(2) by auto
    ultimately show "x \<in> set (outbox db1)" using s(5) by blast
  qed
  from Cons.IH [OF s(1) this _, of "if b then Suc n else n"] Cons.prems(3,4) r s
  show ?case by (auto split: if_splits)
qed simp

section \<open>Properties\<close>

definition sample_event :: audit_event where
  "sample_event = \<lparr>row_id = 0, ev_operation_id = ''op_1'', ev_tenant = ''t1'', ev_user = Some ''u1'',
     ev_source = ''api'', entity_type = ''task'', entity_id = Some ''task_1'', ev_action = ''created'',
     payload = None, payload_hash = None, caused_by = None, occurred_at = 5\<rparr>"

definition empty_audit :: audit_db where
  "empty_audit = \<lparr>outbox = [], feed = [], next_outbox_id = 0, next_feed_id = 0\<rparr>"

definition sample_audit :: audit_db where
  "sample_audit = \<lparr>outbox = [audit_event.extend (sample_event\<lparr>payload_hash := Some []\<rparr>)
       (outbox_event.fields 9 0 None None)], feed = [], next_outbox_id = 1, next_feed_id = 0\<rparr>"

definition relayed_audit :: audit_db where
  "relayed_audit = \<lparr>outbox = [], feed = [sample_event\<lparr>payload_hash := Some []\<rparr>],
     next_outbox_id = 1, next_feed_id = 1\<rparr>"

lemma sample_emit: "\<exists>r. emit_event (\<lambda>_. ''h'') False empty_audit sample_event 9 = Inr (sample_audit, r)"
  by (simp add: emit_event_def Let_def sample_event_def empty_audit_def sample_audit_def AUDIT_SOURCES_def
      AUDIT_ACTIONS_def AUDIT_ENTITY_TYPES_def find_op_def compute_payload_hash_def audit_event.defs outbox_event.defs)

lemma sample_audit_ok: "audit_ok sample_audit"
  by (simp add: audit_ok_def sample_audit_def outbox_ops_def feed_ops_def audit_event.defs outbox_event.defs sample_event_def)

lemma sample_relay: "relay_outbox (\<lambda>_. ''h'') (\<lambda>_. None) sample_audit 100 20 = Inr (relayed_audit, 1)"
  by (simp add: relay_outbox_def sample_audit_def relayed_audit_def relay_row_def find_op_def drop_outbox_def feed_row_def
      audit_event.defs outbox_event.defs sample_event_def)

text \<open>
  The relay moves events without losing, inventing or duplicating any: the operations that
  are recorded in one table or the other stay the same, every relayed row leaves the outbox,
  the feed only grows at its end, and each table still has one row per operation.
\<close>

theorem relay_keeps_operations:
  assumes "audit_ok db" and "relay_outbox digest fault db batch_size now = Inr (db', n)"
  shows "audit_ok db' \<and> set (outbox_ops db') \<union> set (feed_ops db') = set (outbox_ops db) \<union> set (feed_ops db) \<and>
    length (outbox db) = length (outbox db') + n \<and> prefix (feed db) (feed db')"
proof -
  let ?b = "take batch_size (sort_key enqueued (outbox db))"
  have "set ?b \<subseteq> set (outbox db)" by (metis set_sort set_take_subset)
  moreover have "distinct (map row_id (sort_key enqueued (outbox db)))"
  proof -
    have "mset (map row_id (sort_key enqueued (outbox db))) = mset (map row_id (outbox db))" by simp
    then show ?thesis using assms(1) by (metis audit_ok_def mset_eq_imp_distinct_iff)
  qed
  then have "distinct (map row_id ?b)" by (simp add: take_map [symmetric])
  ultimately show ?thesis
    using relay_rows_spec [OF assms(1), of ?b digest fault now 0 db' n] assms(2)
    by (simp add: relay_outbox_def all_ops_def)
qed

theorem relay_keeps_operations_witness:
  "set (outbox_ops relayed_audit) \<union> set (feed_ops relayed_audit) =
   set (outbox_ops sample_audit) \<union> set (feed_ops sample_audit)"
  using relay_keeps_operations [OF sample_audit_ok sample_relay] by simp

text \<open>
  An event is recorded once however often it is emitted: emitting it again at once changes
  nothing, and emitting it again after the relay has run never adds a row either.
\<close>

theorem emit_event_idempotent:
  assumes "audit_ok db" and "emit_event digest race db ev now = Inr (db1, r)"
    and "relay_outbox digest fault db1 batch_size now' = Inr (db2, n)"
  shows "(\<exists>r'. emit_event digest race' db1 ev now'' = Inr (db1, r')) \<and>
    (case emit_event digest race' db2 ev now'' of
       Inr (db3, _) \<Rightarrow> db3 = db2
     | Inl e \<Rightarrow> \<exists>old new t. e = PayloadHashConflict (ev_operation_id ev) old new t)"
proof -
  from assms(2) have valid: "ev_source ev \<in> set AUDIT_SOURCES" "ev_action ev \<in> set AUDIT_ACTIONS"
    "entity_type ev \<in> set AUDIT_ENTITY_TYPES" by (auto simp: emit_event_def split: if_splits)
  have "\<exists>r'. emit_event digest race' db1 ev now'' = Inr (db1, r')"
    using assms(2)
  proof (cases rule: emit_event_cases)
    case (new e)
    then have "find_op (ev_operation_id ev) (outbox db1) = Some e"
      by (simp add: find_op_append) (simp add: find_op_def)
    moreover have "row_hash digest e = compute_payload_hash digest (payload ev)"
      using new(7,8) by (auto simp: row_hash_def effective_hash_def)
    ultimately show ?thesis using valid by (simp add: emit_event_def Let_def)
  qed (use valid in \<open>auto simp: emit_event_def Let_def\<close>)
  moreover have "ev_operation_id ev \<in> all_ops db2"
    using emit_event_ok [OF assms(1,2)] relay_keeps_operations [OF _ assms(3)] by (auto simp: all_ops_def)
  then have "find_op (ev_operation_id ev) (outbox db2) \<noteq> None \<or> find_op (ev_operation_id ev) (feed db2) \<noteq> None"
    by (auto simp: find_op_None all_ops_def outbox_ops_def feed_ops_def)
  then have "case emit_event digest race' db2 ev now'' of Inr (db3, _) \<Rightarrow> db3 = db2
     | Inl e \<Rightarrow> \<exists>old new t. e = PayloadHashConflict (ev_operation_id ev) old new t"
    using valid by (auto simp: emit_event_def Let_def split: option.splits)
  ultimately show ?thesis by blast
qed

theorem emit_event_idempotent_witness:
  "\<exists>r'. emit_event (\<lambda>_. ''h'') True sample_audit sample_event 30 = Inr (sample_audit, r')"
proof -
  obtain r where r: "emit_event (\<lambda>_. ''h'') False empty_audit sample_event 9 = Inr (sample_audit, r)"
    using sample_emit by blast
  have "audit_ok empty_audit" by (simp add: audit_ok_def empty_audit_def outbox_ops_def feed_ops_def)
  from emit_event_idempotent [OF this r sample_relay] show ?thesis by blast
qed

text \<open>
  Rows the relay cannot move stay at the head of the queue: if the oldest \<open>batch_size\<close> rows
  conflict with the feed, a tick moves nothing, and neither does any later one.
\<close>

definition conflicting :: "(vdict \<Rightarrow> string) \<Rightarrow> audit_db \<Rightarrow> outbox_event \<Rightarrow> bool" where
  "conflicting digest db e \<longleftrightarrow>
     (case find_op (ev_operation_id e) (feed db) of None \<Rightarrow> False | Some ex \<Rightarrow> row_hash digest ex \<noteq> row_hash digest e)"

lemma relay_blocked:
  "\<forall>e\<in>set es. conflicting digest db e \<Longrightarrow>
     \<exists>ob. relay_rows digest fault now es db n = Inr (db\<lparr>outbox := ob\<rparr>, n)"
proof (induction es arbitrary: db)
  case Nil
  then show ?case by (auto intro: exI [of _ "outbox db"])
next
  case (Cons e es)
  then obtain ex where ex: "find_op (ev_operation_id e) (feed db) = Some ex" "row_hash digest ex \<noteq> row_hash digest e"
    by (auto simp: conflicting_def split: option.splits)
  have "\<forall>x\<in>set es. conflicting digest (db\<lparr>outbox := ob\<rparr>) x" for ob
    using Cons.prems by (auto simp: conflicting_def)
  from Cons.IH [OF this] ex show ?case by (force simp: relay_row_def)
qed

end
