(* ===== verification/IdempotentOps.thy ===== *)
theory IdempotentOps
  imports AuditFeed
begin

text \<open>
  \<open>services/idempotent_ops.py\<close>: durable operations that are executed once per operation id and
  replayed afterwards. The data of the services is a type parameter \<open>'d\<close> and the mutation a
  function on it that may raise; the savepoint restores everything when it does. An argument
  stands for a concurrent transaction that commits a row for the same operation id between
  the lookup and the claim.
\<close>

record op_row =
  or_tenant :: string
  or_user :: "string option"
  or_family :: string
  or_tool :: "string option"
  or_args_hmac :: string
  or_status :: string
  stable_return_payload :: pyval

record 'd op_db =
  ops :: "(string, op_row) dict"
  op_audit :: audit_db
  op_data :: 'd

record op_request =
  rq_operation_id :: string
  rq_tenant :: string
  rq_user :: "string option"
  rq_family :: string
  rq_args_hmac :: string
  rq_tool :: "string option"
  audit_entity_type :: "string option"
  audit_entity_id :: "string option"
  audit_action :: "string option"

datatype mutate_error = MutIntegrity | MutRaise string

datatype op_error =
    IdempotencyScopeMismatch | IdempotencyInFlight | IdempotencyArgsMismatch
  | OpIntegrityError | MutateRaised string | AuditRaised emit_error

record 'd op_env =
  mutate_fn :: "'d \<Rightarrow> mutate_error + ('d \<times> pyval)"
  racer :: "op_row option"
  op_ctx :: "tool_ctx option"
  audit_digest :: "vdict \<Rightarrow> string"
  audit_race :: bool
  op_now :: int

text \<open>\<open>row.user_id or None\<close>: an empty id is no id.\<close>

definition or_none :: "string option \<Rightarrow> string option" where
  "or_none u = (case u of Some [] \<Rightarrow> None | _ \<Rightarrow> u)"

definition same_scope :: "op_request \<Rightarrow> op_row \<Rightarrow> bool" where
  "same_scope rq r \<longleftrightarrow>
     or_tenant r = rq_tenant rq \<and> or_none (or_user r) = or_none (rq_user rq) \<and> or_family r = rq_family rq"

definition lookup :: "'d op_db \<Rightarrow> string \<Rightarrow> op_row option" where
  "lookup db op = dget (ops db) op"

text \<open>\<open>None\<close>, here \<open>VNone\<close>, also stands for a stored payload that is \<open>None\<close>.\<close>

definition peek_committed_replay :: "'d op_db \<Rightarrow> op_request \<Rightarrow> pyval" where
  "peek_committed_replay db rq =
     (case lookup db (rq_operation_id rq) of
        None \<Rightarrow> VNone
      | Some r \<Rightarrow>
          if or_status r = ''committed'' \<and> same_scope rq r \<and> or_args_hmac r = rq_args_hmac rq
          then stable_return_payload r else VNone)"

definition resolve_row :: "op_request \<Rightarrow> op_row \<Rightarrow> op_error + pyval" where
  "resolve_row rq r =
     (if \<not> same_scope rq r then Inl IdempotencyScopeMismatch
      else if or_status r \<noteq> ''committed'' then Inl IdempotencyInFlight
      else if or_args_hmac r \<noteq> rq_args_hmac rq then Inl IdempotencyArgsMismatch
      else Inr (stable_return_payload r))"

text \<open>The claim with the payload of the mutation, as it is committed.\<close>

definition committed_row :: "op_request \<Rightarrow> pyval \<Rightarrow> op_row" where
  "committed_row rq p =
     \<lparr>or_tenant = rq_tenant rq, or_user = rq_user rq, or_family = rq_family rq, or_tool = rq_tool rq,
      or_args_hmac = rq_args_hmac rq, or_status = ''committed'', stable_return_payload = p\<rparr>"

definition wants_audit :: "op_request \<Rightarrow> bool" where
  "wants_audit rq \<longleftrightarrow> (case (audit_entity_type rq, audit_action rq) of
     (Some t, Some a) \<Rightarrow> t \<noteq> [] \<and> a \<noteq> [] | _ \<Rightarrow> False)"

definition audit_request :: "op_request \<Rightarrow> int \<Rightarrow> audit_event" where
  "audit_request rq now =
     \<lparr>row_id = 0, ev_operation_id = rq_operation_id rq, ev_tenant = rq_tenant rq, ev_user = rq_user rq,
      ev_source = SREDA, entity_type = (case audit_entity_type rq of None \<Rightarrow> [] | Some t \<Rightarrow> t),
      entity_id = audit_entity_id rq, ev_action = (case audit_action rq of None \<Rightarrow> [] | Some a \<Rightarrow> a),
      payload = None, payload_hash = None, caused_by = None, occurred_at = now\<rparr>"

definition execute_fresh :: "'d op_env \<Rightarrow> op_request \<Rightarrow> 'd op_db \<Rightarrow> op_error + ('d op_db \<times> pyval)" where
  "execute_fresh env rq db =
     (case mutate_fn env (op_data db) of
        Inl MutIntegrity \<Rightarrow> Inl OpIntegrityError
      | Inl (MutRaise e) \<Rightarrow> Inl (MutateRaised e)
      | Inr (d', p) \<Rightarrow>
          (let db1 = db\<lparr>ops := dput (ops db) (rq_operation_id rq) (committed_row rq p), op_data := d'\<rparr> in
           if wants_audit rq
           then (case emit_tool_audit (audit_digest env) (audit_race env) (op_ctx env) (op_audit db)
                        (audit_request rq (op_now env)) (op_now env) of
                   Inl e \<Rightarrow> Inl (AuditRaised e)
                 | Inr a \<Rightarrow> Inr (db1\<lparr>op_audit := a\<rparr>, p))
           else Inr (db1, p)))"

definition execute_idempotent_durable_op ::
    "'d op_env \<Rightarrow> op_request \<Rightarrow> 'd op_db \<Rightarrow> 'd op_db \<times> (op_error + pyval)" where
  "execute_idempotent_durable_op env rq db =
     (case lookup db (rq_operation_id rq) of
        Some r \<Rightarrow> (db, resolve_row rq r)
      | None \<Rightarrow>
          (case racer env of
             Some r \<Rightarrow> (db\<lparr>ops := dput (ops db) (rq_operation_id rq) r\<rparr>, resolve_row rq r)
           | None \<Rightarrow>
               (case execute_fresh env rq db of
                  Inl e \<Rightarrow> (db, Inl e)
                | Inr (db', p) \<Rightarrow> (db', Inr p))))"

section \<open>Histories\<close>

text \<open>Any sequence of operations of any tools, over the same tables.\<close>

inductive op_step :: "'d op_db \<Rightarrow> 'd op_db \<Rightarrow> bool" where
  op_call: "execute_idempotent_durable_op env rq db = (db', r) \<Longrightarrow> op_step db db'"
| op_relay: "relay_outbox digest fault (op_audit db) batch now = Inr (a, n) \<Longrightarrow> op_step db (db\<lparr>op_audit := a\<rparr>)"

inductive_cases op_stepE: "op_step db db'"

definition has_row :: "string \<Rightarrow> op_row \<Rightarrow> 'd op_db \<Rightarrow> bool" where
  "has_row op r db \<longleftrightarrow> lookup db op = Some r"

lemma execute_fresh_ops:
  "execute_fresh env rq db = Inr (db', p) \<Longrightarrow>
     ops db' = dput (ops db) (rq_operation_id rq) (committed_row rq p) \<and>
     (\<exists>d'. mutate_fn env (op_data db) = Inr (d', p) \<and> op_data db' = d')"
  by (auto simp: execute_fresh_def Let_def split: sum.splits mutate_error.splits prod.splits if_splits)

lemma execute_cases:
  assumes "execute_idempotent_durable_op env rq db = (db', res)"
  obtains (known) r where "lookup db (rq_operation_id rq) = Some r" "db' = db" "res = resolve_row rq r"
  | (raced) r where "lookup db (rq_operation_id rq) = None" "racer env = Some r"
      "db' = db\<lparr>ops := dput (ops db) (rq_operation_id rq) r\<rparr>" "res = resolve_row rq r"
  | (failed) e where "lookup db (rq_operation_id rq) = None" "racer env = None"
      "execute_fresh env rq db = Inl e" "db' = db" "res = Inl e"
  | (fresh) p where "lookup db (rq_operation_id rq) = None" "racer env = None"
      "execute_fresh env rq db = Inr (db', p)" "res = Inr p"
  using assms by (auto simp: execute_idempotent_durable_op_def split: option.splits sum.splits prod.splits)

lemma execute_keeps_row:
  assumes "execute_idempotent_durable_op env rq db = (db', res)" and "lookup db op = Some r"
  shows "lookup db' op = Some r"
  using assms(1)
proof (cases rule: execute_cases)
  case (raced q)
  then show ?thesis using assms(2) by (auto simp: lookup_def)
next
  case (fresh p)
  with execute_fresh_ops [OF fresh(3)] assms(2) show ?thesis by (auto simp: lookup_def)
qed (use assms(2) in simp_all)

lemma op_step_row: "has_row op r db \<Longrightarrow> op_step db db' \<Longrightarrow> has_row op r db'"
  by (erule op_stepE) (simp_all add: has_row_def execute_keeps_row, simp add: lookup_def)

interpretation rows: invariant_system "has_row op r" op_step "has_row op r" for op r
  by unfold_locales (simp_all add: op_step_row)

section \<open>Properties\<close>

text \<open>
  C31: a durable operation takes effect once: after it has succeeded, then whatever operations
  and relay ticks come in between, executing it again runs no mutation, changes nothing and
  returns the payload of the first execution, and so does the read-only peek.
\<close>

theorem executed_once:
  assumes "execute_idempotent_durable_op env rq db = (db1, Inr p)" and "op_step\<^sup>*\<^sup>* db1 db2"
  shows "execute_idempotent_durable_op env' rq db2 = (db2, Inr p) \<and> peek_committed_replay db2 rq = p"
proof -
  from assms(1) obtain r where r: "has_row (rq_operation_id rq) r db1" "resolve_row rq r = Inr p"
  proof (cases rule: execute_cases)
    case (known r)
    then show thesis by (intro that [of r]) (simp_all add: has_row_def)
  next
    case (raced r)
    then show thesis by (intro that [of r]) (simp_all add: has_row_def lookup_def)
  next
    case (fresh q)
    from execute_fresh_ops [OF fresh(3)] fresh(4) show thesis
      by (intro that [of "committed_row rq p"])
        (auto simp: has_row_def lookup_def resolve_row_def same_scope_def committed_row_def)
  qed simp
  from rows.run_inv [OF assms(2) r(1)] have "lookup db2 (rq_operation_id rq) = Some r" by (simp add: has_row_def)
  with r(2) show ?thesis
    by (auto simp: execute_idempotent_durable_op_def peek_committed_replay_def resolve_row_def split: if_splits)
qed

definition sample_request :: op_request where
  "sample_request = \<lparr>rq_operation_id = ''op_1'', rq_tenant = ''t1'', rq_user = Some ''u1'', rq_family = ''task'',
     rq_args_hmac = ''h1'', rq_tool = Some ''add_task'', audit_entity_type = Some ''task'',
     audit_entity_id = Some ''task_1'', audit_action = Some ''created''\<rparr>"

definition react_ctx :: tool_ctx where
  "react_ctx = \<lparr>ctx_origin = Some ''react'', ctx_turn_key = Some ''turn_1'', ctx_thread_id = None,
     ctx_channel = Some ''telegram'', ctx_tool_name = ''add_task''\<rparr>"

definition sample_op_env :: "nat op_env" where
  "sample_op_env = \<lparr>mutate_fn = (\<lambda>n. Inr (Suc n, VStr ''created'')), racer = None, op_ctx = Some react_ctx,
     audit_digest = (\<lambda>_. ''h''), audit_race = False, op_now = 7\<rparr>"

definition sample_op_db :: "nat op_db" where
  "sample_op_db = \<lparr>ops = [], op_audit = empty_audit, op_data = 0\<rparr>"

lemma sample_execution:
  "\<exists>db1. execute_idempotent_durable_op sample_op_env sample_request sample_op_db = (db1, Inr (VStr ''created'')) \<and>
     op_data db1 = 1"
  by (simp add: execute_idempotent_durable_op_def lookup_def sample_op_db_def execute_fresh_def sample_op_env_def
      wants_audit_def sample_request_def emit_tool_audit_def react_ctx_def find_op_def empty_audit_def
      emit_event_def Let_def audit_request_def AUDIT_SOURCES_def AUDIT_ACTIONS_def AUDIT_ENTITY_TYPES_def
      split: option.splits)

theorem executed_once_witness:
  "\<exists>db1. execute_idempotent_durable_op sample_op_env sample_request sample_op_db = (db1, Inr (VStr ''created'')) \<and>
     execute_idempotent_durable_op sample_op_env sample_request db1 = (db1, Inr (VStr ''created''))"
proof -
  obtain db1 where e: "execute_idempotent_durable_op sample_op_env sample_request sample_op_db = (db1, Inr (VStr ''created''))"
    using sample_execution by blast
  from executed_once [OF e rtranclp.rtrancl_refl, of sample_op_env] e show ?thesis by blast
qed

text \<open>
  An operation that raises leaves no trace: neither the data nor the audit tables change,
  and no claim stays behind that would block a later attempt; only a row that a concurrent
  transaction committed itself is seen afterwards.
\<close>

theorem failed_operation_rolls_back:
  assumes "execute_idempotent_durable_op env rq db = (db', Inl e)"
  shows "op_data db' = op_data db \<and> op_audit db' = op_audit db \<and>
    (case racer env of None \<Rightarrow> db' = db
     | Some r \<Rightarrow> ops db' = ops db \<or> ops db' = dput (ops db) (rq_operation_id rq) r)"
  using assms by (cases rule: execute_cases) (auto split: option.splits)

theorem failed_operation_rolls_back_witness:
  "op_data (fst (execute_idempotent_durable_op (sample_op_env\<lparr>mutate_fn := (\<lambda>n. Inl (MutRaise ''boom''))\<rparr>)
     sample_request sample_op_db)) = 0"
proof -
  have "execute_idempotent_durable_op (sample_op_env\<lparr>mutate_fn := (\<lambda>n. Inl (MutRaise ''boom''))\<rparr>)
     sample_request sample_op_db = (sample_op_db, Inl (MutateRaised ''boom''))"
    by (simp add: execute_idempotent_durable_op_def lookup_def sample_op_db_def execute_fresh_def sample_op_env_def)
  from failed_operation_rolls_back [OF this] this show ?thesis by (simp add: sample_op_db_def)
qed

text \<open>
  A payload is never handed to anyone else: whatever is returned without executing the
  mutation comes from a committed row of the same tenant, user, family and arguments.
\<close>

theorem replay_stays_in_scope:
  assumes "lookup db (rq_operation_id rq) = Some r"
  shows "execute_idempotent_durable_op env rq db = (db, resolve_row rq r) \<and>
    (resolve_row rq r = Inr p \<longleftrightarrow>
       or_tenant r = rq_tenant rq \<and> or_none (or_user r) = or_none (rq_user rq) \<and> or_family r = rq_family rq \<and>
       or_status r = ''committed'' \<and> or_args_hmac r = rq_args_hmac rq \<and> p = stable_return_payload r)"
  using assms by (auto simp: execute_idempotent_durable_op_def resolve_row_def same_scope_def)

theorem replay_stays_in_scope_witness:
  "resolve_row sample_request (committed_row (sample_request\<lparr>rq_tenant := ''t2''\<rparr>) VNone) \<noteq> Inr VNone"
proof -
  have "lookup (sample_op_db\<lparr>ops := [(''op_1'', committed_row (sample_request\<lparr>rq_tenant := ''t2''\<rparr>) VNone)]\<rparr>)
      (rq_operation_id sample_request) = Some (committed_row (sample_request\<lparr>rq_tenant := ''t2''\<rparr>) VNone)"
    by (simp add: lookup_def sample_request_def)
  from replay_stays_in_scope [OF this, of sample_op_env VNone] show ?thesis
    by (simp add: committed_row_def sample_request_def)
qed

section \<open>Audit of an operation\<close>

lemma emit_tool_audit_react:
  assumes "audit_ok db" and "ctx = Some c" and "ctx_origin c = Some ''react''" and "\<not> race"
    and "emit_tool_audit digest race ctx db ev now = Inr db'"
  shows "audit_ok db' \<and> all_ops db' = insert (ev_operation_id ev) (all_ops db)"
proof -
  obtain r where r: "emit_event digest race db
      (ev\<lparr>ev_source := SREDA, payload := None, caused_by := Some (react_cause c)\<rparr>) now = Inr (db', r)"
    using assms(2-5) by (auto simp: emit_tool_audit_def emit_event_def Let_def split: if_splits option.splits sum.splits
        emit_error.splits)
  from emit_event_ok [OF assms(1) r] show ?thesis by simp
qed

text \<open>Outside a ReAct turn, the planner's executor included, no event is written.\<close>

lemma emit_tool_audit_elsewhere:
  "(case ctx of None \<Rightarrow> True | Some c \<Rightarrow> ctx_origin c \<noteq> Some ''react'') \<Longrightarrow>
     emit_tool_audit digest race ctx db ev now = Inr db"
  by (auto simp: emit_tool_audit_def split: option.splits)

lemma execute_fresh_audit:
  assumes "audit_ok (op_audit db)" and "wants_audit rq" and "op_ctx env = Some c"
    and "ctx_origin c = Some ''react''" and "\<not> audit_race env" and "execute_fresh env rq db = Inr (db', p)"
  shows "audit_ok (op_audit db') \<and> all_ops (op_audit db') = insert (rq_operation_id rq) (all_ops (op_audit db))"
proof -
  from assms(2,6) obtain a where "emit_tool_audit (audit_digest env) (audit_race env) (op_ctx env) (op_audit db)
      (audit_request rq (op_now env)) (op_now env) = Inr a" and "op_audit db' = a"
    by (auto simp: execute_fresh_def Let_def split: sum.splits mutate_error.splits prod.splits)
  with emit_tool_audit_react [OF assms(1,3,4,5)] show ?thesis by (auto simp: audit_request_def)
qed

lemma execute_audit_elsewhere:
  assumes "case op_ctx env of None \<Rightarrow> True | Some c \<Rightarrow> ctx_origin c \<noteq> Some ''react''"
    and "execute_idempotent_durable_op env rq db = (db', res)"
  shows "op_audit db' = op_audit db"
  using assms(2)
proof (cases rule: execute_cases)
  case (fresh p)
  then show ?thesis using emit_tool_audit_elsewhere [OF assms(1)]
    by (auto simp: execute_fresh_def Let_def split: sum.splits mutate_error.splits prod.splits if_splits)
qed auto

end
