(* ===== verification/CrashSafety.thy ===== *)
theory CrashSafety
  imports ExecutorOutcome Recovery IdempotentOps
begin

text \<open>
  Lemmas for the composition of the executor, the ledger and recovery: an execution keeps the
  constraints of the ledger, and the rows that recovery reads are those of the invoked steps.
\<close>

section \<open>An execution keeps the ledger's constraints\<close>

definition ledger_at :: "int \<Rightarrow> ledger \<Rightarrow> bool" where
  "ledger_at now led \<longleftrightarrow> ledger_ok led \<and> (\<forall>r\<in>set (dvals led). lr_updated_at r \<le> now)"

lemma dput_vals_mem: "r \<in> set (dvals (dput d k v)) \<Longrightarrow> r = v \<or> r \<in> set (dvals d)"
  using set_dput [of k v d] by auto

lemma open_for_at: "ledger_at (clock env) led \<Longrightarrow> open_for env led sid a = Inr led' \<Longrightarrow> ledger_at (clock env) led'"
proof -
  assume at: "ledger_at (clock env) led" and o: "open_for env led sid a = Inr led'"
  show ?thesis
  proof (cases "ledger_ids env")
    case None
    with at o show ?thesis by (simp add: open_for_def)
  next
    case (Some et)
    with o obtain op row where s: "open_step led (fst et, sid) (Some (tool a)) op (clock env) = Inr (led', row)"
      by (auto simp: open_for_def split: prod.splits sum.splits if_splits)
    have "\<forall>r\<in>set (dvals led'). lr_updated_at r \<le> clock env"
      using s at by (auto simp: open_step_def Let_def ledger_at_def simp del: set_map split: option.splits if_splits
          dest!: dput_vals_mem)
    with open_step_ok [OF _ s] at show ?thesis by (simp add: ledger_at_def)
  qed
qed

lemma close_for_at: "ledger_at (clock env) led \<Longrightarrow> ledger_at (clock env) (close_for env led sid mk)"
proof -
  assume at: "ledger_at (clock env) led"
  have "ledger_at (clock env) (best_effort_mark f led k st (clock env))" for f k st
  proof -
    have "\<forall>r\<in>set (dvals (best_effort_mark f led k st (clock env))). lr_updated_at r \<le> clock env"
      using at by (auto simp: best_effort_mark_def mark_step_status_def ledger_at_def simp del: set_map
          split: option.splits if_splits dest!: dput_vals_mem)
    moreover have "ledger_ok (best_effort_mark f led k st (clock env))"
      using at mark_step_status_ok [of led k st "clock env"]
      by (auto simp: best_effort_mark_def ledger_at_def split: sum.splits)
    ultimately show ?thesis by (simp add: ledger_at_def)
  qed
  with at show ?thesis by (auto simp: close_for_def split: option.splits prod.splits)
qed

lemma run_batch_at: "ledger_at (clock env) led \<Longrightarrow> ledger_at (clock env) (fst (run_batch env p snap sids led))"
proof (induction sids arbitrary: led)
  case (Cons sid sids)
  show ?case
  proof (cases "action_of p sid")
    case (Some a)
    show ?thesis
    proof (cases "dget (env_registry env) (tool_of p sid)")
      case (Some spec)
      obtain led1 cs1 r1 where e: "execute_one_step env snap led sid a spec = (led1, cs1, r1)" by (cases "execute_one_step env snap led sid a spec")
      have "ledger_at (clock env) led1"
        using e Cons.prems open_for_at [OF Cons.prems] close_for_at
        by (auto simp: execute_one_step_def split: sum.splits prod.splits)
      from Cons.IH [OF this] show ?thesis using Some \<open>action_of p sid = Some a\<close> e
        by (auto split: prod.splits)
    qed (use Some Cons.prems in simp)
  qed (use Cons.prems in simp)
qed simp

lemma st_ledger_skips [simp]: "st_ledger (fold (record_skip p why) sids S) = st_ledger S"
  by (induction sids arbitrary: S) (simp_all add: record_skip_def)

lemma st_ledger_partition: "partition_runnable ep sids S = (S', run) \<Longrightarrow> st_ledger S' = st_ledger S"
  by (induction sids arbitrary: S S' run) (auto simp: record_skip_def split: option.splits prod.splits)

lemma st_ledger_refilter: "refilter_batch ep sids S = (S', run) \<Longrightarrow> st_ledger S' = st_ledger S"
  by (induction sids arbitrary: S S' run) (auto simp: record_skip_def Let_def split: if_splits prod.splits)

lemma st_ledger_process: "st_ledger (fst (process_result ep reg sr So)) = st_ledger (fst So)"
  by (cases sr; cases So; cases "status (snd sr)")
    (auto simp: process_result_def fail_group_def Let_def split: option.splits)

lemma st_ledger_processes: "st_ledger (fst (fold (process_result ep reg) srs So)) = st_ledger (fst So)"
  by (induction srs arbitrary: So) (simp_all add: st_ledger_process)

lemma run_batches_at:
  "ledger_at (clock env) (st_ledger (fst So)) \<Longrightarrow>
     ledger_at (clock env) (st_ledger (fst (run_batches env ep snap bs So)))"
proof (induction env ep snap bs So rule: run_batches.induct)
  case (2 env ep snap batch later S0 outs)
  obtain S filtered where f: "refilter_batch ep batch S0 = (S, filtered)" by fastforce
  have at: "ledger_at (clock env) (st_ledger S)" using 2(3) st_ledger_refilter [OF f] by simp
  show ?case
  proof (cases "filtered = []")
    case True
    with 2(1) [OF f [symmetric] True] at f show ?thesis by simp
  next
    case False
    show ?thesis
    proof (cases "find_ambiguous (ep_plan ep) snap filtered")
      case (Some amb)
      with False f at show ?thesis by (cases amb) (simp add: barrier_abort_def Let_def)
    next
      case None
      show ?thesis
      proof (cases "check_batch env (ep_plan ep) filtered")
        case (Some e)
        with None False f at show ?thesis by simp
      next
        case cb: None
        obtain S1 outs1 where g: "gather_batch env ep snap filtered (S, outs) = (S1, outs1)" by fastforce
        obtain led cs rs where rb: "run_batch env (ep_plan ep) snap filtered (st_ledger S) = (led, cs, rs)"
          by (cases "run_batch env (ep_plan ep) snap filtered (st_ledger S)")
        have "st_ledger S1 = led"
        proof (cases rs)
          case (Inl e)
          with g rb show ?thesis by (auto simp: gather_batch_def)
        next
          case (Inr rl)
          with g rb have "S1 = fst (fold (process_result ep (env_registry env)) (zip filtered rl)
              (S\<lparr>st_ledger := led, st_calls := st_calls S @ cs\<rparr>, outs))"
            by (simp add: gather_batch_def Let_def)
          then show ?thesis by (simp add: st_ledger_processes)
        qed
        then have at1: "ledger_at (clock env) (st_ledger S1)"
          using run_batch_at [OF at, of "ep_plan ep" snap filtered] rb by simp
        show ?thesis
        proof (cases "crash S1 \<noteq> None \<or> aborted S1 \<noteq> None")
          case True
          with f False None cb g at1 show ?thesis by (auto simp: drain_def)
        next
          case ok: False
          then have "ledger_at (clock env) (st_ledger (fst (run_batches env ep snap later (S1, outs1))))"
            using 2(2) [OF f [symmetric] False None cb g [symmetric]] at1 by simp
          with ok f False None cb g show ?thesis by simp
        qed
      qed
    qed
  qed
qed simp

lemma run_layers_at:
  "ledger_at (clock env) (st_ledger S) \<Longrightarrow> ledger_at (clock env) (st_ledger (run_layers env ep ls S))"
proof (induction ls arbitrary: S)
  case (Cons l ls)
  have "ledger_at (clock env) (st_ledger (run_layer env ep l S))"
  proof (cases "aborted S")
    case (Some why)
    with Cons.prems show ?thesis by (simp add: run_layer_def drain_def)
  next
    case None
    obtain S1 run where p: "partition_runnable ep l S = (S1, run)" by fastforce
    have at: "ledger_at (clock env) (st_ledger S1)" using Cons.prems st_ledger_partition [OF p] by simp
    with run_batches_at [of env "(S1, [])" ep "state_value (step_outputs S1)" "build_layer_batches ep run"] None p
    show ?thesis by (auto simp: run_layer_def split: prod.splits)
  qed
  with Cons.IH show ?case by (simp add: Let_def)
qed simp

lemma execute_plan_at:
  assumes "ledger_at (clock env) led" and "execute_plan env ep led = (led', cs, r)"
  shows "ledger_at (clock env) led'"
  using assms run_layers_at [of env "initial_state (actions (ep_plan ep)) led" ep "layers ep"]
  by (auto simp: execute_plan_def final_state_def initial_state_def Let_def split: option.splits if_splits)

section \<open>The rows recovery reads\<close>

definition durable_step :: "exec_env \<Rightarrow> step_result \<Rightarrow> bool" where
  "durable_step env r \<longleftrightarrow>
     (case dget (env_registry env) (sr_tool r) of None \<Rightarrow> False | Some spec \<Rightarrow> is_durable_write spec)"

definition step_operation :: "exec_env \<Rightarrow> string \<Rightarrow> step_result \<Rightarrow> identity_error + string" where
  "step_operation env turn r = allocate_operation_id (sha1hex env) turn (step_id r) (sr_tool r)"

text \<open>What is known of an invoked step: recorded as committed, or found in an audit table.\<close>

definition known_committed :: "exec_env \<Rightarrow> string \<Rightarrow> string set \<Rightarrow> step_result \<Rightarrow> bool" where
  "known_committed env turn audit r \<longleftrightarrow>
     (status r = StOk \<and> \<not> mark_fault env (step_id r)) \<or>
     (case step_operation env turn r of Inl e \<Rightarrow> False | Inr op \<Rightarrow> op \<in> audit)"

lemma closing_committed: "closing spec st = ''committed'' \<longleftrightarrow> st = StOk"
  by (cases st) (simp_all add: closing_def)

lemma ledger_agrees_row:
  assumes "ledger_agrees env led led' rs" and "ledger_ids env = Some (exid, turn)" and "r \<in> set rs" and "invoked r"
  shows "\<exists>spec row. dget (env_registry env) (sr_tool r) = Some spec \<and>
     dget led' (exid, step_id r) = Some row \<and> lr_tool row = Some (sr_tool r) \<and>
     allocate_operation_id (sha1hex env) turn (step_id r) (sr_tool r) = Inr (lr_operation_id row) \<and>
     lr_status row = (if mark_fault env (step_id r) then ''started'' else closing spec (status r))"
  using assms by (simp add: ledger_agrees_def)

lemma rows_of_execution:
  assumes "ledger_agrees env led led' rs" and "fresh_ledger env led" and "dict_ok led'"
    and "ledger_ids env = Some (exid, turn)"
  shows "snd ` set (rows_of led' exid) = (\<lambda>r. the (dget led' (exid, step_id r))) ` {r \<in> set rs. invoked r}"
proof (intro equalityI subsetI)
  fix row assume "row \<in> snd ` set (rows_of led' exid)"
  then obtain s where s: "((exid, s), row) \<in> set led'" by (auto simp: rows_of_mem)
  then have row: "dget led' (exid, s) = Some row" using assms(3) by (simp add: mem_dget)
  have "dget led (exid, s) = None" using assms(2,4) by (simp add: fresh_ledger_def)
  moreover have "dget led' k = dget led k" if "\<forall>r\<in>set rs. invoked r \<longrightarrow> k \<noteq> (exid, step_id r)" for k
    using assms(1,4) that by (cases k) (simp add: ledger_agrees_def)
  ultimately obtain r where "r \<in> set rs" "invoked r" "s = step_id r"
    using row by (metis option.distinct(1) prod.inject)
  with row show "row \<in> (\<lambda>r. the (dget led' (exid, step_id r))) ` {r \<in> set rs. invoked r}" by force
next
  fix row assume "row \<in> (\<lambda>r. the (dget led' (exid, step_id r))) ` {r \<in> set rs. invoked r}"
  then obtain r where r: "r \<in> set rs" "invoked r" "row = the (dget led' (exid, step_id r))" by blast
  from ledger_agrees_row [OF assms(1,4) r(1,2)] obtain row' where "dget led' (exid, step_id r) = Some row'" by blast
  with r(3) have "((exid, step_id r), row) \<in> set led'" by (simp add: dget_Some_mem)
  then show "row \<in> snd ` set (rows_of led' exid)" by (intro image_eqI [of _ _ "((exid, step_id r), row)"]) (simp_all add: rows_of_mem)
qed

lemma write_state_of_step:
  fixes audit :: "string set" and now :: int and settle :: nat
  assumes "ledger_agrees env led led' rs" and "ledger_ids env = Some (exid, turn)" and "r \<in> set rs" "invoked r"
    and "[] \<notin> set (dkeys (env_registry env))"
  defines "w \<equiv> write_state (env_registry env) audit now settle (the (dget led' (exid, step_id r)))"
  shows "w = SevNone \<longleftrightarrow> \<not> durable_step env r"
    and "w = SevCommitted \<longleftrightarrow> durable_step env r \<and> known_committed env turn audit r"
proof -
  from assms(1-4) obtain spec row where spec: "dget (env_registry env) (sr_tool r) = Some spec"
    and row: "dget led' (exid, step_id r) = Some row" "lr_tool row = Some (sr_tool r)"
    and op: "allocate_operation_id (sha1hex env) turn (step_id r) (sr_tool r) = Inr (lr_operation_id row)"
    and st: "lr_status row = (if mark_fault env (step_id r) then ''started'' else closing spec (status r))"
    using ledger_agrees_row [OF assms(1-4)] by blast
  have "sr_tool r \<noteq> []" using spec assms(5) by (metis dget_None_iff option.distinct(1))
  then have dur: "row_durable (env_registry env) row \<longleftrightarrow> durable_step env r"
    using spec row(2) by (simp add: row_durable_def durable_step_def)
  have com: "lr_status row = ''committed'' \<longleftrightarrow> status r = StOk \<and> \<not> mark_fault env (step_id r)"
    using st by (simp add: closing_committed)
  show "w = SevNone \<longleftrightarrow> \<not> durable_step env r"
    using dur row(1) by (auto simp: w_def write_state_def)
  show "w = SevCommitted \<longleftrightarrow> durable_step env r \<and> known_committed env turn audit r"
    using dur com op row(1) by (auto simp: w_def write_state_def known_committed_def step_operation_def)
qed

end
