(* ===== verification/MessageQueue.thy ===== *)
theory MessageQueue
  imports Leases PyValue
begin

text \<open>
  \<open>workers/message_queue.py\<close> with its table \<open>message_jobs\<close> (\<open>db/models/message_jobs.py\<close>) and
  the tick \<open>process_pending\<close> of \<open>workers/message_dispatcher.py\<close>. The table is a dictionary from
  job id to row, in table order; the status enumeration of the CHECK constraint is a datatype.
  Each operation is one committed transaction. Ties of \<open>ORDER BY enqueued_at\<close>, which SQL
  leaves open, are broken by table order.
\<close>

section \<open>The table\<close>

datatype job_status = Pending | Processing | Done | Failed | DeadLetter

record job =
  tenant_id :: string
  thread_id :: string
  channel :: string
  external_update_id :: string
  message_payload :: vdict
  jstatus :: job_status
  enqueued_at :: int
  started_at :: "int option"
  finished_at :: "int option"
  worker_id :: "string option"
  attempt :: int
  lease_expires_at :: "int option"
  last_error :: "string option"

type_synonym jobs = "(string, job) dict"

definition LEASE_DURATION_SEC :: nat where "LEASE_DURATION_SEC = 300"
definition HEARTBEAT_INTERVAL_SEC :: nat where "HEARTBEAT_INTERVAL_SEC = 60"
definition MAX_ATTEMPTS :: int where "MAX_ATTEMPTS = 3"

text \<open>The CHECK constraint on the timestamps.\<close>

definition timestamps_ok :: "job \<Rightarrow> bool" where
  "timestamps_ok j \<longleftrightarrow>
     (jstatus j = Pending \<and> started_at j = None \<and> finished_at j = None) \<or>
     (jstatus j = Processing \<and> started_at j \<noteq> None \<and> finished_at j = None \<and> lease_expires_at j \<noteq> None) \<or>
     (jstatus j \<in> {Done, Failed, DeadLetter} \<and> finished_at j \<noteq> None)"

definition dedup_key :: "job \<Rightarrow> string \<times> string" where
  "dedup_key j = (channel j, external_update_id j)"

section \<open>Operations\<close>

datatype enqueue_error = DuplicateMessageJob string job | IntegrityError string

definition enqueue_message ::
    "jobs \<Rightarrow> string \<Rightarrow> string \<Rightarrow> string \<Rightarrow> string \<Rightarrow> string \<Rightarrow> vdict \<Rightarrow> int \<Rightarrow> enqueue_error + jobs" where
  "enqueue_message q new_id tenant thread chan ext payload now =
     (case find (\<lambda>(k, j). channel j = chan \<and> external_update_id j = ext) q of
        Some (k, j) \<Rightarrow> Inl (DuplicateMessageJob k j)
      | None \<Rightarrow>
          if new_id \<in> set (dkeys q) then Inl (IntegrityError new_id)
          else Inr (dput q new_id
                 \<lparr>tenant_id = tenant, thread_id = thread, channel = chan, external_update_id = ext,
                  message_payload = payload, jstatus = Pending, enqueued_at = now, started_at = None,
                  finished_at = None, worker_id = None, attempt = 0, lease_expires_at = None,
                  last_error = None\<rparr>))"

text \<open>SQL comparisons with \<open>NULL\<close> are not true.\<close>

definition lease_expired :: "int \<Rightarrow> job \<Rightarrow> bool" where
  "lease_expired now j = (case lease_expires_at j of None \<Rightarrow> False | Some e \<Rightarrow> e < now)"

definition lease_active :: "int \<Rightarrow> job \<Rightarrow> bool" where
  "lease_active now j = (case lease_expires_at j of None \<Rightarrow> False | Some e \<Rightarrow> now \<le> e)"

definition available :: "int \<Rightarrow> job \<Rightarrow> bool" where
  "available now j \<longleftrightarrow> jstatus j = Pending \<or> (jstatus j = Processing \<and> lease_expired now j)"

definition blocks :: "int \<Rightarrow> string \<times> job \<Rightarrow> string \<times> job \<Rightarrow> bool" where
  "blocks now j2 j \<longleftrightarrow>
     thread_id (snd j2) = thread_id (snd j) \<and> jstatus (snd j2) = Processing \<and>
     lease_active now (snd j2) \<and> fst j2 \<noteq> fst j"

definition candidates :: "jobs \<Rightarrow> int \<Rightarrow> (string \<times> job) list" where
  "candidates q now = filter (\<lambda>j. available now (snd j) \<and> \<not> list_ex (\<lambda>j2. blocks now j2 j) q) q"

definition claimed_job :: "string \<Rightarrow> int \<Rightarrow> nat \<Rightarrow> job \<Rightarrow> job" where
  "claimed_job worker now lease_seconds j =
     j\<lparr>jstatus := Processing,
       started_at := (case started_at j of None \<Rightarrow> Some now | Some t \<Rightarrow> Some t),
       worker_id := Some worker, attempt := attempt j + 1,
       lease_expires_at := Some (now + int lease_seconds * SEC)\<rparr>"

definition claim_next_job :: "jobs \<Rightarrow> string \<Rightarrow> int \<Rightarrow> nat \<Rightarrow> jobs \<times> (string \<times> job) option" where
  "claim_next_job q worker now lease_seconds =
     (case sort_key (\<lambda>(k, j). enqueued_at j) (candidates q now) of
        [] \<Rightarrow> (q, None)
      | (k, j) # _ \<Rightarrow>
          (let j' = claimed_job worker now lease_seconds j in (dput q k j', Some (k, j'))))"

text \<open>An \<open>UPDATE\<close> of one row under the fencing condition; the flag is \<open>bool(rowcount)\<close>.\<close>

definition holds_token :: "string \<Rightarrow> int \<Rightarrow> job \<Rightarrow> bool" where
  "holds_token worker att j \<longleftrightarrow> worker_id j = Some worker \<and> attempt j = att \<and> jstatus j = Processing"

definition update_held :: "jobs \<Rightarrow> string \<Rightarrow> string \<Rightarrow> int \<Rightarrow> (job \<Rightarrow> job) \<Rightarrow> jobs \<times> bool" where
  "update_held q jid worker att f =
     (case dget q jid of
        None \<Rightarrow> (q, False)
      | Some j \<Rightarrow> if holds_token worker att j then (dput q jid (f j), True) else (q, False))"

definition extend_lease :: "jobs \<Rightarrow> string \<Rightarrow> string \<Rightarrow> int \<Rightarrow> int \<Rightarrow> nat \<Rightarrow> jobs \<times> bool" where
  "extend_lease q jid worker att now lease_seconds =
     update_held q jid worker att (\<lambda>j. j\<lparr>lease_expires_at := Some (now + int lease_seconds * SEC)\<rparr>)"

definition mark_done :: "jobs \<Rightarrow> string \<Rightarrow> string \<Rightarrow> int \<Rightarrow> int \<Rightarrow> jobs \<times> bool" where
  "mark_done q jid worker att now =
     update_held q jid worker att
       (\<lambda>j. j\<lparr>jstatus := Done, finished_at := Some now, lease_expires_at := None\<rparr>)"

definition mark_failed ::
    "jobs \<Rightarrow> string \<Rightarrow> string \<Rightarrow> int \<Rightarrow> string \<Rightarrow> int \<Rightarrow> int \<Rightarrow> jobs \<times> bool" where
  "mark_failed q jid worker att err now max_attempts =
     (if att < max_attempts
      then update_held q jid worker att
        (\<lambda>j. j\<lparr>jstatus := Pending, started_at := None, finished_at := None,
               lease_expires_at := None, worker_id := None, last_error := Some err\<rparr>)
      else update_held q jid worker att
        (\<lambda>j. j\<lparr>jstatus := DeadLetter, finished_at := Some now, lease_expires_at := None,
               last_error := Some err\<rparr>))"

definition derive_thread_key :: "string \<Rightarrow> string \<Rightarrow> string \<Rightarrow> string" where
  "derive_thread_key tenant chan chat = tenant @ ''::'' @ chan @ ''::'' @ chat"

section \<open>The queue as a transition system\<close>

text \<open>
  Any number of producers and workers, each with a clock of its own; \<open>may_enqueue\<close> restricts
  what a producer may insert (nothing, or the order of a thread).
\<close>

inductive queue_step :: "(jobs \<Rightarrow> string \<Rightarrow> int \<Rightarrow> bool) \<Rightarrow> jobs \<Rightarrow> jobs \<Rightarrow> bool"
  for may_enqueue :: "jobs \<Rightarrow> string \<Rightarrow> int \<Rightarrow> bool" where
  step_enqueue: "may_enqueue q thread now \<Longrightarrow>
     enqueue_message q new_id tenant thread chan ext payload now = Inr q' \<Longrightarrow> queue_step may_enqueue q q'"
| step_claim: "claim_next_job q worker now lease_seconds = (q', r) \<Longrightarrow> queue_step may_enqueue q q'"
| step_extend: "extend_lease q jid worker att now lease_seconds = (q', b) \<Longrightarrow> queue_step may_enqueue q q'"
| step_done: "mark_done q jid worker att now = (q', b) \<Longrightarrow> queue_step may_enqueue q q'"
| step_failed: "mark_failed q jid worker att err now max_attempts = (q', b) \<Longrightarrow> queue_step may_enqueue q q'"

definition anytime :: "jobs \<Rightarrow> string \<Rightarrow> int \<Rightarrow> bool" where
  "anytime q thread now = True"

definition in_order :: "jobs \<Rightarrow> string \<Rightarrow> int \<Rightarrow> bool" where
  "in_order q thread now = (\<forall>j\<in>set (dvals q). thread_id j = thread \<longrightarrow> enqueued_at j < now)"

text \<open>How one step changes the row of one job.\<close>

inductive row_change :: "job \<Rightarrow> job \<Rightarrow> bool" where
  rc_same: "row_change j j"
| rc_claim: "available now j \<Longrightarrow> row_change j (claimed_job worker now lease_seconds j)"
| rc_extend: "jstatus j = Processing \<Longrightarrow> row_change j (j\<lparr>lease_expires_at := Some e\<rparr>)"
| rc_done: "jstatus j = Processing \<Longrightarrow>
     row_change j (j\<lparr>jstatus := Done, finished_at := Some now, lease_expires_at := None\<rparr>)"
| rc_retry: "jstatus j = Processing \<Longrightarrow>
     row_change j (j\<lparr>jstatus := Pending, started_at := None, finished_at := None,
               lease_expires_at := None, worker_id := None, last_error := Some err\<rparr>)"
| rc_dead: "jstatus j = Processing \<Longrightarrow>
     row_change j (j\<lparr>jstatus := DeadLetter, finished_at := Some now, lease_expires_at := None,
               last_error := Some err\<rparr>)"

lemma claim_next_job_cases:
  assumes "claim_next_job q worker now ls = (q', r)"
  obtains (none) "candidates q now = []" "q' = q" "r = None"
  | (some) k j where "(k, j) \<in> set (candidates q now)"
      "\<forall>(k', j')\<in>set (candidates q now). enqueued_at j \<le> enqueued_at j'"
      "q' = dput q k (claimed_job worker now ls j)" "r = Some (k, claimed_job worker now ls j)"
proof (cases "sort_key (\<lambda>(k, j). enqueued_at j) (candidates q now)")
  case Nil
  then have "candidates q now = []" by (metis set_sort set_empty)
  with Nil assms show thesis by (auto simp: claim_next_job_def intro: none)
next
  case (Cons x xs)
  obtain k j where x: "x = (k, j)" by (cases x)
  have "sorted (map (\<lambda>(k, j). enqueued_at j) (x # xs))" by (metis Cons sorted_sort_key)
  moreover have "set (x # xs) = set (candidates q now)" by (metis Cons set_sort)
  ultimately have "(k, j) \<in> set (candidates q now)"
    "\<forall>(k', j')\<in>set (candidates q now). enqueued_at j \<le> enqueued_at j'"
    by (auto simp: x)
  with Cons x assms show thesis by (auto simp: claim_next_job_def Let_def intro: some)
qed

lemma candidates_mem:
  "(k, j) \<in> set (candidates q now) \<longleftrightarrow>
     (k, j) \<in> set q \<and> available now j \<and>
     (\<forall>k2 j2. (k2, j2) \<in> set q \<and> thread_id j2 = thread_id j \<and> jstatus j2 = Processing \<and> lease_active now j2
        \<longrightarrow> k2 = k)"
  unfolding candidates_def list_ex_iff blocks_def by (simp add: split_paired_Ball_Sigma) fastforce

lemma update_held_cases:
  assumes "update_held q jid worker att f = (q', b)"
  obtains (none) "q' = q" "\<not> b" "\<And>j. dget q jid = Some j \<Longrightarrow> \<not> holds_token worker att j"
  | (some) j where "dget q jid = Some j" "holds_token worker att j" "q' = dput q jid (f j)" "b"
  using assms by (auto simp: update_held_def split: option.splits if_splits)

lemma dict_append_new: "k \<notin> set (dkeys d) \<Longrightarrow> dput d k v = d @ [(k, v)]"
  by (induction d) auto

definition new_job :: "job \<Rightarrow> bool" where
  "new_job j \<longleftrightarrow> jstatus j = Pending \<and> attempt j = 0 \<and> started_at j = None \<and> finished_at j = None \<and>
     worker_id j = None \<and> lease_expires_at j = None"

lemma enqueue_cases:
  assumes "enqueue_message q new_id tenant thread chan ext payload now = Inr q'"
  obtains j where "q' = q @ [(new_id, j)]" "new_id \<notin> set (dkeys q)" "new_job j" "thread_id j = thread"
    "enqueued_at j = now" "dedup_key j = (chan, ext)" "(chan, ext) \<notin> dedup_key ` set (dvals q)"
proof -
  let ?j = "\<lparr>tenant_id = tenant, thread_id = thread, channel = chan, external_update_id = ext,
     message_payload = payload, jstatus = Pending, enqueued_at = now, started_at = None,
     finished_at = None, worker_id = None, attempt = 0, lease_expires_at = None, last_error = None\<rparr>"
  from assms have none: "find (\<lambda>(k, j). channel j = chan \<and> external_update_id j = ext) q = None"
    and new: "new_id \<notin> set (dkeys q)" and q': "q' = dput q new_id ?j"
    by (auto simp: enqueue_message_def split: option.splits if_splits)
  have "(chan, ext) \<notin> dedup_key ` set (dvals q)"
    using none by (force simp: find_None_iff dedup_key_def)
  moreover have "q' = q @ [(new_id, ?j)]" using q' dict_append_new [OF new] by simp
  ultimately show thesis using new by (intro that [of ?j]) (simp_all add: new_job_def dedup_key_def)
qed

lemma queue_step_cases:
  assumes "queue_step P q q'"
  obtains (same) "q' = q"
  | (new) k j where "q' = q @ [(k, j)]" "k \<notin> set (dkeys q)" "new_job j" "P q (thread_id j) (enqueued_at j)"
      "dedup_key j \<notin> dedup_key ` set (dvals q)"
  | (claim) k j worker now ls where "(k, j) \<in> set (candidates q now)"
      "\<forall>(k', j')\<in>set (candidates q now). enqueued_at j \<le> enqueued_at j'"
      "q' = dput q k (claimed_job worker now ls j)"
  | (held) k j j' where "dget q k = Some j" "jstatus j = Processing" "row_change j j'" "q' = dput q k j'"
  using assms
proof cases
  case (step_enqueue thread now new_id tenant chan ext payload)
  from step_enqueue(2) obtain j where "q' = q @ [(new_id, j)]" "new_id \<notin> set (dkeys q)" "new_job j"
    "thread_id j = thread" "enqueued_at j = now" "dedup_key j = (chan, ext)"
    "(chan, ext) \<notin> dedup_key ` set (dvals q)" by (rule enqueue_cases)
  with step_enqueue(1) new [of new_id j] show thesis by simp
next
  case (step_claim worker now ls r)
  then show thesis by (rule claim_next_job_cases) (auto intro: same claim)
next
  case (step_extend jid worker att now ls b)
  then show thesis unfolding extend_lease_def
    by (cases rule: update_held_cases) (auto intro: same held [OF _ _ rc_extend] simp: holds_token_def)
next
  case (step_done jid worker att now b)
  then show thesis unfolding mark_done_def
    by (cases rule: update_held_cases) (auto intro: same held [OF _ _ rc_done] simp: holds_token_def)
next
  case (step_failed jid worker att err now max b)
  then show thesis unfolding mark_failed_def
    by (auto split: if_splits elim!: update_held_cases simp: holds_token_def
        intro: same held [OF _ _ rc_retry] held [OF _ _ rc_dead])
qed

section \<open>Invariants\<close>

definition row_ok :: "job \<Rightarrow> bool" where
  "row_ok j \<longleftrightarrow> timestamps_ok j \<and> 0 \<le> attempt j \<and>
     (jstatus j = Processing \<longrightarrow> worker_id j \<noteq> None \<and> 1 \<le> attempt j) \<and>
     (jstatus j = Pending \<longrightarrow> worker_id j = None \<and> lease_expires_at j = None)"

definition jobs_ok :: "jobs \<Rightarrow> bool" where
  "jobs_ok q \<longleftrightarrow> dict_ok q \<and> distinct (map dedup_key (dvals q)) \<and> (\<forall>j\<in>set (dvals q). row_ok j)"

lemma jobs_ok_Nil: "jobs_ok []"
  by (simp add: jobs_ok_def)

lemma row_ok_status:
  "row_ok j \<longleftrightarrow> 0 \<le> attempt j \<and>
     (case jstatus j of
        Pending \<Rightarrow> started_at j = None \<and> finished_at j = None \<and> worker_id j = None \<and> lease_expires_at j = None
      | Processing \<Rightarrow> started_at j \<noteq> None \<and> finished_at j = None \<and> lease_expires_at j \<noteq> None \<and>
          worker_id j \<noteq> None \<and> 1 \<le> attempt j
      | _ \<Rightarrow> finished_at j \<noteq> None)"
  by (cases "jstatus j") (simp_all add: row_ok_def timestamps_ok_def conj_ac)

lemma row_change_ok: "row_change j j' \<Longrightarrow> row_ok j \<Longrightarrow> row_ok j'"
proof (induction rule: row_change.induct)
  case (rc_claim now j worker ls)
  then show ?case
    by (cases "jstatus j") (simp_all add: row_ok_status claimed_job_def available_def split: option.split)
qed (simp_all add: row_ok_status)

lemma row_change_fixed:
  "row_change j j' \<Longrightarrow> tenant_id j' = tenant_id j \<and> thread_id j' = thread_id j \<and> dedup_key j' = dedup_key j \<and>
     message_payload j' = message_payload j \<and> enqueued_at j' = enqueued_at j \<and> attempt j \<le> attempt j' \<and>
     (jstatus j \<in> {Done, Failed, DeadLetter} \<longrightarrow> j' = j)"
  by (induction rule: row_change.induct) (auto simp: dedup_key_def claimed_job_def available_def)

lemma dput_vals: "dget d k = Some v \<Longrightarrow> f v' = f v \<Longrightarrow> map f (dvals (dput d k v')) = map f (dvals d)"
  by (induction d) auto

lemma jobs_ok_dput:
  assumes "jobs_ok q" and "dget q k = Some j" and "row_change j j'"
  shows "jobs_ok (dput q k j')"
proof -
  have "j \<in> set (dvals q)" using assms(2) by (force dest: dget_Some_mem)
  then have "row_ok j'" using row_change_ok [OF assms(3)] assms(1) by (simp add: jobs_ok_def del: set_map)
  moreover have "set (dvals (dput q k j')) \<subseteq> insert j' (set (dvals q))" by (induction q) auto
  moreover have "map dedup_key (dvals (dput q k j')) = map dedup_key (dvals q)"
    using dput_vals [OF assms(2)] row_change_fixed [OF assms(3)] by blast
  ultimately show ?thesis using assms(1) by (auto simp: jobs_ok_def simp del: set_map map_map)
qed

lemma candidate_row:
  "dict_ok q \<Longrightarrow> (k, j) \<in> set (candidates q now) \<Longrightarrow> dget q k = Some j \<and> available now j"
  by (simp add: candidates_mem mem_dget)

text \<open>Every step is an insertion of a new row or a change of one row.\<close>

lemma queue_step_change:
  assumes "dict_ok q" and "queue_step P q q'"
  obtains (same) "q' = q"
  | (new) k j where "q' = q @ [(k, j)]" "k \<notin> set (dkeys q)" "new_job j" "P q (thread_id j) (enqueued_at j)"
      "dedup_key j \<notin> dedup_key ` set (dvals q)"
  | (change) k j j' where "dget q k = Some j" "row_change j j'" "q' = dput q k j'"
  using assms(2)
proof (cases rule: queue_step_cases)
  case (claim k j worker now ls)
  with candidate_row [OF assms(1) claim(1)] show thesis by (auto intro: change rc_claim)
qed (auto intro: that)

lemma queue_step_ok: 
  assumes "jobs_ok q" and "queue_step P q q'"
  shows "jobs_ok q'"
proof -
  have "dict_ok q" using assms(1) by (simp add: jobs_ok_def)
  then show ?thesis using assms(2)
  proof (cases rule: queue_step_change)
    case (new k j)
    then show ?thesis using assms(1)
      by (auto simp: jobs_ok_def dict_ok_def row_ok_def new_job_def timestamps_ok_def)
  qed (use assms(1) in \<open>auto intro: jobs_ok_dput\<close>)
qed

interpretation mq: invariant_system "\<lambda>q. q = []" "queue_step P" jobs_ok for P
  by unfold_locales (simp_all add: jobs_ok_Nil queue_step_ok)

section \<open>Rows along a run\<close>

definition same_identity :: "job \<Rightarrow> job \<Rightarrow> bool" where
  "same_identity j j' \<longleftrightarrow> tenant_id j' = tenant_id j \<and> thread_id j' = thread_id j \<and> dedup_key j' = dedup_key j \<and>
     message_payload j' = message_payload j \<and> enqueued_at j' = enqueued_at j"

definition final :: "job \<Rightarrow> bool" where
  "final j \<longleftrightarrow> jstatus j \<in> {Done, Failed, DeadLetter}"

definition evolved :: "string \<Rightarrow> job \<Rightarrow> jobs \<Rightarrow> bool" where
  "evolved k j q \<longleftrightarrow> dict_ok q \<and> (\<exists>j'. dget q k = Some j' \<and> same_identity j j' \<and> attempt j \<le> attempt j' \<and>
     (final j \<longrightarrow> j' = j))"

lemma queue_step_evolved:
  assumes "evolved k j q" and "queue_step P q q'"
  shows "evolved k j q'"
proof -
  from assms(1) obtain j1 where d: "dict_ok q" and j1: "dget q k = Some j1" "same_identity j j1"
    "attempt j \<le> attempt j1" "final j \<longrightarrow> j1 = j" by (auto simp: evolved_def)
  from d assms(2) show ?thesis
  proof (cases rule: queue_step_change)
    case (new k' j')
    then show ?thesis using j1 d by (auto simp: evolved_def dict_ok_def)
  next
    case (change k' j0 j0')
    show ?thesis
    proof (cases "k' = k")
      case True
      then have "j0 = j1" using change(1) j1(1) by simp
      moreover have "dget q' k = Some j0'" using True change(3) by simp
      moreover have "dict_ok q'" using d change(3) by simp
      moreover have "same_identity j1 j0'" "attempt j1 \<le> attempt j0'" "final j1 \<longrightarrow> j0' = j1"
        using row_change_fixed [OF change(2)] \<open>j0 = j1\<close> by (simp_all add: same_identity_def final_def)
      ultimately show ?thesis using j1(2-4) unfolding evolved_def same_identity_def by fastforce
    next
      case False
      then show ?thesis using d j1 change(3) by (simp add: evolved_def)
    qed
  qed (use assms(1) in simp)
qed

interpretation ev: invariant_system "evolved k j" "queue_step P" "evolved k j" for k j P
  by unfold_locales (simp_all add: queue_step_evolved)

lemma evolved_refl: "dict_ok q \<Longrightarrow> dget q k = Some j \<Longrightarrow> evolved k j q"
  by (simp add: evolved_def same_identity_def)

section \<open>Order within a thread\<close>

definition live :: "job \<Rightarrow> bool" where
  "live j \<longleftrightarrow> jstatus j = Pending \<or> jstatus j = Processing"

definition thread_ordered :: "jobs \<Rightarrow> bool" where
  "thread_ordered q \<longleftrightarrow> jobs_ok q \<and>
     (\<forall>k a l b. dget q k = Some a \<longrightarrow> dget q l = Some b \<longrightarrow> k \<noteq> l \<longrightarrow> thread_id a = thread_id b \<longrightarrow>
        enqueued_at a \<noteq> enqueued_at b \<and> (jstatus a = Processing \<longrightarrow> live b \<longrightarrow> enqueued_at a < enqueued_at b))"

lemma thread_orderedD:
  "thread_ordered q \<Longrightarrow> dget q k = Some a \<Longrightarrow> dget q l = Some b \<Longrightarrow> k \<noteq> l \<Longrightarrow> thread_id a = thread_id b \<Longrightarrow>
     enqueued_at a \<noteq> enqueued_at b \<and> (jstatus a = Processing \<longrightarrow> live b \<longrightarrow> enqueued_at a < enqueued_at b)"
  by (simp add: thread_ordered_def)

lemma available_live: "available now j \<Longrightarrow> live j"
  by (auto simp: available_def live_def)

lemma live_not_active:
  "row_ok j \<Longrightarrow> live j \<Longrightarrow> \<not> available now j \<Longrightarrow> jstatus j = Processing \<and> lease_active now j"
  by (auto simp: live_def available_def lease_expired_def lease_active_def row_ok_def timestamps_ok_def
      split: option.splits)

text \<open>If a job of a thread can be claimed, then so can every live job of the thread.\<close>

lemma candidate_thread:
  assumes q: "jobs_ok q" and c: "(k, j) \<in> set (candidates q now)"
    and b: "dget q l = Some b" "live b" "thread_id b = thread_id j"
  shows "(l, b) \<in> set (candidates q now)"
proof (cases "l = k")
  case True
  then show ?thesis using candidate_row [of q k j now] q c b by (simp add: jobs_ok_def)
next
  case False
  have mem: "(l, b) \<in> set q" using b(1) by (rule dget_Some_mem)
  then have "row_ok b" using q by (force simp: jobs_ok_def)
  have idle: "\<not> (jstatus j2 = Processing \<and> lease_active now j2)"
    if "(k2, j2) \<in> set q" "thread_id j2 = thread_id j" for k2 j2
  proof
    assume act: "jstatus j2 = Processing \<and> lease_active now j2"
    then have "k2 = k" using c that by (auto simp: candidates_mem)
    then have "j2 = j" using that(1) c q by (auto simp: candidates_mem jobs_ok_def dict_ok_def dest: eq_key_imp_eq_value)
    with act c show False
      by (auto simp: candidates_mem available_def lease_expired_def lease_active_def split: option.splits)
  qed
  have "available now b" using live_not_active [OF \<open>row_ok b\<close> b(2)] idle [OF mem b(3)] by blast
  with idle mem b(3) show ?thesis by (auto simp: candidates_mem)
qed

text \<open>Which facts about the changed row keep the order.\<close>

lemma thread_ordered_update:
  assumes "thread_ordered q" and "jobs_ok q'" and get: "\<forall>l. dget q' l = (if l = k then Some j else dget q l)"
    and fits: "\<And>l b. dget q l = Some b \<Longrightarrow> l \<noteq> k \<Longrightarrow> thread_id b = thread_id j \<Longrightarrow>
      enqueued_at b \<noteq> enqueued_at j \<and> (jstatus j = Processing \<longrightarrow> live b \<longrightarrow> enqueued_at j < enqueued_at b) \<and>
      (jstatus b = Processing \<longrightarrow> live j \<longrightarrow> enqueued_at b < enqueued_at j)"
  shows "thread_ordered q'"
  unfolding thread_ordered_def
proof (intro conjI allI impI)
  fix m a l b
  assume a: "dget q' m = Some a" and b: "dget q' l = Some b" and ml: "m \<noteq> l" and t: "thread_id a = thread_id b"
  have "enqueued_at a \<noteq> enqueued_at b \<and> (jstatus a = Processing \<longrightarrow> live b \<longrightarrow> enqueued_at a < enqueued_at b)"
  proof (cases "m = k")
    case True
    with a b get ml t fits [of l b] show ?thesis by auto
  next
    case False
    then have a': "dget q m = Some a" using a get by simp
    show ?thesis
    proof (cases "l = k")
      case True
      with b get t fits [OF a' False] show ?thesis by auto
    next
      case False
      with b get have "dget q l = Some b" by simp
      with thread_orderedD [OF assms(1) a' _ ml t] show ?thesis by blast
    qed
  qed
  then show "enqueued_at a \<noteq> enqueued_at b"
    and "jstatus a = Processing \<Longrightarrow> live b \<Longrightarrow> enqueued_at a < enqueued_at b" by blast+
qed (rule assms(2))

lemma thread_ordered_step:
  assumes "thread_ordered q" and "queue_step in_order q q'"
  shows "thread_ordered q'"
proof -
  have ok: "jobs_ok q" and d: "dict_ok q" using assms(1) by (auto simp: thread_ordered_def jobs_ok_def)
  note upd = thread_ordered_update [OF assms(1) queue_step_ok [OF ok assms(2)]]
  from assms(2) show ?thesis
  proof (cases rule: queue_step_cases)
    case (new k j)
    have later: "enqueued_at a < enqueued_at j" if "dget q l = Some a" "thread_id a = thread_id j" for l a
      using new(4) that by (force simp: in_order_def dest: dget_Some_mem)
    have "dget q k = None" using new(2) by (metis dget_None_iff)
    then have get: "\<forall>l. dget q' l = (if l = k then Some j else dget q l)"
      using new(1) by (auto simp: map_add_def split: option.splits)
    show ?thesis by (rule upd [OF get]) (use new(3) later in \<open>force simp: new_job_def\<close>)
  next
    case (claim k j worker now ls)
    have j: "dget q k = Some j" "available now j" using candidate_row [OF d claim(1)] by auto
    have first: "enqueued_at j \<noteq> enqueued_at b \<and> (live b \<longrightarrow> enqueued_at j < enqueued_at b)"
      if b: "dget q l = Some b" "l \<noteq> k" "thread_id b = thread_id j" for l b
    proof (cases "live b")
      case True
      have "(l, b) \<in> set (candidates q now)" by (rule candidate_thread [OF ok claim(1) b(1) True b(3)])
      with claim(2) have "enqueued_at j \<le> enqueued_at b" by auto
      with thread_orderedD [OF assms(1) j(1) b(1)] b(2,3) show ?thesis by force
    qed (use thread_orderedD [OF assms(1) j(1) b(1)] b(2,3) in auto)
    have get: "\<forall>l. dget q' l = (if l = k then Some (claimed_job worker now ls j) else dget q l)"
      by (simp add: claim(3))
    have cj: "thread_id (claimed_job worker now ls j) = thread_id j"
      "enqueued_at (claimed_job worker now ls j) = enqueued_at j" by (simp_all add: claimed_job_def)
    show ?thesis
    proof (rule upd [OF get], unfold cj)
      fix l b assume b: "dget q l = Some b" "l \<noteq> k" "thread_id b = thread_id j"
      have "\<not> jstatus b = Processing"
        using first [OF b] thread_orderedD [OF assms(1) b(1) j(1) b(2,3)] available_live [OF j(2)]
        by (auto simp: live_def)
      with first [OF b] show "enqueued_at b \<noteq> enqueued_at j \<and>
        (jstatus (claimed_job worker now ls j) = Processing \<longrightarrow> live b \<longrightarrow> enqueued_at j < enqueued_at b) \<and>
        (jstatus b = Processing \<longrightarrow> live (claimed_job worker now ls j) \<longrightarrow> enqueued_at b < enqueued_at j)" by auto
    qed
  next
    case (held k j j')
    have get: "\<forall>l. dget q' l = (if l = k then Some j' else dget q l)" by (simp add: held(4))
    note same = row_change_fixed [OF held(3)]
    show ?thesis
    proof (rule upd [OF get])
      fix l b assume b: "dget q l = Some b" "l \<noteq> k" "thread_id b = thread_id j'"
      have t: "thread_id b = thread_id j" using b(3) same by simp
      have "live j" using held(2) by (simp add: live_def)
      with thread_orderedD [OF assms(1) held(1) b(1)] thread_orderedD [OF assms(1) b(1) held(1) b(2) t]
        b(2) t same held(2)
      show "enqueued_at b \<noteq> enqueued_at j' \<and>
        (jstatus j' = Processing \<longrightarrow> live b \<longrightarrow> enqueued_at j' < enqueued_at b) \<and>
        (jstatus b = Processing \<longrightarrow> live j' \<longrightarrow> enqueued_at b < enqueued_at j')" by auto
    qed
  qed (use assms(1) in simp)
qed

interpretation fifo: invariant_system "\<lambda>q. q = []" "queue_step in_order" thread_ordered
proof unfold_locales
  show "q = [] \<Longrightarrow> thread_ordered q" for q by (simp add: thread_ordered_def jobs_ok_Nil)
qed (rule thread_ordered_step)

section \<open>The worker's tick\<close>

text \<open>
  What the tick does not control: clocks, everything that happens to the table while a turn
  runs (heartbeats, other workers, producers), the turn itself, the tenant's state, the
  status the turn leaves on the inbound row, and failing transactions.
\<close>

record tick_env =
  tick_now :: "nat \<Rightarrow> int"
  meanwhile :: "nat \<Rightarrow> jobs \<Rightarrow> jobs"
  tenant_active :: "string \<Rightarrow> bool"
  turn_raises :: "nat \<Rightarrow> bool"
  status_after :: "nat \<Rightarrow> string \<Rightarrow> string option"
  done_fault :: "nat \<Rightarrow> bool"
  failed_fault :: "nat \<Rightarrow> bool"
  error_text :: "nat \<Rightarrow> string"

definition truncate_error :: "string \<Rightarrow> string" where
  "truncate_error s = (if length s \<le> 4000 then s else take (4000 - 3) s @ ''...'')"

text \<open>\<open>_dispatch_telegram\<close>: true if it returns, false if it raises.\<close>

definition dispatch_telegram :: "tick_env \<Rightarrow> nat \<Rightarrow> job \<Rightarrow> bool" where
  "dispatch_telegram env i j =
     (if dget (message_payload j) ''payload'' = None then False
      else if \<not> tenant_active env (tenant_id j) then True
      else if turn_raises env i then False
      else (case dget (message_payload j) ''inbound_message_id'' of
              Some (VStr m) \<Rightarrow> status_after env i m = Some ''processed''
            | _ \<Rightarrow> True))"

definition dispatch :: "tick_env \<Rightarrow> nat \<Rightarrow> job \<Rightarrow> bool" where
  "dispatch env i j =
     (if channel j = ''telegram'' \<and> dget (message_payload j) ''kind'' = Some (VStr ''telegram_inbound'')
      then dispatch_telegram env i j else False)"

definition settle_job :: "tick_env \<Rightarrow> string \<Rightarrow> nat \<Rightarrow> string \<times> job \<Rightarrow> jobs \<Rightarrow> jobs" where
  "settle_job env worker i kj q =
     (case kj of (k, j) \<Rightarrow>
        if dispatch env i j \<and> \<not> done_fault env i
        then fst (mark_done q k worker (attempt j) (tick_now env i))
        else if failed_fault env i then q
        else fst (mark_failed q k worker (attempt j) (truncate_error (error_text env i))
                    (tick_now env i) MAX_ATTEMPTS))"

fun process_pending :: "tick_env \<Rightarrow> string \<Rightarrow> nat \<Rightarrow> nat \<Rightarrow> jobs \<Rightarrow> jobs \<times> nat" where
  "process_pending env worker 0 n q = (q, n)"
| "process_pending env worker (Suc budget) n q =
     (case claim_next_job q worker (tick_now env n) LEASE_DURATION_SEC of
        (q1, None) \<Rightarrow> (q1, n)
      | (q1, Some kj) \<Rightarrow>
          process_pending env worker budget (Suc n) (settle_job env worker n kj (meanwhile env n q1)))"

lemma settle_job_steps: "(queue_step P)\<^sup>*\<^sup>* q (settle_job env worker i kj q)"
proof -
  have "queue_step P q (fst (mark_done q k w a now))" for k w a now
    using step_done [of q k w a now "fst (mark_done q k w a now)" "snd (mark_done q k w a now)"] by simp
  moreover have "queue_step P q (fst (mark_failed q k w a e now m))" for k w a e now m
    using step_failed [of q k w a e now m "fst (mark_failed q k w a e now m)" "snd (mark_failed q k w a e now m)"]
    by simp
  ultimately show ?thesis by (auto simp: settle_job_def split: prod.splits)
qed

lemma process_pending_run:
  "\<forall>i q. (queue_step P)\<^sup>*\<^sup>* q (meanwhile env i q) \<Longrightarrow> process_pending env worker budget n q = (q', m) \<Longrightarrow>
     (queue_step P)\<^sup>*\<^sup>* q q' \<and> n \<le> m \<and> m \<le> n + budget"
proof (induction env worker budget n q rule: process_pending.induct)
  case (2 env worker budget n q)
  obtain q1 r where c: "claim_next_job q worker (tick_now env n) LEASE_DURATION_SEC = (q1, r)" by fastforce
  from step_claim [OF c] have s: "(queue_step P)\<^sup>*\<^sup>* q q1" by blast
  show ?case
  proof (cases r)
    case None
    with 2(3) c s show ?thesis by simp
  next
    case (Some kj)
    let ?q2 = "settle_job env worker n kj (meanwhile env n q1)"
    have rest: "process_pending env worker budget (Suc n) ?q2 = (q', m)" using 2(3) c Some by simp
    have "(queue_step P)\<^sup>*\<^sup>* q1 (meanwhile env n q1)" using 2(2) by blast
    also have "(queue_step P)\<^sup>*\<^sup>* (meanwhile env n q1) ?q2" by (rule settle_job_steps)
    finally have "(queue_step P)\<^sup>*\<^sup>* q ?q2" using s by (rule rtranclp_trans [rotated])
    with 2(1) [OF c [symmetric] Some 2(2) rest] show ?thesis
      by (auto intro: rtranclp_trans)
  qed
qed simp

end
