(* ===== verification/QueueProps.thy ===== *)
theory QueueProps
  imports MessageQueue
begin

text \<open>
  What the message queue promises: one worker per thread in arrival order, fencing of stale
  workers, deduplication, no lost rows, and that the worker's tick is a run of the queue's
  own operations. Runs interleave any number of producers and workers with any clocks.
\<close>

section \<open>Leases of the queue\<close>

definition claim_list :: "nat \<Rightarrow> jobs \<Rightarrow> string \<Rightarrow> int \<Rightarrow> jobs \<times> string list" where
  "claim_list ls q worker now =
     (case claim_next_job q worker now ls of (q', r) \<Rightarrow> (q', case r of None \<Rightarrow> [] | Some (k, j) \<Rightarrow> [k]))"

definition job_holder :: "jobs \<Rightarrow> string \<Rightarrow> (string \<times> int) option" where
  "job_holder q k =
     (case dget q k of
        None \<Rightarrow> None
      | Some j \<Rightarrow> if jstatus j = Processing
                  then (case (worker_id j, lease_expires_at j) of (Some w, Some e) \<Rightarrow> Some (w, e) | _ \<Rightarrow> None)
                  else None)"

lemma claim_list_cases:
  assumes "jobs_ok q" and "claim_list ls q w now = (q', ks)"
  obtains (none) "q' = q" "ks = []"
  | (some) k j where "dget q k = Some j" "available now j" "(k, j) \<in> set (candidates q now)"
      "q' = dput q k (claimed_job w now ls j)" "ks = [k]"
proof -
  obtain r where c: "claim_next_job q w now ls = (q', r)" and ks: "ks = (case r of None \<Rightarrow> [] | Some (k, j) \<Rightarrow> [k])"
    using assms(2) by (auto simp: claim_list_def split: prod.splits)
  from c show thesis
  proof (cases rule: claim_next_job_cases)
    case (some k j)
    with candidate_row [of q k j now] assms(1) ks show thesis by (auto simp: jobs_ok_def intro: that(2))
  qed (use ks in \<open>auto intro: that(1)\<close>)
qed

lemma claim_list_ok: "jobs_ok q \<Longrightarrow> claim_list ls q w now = (q', ks) \<Longrightarrow> jobs_ok q'"
proof -
  assume a: "jobs_ok q" "claim_list ls q w now = (q', ks)"
  from a show "jobs_ok q'" by (cases rule: claim_list_cases) (simp_all add: a(1) jobs_ok_dput [OF a(1) _ rc_claim])
qed

interpretation lq: lease_table "claim_list ls" job_holder "int ls * SEC" jobs_ok for ls :: nat
proof (unfold_locales, goal_cases)
  case (1 s w now s' ks k)
  from 1(1,2) show ?case
  proof (cases rule: claim_list_cases)
    case (some l j)
    with 1(3) show ?thesis
      by (auto simp: job_holder_def available_def lease_expired_def lease_free_def split: option.splits)
  qed (use 1(3) in simp)
next
  case (2 s w now s' ks k)
  from 2(1,2) show ?case
  proof (cases rule: claim_list_cases)
    case (some l j)
    with 2(3) show ?thesis by (simp add: job_holder_def claimed_job_def)
  qed (use 2(3) in simp)
next
  case (3 s w now s' ks k)
  from 3(1,2) show ?case
    by (cases rule: claim_list_cases) (use 3(3) in \<open>auto simp: job_holder_def\<close>)
next
  case (4 s w now s' ks)
  then show ?case by (rule claim_list_ok)
qed

section \<open>Samples\<close>

definition sample_payload :: vdict where
  "sample_payload = [(''kind'', VStr ''telegram_inbound''), (''payload'', VDict []),
     (''inbound_message_id'', VStr ''in_1'')]"

definition sample_job :: "string \<Rightarrow> int \<Rightarrow> job" where
  "sample_job ext t = \<lparr>tenant_id = ''t1'', thread_id = ''th'', channel = ''telegram'', external_update_id = ext,
     message_payload = sample_payload, jstatus = Pending, enqueued_at = t, started_at = None,
     finished_at = None, worker_id = None, attempt = 0, lease_expires_at = None, last_error = None\<rparr>"

definition held_job :: "string \<Rightarrow> int \<Rightarrow> string \<Rightarrow> int \<Rightarrow> job" where
  "held_job ext t w now = claimed_job w now LEASE_DURATION_SEC (sample_job ext t)"

lemma sample_enqueue:
  "k \<notin> set (dkeys q) \<Longrightarrow> (''telegram'', ext) \<notin> dedup_key ` set (dvals q) \<Longrightarrow>
     enqueue_message q k ''t1'' ''th'' ''telegram'' ext sample_payload t = Inr (q @ [(k, sample_job ext t)])"
proof -
  assume k: "k \<notin> set (dkeys q)" and e: "(''telegram'', ext) \<notin> dedup_key ` set (dvals q)"
  have "find (\<lambda>(k, j). channel j = ''telegram'' \<and> external_update_id j = ext) q = None"
    using e by (force simp: find_None_iff dedup_key_def)
  then show ?thesis using k dict_append_new [OF k]
    by (simp add: enqueue_message_def sample_job_def)
qed

lemma two_jobs_reachable:
  "reach (\<lambda>q. q = []) (queue_step in_order)
     [(''a'', held_job ''u1'' 10 ''w1'' 30), (''b'', sample_job ''u2'' 20)]"
proof -
  let ?R = "reach (\<lambda>q. q = []) (queue_step in_order)"
  have "?R []" by (rule reach_init) simp
  then have "?R ([] @ [(''a'', sample_job ''u1'' 10)])"
    by (rule reach_step) (rule step_enqueue [OF _ sample_enqueue], simp_all add: in_order_def)
  then have "?R [(''a'', held_job ''u1'' 10 ''w1'' 30)]"
    by (rule reach_step, intro step_claim [of _ "''w1''" 30 LEASE_DURATION_SEC])
      (simp add: claim_next_job_def candidates_def available_def sample_job_def blocks_def held_job_def Let_def)
  then have "?R ([(''a'', held_job ''u1'' 10 ''w1'' 30)] @ [(''b'', sample_job ''u2'' 20)])"
    by (rule reach_step) (rule step_enqueue [OF _ sample_enqueue],
      simp_all add: in_order_def held_job_def claimed_job_def sample_job_def dedup_key_def)
  then show ?thesis by simp
qed

section \<open>Properties\<close>

text \<open>
  C19: messages of one thread are handled one at a time and in order: when producers insert
  the messages of a thread in order, then in every reachable state a job that is being
  processed is the oldest unfinished job of its thread and the only one being processed,
  whatever the clocks, crashes, expired leases and retries.
\<close>

theorem thread_fifo:
  assumes "reach (\<lambda>q. q = []) (queue_step in_order) q"
    and "dget q k = Some a" and "jstatus a = Processing"
    and "dget q l = Some b" and "l \<noteq> k" and "thread_id b = thread_id a" and "live b"
  shows "jstatus b = Pending \<and> enqueued_at a < enqueued_at b"
proof -
  have ord: "thread_ordered q" using assms(1) by (rule fifo.reach_inv)
  have lt: "enqueued_at a < enqueued_at b"
    using thread_orderedD [OF ord assms(2,4)] assms(3,5-7) by simp
  with thread_orderedD [OF ord assms(4,2,5,6)] assms(3,7) show ?thesis by (auto simp: live_def)
qed

theorem thread_fifo_witness:
  "jstatus (sample_job ''u2'' 20) = Pending \<and>
   enqueued_at (held_job ''u1'' 10 ''w1'' 30) < enqueued_at (sample_job ''u2'' 20)"
  by (rule thread_fifo [OF two_jobs_reachable, of "''a''" _ "''b''"])
    (simp_all add: held_job_def claimed_job_def sample_job_def live_def)

text \<open>
  an idle answer means there is nothing to do: a worker gets no job exactly if every
  thread that still has an unfinished job is being served under a running lease.
\<close>

theorem claim_none_iff:
  assumes "jobs_ok q"
  shows "claim_next_job q worker now ls = (q, None) \<longleftrightarrow>
    (\<forall>k j. dget q k = Some j \<and> live j \<longrightarrow>
       (\<exists>k2 j2. dget q k2 = Some j2 \<and> thread_id j2 = thread_id j \<and> jstatus j2 = Processing \<and> lease_active now j2))"
proof -
  have d: "dict_ok q" using assms by (simp add: jobs_ok_def)
  have mem: "(k, j) \<in> set q \<longleftrightarrow> dget q k = Some j" for k j using d by (auto simp: mem_dget dest: dget_Some_mem)
  have none: "claim_next_job q worker now ls = (q, None) \<longleftrightarrow> candidates q now = []"
  proof
    assume "claim_next_job q worker now ls = (q, None)"
    then show "candidates q now = []" by (cases rule: claim_next_job_cases) auto
  qed (simp add: claim_next_job_def)
  have act: "available now j \<or> lease_active now j \<and> jstatus j = Processing" if "dget q k = Some j" "live j" for k j
    using live_not_active [OF _ that(2), of now] that(1) assms by (force simp: jobs_ok_def dest: dget_Some_mem)
  have excl: "\<not> (available now j \<and> lease_active now j \<and> jstatus j = Processing)" for j
    by (auto simp: available_def lease_active_def lease_expired_def split: option.splits)
  show ?thesis unfolding none
  proof
    assume no: "candidates q now = []"
    show "\<forall>k j. dget q k = Some j \<and> live j \<longrightarrow> (\<exists>k2 j2. dget q k2 = Some j2 \<and> thread_id j2 = thread_id j \<and>
        jstatus j2 = Processing \<and> lease_active now j2)"
    proof (intro allI impI)
      fix k j assume j: "dget q k = Some j \<and> live j"
      have "(k, j) \<notin> set (candidates q now)" using no by simp
      with j act [of k j] show "\<exists>k2 j2. dget q k2 = Some j2 \<and> thread_id j2 = thread_id j \<and>
          jstatus j2 = Processing \<and> lease_active now j2"
        unfolding candidates_mem mem by blast
    qed
  next
    assume all: "\<forall>k j. dget q k = Some j \<and> live j \<longrightarrow> (\<exists>k2 j2. dget q k2 = Some j2 \<and> thread_id j2 = thread_id j \<and>
        jstatus j2 = Processing \<and> lease_active now j2)"
    have "(k, j) \<notin> set (candidates q now)" for k j
    proof
      assume c: "(k, j) \<in> set (candidates q now)"
      then have j: "dget q k = Some j" "available now j" using candidate_row [OF d] by auto
      with all available_live obtain k2 j2 where a: "dget q k2 = Some j2" "thread_id j2 = thread_id j"
        "jstatus j2 = Processing" "lease_active now j2" by metis
      with c have "k2 = k" unfolding candidates_mem mem by blast
      with a j excl show False by auto
    qed
    then show "candidates q now = []" by (metis list.set_intros(1) neq_Nil_conv surj_pair)
  qed
qed

theorem claim_none_iff_witness:
  "claim_next_job [(''a'', sample_job ''u1'' 10)] ''w1'' 30 300 \<noteq> ([(''a'', sample_job ''u1'' 10)], None)"
proof
  assume "claim_next_job [(''a'', sample_job ''u1'' 10)] ''w1'' 30 300 = ([(''a'', sample_job ''u1'' 10)], None)"
  moreover have "jobs_ok [(''a'', sample_job ''u1'' 10)]"
    by (simp add: jobs_ok_def dict_ok_def row_ok_def timestamps_ok_def sample_job_def)
  ultimately have "dget [(''a'', sample_job ''u1'' 10)] ''a'' = Some (sample_job ''u1'' 10) \<and> live (sample_job ''u1'' 10) \<longrightarrow>
      (\<exists>k2 j2. dget [(''a'', sample_job ''u1'' 10)] k2 = Some j2 \<and> thread_id j2 = thread_id (sample_job ''u1'' 10) \<and>
         jstatus j2 = Processing \<and> lease_active 30 j2)"
    using claim_none_iff by blast
  then show False by (auto simp: live_def sample_job_def split: if_splits)
qed


lemma sample_failover:
  "claim_next_job [(''a'', held_job ''u1'' 10 ''w1'' 30)] ''w2'' 400000000 300 =
     ([(''a'', claimed_job ''w2'' 400000000 300 (held_job ''u1'' 10 ''w1'' 30))],
      Some (''a'', claimed_job ''w2'' 400000000 300 (held_job ''u1'' 10 ''w1'' 30)))"
  by (simp add: claim_next_job_def candidates_def available_def blocks_def lease_expired_def held_job_def
      claimed_job_def sample_job_def LEASE_DURATION_SEC_def SEC_def Let_def lease_active_def)

lemma sample_held_ok: "jobs_ok [(''a'', held_job ''u1'' 10 ''w1'' 30)]"
  by (simp add: jobs_ok_def dict_ok_def row_ok_def timestamps_ok_def held_job_def claimed_job_def sample_job_def)


text \<open>
  nothing the queue does loses or rewrites a message: along any run the row of a job stays
  in the table with its tenant, thread, deduplication key, payload and arrival time, its
  attempt count never falls, and once it is done or a dead letter it never changes.
\<close>

theorem job_rows_evolve:
  assumes "jobs_ok q" and "dget q k = Some j" and "(queue_step P)\<^sup>*\<^sup>* q q'"
  shows "\<exists>j'. dget q' k = Some j' \<and> same_identity j j' \<and> attempt j \<le> attempt j' \<and>
    (jstatus j \<in> {Done, Failed, DeadLetter} \<longrightarrow> j' = j)"
proof -
  have "evolved k j q" using assms(1,2) by (intro evolved_refl) (simp_all add: jobs_ok_def)
  from ev.run_inv [OF assms(3) this] show ?thesis by (simp add: evolved_def final_def)
qed

theorem job_rows_evolve_witness:
  "\<exists>j'. dget [(''a'', claimed_job ''w2'' 400000000 300 (held_job ''u1'' 10 ''w1'' 30))] ''a'' = Some j' \<and>
     same_identity (held_job ''u1'' 10 ''w1'' 30) j' \<and> attempt (held_job ''u1'' 10 ''w1'' 30) \<le> attempt j'"
proof -
  have "(queue_step anytime)\<^sup>*\<^sup>* [(''a'', held_job ''u1'' 10 ''w1'' 30)]
      [(''a'', claimed_job ''w2'' 400000000 300 (held_job ''u1'' 10 ''w1'' 30))]"
    using step_claim [OF sample_failover] by blast
  from job_rows_evolve [OF sample_held_ok _ this, of "''a''"] show ?thesis by auto
qed

text \<open>
  the constraints of the table hold in every reachable state: one row per job id and per
  \<open>(channel, external_update_id)\<close>, timestamps consistent with the status, and a job being
  processed always has a worker, a lease and a positive attempt.
\<close>

theorem queue_constraints:
  assumes "reach (\<lambda>q. q = []) (queue_step P) q"
  shows "dict_ok q \<and> distinct (map dedup_key (dvals q)) \<and>
    (\<forall>k j. dget q k = Some j \<longrightarrow> timestamps_ok j \<and>
       (jstatus j = Processing \<longrightarrow> worker_id j \<noteq> None \<and> lease_expires_at j \<noteq> None \<and> 1 \<le> attempt j))"
proof -
  have ok: "jobs_ok q" using assms by (rule mq.reach_inv)
  have "row_ok j" if "dget q k = Some j" for k j
    using ok that by (force simp: jobs_ok_def dest: dget_Some_mem)
  then have "timestamps_ok j \<and>
      (jstatus j = Processing \<longrightarrow> worker_id j \<noteq> None \<and> lease_expires_at j \<noteq> None \<and> 1 \<le> attempt j)"
    if "dget q k = Some j" for k j
    using that by (fastforce simp: row_ok_def timestamps_ok_def)
  with ok show ?thesis by (simp add: jobs_ok_def)
qed

theorem queue_constraints_witness:
  "dict_ok [(''a'', held_job ''u1'' 10 ''w1'' 30), (''b'', sample_job ''u2'' 20)]"
  by (rule conjunct1 [OF queue_constraints [OF two_jobs_reachable]])

text \<open>
  a redelivered message is recognised for good: enqueueing is refused as a duplicate
  exactly if a row has the same channel and update id, whatever state that row is in; a new
  message otherwise gets a fresh pending row at the end and no other row changes.
\<close>

theorem enqueue_dedup:
  "case enqueue_message q new_id tenant thread chan ext payload now of
     Inl (DuplicateMessageJob k j) \<Rightarrow> (k, j) \<in> set q \<and> dedup_key j = (chan, ext)
   | Inl (IntegrityError k) \<Rightarrow> k = new_id \<and> new_id \<in> set (dkeys q) \<and> (chan, ext) \<notin> dedup_key ` set (dvals q)
   | Inr q' \<Rightarrow> (chan, ext) \<notin> dedup_key ` set (dvals q) \<and> (\<exists>j. q' = q @ [(new_id, j)] \<and> new_job j \<and>
        dedup_key j = (chan, ext) \<and> thread_id j = thread \<and> enqueued_at j = now)"
proof (cases "enqueue_message q new_id tenant thread chan ext payload now")
  case (Inr q')
  then obtain j where "q' = q @ [(new_id, j)]" "new_job j" "thread_id j = thread" "enqueued_at j = now"
    "dedup_key j = (chan, ext)" "(chan, ext) \<notin> dedup_key ` set (dvals q)" by (rule enqueue_cases)
  with Inr show ?thesis by simp
next
  case (Inl e)
  show ?thesis
  proof (cases "find (\<lambda>(k, j). channel j = chan \<and> external_update_id j = ext) q")
    case None
    with Inl have "e = IntegrityError new_id" "new_id \<in> set (dkeys q)"
      by (auto simp: enqueue_message_def split: if_splits)
    moreover have "(chan, ext) \<notin> dedup_key ` set (dvals q)"
      using None by (force simp: find_None_iff dedup_key_def)
    ultimately show ?thesis using Inl by simp
  next
    case (Some kj)
    then obtain i where "i < length q" "kj = q ! i" "case kj of (k, j) \<Rightarrow> channel j = chan \<and> external_update_id j = ext"
      by (auto simp: find_Some_iff)
    then have "kj \<in> set q" "dedup_key (snd kj) = (chan, ext)" by (auto simp: dedup_key_def split: prod.splits)
    moreover have "e = DuplicateMessageJob (fst kj) (snd kj)"
      using Inl Some by (simp add: enqueue_message_def split: prod.splits)
    ultimately show ?thesis using Inl by simp
  qed
qed

text \<open>
  while a job's lease runs, no other claim takes the job: any sequence of claims by any
  workers before the lease ends leaves the job with the worker and lease it had.
\<close>

theorem job_lease_exclusive:
  assumes "jobs_ok q" and "claim_list ls q w now = (q1, [k])"
    and "\<forall>(v, t)\<in>set claims. t \<le> now + int ls * SEC"
    and "lease_table.claims (claim_list ls) q1 claims = (q2, taken)"
  shows "k \<notin> set taken \<and> job_holder q2 k = Some (w, now + int ls * SEC)"
  by (rule lq.exclusive [OF assms(1,2) _ assms(3,4)]) simp

theorem job_lease_exclusive_witness:
  "''a'' \<notin> set [] \<and> job_holder [(''a'', held_job ''u1'' 10 ''w1'' 30)] ''a'' = Some (''w1'', 30 + int 300 * SEC)"
proof (rule job_lease_exclusive [where claims = "[(''w2'', 40)]"])
  show "jobs_ok [(''a'', sample_job ''u1'' 10)]"
    by (simp add: jobs_ok_def dict_ok_def row_ok_def timestamps_ok_def sample_job_def)
  show "claim_list 300 [(''a'', sample_job ''u1'' 10)] ''w1'' 30 = ([(''a'', held_job ''u1'' 10 ''w1'' 30)], [''a''])"
    by (simp add: claim_list_def claim_next_job_def candidates_def available_def blocks_def held_job_def
        sample_job_def LEASE_DURATION_SEC_def Let_def)
  have "claim_list 300 [(''a'', held_job ''u1'' 10 ''w1'' 30)] ''w2'' 40 = ([(''a'', held_job ''u1'' 10 ''w1'' 30)], [])"
    by (simp add: claim_list_def claim_next_job_def candidates_def available_def lease_expired_def held_job_def
        claimed_job_def sample_job_def LEASE_DURATION_SEC_def SEC_def)
  then show "lease_table.claims (claim_list 300) [(''a'', held_job ''u1'' 10 ''w1'' 30)] [(''w2'', 40)] =
      ([(''a'', held_job ''u1'' 10 ''w1'' 30)], [])" by (simp add: lq.claims.simps)
qed (simp add: SEC_def)

text \<open>
  a worker's tick is nothing but a run of the queue's operations: if whatever else happens
  to the table is such a run, then so is the whole tick, so every invariant of the queue holds
  afterwards; and it handles at most its budget of jobs.
\<close>

theorem process_pending_refines:
  assumes "\<forall>i q. (queue_step P)\<^sup>*\<^sup>* q (meanwhile env i q)"
    and "process_pending env worker budget 0 q = (q', n)"
  shows "(queue_step P)\<^sup>*\<^sup>* q q' \<and> n \<le> budget"
  using process_pending_run [OF assms] by simp

definition sample_tick :: tick_env where
  "sample_tick = \<lparr>tick_now = (\<lambda>i. 30 + int i), meanwhile = (\<lambda>i q. q), tenant_active = (\<lambda>t. True),
     turn_raises = (\<lambda>i. False), status_after = (\<lambda>i m. Some ''processed''), done_fault = (\<lambda>i. False),
     failed_fault = (\<lambda>i. False), error_text = (\<lambda>i. ''boom'')\<rparr>"

lemma sample_tick_run:
  "process_pending sample_tick ''w1'' 5 0 [(''a'', sample_job ''u1'' 10)] =
     ([(''a'', (held_job ''u1'' 10 ''w1'' 30)\<lparr>jstatus := Done, finished_at := Some 30, lease_expires_at := None\<rparr>)], 1)"
  by code_simp

theorem process_pending_refines_witness:
  "(queue_step anytime)\<^sup>*\<^sup>* [(''a'', sample_job ''u1'' 10)]
     [(''a'', (held_job ''u1'' 10 ''w1'' 30)\<lparr>jstatus := Done, finished_at := Some 30, lease_expires_at := None\<rparr>)]"
  by (rule conjunct1 [OF process_pending_refines [OF _ sample_tick_run]]) (simp add: sample_tick_def)

text \<open>
  a silent crash is not success: if the turn raised, or came back without leaving the
  inbound row processed, then a worker that still holds the job puts it back for a retry, or
  makes it a dead letter once the attempts are used up; it is never marked done.
\<close>

theorem crashed_turn_not_done:
  assumes "dget q k = Some j'" and "holds_token worker (attempt j) j'"
    and "\<not> dispatch env i j" and "\<not> failed_fault env i"
  shows "\<exists>r. dget (settle_job env worker i (k, j) q) k = Some r \<and> attempt r = attempt j \<and>
    last_error r = Some (truncate_error (error_text env i)) \<and>
    (if attempt j < MAX_ATTEMPTS then jstatus r = Pending \<and> worker_id r = None
     else jstatus r = DeadLetter \<and> finished_at r = Some (tick_now env i))"
  using assms by (auto simp: settle_job_def mark_failed_def update_held_def holds_token_def)

theorem crashed_turn_not_done_witness:
  "\<exists>r. dget (settle_job (sample_tick\<lparr>status_after := (\<lambda>i m. Some ''processing_started'')\<rparr>) ''w1'' 0
       (''a'', held_job ''u1'' 10 ''w1'' 30) [(''a'', held_job ''u1'' 10 ''w1'' 30)]) ''a'' = Some r \<and>
     jstatus r = Pending"
proof -
  have "dget [(''a'', held_job ''u1'' 10 ''w1'' 30)] ''a'' = Some (held_job ''u1'' 10 ''w1'' 30)" by simp
  moreover have "holds_token ''w1'' (attempt (held_job ''u1'' 10 ''w1'' 30)) (held_job ''u1'' 10 ''w1'' 30)"
    by (simp add: holds_token_def held_job_def claimed_job_def)
  moreover have "\<not> dispatch (sample_tick\<lparr>status_after := (\<lambda>i m. Some ''processing_started'')\<rparr>) 0
      (held_job ''u1'' 10 ''w1'' 30)" by code_simp
  moreover have "\<not> failed_fault (sample_tick\<lparr>status_after := (\<lambda>i m. Some ''processing_started'')\<rparr>) 0"
    by (simp add: sample_tick_def)
  moreover have "attempt (held_job ''u1'' 10 ''w1'' 30) < MAX_ATTEMPTS"
    by (simp add: held_job_def claimed_job_def sample_job_def MAX_ATTEMPTS_def)
  ultimately show ?thesis using crashed_turn_not_done by fastforce
qed

section \<open>Limits of the guarantees\<close>

text \<open>
  the order of arrival is needed for one worker per thread: if a message with an earlier
  arrival time is inserted after a later one was claimed, then an expired lease, a claim and a
  late heartbeat, which only checks the fencing token, lead to two jobs of one thread that
  are processed under running leases at the same time.
\<close>

theorem out_of_order_double_processing:
  "\<exists>q k a l b. reach (\<lambda>q. q = []) (queue_step anytime) q \<and> k \<noteq> l \<and>
     dget q k = Some a \<and> dget q l = Some b \<and> thread_id a = thread_id b \<and>
     jstatus a = Processing \<and> jstatus b = Processing \<and>
     lease_active 400000000 a \<and> lease_active 400000000 b"
proof -
  let ?R = "reach (\<lambda>q. q = []) (queue_step anytime)"
  let ?y = "held_job ''u2'' 20 ''w1'' 30" and ?x = "sample_job ''u1'' 10" and ?t = "400000000 :: int"
  let ?x' = "claimed_job ''w2'' ?t LEASE_DURATION_SEC ?x"
  let ?y' = "?y\<lparr>lease_expires_at := Some (?t + int LEASE_DURATION_SEC * SEC)\<rparr>"
  have 0: "?R []" by (rule reach_init) simp
  have 1: "?R ([] @ [(''y'', sample_job ''u2'' 20)])"
    using 0 by (rule reach_step) (rule step_enqueue [OF _ sample_enqueue], simp_all add: anytime_def)
  have c: "claim_next_job [(''y'', sample_job ''u2'' 20)] ''w1'' 30 LEASE_DURATION_SEC = ([(''y'', ?y)], Some (''y'', ?y))"
    by (simp add: claim_next_job_def candidates_def available_def sample_job_def blocks_def held_job_def Let_def)
  have 2: "?R [(''y'', ?y)]" using 1 by (rule reach_step) (use c in \<open>auto intro: step_claim\<close>)
  have 3: "?R ([(''y'', ?y)] @ [(''x'', ?x)])"
    using 2 by (rule reach_step) (rule step_enqueue [OF _ sample_enqueue],
      simp_all add: anytime_def held_job_def claimed_job_def sample_job_def dedup_key_def)
  have "claim_next_job [(''y'', ?y), (''x'', ?x)] ''w2'' ?t LEASE_DURATION_SEC =
      ([(''y'', ?y), (''x'', ?x')], Some (''x'', ?x'))"
    by code_simp
  from step_claim [OF this, of anytime] have 4: "?R [(''y'', ?y), (''x'', ?x')]" using reach_step [OF 3] by simp
  have "extend_lease [(''y'', ?y), (''x'', ?x')] ''y'' ''w1'' 1 ?t LEASE_DURATION_SEC =
      ([(''y'', ?y'), (''x'', ?x')], True)" by code_simp
  from step_extend [OF this, of anytime] have 5: "?R [(''y'', ?y'), (''x'', ?x')]" using reach_step [OF 4] by simp
  have act: "lease_active ?t ?x'" "lease_active ?t ?y'"
    by (simp_all add: lease_active_def claimed_job_def LEASE_DURATION_SEC_def SEC_def)
  show ?thesis
    by (intro exI [of _ "[(''y'', ?y'), (''x'', ?x')]"] exI [of _ "''x''"] exI [of _ ?x'] exI [of _ "''y''"]
        exI [of _ ?y'] conjI act 5) (simp_all add: held_job_def claimed_job_def sample_job_def)
qed

lemma claim_expired_single:
  assumes "jstatus j = Processing" and "lease_expires_at j = Some e" and "e < now"
  shows "claim_next_job [(k, j)] w now ls = ([(k, claimed_job w now ls j)], Some (k, claimed_job w now ls j))"
  using assms by (simp add: claim_next_job_def candidates_def available_def lease_expired_def blocks_def Let_def)

text \<open>
  the bound on attempts covers reported failures only: a job whose workers die without
  reporting is handed out again after every expired lease, so attempts have no bound, and the
  job never becomes a dead letter.
\<close>

theorem attempts_unbounded:
  "\<exists>q j. reach (\<lambda>q. q = []) (queue_step in_order) q \<and> dget q ''a'' = Some j \<and>
     jstatus j = Processing \<and> attempt j = int (Suc n)"
proof -
  have "\<exists>j e. reach (\<lambda>q. q = []) (queue_step in_order) [(''a'', j)] \<and> jstatus j = Processing \<and>
      lease_expires_at j = Some e \<and> attempt j = int (Suc n)"
  proof (induction n)
    case 0
    let ?j = "sample_job ''u1'' 10"
    have "reach (\<lambda>q. q = []) (queue_step in_order) []" by (rule reach_init) simp
    then have "reach (\<lambda>q. q = []) (queue_step in_order) ([] @ [(''a'', ?j)])"
      by (rule reach_step) (rule step_enqueue [OF _ sample_enqueue], simp_all add: in_order_def)
    then have "reach (\<lambda>q. q = []) (queue_step in_order) [(''a'', claimed_job ''w'' 30 300 ?j)]"
      by (rule reach_step, intro step_claim [of _ "''w''" 30 300])
        (simp add: claim_next_job_def candidates_def available_def sample_job_def blocks_def Let_def)
    then show ?case by (intro exI) (auto simp: claimed_job_def sample_job_def)
  next
    case (Suc n)
    then obtain j e where r: "reach (\<lambda>q. q = []) (queue_step in_order) [(''a'', j)]"
      and j: "jstatus j = Processing" "lease_expires_at j = Some e" "attempt j = int (Suc n)" by blast
    from claim_expired_single [OF j(1,2), of "e + 1"]
    have "queue_step in_order [(''a'', j)] [(''a'', claimed_job ''w'' (e + 1) 300 j)]"
      by (intro step_claim) simp
    with r have "reach (\<lambda>q. q = []) (queue_step in_order) [(''a'', claimed_job ''w'' (e + 1) 300 j)]"
      by (rule reach_step)
    then show ?case using j(3) by (intro exI) (auto simp: claimed_job_def)
  qed
  then show ?thesis by fastforce
qed

section \<open>Thread keys\<close>

text \<open>
  thread keys do not mix chats: if the tenant and the channel contain no colon, then equal
  keys come from the same tenant, channel and chat.
\<close>

theorem derive_thread_key_injective:
  assumes "CHR '':'' \<notin> set tenant" and "CHR '':'' \<notin> set chan"
    and "CHR '':'' \<notin> set tenant'" and "CHR '':'' \<notin> set chan'"
  shows "derive_thread_key tenant chan chat = derive_thread_key tenant' chan' chat' \<longleftrightarrow>
    tenant = tenant' \<and> chan = chan' \<and> chat = chat'"
  by (simp add: derive_thread_key_def split_at_colon [OF assms(1,3)] split_at_colon [OF assms(2,4)])

theorem derive_thread_key_injective_witness:
  "derive_thread_key ''tenant_tg_1'' ''telegram'' ''42'' \<noteq> derive_thread_key ''tenant_tg_1'' ''max'' ''42''"
  by (subst derive_thread_key_injective) simp_all

text \<open>That no component contains \<open>::\<close>, which the docstring asks for, is not enough.\<close>

lemma derive_thread_key_collision:
  "derive_thread_key ''a:'' ''b'' ''c'' = derive_thread_key ''a'' '':b'' ''c''"
  by (simp add: derive_thread_key_def)

end
