(* ===== verification/LlmGuard.thy ===== *)
theory LlmGuard
  imports Prelude
begin

text \<open>
  \<open>services/llm_bulkhead.py\<close> and its use in \<open>invoke_with_per_call_timeout\<close> of
  \<open>services/llm.py\<close>: a bound on the worker threads that run model calls, hung ones included, and
  a circuit breaker per provider. Every operation that takes a lock is one function; the calls
  in progress and the live threads are explicit, so that calls interleave at these points in any
  order. Clock readings are integers. Identities of calls and of probe tokens come from one supply.
\<close>

section \<open>Bulkhead\<close>

definition try_acquire :: "int \<Rightarrow> int \<Rightarrow> int \<times> bool" where
  "try_acquire limit n = (if n \<ge> limit then (n, False) else (n + 1, True))"

definition release :: "int \<Rightarrow> int" where
  "release n = (if n > 0 then n - 1 else n)"

section \<open>Circuit breaker\<close>

record attempt_token =
  is_probe :: bool
  token :: "nat option"
  att_generation :: nat

record breaker =
  consecutive_timeouts :: int
  opened_at :: "int option"
  probe_token :: "nat option"
  generation :: nat

definition new_breaker :: breaker where
  "new_breaker = \<lparr>consecutive_timeouts = 0, opened_at = None, probe_token = None, generation = 0\<rparr>"

text \<open>\<open>fresh\<close> stands for the identity of the token object that is made for a probe.\<close>

definition allow :: "int \<Rightarrow> int \<Rightarrow> nat \<Rightarrow> breaker \<Rightarrow> breaker \<times> attempt_token option" where
  "allow now cooldown fresh b =
     (case opened_at b of
        None \<Rightarrow> (b, Some \<lparr>is_probe = False, token = None, att_generation = generation b\<rparr>)
      | Some t \<Rightarrow>
          if now - t < cooldown then (b, None)
          else if probe_token b \<noteq> None then (b, None)
          else (b\<lparr>probe_token := Some fresh\<rparr>,
                Some \<lparr>is_probe = True, token = Some fresh, att_generation = generation b\<rparr>))"

definition owns_probe :: "attempt_token \<Rightarrow> breaker \<Rightarrow> bool" where
  "owns_probe a b \<longleftrightarrow> is_probe a \<and> token a \<noteq> None \<and> token a = probe_token b"

definition is_current_closed_gen :: "attempt_token \<Rightarrow> breaker \<Rightarrow> bool" where
  "is_current_closed_gen a b \<longleftrightarrow>
     \<not> is_probe a \<and> opened_at b = None \<and> att_generation a = generation b"

definition record_success :: "attempt_token \<Rightarrow> breaker \<Rightarrow> breaker" where
  "record_success a b =
     (if owns_probe a b
      then b\<lparr>opened_at := None, probe_token := None, consecutive_timeouts := 0,
             generation := generation b + 1\<rparr>
      else if is_current_closed_gen a b then b\<lparr>consecutive_timeouts := 0\<rparr>
      else b)"

definition record_timeout :: "int \<Rightarrow> int \<Rightarrow> attempt_token \<Rightarrow> breaker \<Rightarrow> breaker" where
  "record_timeout now open_after a b =
     (if owns_probe a b
      then b\<lparr>opened_at := Some now, probe_token := None,
             consecutive_timeouts := consecutive_timeouts b + 1, generation := generation b + 1\<rparr>
      else if is_current_closed_gen a b
      then (let b1 = b\<lparr>consecutive_timeouts := consecutive_timeouts b + 1\<rparr> in
            if consecutive_timeouts b1 \<ge> open_after
            then b1\<lparr>opened_at := Some now, generation := generation b1 + 1\<rparr> else b1)
      else b)"

definition record_other_error :: "attempt_token \<Rightarrow> breaker \<Rightarrow> breaker" where
  "record_other_error a b = (if owns_probe a b then b\<lparr>probe_token := None\<rparr> else b)"

definition is_open :: "breaker \<Rightarrow> bool" where
  "is_open b \<longleftrightarrow> opened_at b \<noteq> None"

section \<open>Guarded calls\<close>

record guard_config =
  enabled :: bool
  max_concurrent :: int
  breaker_open_after :: int
  breaker_cooldown :: int

datatype call_outcome = Success | Timeout | OtherError

text \<open>What the frame of a call still has to do to the guard before it returns or raises.\<close>

datatype guard_op = ReleasePermit | Record call_outcome

datatype phase = Admitted | Acquired | Waiting | Settling "guard_op list"

record frame =
  cfg :: guard_config
  fr_breaker :: "(string \<times> attempt_token) option"
  fr_phase :: phase

text \<open>
  The process: permits in use, breakers by provider, the calls in progress, and the live worker
  threads with whether their end gives a permit back (\<open>add_done_callback\<close>).
\<close>

record guard =
  in_flight :: int
  breakers :: "(string, breaker) dict"
  frames :: "(nat, frame) dict"
  threads :: "(nat, bool) dict"
  next_id :: nat

definition new_guard :: guard where
  "new_guard = \<lparr>in_flight = 0, breakers = [], frames = [], threads = [], next_id = 0\<rparr>"

definition get_breaker :: "guard \<Rightarrow> string \<Rightarrow> breaker" where
  "get_breaker g p = (case dget (breakers g) p of None \<Rightarrow> new_breaker | Some b \<Rightarrow> b)"

definition drop_key :: "'k \<Rightarrow> ('k, 'v) dict \<Rightarrow> ('k, 'v) dict" where
  "drop_key k d = filter (\<lambda>e. fst e \<noteq> k) d"

definition add_frame :: "frame \<Rightarrow> guard \<Rightarrow> guard" where
  "add_frame f g = g\<lparr>frames := dput (frames g) (next_id g) f, next_id := Suc (next_id g)\<rparr>"

definition set_phase :: "nat \<Rightarrow> frame \<Rightarrow> phase \<Rightarrow> guard \<Rightarrow> guard" where
  "set_phase i f ph g = g\<lparr>frames := dput (frames g) i (f\<lparr>fr_phase := ph\<rparr>)\<rparr>"

text \<open>Entry: the configuration is read once; \<open>None\<close> as a result stands for \<open>LLMCircuitOpen\<close>.\<close>

definition begin_call ::
    "guard_config \<Rightarrow> string option \<Rightarrow> bool \<Rightarrow> int \<Rightarrow> guard \<Rightarrow> guard \<times> nat option" where
  "begin_call c provider skip_breaker now g =
     (if \<not> enabled c
      then (add_frame \<lparr>cfg = c, fr_breaker = None, fr_phase = Acquired\<rparr> g, Some (next_id g))
      else case provider of
        Some p \<Rightarrow>
          if p \<noteq> [] \<and> \<not> skip_breaker
          then (let (b, att) = allow now (breaker_cooldown c) (next_id g) (get_breaker g p);
                    g1 = g\<lparr>breakers := dput (breakers g) p b\<rparr>
                in case att of
                     None \<Rightarrow> (g1, None)
                   | Some a \<Rightarrow>
                       (add_frame \<lparr>cfg = c, fr_breaker = Some (p, a), fr_phase = Admitted\<rparr> g1, Some (next_id g)))
          else (add_frame \<lparr>cfg = c, fr_breaker = None, fr_phase = Admitted\<rparr> g, Some (next_id g))
      | None \<Rightarrow> (add_frame \<lparr>cfg = c, fr_breaker = None, fr_phase = Admitted\<rparr> g, Some (next_id g)))"

definition record_ops :: "frame \<Rightarrow> call_outcome \<Rightarrow> guard_op list" where
  "record_ops f out = (if fr_breaker f = None then [] else [Record out])"

text \<open>\<open>LLMBulkheadFull\<close> is raised by a frame that is refused here, once it has settled.\<close>

definition acquire_call :: "nat \<Rightarrow> frame \<Rightarrow> guard \<Rightarrow> guard" where
  "acquire_call i f g =
     (let (n, ok) = try_acquire (max_concurrent (cfg f)) (in_flight g);
          g1 = g\<lparr>in_flight := n\<rparr>
      in if ok then set_phase i f Acquired g1
         else set_phase i f (Settling (record_ops f OtherError)) g1)"

text \<open>Creation of the executor and submission; \<open>started\<close> is false if one of them raises.\<close>

definition submit_call :: "bool \<Rightarrow> nat \<Rightarrow> frame \<Rightarrow> guard \<Rightarrow> guard" where
  "submit_call started i f g =
     (if started
      then (set_phase i f Waiting g)\<lparr>threads := dput (threads g) i (enabled (cfg f))\<rparr>
      else set_phase i f
             (Settling ((if enabled (cfg f) then [ReleasePermit] else []) @ record_ops f OtherError)) g)"

text \<open>
  How waiting for the future ends: the limit on the wall clock is reached, the runnable raised
  a \<open>TimeoutError\<close> of its own (the same class as the one of \<open>future.result\<close>), another
  \<open>Exception\<close>, some other \<open>BaseException\<close>, or it returned.
\<close>

datatype wait_result = WallTimeout | RaisedTimeoutError | RaisedException | RaisedBase | Returned

definition await_call :: "wait_result \<Rightarrow> nat \<Rightarrow> frame \<Rightarrow> guard \<Rightarrow> guard" where
  "await_call r i f g =
     (case r of
        WallTimeout \<Rightarrow> set_phase i f (Settling (record_ops f Timeout)) g
      | RaisedTimeoutError \<Rightarrow> set_phase i f (Settling (record_ops f Timeout)) g
      | RaisedException \<Rightarrow> set_phase i f (Settling (record_ops f OtherError)) g
      | RaisedBase \<Rightarrow> set_phase i f (Settling []) g
      | Returned \<Rightarrow> set_phase i f (Settling (record_ops f Success)) g)"

definition apply_record :: "int \<Rightarrow> frame \<Rightarrow> call_outcome \<Rightarrow> breaker \<Rightarrow> breaker" where
  "apply_record now f out b =
     (case fr_breaker f of
        None \<Rightarrow> b
      | Some (p, a) \<Rightarrow>
          (case out of
             Success \<Rightarrow> record_success a b
           | Timeout \<Rightarrow> record_timeout now (breaker_open_after (cfg f)) a b
           | OtherError \<Rightarrow> record_other_error a b))"

definition do_op :: "int \<Rightarrow> frame \<Rightarrow> guard_op \<Rightarrow> guard \<Rightarrow> guard" where
  "do_op now f op g =
     (case op of
        ReleasePermit \<Rightarrow> g\<lparr>in_flight := release (in_flight g)\<rparr>
      | Record out \<Rightarrow>
          (case fr_breaker f of
             None \<Rightarrow> g
           | Some (p, a) \<Rightarrow> g\<lparr>breakers := dput (breakers g) p (apply_record now f out (get_breaker g p))\<rparr>))"

text \<open>One settling operation; the frame is gone after the last.\<close>

definition settle_call :: "int \<Rightarrow> nat \<Rightarrow> frame \<Rightarrow> guard_op list \<Rightarrow> guard \<Rightarrow> guard" where
  "settle_call now i f ops g =
     (case ops of
        [] \<Rightarrow> g\<lparr>frames := drop_key i (frames g)\<rparr>
      | op # rest \<Rightarrow> set_phase i f (Settling rest) (do_op now f op g))"

definition end_thread :: "nat \<Rightarrow> bool \<Rightarrow> guard \<Rightarrow> guard" where
  "end_thread i permit g =
     g\<lparr>threads := drop_key i (threads g), in_flight := (if permit then release (in_flight g) else in_flight g)\<rparr>"

text \<open>
  Any interleaving of calls. \<open>conf\<close> says which configurations occur and \<open>base\<close> whether a
  \<open>BaseException\<close> that is no \<open>Exception\<close> may come out of the runnable.
\<close>

inductive guard_step :: "(guard_config \<Rightarrow> bool) \<Rightarrow> bool \<Rightarrow> guard \<Rightarrow> guard \<Rightarrow> bool"
  for conf :: "guard_config \<Rightarrow> bool" and base :: bool where
  gs_begin: "conf c \<Longrightarrow> begin_call c p skip now g = (g', r) \<Longrightarrow> guard_step conf base g g'"
| gs_acquire: "dget (frames g) i = Some f \<Longrightarrow> fr_phase f = Admitted \<Longrightarrow> guard_step conf base g (acquire_call i f g)"
| gs_submit: "dget (frames g) i = Some f \<Longrightarrow> fr_phase f = Acquired \<Longrightarrow> guard_step conf base g (submit_call started i f g)"
| gs_await: "dget (frames g) i = Some f \<Longrightarrow> fr_phase f = Waiting \<Longrightarrow> r \<noteq> RaisedBase \<or> base \<Longrightarrow>
     guard_step conf base g (await_call r i f g)"
| gs_settle: "dget (frames g) i = Some f \<Longrightarrow> fr_phase f = Settling ops \<Longrightarrow> guard_step conf base g (settle_call now i f ops g)"
| gs_thread: "dget (threads g) i = Some permit \<Longrightarrow> guard_step conf base g (end_thread i permit g)"

section \<open>Sums over dictionaries\<close>

definition dsum :: "('v \<Rightarrow> int) \<Rightarrow> ('k, 'v) dict \<Rightarrow> int" where
  "dsum w d = sum_list (map (\<lambda>e. w (snd e)) d)"

lemma dsum_Nil [simp]: "dsum w [] = 0"
  by (simp add: dsum_def)

lemma dsum_new [simp]: "dget d k = None \<Longrightarrow> dsum w (dput d k v) = dsum w d + w v"
  by (induction d) (auto simp: dsum_def)

lemma dsum_put: "dict_ok d \<Longrightarrow> dget d k = Some u \<Longrightarrow> dsum w (dput d k v) = dsum w d - w u + w v"
  by (induction d) (auto simp: dsum_def dict_ok_def dest: dget_Some_mem split: if_splits)

lemma dsum_drop: "dict_ok d \<Longrightarrow> dget d k = Some u \<Longrightarrow> dsum w (drop_key k d) = dsum w d - w u"
proof (induction d)
  case (Cons e d)
  show ?case
  proof (cases "fst e = k")
    case True
    with Cons.prems(1) have "\<forall>x\<in>set d. fst x \<noteq> k" by (metis dict_ok_def distinct.simps(2) image_eqI list.simps(9) set_map)
    then have "drop_key k d = d" by (simp add: drop_key_def filter_id_conv)
    with True Cons.prems show ?thesis by (auto simp: dsum_def drop_key_def)
  next
    case False
    with Cons show ?thesis by (auto simp: dsum_def drop_key_def dict_ok_def)
  qed
qed simp

lemma dsum_nonneg: "(\<And>v. 0 \<le> w v) \<Longrightarrow> 0 \<le> dsum w d"
  by (induction d) (auto simp: dsum_def)

lemma dget_drop_key [simp]: "dget (drop_key k d) k' = (if k' = k then None else dget d k')"
  by (induction d) (auto simp: drop_key_def)

lemma dict_ok_drop_key [simp]: "dict_ok d \<Longrightarrow> dict_ok (drop_key k d)"
  by (simp add: dict_ok_def drop_key_def distinct_map_filter)

section \<open>Permits\<close>

text \<open>The permits a frame will give back itself; that of a started thread is the thread's.\<close>

definition frame_permits :: "frame \<Rightarrow> int" where
  "frame_permits f =
     (case fr_phase f of
        Acquired \<Rightarrow> of_bool (enabled (cfg f))
      | Settling ops \<Rightarrow> int (length (filter (\<lambda>x. x = ReleasePermit) ops))
      | _ \<Rightarrow> 0)"

definition permits_inv :: "int \<Rightarrow> guard \<Rightarrow> bool" where
  "permits_inv L g \<longleftrightarrow>
     dict_ok (frames g) \<and> dict_ok (threads g) \<and>
     (\<forall>i. i \<ge> next_id g \<longrightarrow> dget (frames g) i = None \<and> dget (threads g) i = None) \<and>
     (\<forall>i f. dget (frames g) i = Some f \<longrightarrow>
        max_concurrent (cfg f) \<le> L \<and> (fr_phase f = Admitted \<longrightarrow> enabled (cfg f)) \<and>
        (fr_phase f \<in> {Admitted, Acquired} \<longrightarrow> dget (threads g) i = None)) \<and>
     in_flight g = dsum frame_permits (frames g) + dsum of_bool (threads g) \<and> in_flight g \<le> L"

lemma frame_permits_nonneg [simp]: "0 \<le> frame_permits f"
  by (simp add: frame_permits_def split: phase.split)

lemma in_flight_nonneg: "permits_inv L g \<Longrightarrow> 0 \<le> in_flight g"
  using dsum_nonneg [of frame_permits "frames g"] dsum_nonneg [of "of_bool :: bool \<Rightarrow> int" "threads g"]
  by (simp add: permits_inv_def)

lemma record_ops_permits [simp]: "filter (\<lambda>x. x = ReleasePermit) (record_ops f out) = []"
  by (simp add: record_ops_def)

lemma set_phase_simps [simp]:
  "in_flight (set_phase i f ph g) = in_flight g" "threads (set_phase i f ph g) = threads g"
  "frames (set_phase i f ph g) = dput (frames g) i (f\<lparr>fr_phase := ph\<rparr>)"
  "next_id (set_phase i f ph g) = next_id g" "breakers (set_phase i f ph g) = breakers g"
  by (simp_all add: set_phase_def)

lemma do_op_simps [simp]:
  "frames (do_op now f op g) = frames g" "threads (do_op now f op g) = threads g"
  "next_id (do_op now f op g) = next_id g"
  "in_flight (do_op now f op g) = (if op = ReleasePermit then release (in_flight g) else in_flight g)"
  by (auto simp: do_op_def split: guard_op.split option.split)

text \<open>A frame changes its phase, together with the permits in use.\<close>

lemma permits_set_phase:
  assumes "permits_inv L g" and "dget (frames g) i = Some f"
    and "in_flight g' = in_flight g - frame_permits f + frame_permits (f\<lparr>fr_phase := ph\<rparr>)"
    and "frames g' = dput (frames g) i (f\<lparr>fr_phase := ph\<rparr>)" and "threads g' = threads g"
    and "next_id g' = next_id g" and "in_flight g' \<le> L"
    and "ph \<notin> {Admitted} \<and> (ph = Acquired \<longrightarrow> fr_phase f = Admitted)"
  shows "permits_inv L g'"
proof -
  have "i < next_id g" using assms(1,2) by (metis linorder_not_le option.distinct(1) permits_inv_def)
  moreover have "dsum frame_permits (frames g') = dsum frame_permits (frames g) - frame_permits f +
      frame_permits (f\<lparr>fr_phase := ph\<rparr>)"
    unfolding assms(4) using assms(1,2) by (intro dsum_put) (auto simp: permits_inv_def)
  ultimately show ?thesis using assms by (auto simp: permits_inv_def)
qed

lemma release_pos: "0 < n \<Longrightarrow> release n = n - 1"
  by (simp add: release_def)

lemma dsum_member: "dict_ok d \<Longrightarrow> dget d k = Some u \<Longrightarrow> (\<And>v. 0 \<le> w v) \<Longrightarrow> w u \<le> dsum w d"
  using dsum_drop [of d k u w] dsum_nonneg [of w "drop_key k d"] by simp

lemma permits_begin:
  assumes "permits_inv L g" and "max_concurrent c \<le> L" and "begin_call c p skip now g = (g', r)"
  shows "permits_inv L g'"
proof -
  have new: "permits_inv L (add_frame \<lparr>cfg = c, fr_breaker = b, fr_phase = ph\<rparr> (g\<lparr>breakers := bs\<rparr>))"
    if "ph = Acquired \<and> \<not> enabled c \<or> ph = Admitted \<and> enabled c" for b ph bs
    using assms(1,2) that by (auto simp: permits_inv_def add_frame_def frame_permits_def)
  have "permits_inv L (g\<lparr>breakers := bs\<rparr>)" for bs using assms(1) by (simp add: permits_inv_def)
  with assms(3) new [of _ _ "breakers g"] new show ?thesis
    by (auto simp: begin_call_def Let_def split: if_splits option.splits prod.splits)
qed

lemma permits_step:
  assumes "permits_inv L g" and "guard_step (\<lambda>c. max_concurrent c \<le> L) base g g'"
  shows "permits_inv L g'"
  using assms(2)
proof (cases rule: guard_step.cases)
  case (gs_begin c p skip now r)
  with permits_begin [OF assms(1)] show ?thesis by blast
next
  case (gs_acquire i f)
  from assms(1) gs_acquire have "enabled (cfg f)" "max_concurrent (cfg f) \<le> L" by (auto simp: permits_inv_def)
  show ?thesis
  proof (cases "max_concurrent (cfg f) \<le> in_flight g")
    case True
    then show ?thesis using assms(1) gs_acquire
      by (intro permits_set_phase [OF assms(1), where f = f and i = i and ph = "Settling (record_ops f OtherError)"])
        (auto simp: acquire_call_def try_acquire_def frame_permits_def permits_inv_def)
  next
    case False
    then show ?thesis using assms(1) gs_acquire \<open>enabled (cfg f)\<close> \<open>max_concurrent (cfg f) \<le> L\<close>
      by (intro permits_set_phase [OF assms(1), where f = f and i = i and ph = Acquired])
        (auto simp: acquire_call_def try_acquire_def frame_permits_def)
  qed
next
  case (gs_submit i f started)
  show ?thesis
  proof (cases started)
    case True
    let ?g = "(set_phase i f Waiting g)"
    have "i < next_id g" using assms(1) gs_submit(2) by (metis linorder_not_le option.distinct(1) permits_inv_def)
    moreover have "dsum frame_permits (frames ?g) = dsum frame_permits (frames g) - frame_permits f +
        frame_permits (f\<lparr>fr_phase := Waiting\<rparr>)"
      unfolding set_phase_simps using assms(1) gs_submit by (intro dsum_put) (auto simp: permits_inv_def)
    moreover have "dget (threads g) i = None" using assms(1) gs_submit(2,3) by (auto simp: permits_inv_def)
    ultimately show ?thesis using assms(1) gs_submit True
      by (auto simp: permits_inv_def submit_call_def frame_permits_def)
  next
    case False
    then show ?thesis using assms(1) gs_submit
      by (intro permits_set_phase [OF assms(1), where f = f and i = i and
            ph = "Settling ((if enabled (cfg f) then [ReleasePermit] else []) @ record_ops f OtherError)"])
        (auto simp: submit_call_def frame_permits_def permits_inv_def)
  qed
next
  case (gs_await i f r)
  define ops where "ops = (case r of WallTimeout \<Rightarrow> record_ops f Timeout | RaisedTimeoutError \<Rightarrow> record_ops f Timeout
    | RaisedException \<Rightarrow> record_ops f OtherError | RaisedBase \<Rightarrow> [] | Returned \<Rightarrow> record_ops f Success)"
  have "g' = set_phase i f (Settling ops) g" by (simp add: gs_await(1) await_call_def ops_def split: wait_result.split)
  moreover have "filter (\<lambda>x. x = ReleasePermit) ops = []" by (simp add: ops_def split: wait_result.split)
  ultimately show ?thesis using assms(1) gs_await(3)
    by (intro permits_set_phase [OF assms(1) gs_await(2), where ph = "Settling ops"])
      (auto simp: frame_permits_def permits_inv_def)
next
  case (gs_settle i f ops now)
  note ok = assms(1) [unfolded permits_inv_def]
  have w: "frame_permits f \<le> in_flight g"
    using ok dsum_member [OF _ gs_settle(2), of frame_permits] dsum_nonneg [of "of_bool :: bool \<Rightarrow> int" "threads g"] by simp
  show ?thesis
  proof (cases ops)
    case Nil
    then have "frame_permits f = 0" by (simp add: frame_permits_def gs_settle(3))
    then have "dsum frame_permits (drop_key i (frames g)) = dsum frame_permits (frames g)"
      using dsum_drop [OF _ gs_settle(2), of frame_permits] ok by simp
    then show ?thesis using ok Nil by (auto simp: permits_inv_def gs_settle(1) settle_call_def)
  next
    case (Cons op rest)
    have "in_flight g' = in_flight g - frame_permits f + frame_permits (f\<lparr>fr_phase := Settling rest\<rparr>)"
      using w release_pos [of "in_flight g"] by (auto simp: Cons gs_settle(1,3) settle_call_def frame_permits_def)
    moreover have "frame_permits (f\<lparr>fr_phase := Settling rest\<rparr>) \<le> frame_permits f"
      by (simp add: frame_permits_def gs_settle(3) Cons)
    ultimately show ?thesis using ok
      by (intro permits_set_phase [OF assms(1) gs_settle(2), where ph = "Settling rest"])
        (auto simp: Cons gs_settle(1) settle_call_def)
  qed
next
  case (gs_thread i permit)
  note ok = assms(1) [unfolded permits_inv_def]
  have "dsum of_bool (drop_key i (threads g)) = dsum of_bool (threads g) - (of_bool permit :: int)"
    using dsum_drop [OF _ gs_thread(2), of "of_bool :: bool \<Rightarrow> int"] ok by simp
  moreover have "permit \<Longrightarrow> 0 < in_flight g"
    using ok dsum_member [OF _ gs_thread(2), of "of_bool :: bool \<Rightarrow> int"] dsum_nonneg [of frame_permits "frames g"] by simp
  ultimately show ?thesis using ok release_pos [of "in_flight g"]
    by (auto simp: permits_inv_def gs_thread(1) end_thread_def)
qed

interpretation permits: invariant_system "\<lambda>g. g = new_guard \<and> 0 \<le> L" "guard_step (\<lambda>c. max_concurrent c \<le> L) base"
    "permits_inv L" for L base
  by unfold_locales (simp add: permits_inv_def new_guard_def, rule permits_step)

section \<open>The probe slot\<close>

definition pending_record :: "frame \<Rightarrow> bool" where
  "pending_record f \<longleftrightarrow> (case fr_phase f of Settling ops \<Rightarrow> (\<exists>out. Record out \<in> set ops) | _ \<Rightarrow> True)"

text \<open>The call \<open>t\<close> in progress holds the probe of provider \<open>p\<close> and will report its outcome.\<close>

definition holds_probe :: "guard \<Rightarrow> string \<Rightarrow> nat \<Rightarrow> bool" where
  "holds_probe g p t \<longleftrightarrow>
     (\<exists>f a. dget (frames g) t = Some f \<and> fr_breaker f = Some (p, a) \<and> is_probe a \<and> token a = Some t \<and> pending_record f)"

definition tokens_ok :: "nat \<Rightarrow> frame \<Rightarrow> bool" where
  "tokens_ok i f \<longleftrightarrow>
     (case fr_breaker f of None \<Rightarrow> True
      | Some (p, a) \<Rightarrow> (case token a of None \<Rightarrow> \<not> is_probe a | Some t \<Rightarrow> t = i \<and> is_probe a))"

definition probe_ok :: "guard \<Rightarrow> string \<Rightarrow> breaker \<Rightarrow> bool" where
  "probe_ok g p b \<longleftrightarrow>
     (case probe_token b of None \<Rightarrow> True | Some t \<Rightarrow> opened_at b \<noteq> None \<and> holds_probe g p t)"

definition probe_inv :: "guard \<Rightarrow> bool" where
  "probe_inv g \<longleftrightarrow>
     (\<forall>i\<ge>next_id g. dget (frames g) i = None) \<and>
     (\<forall>i f. dget (frames g) i = Some f \<longrightarrow> tokens_ok i f) \<and>
     (\<forall>p b. dget (breakers g) p = Some b \<longrightarrow> probe_ok g p b)"

lemma probe_invI:
  assumes "\<And>i. next_id g \<le> i \<Longrightarrow> dget (frames g) i = None"
    and "\<And>i f. dget (frames g) i = Some f \<Longrightarrow> tokens_ok i f"
    and "\<And>p b. dget (breakers g) p = Some b \<Longrightarrow> probe_ok g p b"
  shows "probe_inv g"
  using assms by (simp add: probe_inv_def)

lemma probe_invD:
  assumes "probe_inv g"
  shows "next_id g \<le> i \<Longrightarrow> dget (frames g) i = None"
    and "dget (frames g) i = Some f \<Longrightarrow> tokens_ok i f"
    and "dget (breakers g) p = Some b \<Longrightarrow> probe_ok g p b"
    and "probe_ok g p (get_breaker g p)"
proof -
  show "next_id g \<le> i \<Longrightarrow> dget (frames g) i = None" and "dget (frames g) i = Some f \<Longrightarrow> tokens_ok i f"
    and b: "\<And>b. dget (breakers g) p = Some b \<Longrightarrow> probe_ok g p b" using assms by (simp_all add: probe_inv_def)
  show "probe_ok g p (get_breaker g p)"
  proof (cases "dget (breakers g) p")
    case None
    then show ?thesis by (simp add: get_breaker_def new_breaker_def probe_ok_def)
  next
    case (Some b)
    with b show ?thesis by (simp add: get_breaker_def)
  qed
qed

lemma frame_id: "probe_inv g \<Longrightarrow> dget (frames g) i = Some f \<Longrightarrow> i < next_id g"
  by (metis linorder_not_le option.distinct(1) probe_invD(1))

lemma probe_ok_mono:
  "probe_ok g p b \<Longrightarrow> (\<And>t. probe_token b = Some t \<Longrightarrow> holds_probe g p t \<Longrightarrow> holds_probe g' p t) \<Longrightarrow> probe_ok g' p b"
  by (auto simp: probe_ok_def split: option.splits)

text \<open>A call changes its phase and still owes a report if it did.\<close>

lemma holds_probe_phase:
  assumes "holds_probe g p t" and "dget (frames g) i = Some f"
    and "frames g' = dput (frames g) i (f\<lparr>fr_phase := ph\<rparr>)"
    and "fr_breaker f \<noteq> None \<Longrightarrow> pending_record f \<Longrightarrow> pending_record (f\<lparr>fr_phase := ph\<rparr>)"
  shows "holds_probe g' p t"
  using assms by (auto simp: holds_probe_def)

lemma probe_set_phase:
  assumes "probe_inv g" and "dget (frames g) i = Some f"
    and "frames g' = dput (frames g) i (f\<lparr>fr_phase := ph\<rparr>)" and "next_id g' = next_id g"
    and "breakers g' = breakers g"
    and "fr_breaker f \<noteq> None \<Longrightarrow> pending_record f \<Longrightarrow> pending_record (f\<lparr>fr_phase := ph\<rparr>)"
  shows "probe_inv g'"
proof (rule probe_invI)
  show "next_id g' \<le> j \<Longrightarrow> dget (frames g') j = None" for j
    using frame_id [OF assms(1,2)] probe_invD(1) [OF assms(1)] by (auto simp: assms(3,4))
  show "dget (frames g') j = Some h \<Longrightarrow> tokens_ok j h" for j h
    using probe_invD(2) [OF assms(1)] assms(2) by (auto simp: assms(3) tokens_ok_def split: if_splits)
  show "dget (breakers g') p = Some b \<Longrightarrow> probe_ok g' p b" for p b
    using probe_invD(3) [OF assms(1)] holds_probe_phase [OF _ assms(2,3,6)]
    by (metis assms(5) probe_ok_mono)
qed

lemma pending_record_ops:
  "fr_breaker f \<noteq> None \<Longrightarrow> pending_record (f\<lparr>fr_phase := Settling (xs @ record_ops f out)\<rparr>)"
  by (auto simp: pending_record_def record_ops_def)

text \<open>A new call with its breaker.\<close>

lemma probe_new_frame:
  assumes "probe_inv g" and "tokens_ok (next_id g) f" and "frames g' = dput (frames g) (next_id g) f"
    and "next_id g' = Suc (next_id g)"
    and "\<And>p b. dget (breakers g') p = Some b \<Longrightarrow> probe_ok g p b \<or> probe_ok g' p b"
  shows "probe_inv g'"
proof (rule probe_invI)
  show "next_id g' \<le> j \<Longrightarrow> dget (frames g') j = None" for j
    using probe_invD(1) [OF assms(1)] by (auto simp: assms(3,4))
  show "dget (frames g') j = Some h \<Longrightarrow> tokens_ok j h" for j h
    using probe_invD(2) [OF assms(1)] assms(2) by (auto simp: assms(3) split: if_splits)
  have "holds_probe g p t \<Longrightarrow> holds_probe g' p t" for p t
    using frame_id [OF assms(1)] by (auto simp: holds_probe_def assms(3))
  then show "dget (breakers g') p = Some b \<Longrightarrow> probe_ok g' p b" for p b
    using assms(5) [of p b] by (auto intro: probe_ok_mono)
qed

lemma probe_begin:
  assumes "probe_inv g" and "begin_call c p skip now g = (g', r)"
  shows "probe_inv g'"
proof -
  have plain: "probe_inv (add_frame \<lparr>cfg = c, fr_breaker = None, fr_phase = ph\<rparr> g)" for ph
    by (rule probe_new_frame [OF assms(1)]) (auto simp: add_frame_def tokens_ok_def probe_invD(3) [OF assms(1)])
  have guarded: "probe_inv g'"
    if a: "allow now (breaker_cooldown c) (next_id g) (get_breaker g q) = (b, att)"
      and e: "g' = (case att of None \<Rightarrow> g\<lparr>breakers := dput (breakers g) q b\<rparr>
        | Some a \<Rightarrow> add_frame \<lparr>cfg = c, fr_breaker = Some (q, a), fr_phase = Admitted\<rparr> (g\<lparr>breakers := dput (breakers g) q b\<rparr>))"
    for q b att
  proof (cases att)
    case None
    with a have b: "b = get_breaker g q" by (auto simp: allow_def split: option.splits if_splits)
    have "holds_probe g' = holds_probe g" by (simp add: e None holds_probe_def fun_eq_iff)
    then have "probe_ok g' = probe_ok g" by (intro ext) (simp add: probe_ok_def split: option.split)
    with probe_invD [OF assms(1)] show ?thesis
      by (intro probe_invI) (auto simp: e None b split: if_splits)
  next
    case (Some at)
    show ?thesis
    proof (rule probe_new_frame [OF assms(1)])
      show "tokens_ok (next_id g) \<lparr>cfg = c, fr_breaker = Some (q, at), fr_phase = Admitted\<rparr>"
        using a Some by (auto simp: allow_def tokens_ok_def split: option.splits if_splits)
      show "frames g' = dput (frames g) (next_id g) \<lparr>cfg = c, fr_breaker = Some (q, at), fr_phase = Admitted\<rparr>"
        and "next_id g' = Suc (next_id g)" by (simp_all add: e Some add_frame_def)
      have "probe_ok g q b \<or> probe_ok g' q b"
        using a Some probe_invD(4) [OF assms(1), of q]
        by (auto simp: e add_frame_def allow_def probe_ok_def holds_probe_def pending_record_def split: option.splits if_splits)
      then show "probe_ok g s h \<or> probe_ok g' s h" if "dget (breakers g') s = Some h" for s h
        using that probe_invD(3) [OF assms(1), of s h] by (auto simp: e Some add_frame_def split: if_splits)
    qed
  qed
  show ?thesis
  proof (cases "enabled c \<and> (case p of Some q \<Rightarrow> q \<noteq> [] \<and> \<not> skip | None \<Rightarrow> False)")
    case True
    then obtain q where q: "p = Some q" "q \<noteq> []" "\<not> skip" "enabled c" by (auto split: option.splits)
    obtain b att where a: "allow now (breaker_cooldown c) (next_id g) (get_breaker g q) = (b, att)" by fastforce
    from assms(2) q a show ?thesis by (intro guarded [OF a]) (auto simp: begin_call_def Let_def split: option.splits)
  next
    case False
    with assms(2) have "g' = add_frame \<lparr>cfg = c, fr_breaker = None, fr_phase = Acquired\<rparr> g \<or>
        g' = add_frame \<lparr>cfg = c, fr_breaker = None, fr_phase = Admitted\<rparr> g"
      by (auto simp: begin_call_def split: if_splits option.splits)
    with plain show ?thesis by auto
  qed
qed

lemma breakers_do_op:
  "breakers (do_op now f op g) =
     (case (op, fr_breaker f) of
        (Record out, Some (p, a)) \<Rightarrow> dput (breakers g) p (apply_record now f out (get_breaker g p))
      | _ \<Rightarrow> breakers g)"
  by (simp add: do_op_def split: guard_op.split option.split prod.split)

text \<open>After a report the slot is empty, or it belongs to someone else and nothing happened.\<close>

lemma apply_record_probe:
  assumes "fr_breaker f = Some (p, a)" and "probe_token (apply_record now f out b) = Some t"
    and "probe_token b \<noteq> None \<Longrightarrow> opened_at b \<noteq> None"
  shows "apply_record now f out b = b \<and> \<not> owns_probe a b"
  using assms
  by (auto simp: apply_record_def record_success_def record_timeout_def record_other_error_def Let_def
      is_current_closed_gen_def split: call_outcome.splits if_splits)

lemma probe_report:
  assumes "probe_inv g" and "dget (frames g) i = Some f" and "fr_breaker f = Some (p, a)"
    and "frames g' = dput (frames g) i (f\<lparr>fr_phase := ph\<rparr>)" and "next_id g' = next_id g"
    and "breakers g' = dput (breakers g) p (apply_record now f out (get_breaker g p))"
  shows "probe_inv g'"
proof (rule probe_invI)
  show "next_id g' \<le> j \<Longrightarrow> dget (frames g') j = None" for j
    using frame_id [OF assms(1,2)] probe_invD(1) [OF assms(1)] by (auto simp: assms(4,5))
  show "dget (frames g') j = Some h \<Longrightarrow> tokens_ok j h" for j h
    using probe_invD(2) [OF assms(1)] assms(2) by (auto simp: assms(4) tokens_ok_def split: if_splits)
  have keep: "holds_probe g' q t" if "holds_probe g q t" and "t \<noteq> i" for q t
    using that by (auto simp: holds_probe_def assms(4))
  have owner: "owns_probe a b" if "holds_probe g p i" "probe_token b = Some i" for b
    using that assms(2,3) by (auto simp: holds_probe_def owns_probe_def)
  fix q h assume h: "dget (breakers g') q = Some h"
  show "probe_ok g' q h"
  proof (cases "q = p")
    case False
    then have "probe_ok g q h" using h probe_invD(3) [OF assms(1)] by (simp add: assms(6))
    moreover have "t \<noteq> i" if "holds_probe g q t" for t
      using that assms(2,3) False by (auto simp: holds_probe_def)
    ultimately show ?thesis using keep by (metis probe_ok_mono)
  next
    case True
    let ?b = "get_breaker g p"
    have old: "probe_ok g p ?b" by (rule probe_invD(4) [OF assms(1)])
    then have op: "probe_token ?b \<noteq> None \<Longrightarrow> opened_at ?b \<noteq> None" by (auto simp: probe_ok_def split: option.splits)
    show ?thesis
    proof (cases "probe_token h")
      case (Some t)
      have h': "h = apply_record now f out ?b" using h True by (simp add: assms(6))
      with apply_record_probe [OF assms(3) _ op, of now out t] Some have same: "h = ?b" "\<not> owns_probe a ?b" by auto
      then have "holds_probe g p t" using old Some by (simp add: probe_ok_def)
      moreover have "t \<noteq> i" using owner [of ?b] same Some calculation by auto
      ultimately have "holds_probe g' p t" by (rule keep)
      with op same Some show ?thesis by (simp add: probe_ok_def True)
    qed (simp add: probe_ok_def)
  qed
qed

lemma probe_step:
  assumes "probe_inv g" and "guard_step conf False g g'"
  shows "probe_inv g'"
  using assms(2)
proof (cases rule: guard_step.cases)
  case (gs_begin c p skip now r)
  with probe_begin [OF assms(1)] show ?thesis by blast
next
  case (gs_acquire i f)
  show ?thesis
    by (rule probe_set_phase [OF assms(1) gs_acquire(2), where ph = "if max_concurrent (cfg f) \<le> in_flight g
          then Settling (record_ops f OtherError) else Acquired"])
      (use pending_record_ops [of f "[]"] in \<open>auto simp: gs_acquire(1) acquire_call_def try_acquire_def pending_record_def\<close>)
next
  case (gs_submit i f started)
  show ?thesis
    by (rule probe_set_phase [OF assms(1) gs_submit(2), where ph = "if started then Waiting else
          Settling ((if enabled (cfg f) then [ReleasePermit] else []) @ record_ops f OtherError)"])
      (use pending_record_ops [of f "if enabled (cfg f) then [ReleasePermit] else []"]
        in \<open>auto simp: gs_submit(1) submit_call_def pending_record_def\<close>)
next
  case (gs_await i f r)
  then obtain out where "g' = set_phase i f (Settling (record_ops f out)) g"
    by (cases r) (auto simp: await_call_def)
  then show ?thesis using pending_record_ops [of f "[]" out]
    by (intro probe_set_phase [OF assms(1) gs_await(2), where ph = "Settling (record_ops f out)"]) simp_all
next
  case (gs_settle i f ops now)
  show ?thesis
  proof (cases ops)
    case Nil
    then have g': "g' = g\<lparr>frames := drop_key i (frames g)\<rparr>" by (simp add: gs_settle(1) settle_call_def)
    have "holds_probe g' p t" if "holds_probe g p t" for p t
      using that gs_settle(2,3) Nil by (auto simp: holds_probe_def g' pending_record_def)
    then have "probe_ok g' p b" if "probe_ok g p b" for p b using that by (metis probe_ok_mono)
    with probe_invD [OF assms(1)] show ?thesis
      by (intro probe_invI) (auto simp: g' split: if_splits)
  next
    case (Cons op rest)
    have fr: "frames g' = dput (frames g) i (f\<lparr>fr_phase := Settling rest\<rparr>)" "next_id g' = next_id g"
      "breakers g' = breakers (do_op now f op g)" by (simp_all add: Cons gs_settle(1) settle_call_def)
    show ?thesis
    proof (cases "\<exists>out p a. op = Record out \<and> fr_breaker f = Some (p, a)")
      case True
      then obtain out p a where r: "op = Record out" "fr_breaker f = Some (p, a)" by blast
      show ?thesis by (rule probe_report [OF assms(1) gs_settle(2) r(2) fr(1,2)]) (simp add: fr(3) breakers_do_op r)
    next
      case False
      then have "breakers g' = breakers g"
        by (auto simp: fr(3) breakers_do_op split: guard_op.split option.split)
      moreover have "pending_record (f\<lparr>fr_phase := Settling rest\<rparr>)" if "fr_breaker f \<noteq> None" "pending_record f"
        using that False Cons gs_settle(3) by (auto simp: pending_record_def)
      ultimately show ?thesis using probe_set_phase [OF assms(1) gs_settle(2) fr(1,2)] by blast
    qed
  qed
next
  case (gs_thread i permit)
  then have same: "frames g' = frames g" "breakers g' = breakers g" "next_id g' = next_id g"
    by (simp_all add: end_thread_def)
  have "holds_probe g' = holds_probe g" by (simp add: holds_probe_def same fun_eq_iff)
  then have "probe_ok g' = probe_ok g" by (intro ext) (simp add: probe_ok_def split: option.split)
  with probe_invD [OF assms(1)] show ?thesis by (intro probe_invI) (simp_all add: same)
qed

interpretation probes: invariant_system "\<lambda>g. g = new_guard" "guard_step conf False" probe_inv for conf
  by unfold_locales (simp add: probe_inv_def new_guard_def, rule probe_step)

section \<open>Properties\<close>

definition sample_config :: guard_config where
  "sample_config = \<lparr>enabled = True, max_concurrent = 2, breaker_open_after = 1, breaker_cooldown = 10\<rparr>"

text \<open>A call to a provider that hangs: after its report the breaker is open, its thread alive.\<close>

definition sample_breaker :: breaker where
  "sample_breaker = \<lparr>consecutive_timeouts = 1, opened_at = Some 60, probe_token = None, generation = 1\<rparr>"

definition hung_guard :: guard where
  "hung_guard = \<lparr>in_flight = 1, breakers = [(''mimo'', sample_breaker)],
     frames = [], threads = [(0, True)], next_id = 1\<rparr>"

text \<open>After the cooldown the next call is the probe, up to where it waits for its thread.\<close>

definition probing_frame :: "phase \<Rightarrow> frame" where
  "probing_frame ph = \<lparr>cfg = sample_config,
     fr_breaker = Some (''mimo'', \<lparr>is_probe = True, token = Some 1, att_generation = 1\<rparr>), fr_phase = ph\<rparr>"

definition probing_guard :: "phase \<Rightarrow> guard" where
  "probing_guard ph = \<lparr>in_flight = 2, breakers = [(''mimo'', sample_breaker\<lparr>probe_token := Some 1\<rparr>)],
     frames = [(1, probing_frame ph)], threads = [(0, True), (1, True)], next_id = 2\<rparr>"

lemmas guard_defs = add_frame_def allow_def get_breaker_def new_breaker_def set_phase_def acquire_call_def
  try_acquire_def submit_call_def await_call_def settle_call_def do_op_def apply_record_def record_ops_def
  record_success_def record_timeout_def owns_probe_def is_current_closed_gen_def drop_key_def Let_def

lemma hung_guard_reachable:
  assumes "conf sample_config"
  shows "reach (\<lambda>g. g = new_guard) (guard_step conf base) hung_guard"
proof -
  define f where "f = (\<lambda>ph. \<lparr>cfg = sample_config, fr_breaker = Some (''mimo'',
     \<lparr>is_probe = False, token = None, att_generation = 0\<rparr>), fr_phase = ph\<rparr>)"
  define g where "g = (\<lambda>n ph ths. \<lparr>in_flight = n, breakers = [(''mimo'', new_breaker)], frames = [(0, f ph)],
     threads = ths, next_id = 1\<rparr>)"
  let ?s = "guard_step conf base"
  have s1: "?s new_guard (g 0 Admitted [])"
    by (rule gs_begin [where c = sample_config and p = "Some ''mimo''" and skip = False and now = 0 and r = "Some 0"])
      (simp_all add: assms [unfolded sample_config_def] begin_call_def sample_config_def new_guard_def guard_defs g_def f_def)
  have s2: "?s (g 0 Admitted []) (g 1 Acquired [])"
    using gs_acquire [of "g 0 Admitted []" 0 "f Admitted" conf base]
    by (simp add: guard_defs g_def f_def sample_config_def)
  have s3: "?s (g 1 Acquired []) (g 1 Waiting [(0, True)])"
    using gs_submit [of "g 1 Acquired []" 0 "f Acquired" conf base True]
    by (simp add: guard_defs g_def f_def sample_config_def)
  have s4: "?s (g 1 Waiting [(0, True)]) (g 1 (Settling [Record Timeout]) [(0, True)])"
    using gs_await [of "g 1 Waiting [(0, True)]" 0 "f Waiting" WallTimeout base conf]
    by (simp add: guard_defs g_def f_def)
  have s5: "?s (g 1 (Settling [Record Timeout]) [(0, True)])
      ((g 1 (Settling []) [(0, True)])\<lparr>breakers := [(''mimo'', sample_breaker)]\<rparr>)"
    using gs_settle [of "g 1 (Settling [Record Timeout]) [(0, True)]" 0 "f (Settling [Record Timeout])" "[Record Timeout]" conf base 60]
    by (simp add: guard_defs g_def f_def sample_config_def sample_breaker_def)
  have s6: "?s ((g 1 (Settling []) [(0, True)])\<lparr>breakers := [(''mimo'', sample_breaker)]\<rparr>) hung_guard"
    using gs_settle [of "(g 1 (Settling []) [(0, True)])\<lparr>breakers := [(''mimo'', sample_breaker)]\<rparr>" 0 "f (Settling [])" "[]" conf base 60]
    by (simp add: guard_defs g_def f_def hung_guard_def)
  have r0: "reach (\<lambda>g. g = new_guard) ?s new_guard" by (rule reach_init) simp
  show ?thesis using r0 s1 s2 s3 s4 s5 s6 by (meson reach_step)
qed

lemma probing_guard_reachable:
  assumes "conf sample_config"
  shows "reach (\<lambda>g. g = new_guard) (guard_step conf base) (probing_guard Waiting)"
proof -
  let ?s = "guard_step conf base"
  let ?g = "\<lambda>n ph. (probing_guard ph)\<lparr>in_flight := n, threads := [(0, True)]\<rparr>"
  have s1: "?s hung_guard (?g 1 Admitted)"
    by (rule gs_begin [where c = sample_config and p = "Some ''mimo''" and skip = False and now = 80 and r = "Some 1"])
      (simp_all add: assms [unfolded sample_config_def] begin_call_def sample_config_def hung_guard_def guard_defs probing_guard_def probing_frame_def
        sample_breaker_def)
  have s2: "?s (?g 1 Admitted) (?g 2 Acquired)"
    using gs_acquire [of "?g 1 Admitted" 1 "probing_frame Admitted" conf base]
    by (simp add: guard_defs probing_guard_def probing_frame_def sample_config_def)
  have s3: "?s (?g 2 Acquired) (probing_guard Waiting)"
    using gs_submit [of "?g 2 Acquired" 1 "probing_frame Acquired" conf base True]
    by (simp add: guard_defs probing_guard_def probing_frame_def sample_config_def)
  have r0: "reach (\<lambda>g. g = new_guard) ?s hung_guard" using assms by (rule hung_guard_reachable)
  show ?thesis using r0 s1 s2 s3 by (meson reach_step)
qed

lemma dsum_of_bool: "dsum of_bool d = int (length (filter snd d))"
  by (induction d) (auto simp: dsum_def)

text \<open>
  C35: The bulkhead bounds the worker threads: whatever calls do, and however many of them hang, at
  most as many threads of guarded calls are alive as the largest configured limit, the counter
  never leaves its range, and when no call is in progress it is exactly the number of threads
  that still run, so no permit is ever lost or given back twice.
\<close>

theorem bulkhead_bounds_threads:
  assumes "0 \<le> L" and "reach (\<lambda>g. g = new_guard) (guard_step (\<lambda>c. max_concurrent c \<le> L) base) g"
  shows "int (length (filter snd (threads g))) \<le> in_flight g \<and> 0 \<le> in_flight g \<and> in_flight g \<le> L \<and>
    (frames g = [] \<longrightarrow> in_flight g = int (length (filter snd (threads g))))"
proof -
  have "reach (\<lambda>g. g = new_guard \<and> 0 \<le> L) (guard_step (\<lambda>c. max_concurrent c \<le> L) base) g"
    using assms(2,1) by (induction rule: reach.induct) (auto intro: reach.intros)
  then have inv: "permits_inv L g" by (rule permits.reach_inv)
  from inv dsum_nonneg [of frame_permits "frames g"] in_flight_nonneg [OF inv] show ?thesis
    by (auto simp: permits_inv_def dsum_of_bool)
qed

theorem bulkhead_bounds_threads_witness:
  "in_flight hung_guard = 1 \<and> int (length (filter snd (threads hung_guard))) \<le> in_flight hung_guard"
  using bulkhead_bounds_threads [of 2 False hung_guard, OF _ hung_guard_reachable]
  by (simp add: sample_config_def hung_guard_def)

text \<open>
  A provider is never locked out: a call is refused exactly while the breaker is open and
  either the cooldown has not passed or some call in progress, and only one, holds the probe and
  still has to report how it ended.
\<close>

theorem refused_while_open:
  assumes "reach (\<lambda>g. g = new_guard) (guard_step conf False) g" and "dget (breakers g) p = Some b"
  shows "snd (allow now cooldown fresh b) = None \<longleftrightarrow>
    (\<exists>t. opened_at b = Some t \<and>
       (now - t < cooldown \<or> (\<exists>i. probe_token b = Some i \<and> holds_probe g p i)))"
proof -
  have "probe_ok g p b" by (rule probe_invD(3) [OF probes.reach_inv [OF assms(1)] assms(2)])
  then show ?thesis by (auto simp: allow_def probe_ok_def split: option.splits)
qed

theorem refused_while_open_witness:
  "snd (allow 90 10 7 (sample_breaker\<lparr>probe_token := Some 1\<rparr>)) = None \<and>
   holds_probe (probing_guard Waiting) ''mimo'' 1"
proof -
  have "reach (\<lambda>g. g = new_guard) (guard_step (\<lambda>c. True) False) (probing_guard Waiting)"
    by (rule probing_guard_reachable) simp
  moreover have b: "dget (breakers (probing_guard Waiting)) ''mimo'' = Some (sample_breaker\<lparr>probe_token := Some 1\<rparr>)"
    by (simp add: probing_guard_def)
  ultimately have "snd (allow 90 10 7 (sample_breaker\<lparr>probe_token := Some 1\<rparr>)) = None \<longleftrightarrow>
    (\<exists>t. opened_at (sample_breaker\<lparr>probe_token := Some 1\<rparr>) = Some t \<and>
       (90 - t < 10 \<or> (\<exists>i. probe_token (sample_breaker\<lparr>probe_token := Some 1\<rparr>) = Some i \<and>
          holds_probe (probing_guard Waiting) ''mimo'' i)))"
    by (rule refused_while_open)
  then show ?thesis by (simp add: allow_def sample_breaker_def)
qed

text \<open>
  Only the probe closes a breaker: if a step of any call or thread turns an open breaker into a
  closed one, it is the report of success by the one call that holds the probe token.
\<close>

theorem only_probe_closes:
  assumes "guard_step conf base g g'" and "opened_at (get_breaker g p) \<noteq> None" and "opened_at (get_breaker g' p) = None"
  shows "\<exists>i f a rest. dget (frames g) i = Some f \<and> fr_breaker f = Some (p, a) \<and> is_probe a \<and>
    token a = probe_token (get_breaker g p) \<and> token a \<noteq> None \<and> fr_phase f = Settling (Record Success # rest)"
  using assms(1)
proof (cases rule: guard_step.cases)
  case (gs_begin c q skip now r)
  have "opened_at (fst (allow now cd fresh b)) = opened_at b" for cd fresh b
    by (auto simp: allow_def split: option.splits)
  then have "opened_at (get_breaker g' p) = opened_at (get_breaker g p)"
    using gs_begin(2) by (auto simp: begin_call_def get_breaker_def Let_def add_frame_def split: if_splits option.splits prod.splits)
      (metis fst_conv)+
  with assms(2,3) show ?thesis by simp
next
  case (gs_acquire i f)
  with assms(2,3) show ?thesis by (auto simp: acquire_call_def get_breaker_def Let_def split: prod.splits if_splits)
next
  case (gs_submit i f started)
  with assms(2,3) show ?thesis by (auto simp: submit_call_def get_breaker_def split: if_splits)
next
  case (gs_await i f r)
  with assms(2,3) show ?thesis by (auto simp: await_call_def get_breaker_def split: wait_result.splits)
next
  case (gs_settle i f ops now)
  from assms(2,3) obtain op rest where ops: "ops = op # rest"
    by (cases ops) (auto simp: gs_settle(1) settle_call_def get_breaker_def)
  have "breakers g' = breakers (do_op now f op g)" by (simp add: gs_settle(1) settle_call_def ops)
  with assms(2,3) obtain out a where r: "op = Record out" "fr_breaker f = Some (p, a)"
    and c: "opened_at (apply_record now f out (get_breaker g p)) = None"
    by (auto simp: breakers_do_op get_breaker_def split: guard_op.splits option.splits if_splits)
  from c assms(2) r(2) have "out = Success" "owns_probe a (get_breaker g p)"
    by (auto simp: apply_record_def record_success_def record_timeout_def record_other_error_def Let_def
        split: call_outcome.splits if_splits)
  with gs_settle(2,3) ops r show ?thesis by (auto simp: owns_probe_def)
next
  case (gs_thread i permit)
  with assms(2,3) show ?thesis by (simp add: end_thread_def get_breaker_def)
qed

theorem only_probe_closes_witness:
  "\<exists>i f a rest. dget (frames (probing_guard (Settling [Record Success]))) i = Some f \<and> is_probe a \<and>
     fr_breaker f = Some (''mimo'', a) \<and> fr_phase f = Settling (Record Success # rest)"
proof -
  let ?g = "probing_guard (Settling [Record Success])" and ?f = "probing_frame (Settling [Record Success])"
  have s: "guard_step (\<lambda>c. True) False ?g (settle_call 95 1 ?f [Record Success] ?g)"
    by (rule gs_settle) (simp_all add: probing_guard_def probing_frame_def)
  have "opened_at (get_breaker ?g ''mimo'') \<noteq> None"
    by (simp add: probing_guard_def get_breaker_def sample_breaker_def)
  moreover have "opened_at (get_breaker (settle_call 95 1 ?f [Record Success] ?g) ''mimo'') = None"
    by (simp add: guard_defs probing_guard_def probing_frame_def sample_breaker_def)
  ultimately show ?thesis using only_probe_closes [OF s, of "''mimo''"] by blast
qed

section \<open>When a breaker opens\<close>

text \<open>
  Reports of the calls that a closed breaker admitted, with the times at which they arrive.
\<close>

definition report :: "int \<Rightarrow> attempt_token \<Rightarrow> int \<times> call_outcome \<Rightarrow> breaker \<Rightarrow> breaker" where
  "report open_after a ev b =
     (case snd ev of
        Success \<Rightarrow> record_success a b
      | Timeout \<Rightarrow> record_timeout (fst ev) open_after a b
      | OtherError \<Rightarrow> record_other_error a b)"

text \<open>The number of timeouts since the last success, which is last in the list of reports.\<close>

fun streak :: "call_outcome list \<Rightarrow> int" where
  "streak [] = 0"
| "streak (Success # os) = 0"
| "streak (Timeout # os) = streak os + 1"
| "streak (OtherError # os) = streak os"

lemma report_open:
  assumes "opened_at b \<noteq> None" and "\<not> is_probe a"
  shows "report n a ev b = b"
  using assms by (auto simp: report_def record_success_def record_timeout_def record_other_error_def owns_probe_def
      is_current_closed_gen_def split: call_outcome.split)

lemma report_closed:
  assumes "opened_at b = None" and "\<not> is_probe a" and "att_generation a = generation b"
  shows "report n a (t, out) b =
    (case out of Success \<Rightarrow> b\<lparr>consecutive_timeouts := 0\<rparr> | OtherError \<Rightarrow> b
     | Timeout \<Rightarrow> if consecutive_timeouts b + 1 \<ge> n
         then b\<lparr>consecutive_timeouts := consecutive_timeouts b + 1, opened_at := Some t, generation := generation b + 1\<rparr>
         else b\<lparr>consecutive_timeouts := consecutive_timeouts b + 1\<rparr>)"
  using assms by (auto simp: report_def record_success_def record_timeout_def record_other_error_def owns_probe_def
      is_current_closed_gen_def Let_def split: call_outcome.split)

lemma reports_closed:
  assumes "consecutive_timeouts b = 0" and "opened_at b = None" and "0 < open_after"
    and "a = \<lparr>is_probe = False, token = None, att_generation = generation b\<rparr>"
  shows "(let b' = fold (report open_after a) evs b in
     if \<exists>k\<le>length evs. open_after \<le> streak (rev (map snd (take k evs))) then is_open b'
     else b' = b\<lparr>consecutive_timeouts := streak (rev (map snd evs))\<rparr>)"
proof (induction evs rule: rev_induct)
  case Nil
  then show ?case using assms by simp
next
  case (snoc ev evs)
  let ?b = "fold (report open_after a) evs b"
  obtain t out where ev: "ev = (t, out)" by fastforce
  have ext: "(\<exists>k\<le>length (evs @ [ev]). open_after \<le> streak (rev (map snd (take k (evs @ [ev]))))) \<longleftrightarrow>
      (\<exists>k\<le>length evs. open_after \<le> streak (rev (map snd (take k evs)))) \<or>
      open_after \<le> streak (snd ev # rev (map snd evs))"
    by (auto simp: le_Suc_eq)
  show ?case
  proof (cases "\<exists>k\<le>length evs. open_after \<le> streak (rev (map snd (take k evs)))")
    case True
    with snoc have "is_open ?b" by (simp add: Let_def)
    then have "report open_after a ev ?b = ?b" by (intro report_open) (simp_all add: is_open_def assms(4))
    with True \<open>is_open ?b\<close> ext show ?thesis by (simp add: Let_def)
  next
    case False
    with snoc have b: "?b = b\<lparr>consecutive_timeouts := streak (rev (map snd evs))\<rparr>" by (simp add: Let_def)
    have "\<not> open_after \<le> streak (rev (map snd evs))" using False by (metis order_refl take_all)
    then show ?thesis
      unfolding ext using False report_closed [of ?b a open_after t out] assms b
      by (cases out) (auto simp: Let_def is_open_def ev)
  qed
qed

text \<open>
  A closed breaker opens exactly when \<open>open_after\<close> timeouts have been reported since the last
  success: other errors neither count nor reset the streak, and once open it stays open
  whatever else the calls report that it admitted while it was closed.
\<close>

theorem breaker_opens_iff:
  assumes "consecutive_timeouts b = 0" and "opened_at b = None" and "0 < open_after"
  shows "is_open (fold (report open_after \<lparr>is_probe = False, token = None, att_generation = generation b\<rparr>) evs b) \<longleftrightarrow>
    (\<exists>k\<le>length evs. open_after \<le> streak (rev (map snd (take k evs))))"
  using reports_closed [OF assms refl, of evs] assms(2) unfolding Let_def
  by (cases "\<exists>k\<le>length evs. open_after \<le> streak (rev (map snd (take k evs)))") (simp_all add: is_open_def)

theorem breaker_opens_iff_witness:
  "is_open (fold (report 2 \<lparr>is_probe = False, token = None, att_generation = 0\<rparr>)
     [(1, Timeout), (2, Success), (3, Timeout), (4, OtherError), (5, Timeout), (6, Success)] new_breaker)"
proof -
  let ?evs = "[(1, Timeout), (2, Success), (3, Timeout), (4, OtherError), (5, Timeout), (6, Success)] :: (int \<times> call_outcome) list"
  have "2 \<le> streak (rev (map snd (take 5 ?evs)))" by simp
  then have "\<exists>k\<le>length ?evs. 2 \<le> streak (rev (map snd (take k ?evs)))" by (intro exI [of _ 5]) simp
  with breaker_opens_iff [of new_breaker 2 ?evs] show ?thesis by (simp add: new_breaker_def)
qed

section \<open>An exception that is not reported\<close>

text \<open>
  \<open>invoke_with_per_call_timeout\<close> reports on \<open>Exception\<close> only. If the runnable of the probe
  raises another \<open>BaseException\<close>, its frame is gone without a report, the token stays, and the
  breaker refuses every later call.
\<close>

lemma unreported_probe_locks_provider:
  "\<exists>g b. reach (\<lambda>g. g = new_guard) (guard_step (\<lambda>c. c = sample_config) True) g \<and> frames g = [] \<and>
     dget (breakers g) ''mimo'' = Some b \<and> (\<forall>now fresh. snd (allow now (breaker_cooldown sample_config) fresh b) = None)"
proof -
  let ?s = "guard_step (\<lambda>c. c = sample_config) True"
  let ?g = "(probing_guard (Settling []))\<lparr>frames := []\<rparr>"
  have "?s (probing_guard Waiting) (probing_guard (Settling []))"
    using gs_await [of "probing_guard Waiting" 1 "probing_frame Waiting" RaisedBase True]
    by (simp add: guard_defs probing_guard_def probing_frame_def)
  moreover have "?s (probing_guard (Settling [])) ?g"
    using gs_settle [of "probing_guard (Settling [])" 1 "probing_frame (Settling [])" "[]"]
    by (simp add: guard_defs probing_guard_def probing_frame_def)
  ultimately have "reach (\<lambda>g. g = new_guard) ?s ?g"
    using probing_guard_reachable [of "\<lambda>c. c = sample_config" True, OF refl] by (meson reach_step)
  moreover have "dget (breakers ?g) ''mimo'' = Some (sample_breaker\<lparr>probe_token := Some 1\<rparr>)"
    by (simp add: probing_guard_def)
  moreover have "snd (allow now cd fresh (sample_breaker\<lparr>probe_token := Some 1\<rparr>)) = None" for now cd fresh
    by (simp add: allow_def sample_breaker_def)
  ultimately show ?thesis by (intro exI [of _ ?g] exI [of _ "sample_breaker\<lparr>probe_token := Some 1\<rparr>"]) (simp add: probing_guard_def)
qed

text \<open>A \<open>TimeoutError\<close> that the runnable itself raises counts like a hang.\<close>

lemma own_timeout_counts:
  "await_call RaisedTimeoutError i f g = await_call WallTimeout i f g"
  by (simp add: await_call_def)

end
