(* ===== verification/Quota.thy ===== *)
theory Quota
  imports Prelude
begin

text \<open>
  \<open>services/usage_ledger.py\<close>: counters per tenant, metric and period with a quota each, consumed
  for all periods of a request or for none, and refunded. Amounts are exact numbers of an ordered
  ring; the rounding of a float to the two decimals of the column is not modelled. An argument
  says which attempts the database refuses.
\<close>

section \<open>The table\<close>

record 'n usage_row =
  used :: 'n
  quota_snapshot :: "'n option"

text \<open>The unique key: tenant, metric, period type and period key.\<close>

type_synonym usage_key = "string \<times> string \<times> string \<times> string"
type_synonym 'n usage_table = "(usage_key, 'n usage_row) dict"

record 'n period_spec =
  period_type :: string
  period_key :: string
  quota :: 'n

definition SREDA_FREE_LLM_DAILY :: "'n :: linordered_idom" where "SREDA_FREE_LLM_DAILY = 10"
definition SREDA_FREE_LLM_MONTHLY :: "'n :: linordered_idom" where "SREDA_FREE_LLM_MONTHLY = 200"
definition SREDA_FREE_VOICE_SECONDS_DAILY :: "'n :: linordered_idom" where "SREDA_FREE_VOICE_SECONDS_DAILY = 5 * 60"
definition SREDA_FREE_VOICE_SECONDS_MONTHLY :: "'n :: linordered_idom" where "SREDA_FREE_VOICE_SECONDS_MONTHLY = 30 * 60"

definition key_of :: "string \<Rightarrow> string \<Rightarrow> 'n period_spec \<Rightarrow> usage_key" where
  "key_of tenant metric s = (tenant, metric, period_type s, period_key s)"

definition used_of :: "'n :: linordered_idom usage_table \<Rightarrow> usage_key \<Rightarrow> 'n" where
  "used_of t k = (case dget t k of None \<Rightarrow> 0 | Some r \<Rightarrow> used r)"

section \<open>Operations\<close>

text \<open>
  The conditional upsert; \<open>None\<close> if it returns no row. The first condition is the one of the
  inserted \<open>SELECT\<close>, the second that of \<open>DO UPDATE\<close>.
\<close>

definition try_consume_one ::
    "string \<Rightarrow> string \<Rightarrow> 'n :: linordered_idom \<Rightarrow> 'n period_spec \<Rightarrow> 'n usage_table \<Rightarrow> 'n usage_table option" where
  "try_consume_one tenant metric amount s t =
     (if amount \<le> quota s
      then (case dget t (key_of tenant metric s) of
              None \<Rightarrow> Some (dput t (key_of tenant metric s) \<lparr>used = amount, quota_snapshot = Some (quota s)\<rparr>)
            | Some r \<Rightarrow>
                if used r + amount \<le> (case quota_snapshot r of None \<Rightarrow> quota s | Some q \<Rightarrow> q)
                then Some (dput t (key_of tenant metric s) (r\<lparr>used := used r + amount\<rparr>))
                else None)
      else None)"

text \<open>The loop over the periods in one transaction; \<open>None\<close> is \<open>QuotaExhaustedError\<close>, which rolls back.\<close>

fun consume_all ::
    "string \<Rightarrow> string \<Rightarrow> 'n :: linordered_idom \<Rightarrow> 'n period_spec list \<Rightarrow> 'n usage_table \<Rightarrow> 'n usage_table option" where
  "consume_all tenant metric amount [] t = Some t"
| "consume_all tenant metric amount (s # ss) t =
     (case try_consume_one tenant metric amount s t of
        None \<Rightarrow> None
      | Some t' \<Rightarrow> consume_all tenant metric amount ss t')"

datatype db_fault = SerializationFailure | OtherDbError

datatype consume_error = DbErrorRaised | RetriesExhausted

text \<open>The attempts that are left, each with the fault the database answers with, if any.\<close>

fun consume_attempts ::
    "string \<Rightarrow> string \<Rightarrow> 'n :: linordered_idom \<Rightarrow> 'n period_spec list \<Rightarrow> db_fault option list \<Rightarrow> 'n usage_table \<Rightarrow>
     consume_error + ('n usage_table \<times> bool)" where
  "consume_attempts tenant metric amount ss [] t = Inl RetriesExhausted"
| "consume_attempts tenant metric amount ss (fault # faults) t =
     (case fault of
        Some SerializationFailure \<Rightarrow> consume_attempts tenant metric amount ss faults t
      | Some OtherDbError \<Rightarrow> Inl DbErrorRaised
      | None \<Rightarrow> (case consume_all tenant metric amount ss t of
                  None \<Rightarrow> Inr (t, False) | Some t' \<Rightarrow> Inr (t', True)))"

definition try_consume ::
    "(nat \<Rightarrow> db_fault option) \<Rightarrow> string \<Rightarrow> string \<Rightarrow> 'n :: linordered_idom \<Rightarrow> 'n period_spec list \<Rightarrow> 'n usage_table \<Rightarrow>
     consume_error + ('n usage_table \<times> bool)" where
  "try_consume fault tenant metric amount ss t =
     consume_attempts tenant metric amount ss (map fault [0..<3]) t"

definition refund_one ::
    "string \<Rightarrow> string \<Rightarrow> 'n :: linordered_idom \<Rightarrow> 'n period_spec \<Rightarrow> 'n usage_table \<Rightarrow> 'n usage_table" where
  "refund_one tenant metric amount s t =
     (case dget t (key_of tenant metric s) of
        None \<Rightarrow> t
      | Some r \<Rightarrow> dput t (key_of tenant metric s) (r\<lparr>used := max 0 (used r - amount)\<rparr>))"

definition refund ::
    "string \<Rightarrow> string \<Rightarrow> 'n :: linordered_idom \<Rightarrow> 'n period_spec list \<Rightarrow> 'n usage_table \<Rightarrow> 'n usage_table" where
  "refund tenant metric amount ss t = fold (refund_one tenant metric amount) ss t"

definition is_exhausted :: "string \<Rightarrow> string \<Rightarrow> 'n :: linordered_idom period_spec \<Rightarrow> 'n usage_table \<Rightarrow> bool" where
  "is_exhausted tenant metric s t =
     (case dget t (key_of tenant metric s) of None \<Rightarrow> False | Some r \<Rightarrow> used r \<ge> quota s)"

section \<open>One period\<close>

text \<open>Whether a period has room: below the quota asked for and below the one on record.\<close>

definition limit_of :: "'n :: linordered_idom usage_table \<Rightarrow> usage_key \<Rightarrow> 'n \<Rightarrow> 'n" where
  "limit_of t k q = (case dget t k of None \<Rightarrow> q | Some r \<Rightarrow> (case quota_snapshot r of None \<Rightarrow> q | Some q' \<Rightarrow> q'))"

definition has_room :: "string \<Rightarrow> string \<Rightarrow> 'n :: linordered_idom \<Rightarrow> 'n usage_table \<Rightarrow> 'n period_spec \<Rightarrow> bool" where
  "has_room tenant metric amount t s \<longleftrightarrow>
     amount \<le> quota s \<and>
     used_of t (key_of tenant metric s) + amount \<le> limit_of t (key_of tenant metric s) (quota s)"

lemma consume_one_iff:
  "try_consume_one tenant metric amount s t =
     (if has_room tenant metric amount t s
      then Some (dput t (key_of tenant metric s)
        (case dget t (key_of tenant metric s) of
           None \<Rightarrow> \<lparr>used = amount, quota_snapshot = Some (quota s)\<rparr> | Some r \<Rightarrow> r\<lparr>used := used r + amount\<rparr>))
      else None)"
  by (auto simp: try_consume_one_def has_room_def used_of_def limit_of_def split: option.splits)

lemma used_of_consume_one:
  "try_consume_one tenant metric amount s t = Some t' \<Longrightarrow>
     used_of t' k = used_of t k + (if k = key_of tenant metric s then amount else 0)"
  by (auto simp: consume_one_iff used_of_def split: if_splits option.splits)

lemma has_room_other:
  assumes "try_consume_one tenant metric amount s t = Some t'" and "key_of tenant metric s' \<noteq> key_of tenant metric s"
  shows "has_room tenant metric amount t' s' = has_room tenant metric amount t s'"
  using assms by (auto simp: consume_one_iff has_room_def used_of_def limit_of_def split: if_splits)

section \<open>All periods\<close>

lemma consume_all_iff:
  "distinct (map (key_of tenant metric) ss) \<Longrightarrow>
     (\<exists>t'. consume_all tenant metric amount ss t = Some t') \<longleftrightarrow> (\<forall>s\<in>set ss. has_room tenant metric amount t s)"
proof (induction ss arbitrary: t)
  case (Cons s ss)
  show ?case
  proof (cases "try_consume_one tenant metric amount s t")
    case None
    then show ?thesis by (simp add: consume_one_iff split: if_splits)
  next
    case (Some t1)
    have "has_room tenant metric amount t1 s' = has_room tenant metric amount t s'" if "s' \<in> set ss" for s'
      using that Cons.prems by (intro has_room_other [OF Some]) (metis distinct.simps(2) image_eqI list.simps(9) set_map)
    moreover have "has_room tenant metric amount t s" using Some by (simp add: consume_one_iff split: if_splits)
    ultimately show ?thesis using Cons.IH [of t1] Cons.prems Some by simp
  qed
qed simp

lemma used_of_consume_all:
  "distinct (map (key_of tenant metric) ss) \<Longrightarrow> consume_all tenant metric amount ss t = Some t' \<Longrightarrow>
     used_of t' k = used_of t k + (if k \<in> key_of tenant metric ` set ss then amount else 0)"
proof (induction ss arbitrary: t)
  case (Cons s ss)
  then obtain t1 where t1: "try_consume_one tenant metric amount s t = Some t1"
    and r: "consume_all tenant metric amount ss t1 = Some t'" by (auto split: option.splits)
  from Cons.IH [OF _ r] used_of_consume_one [OF t1, of k] Cons.prems(1) show ?case by auto
qed simp

lemma used_of_refund_one:
  assumes "dget t (key_of tenant metric s) = None \<Longrightarrow> 0 \<le> amount"
  shows "used_of (refund_one tenant metric amount s t) k =
     (if k = key_of tenant metric s then max 0 (used_of t k - amount) else used_of t k)"
  using assms by (auto simp: refund_one_def used_of_def split: option.splits)

lemma used_of_refund:
  "0 \<le> amount \<Longrightarrow> distinct (map (key_of tenant metric) ss) \<Longrightarrow>
     used_of (refund tenant metric amount ss t) k =
       (if k \<in> key_of tenant metric ` set ss then max 0 (used_of t k - amount) else used_of t k)"
proof (induction ss arbitrary: t)
  case (Cons s ss)
  have "used_of (refund tenant metric amount (s # ss) t) k =
      used_of (refund tenant metric amount ss (refund_one tenant metric amount s t)) k" by (simp add: refund_def)
  with Cons used_of_refund_one [of t tenant metric s amount k] show ?case by auto
qed (simp add: refund_def)

section \<open>Invariant\<close>

definition row_ok :: "'n :: linordered_idom usage_row \<Rightarrow> bool" where
  "row_ok r \<longleftrightarrow> 0 \<le> used r \<and> (case quota_snapshot r of None \<Rightarrow> True | Some q \<Rightarrow> used r \<le> q)"

definition usage_ok :: "'n :: linordered_idom usage_table \<Rightarrow> bool" where
  "usage_ok t \<longleftrightarrow> dict_ok t \<and> (\<forall>k r. dget t k = Some r \<longrightarrow> row_ok r)"

lemma usage_ok_put [inv_intros]: "usage_ok t \<Longrightarrow> row_ok r \<Longrightarrow> usage_ok (dput t k r)"
  by (simp add: usage_ok_def del: split_paired_All)

lemma usage_ok_row: "usage_ok t \<Longrightarrow> dget t k = Some r \<Longrightarrow> row_ok r"
  unfolding usage_ok_def by blast

text \<open>Requests of any tenant and refunds of non-negative amounts, in any order.\<close>

inductive usage_step :: "'n :: linordered_idom usage_table \<Rightarrow> 'n usage_table \<Rightarrow> bool" where
  us_consume: "0 \<le> amount \<Longrightarrow> try_consume fault tenant metric amount ss t = Inr (t', b) \<Longrightarrow> usage_step t t'"
| us_refund: "0 \<le> amount \<Longrightarrow> usage_step t (refund tenant metric amount ss t)"

inductive_cases usage_stepE: "usage_step t t'"

lemma try_consume_cases:
  assumes "try_consume fault tenant metric amount ss t = Inr (t', b)"
  shows "(if b then consume_all tenant metric amount ss t = Some t'
          else t' = t \<and> consume_all tenant metric amount ss t = None)"
proof -
  have "consume_attempts tenant metric amount ss faults t = Inr (t', b) \<Longrightarrow> ?thesis" for faults
    by (induction faults) (auto split: option.splits db_fault.splits)
  from this [of "map fault [0..<3]"] show ?thesis using assms unfolding try_consume_def by blast
qed

lemma usage_ok_one:
  assumes "usage_ok t" and "0 \<le> amount" and "try_consume_one tenant metric amount s t = Some t'"
  shows "usage_ok t'"
  using assms usage_ok_row [OF assms(1), of "key_of tenant metric s"]
  by (auto simp: try_consume_one_def row_ok_def split: if_splits option.splits intro!: usage_ok_put)

lemma usage_ok_all:
  "usage_ok t \<Longrightarrow> 0 \<le> amount \<Longrightarrow> consume_all tenant metric amount ss t = Some t' \<Longrightarrow> usage_ok t'"
  by (induction ss arbitrary: t) (auto split: option.splits dest: usage_ok_one)

lemma usage_ok_refund_one:
  assumes "usage_ok t" and "0 \<le> amount"
  shows "usage_ok (refund_one tenant metric amount s t)"
proof (cases "dget t (key_of tenant metric s)")
  case (Some r)
  with usage_ok_row [OF assms(1)] have "row_ok r" .
  with assms(2) have "row_ok (r\<lparr>used := max 0 (used r - amount)\<rparr>)"
    by (auto simp: row_ok_def split: option.splits intro: order_trans)
      (metis add_increasing2 diff_le_eq order_trans)?
  with Some assms(1) show ?thesis by (simp add: refund_one_def usage_ok_put)
qed (use assms in \<open>simp add: refund_one_def\<close>)

lemma usage_ok_refund: "usage_ok t \<Longrightarrow> 0 \<le> amount \<Longrightarrow> usage_ok (refund tenant metric amount ss t)"
  by (induction ss arbitrary: t) (auto simp: refund_def usage_ok_refund_one)

lemma usage_step_ok: "usage_ok t \<Longrightarrow> usage_step t t' \<Longrightarrow> usage_ok t'"
  by (erule usage_stepE) (auto dest!: try_consume_cases split: if_splits dest: usage_ok_all usage_ok_refund)

interpretation usage: invariant_system "\<lambda>t. t = []" usage_step usage_ok
  by unfold_locales (simp_all add: usage_step_ok, simp add: usage_ok_def)

section \<open>Properties\<close>

definition free_llm_periods :: "string \<Rightarrow> string \<Rightarrow> 'n :: linordered_idom period_spec list" where
  "free_llm_periods daily monthly =
     [\<lparr>period_type = ''daily'', period_key = daily, quota = SREDA_FREE_LLM_DAILY\<rparr>,
      \<lparr>period_type = ''monthly'', period_key = monthly, quota = SREDA_FREE_LLM_MONTHLY\<rparr>]"

definition free_voice_periods :: "string \<Rightarrow> string \<Rightarrow> 'n :: linordered_idom period_spec list" where
  "free_voice_periods daily monthly =
     [\<lparr>period_type = ''daily'', period_key = daily, quota = SREDA_FREE_VOICE_SECONDS_DAILY\<rparr>,
      \<lparr>period_type = ''monthly'', period_key = monthly, quota = SREDA_FREE_VOICE_SECONDS_MONTHLY\<rparr>]"

lemma free_periods_distinct [simp]:
  "distinct (map (key_of tenant metric) (free_llm_periods daily monthly))"
  "distinct (map (key_of tenant metric) (free_voice_periods daily monthly))"
  by (simp_all add: free_llm_periods_def free_voice_periods_def key_of_def)

text \<open>The ninth turn of the day, and one more than the tenth.\<close>

definition sample_usage :: "int \<Rightarrow> int usage_table" where
  "sample_usage n = [((''t1'', ''llm_turns'', ''daily'', ''2026-06-03''), \<lparr>used = n, quota_snapshot = Some 10\<rparr>),
     ((''t1'', ''llm_turns'', ''monthly'', ''2026-06''), \<lparr>used = 40 + n, quota_snapshot = Some 200\<rparr>)]"

lemma sample_consume:
  "try_consume (\<lambda>i. if i = 0 then Some SerializationFailure else None) ''t1'' ''llm_turns'' 1
     (free_llm_periods ''2026-06-03'' ''2026-06'') (sample_usage 9) = Inr (sample_usage 10, True)"
  by (simp add: try_consume_def upt_rec sample_usage_def free_llm_periods_def try_consume_one_def key_of_def
      SREDA_FREE_LLM_DAILY_def SREDA_FREE_LLM_MONTHLY_def)

text \<open>
  A request is granted exactly if every one of its periods has room, and then each of them
  grows by the amount and nothing else changes; otherwise no counter changes at all. Attempts
  that the database refuses leave no trace.
\<close>

theorem consume_all_or_nothing:
  assumes "distinct (map (key_of tenant metric) ss)" and "try_consume fault tenant metric amount ss t = Inr (t', granted)"
  shows "(granted \<longleftrightarrow> list_all (has_room tenant metric amount t) ss) \<and>
    used_of t' k = used_of t k + (if granted \<and> k \<in> key_of tenant metric ` set ss then amount else 0)"
  using try_consume_cases [OF assms(2)] consume_all_iff [OF assms(1), of amount t]
    used_of_consume_all [OF assms(1), of amount t t' k]
  by (cases granted) (auto simp: list_all_iff)

theorem consume_all_or_nothing_witness:
  "used_of (sample_usage 10) (''t1'', ''llm_turns'', ''monthly'', ''2026-06'') = 50 \<and>
   list_all (has_room ''t1'' ''llm_turns'' 1 (sample_usage 9)) (free_llm_periods ''2026-06-03'' ''2026-06'')"
  using consume_all_or_nothing [OF _ sample_consume, of "(''t1'', ''llm_turns'', ''monthly'', ''2026-06'')"]
  by (simp add: used_of_def sample_usage_def free_llm_periods_def key_of_def)

text \<open>
  C34: No counter ever exceeds the quota on record for its period, whatever tenants ask for and
  however refunds, retries and requests are interleaved.
\<close>

theorem usage_within_quota:
  assumes "reach (\<lambda>t. t = []) usage_step t" and "dget t k = Some r" and "quota_snapshot r = Some q"
  shows "0 \<le> used r \<and> used r \<le> q"
  using usage_ok_row [OF usage.reach_inv [OF assms(1)] assms(2)] assms(3) by (simp add: row_ok_def)

lemma sample_usage_reachable: "reach (\<lambda>t. t = []) usage_step [((''t1'', ''m'', ''daily'', ''d''), \<lparr>used = 4 :: int, quota_snapshot = Some 10\<rparr>)]"
proof -
  have "usage_step [] [((''t1'', ''m'', ''daily'', ''d''), \<lparr>used = 4 :: int, quota_snapshot = Some 10\<rparr>)]"
    by (rule us_consume [where amount = 4 and fault = "\<lambda>_. None" and tenant = "''t1''" and metric = "''m''"
          and ss = "[\<lparr>period_type = ''daily'', period_key = ''d'', quota = 10\<rparr>]" and b = True])
      (simp_all add: try_consume_def upt_rec try_consume_one_def key_of_def)
  moreover have "reach (\<lambda>t. t = []) usage_step ([] :: int usage_table)" by (rule reach_init) simp
  ultimately show ?thesis by (meson reach_step)
qed

theorem usage_within_quota_witness: "(0 :: int) \<le> 4 \<and> (4 :: int) \<le> 10"
  using usage_within_quota [OF sample_usage_reachable, of "(''t1'', ''m'', ''daily'', ''d'')"] by simp

text \<open>
  A refund of what was granted restores every counter, as long as no counter was negative.
\<close>

theorem refund_restores:
  assumes "distinct (map (key_of tenant metric) ss)" and "0 \<le> amount" and "usage_ok t"
    and "try_consume fault tenant metric amount ss t = Inr (t', True)"
  shows "used_of (refund tenant metric amount ss t') k = used_of t k"
proof -
  have "0 \<le> used_of t k"
    using usage_ok_row [OF assms(3)] by (auto simp: used_of_def row_ok_def split: option.split)
  with used_of_refund [OF assms(2,1), of t' k] consume_all_or_nothing [OF assms(1,4), of k]
  show ?thesis by auto
qed

lemma sample_usage_ok: "usage_ok (sample_usage 9)"
  by (auto simp: usage_ok_def sample_usage_def dict_ok_def row_ok_def split: if_splits)

theorem refund_restores_witness:
  "used_of (refund ''t1'' ''llm_turns'' 1 (free_llm_periods ''2026-06-03'' ''2026-06'') (sample_usage 10))
     (''t1'', ''llm_turns'', ''daily'', ''2026-06-03'') = 9"
  using refund_restores [OF free_periods_distinct(1) _ sample_usage_ok sample_consume,
      of "(''t1'', ''llm_turns'', ''daily'', ''2026-06-03'')"]
  by (simp add: used_of_def sample_usage_def)

text \<open>
  The quota on record is that of the first request of the period: after the limit was raised,
  \<open>is_exhausted\<close> reports room that \<open>try_consume\<close> still refuses until the next period.
\<close>

lemma raised_quota_ignored:
  "let s = \<lparr>period_type = ''daily'', period_key = ''2026-06-03'', quota = 20\<rparr> in
     \<not> is_exhausted ''t1'' ''llm_turns'' s (sample_usage 10) \<and>
     try_consume (\<lambda>_. None) ''t1'' ''llm_turns'' 1 [s] (sample_usage 10) = Inr (sample_usage 10, False)"
  by (simp add: is_exhausted_def try_consume_def upt_rec sample_usage_def try_consume_one_def key_of_def)

end
