(* ===== verification/Budget.thy ===== *)
theory Budget
  imports Selector "HOL-Library.List_Lexorder" "HOL-Library.Char_ord"
begin

text \<open>
  \<open>services/credit_formula.py\<close>, \<open>services/budget.py\<close>, \<open>services/agent_capabilities.py\<close> and
  \<open>services/entitlement_gate.py\<close>: what a model call costs in credits, what a subscription still
  covers, and which agent a voice message is billed to. Times are microseconds since the epoch,
  in UTC; a subscription is a row joined with its plan. Which agents include voice is a
  parameter (the manifests).
\<close>

section \<open>Credits\<close>

definition DAY :: int where "DAY = 86400000000"
definition HOUR :: int where "HOUR = 3600000000"

definition OFFPEAK_START_UTC :: int where "OFFPEAK_START_UTC = 16 * HOUR"
definition OFFPEAK_END_UTC :: int where "OFFPEAK_END_UTC = 23 * HOUR + 59 * 60000000 + 59 * 1000000"

text \<open>The discount factor as a fraction of five.\<close>

definition offpeak_fifths :: "int option \<Rightarrow> int" where
  "offpeak_fifths now =
     (case now of None \<Rightarrow> 5
      | Some t \<Rightarrow> let utc_time = t mod DAY in
                  if OFFPEAK_START_UTC \<le> utc_time \<and> utc_time \<le> OFFPEAK_END_UTC then 4 else 5)"

definition model_rate :: "string \<Rightarrow> int" where
  "model_rate key =
     (if key \<in> {''mimo-v2.5-pro'', ''mimo-v2-pro''} then 2
      else if key \<in> {''mimo-v2.5'', ''mimo-v2-omni''} then 1
      else 2)"

text \<open>
  \<open>math.ceil(raw * factor)\<close> with the factor as a fraction. The double nearest to \<open>raw * 0.8\<close> has
  the same ceiling as the exact product for every \<open>raw\<close> below \<open>2^50\<close>.
\<close>

definition credits_for :: "string option \<Rightarrow> int \<Rightarrow> int \<Rightarrow> int option \<Rightarrow> int" where
  "credits_for model prompt_tokens completion_tokens now =
     (let total = max 0 prompt_tokens + max 0 completion_tokens in
      if total = 0 then 0
      else
        (let key = map lower_ascii (strip (case model of None \<Rightarrow> [] | Some m \<Rightarrow> m)) in
         if key = ''mimo-v2-tts'' then 0
         else (let raw = total * model_rate key in (raw * offpeak_fifths now + 4) div 5)))"

section \<open>Subscriptions\<close>

record subscription =
  sub_tenant :: string
  sub_feature :: string
  sub_status :: string
  starts_at :: "int option"
  active_until :: "int option"
  quantity :: int
  grandfathered_at :: "int option"
  plan_key :: string
  plan_feature :: string
  plan_sort_order :: int
  credits_monthly_quota :: "int option"

record ai_execution =
  ex_tenant :: string
  ex_feature :: string
  credits_consumed :: int
  created_at :: int

record quota_status =
  is_subscribed :: bool
  quota_exhausted :: bool
  credits_used :: int
  credits_quota :: "int option"
  period_start :: "int option"
  period_end :: "int option"

definition in_window :: "int \<Rightarrow> subscription \<Rightarrow> bool" where
  "in_window now s \<longleftrightarrow>
     (case starts_at s of None \<Rightarrow> True | Some t \<Rightarrow> \<not> t > now) \<and>
     (case active_until s of None \<Rightarrow> True | Some t \<Rightarrow> t > now)"

definition active_subscription :: "subscription list \<Rightarrow> string \<Rightarrow> string \<Rightarrow> int \<Rightarrow> subscription option" where
  "active_subscription subs tenant feature now =
     find (in_window now)
       (filter (\<lambda>s. sub_tenant s = tenant \<and> sub_status s = ''active'' \<and> plan_feature s = feature) subs)"

definition sum_credits :: "ai_execution list \<Rightarrow> string \<Rightarrow> string \<Rightarrow> int \<Rightarrow> int option \<Rightarrow> int" where
  "sum_credits execs tenant feature start until =
     sum_list (map credits_consumed (filter (\<lambda>e. ex_tenant e = tenant \<and> ex_feature e = feature \<and> created_at e \<ge> start \<and>
       (case until of None \<Rightarrow> True | Some t \<Rightarrow> created_at e \<le> t)) execs))"

text \<open>The clock is read twice: for the window and, without a start, as the start of the period.\<close>

definition get_quota_status ::
    "subscription list \<Rightarrow> ai_execution list \<Rightarrow> string \<Rightarrow> string \<Rightarrow> int \<Rightarrow> int \<Rightarrow> quota_status" where
  "get_quota_status subs execs tenant feature now now' =
     (case active_subscription subs tenant feature now of
        None \<Rightarrow> \<lparr>is_subscribed = False, quota_exhausted = True, credits_used = 0, credits_quota = None,
                 period_start = None, period_end = None\<rparr>
      | Some s \<Rightarrow>
          let start = (case starts_at s of None \<Rightarrow> now' | Some t \<Rightarrow> t);
              spent = sum_credits execs tenant feature start (active_until s)
          in \<lparr>is_subscribed = True,
              quota_exhausted = (case credits_monthly_quota s of None \<Rightarrow> False | Some q \<Rightarrow> spent \<ge> q),
              credits_used = spent, credits_quota = credits_monthly_quota s,
              period_start = Some start, period_end = active_until s\<rparr>)"

definition has_quota :: "subscription list \<Rightarrow> ai_execution list \<Rightarrow> string \<Rightarrow> string \<Rightarrow> int \<Rightarrow> int \<Rightarrow> bool" where
  "has_quota subs execs tenant feature now now' =
     (let st = get_quota_status subs execs tenant feature now now' in is_subscribed st \<and> \<not> quota_exhausted st)"

text \<open>The row of a model call, and its credits.\<close>

definition record_llm_usage ::
    "string \<Rightarrow> string \<Rightarrow> string option \<Rightarrow> int \<Rightarrow> int \<Rightarrow> int option \<Rightarrow> int \<Rightarrow> ai_execution list \<Rightarrow> ai_execution list \<times> int" where
  "record_llm_usage tenant feature model prompt_tokens completion_tokens credits_override now execs =
     (let c = (case credits_override of Some n \<Rightarrow> n | None \<Rightarrow> credits_for model prompt_tokens completion_tokens (Some now))
      in (execs @ [\<lparr>ex_tenant = tenant, ex_feature = feature, credits_consumed = c, created_at = now\<rparr>], c))"

definition record_api_usage :: "string \<Rightarrow> string \<Rightarrow> int \<Rightarrow> int \<Rightarrow> ai_execution list \<Rightarrow> ai_execution list \<times> int" where
  "record_api_usage tenant feature c now execs =
     (execs @ [\<lparr>ex_tenant = tenant, ex_feature = feature, credits_consumed = c, created_at = now\<rparr>], c)"

section \<open>Entitlement and voice\<close>

definition counts_as_active :: "int \<Rightarrow> subscription \<Rightarrow> bool" where
  "counts_as_active now s \<longleftrightarrow>
     quantity s > 0 \<and> sub_status s \<in> {''active'', ''scheduled_for_cancel''} \<and>
     (case active_until s of None \<Rightarrow> True | Some t \<Rightarrow> \<not> t \<le> now) \<and> plan_feature s \<noteq> []"

definition active_feature_keys :: "subscription list \<Rightarrow> string \<Rightarrow> int \<Rightarrow> string set" where
  "active_feature_keys subs tenant now =
     set (map plan_feature (filter (\<lambda>s. sub_tenant s = tenant \<and> counts_as_active now s) subs))"

definition active_voice_carrier_keys :: "(string \<Rightarrow> bool) \<Rightarrow> subscription list \<Rightarrow> string \<Rightarrow> int \<Rightarrow> string list" where
  "active_voice_carrier_keys includes_voice subs tenant now =
     sort (remdups (filter includes_voice
       (map plan_feature (filter (\<lambda>s. sub_tenant s = tenant \<and> counts_as_active now s) subs))))"

text \<open>\<open>allowed\<close> with \<open>billing_feature_key\<close>; the reason is for debugging only.\<close>

definition resolve_voice_access ::
    "(string \<Rightarrow> bool) \<Rightarrow> subscription list \<Rightarrow> string \<Rightarrow> int \<Rightarrow> bool \<times> string option" where
  "resolve_voice_access includes_voice subs tenant now =
     (if tenant = [] then (False, None)
      else case active_voice_carrier_keys includes_voice subs tenant now of
             [] \<Rightarrow> (False, None) | k # _ \<Rightarrow> (True, Some k))"

datatype gate_reason = GateOk | GateSuspended | GateNoActive

record gate_result =
  gate_allowed :: bool
  gate_why :: gate_reason
  gate_plan_key :: "string option"
  is_grandfathered :: bool

definition HOUSEWIFE_FEATURE_KEY :: string where "HOUSEWIFE_FEATURE_KEY = ''housewife_assistant''"

definition gate_check :: "subscription list \<Rightarrow> string \<Rightarrow> gate_result" where
  "gate_check subs tenant =
     (case find (\<lambda>s. sub_tenant s = tenant \<and> sub_feature s = HOUSEWIFE_FEATURE_KEY \<and> sub_status s = ''active'') subs of
        Some s \<Rightarrow> \<lparr>gate_allowed = True, gate_why = GateOk, gate_plan_key = Some (plan_key s),
                   is_grandfathered = (grandfathered_at s \<noteq> None)\<rparr>
      | None \<Rightarrow>
          if list_ex (\<lambda>s. sub_tenant s = tenant \<and> sub_feature s = HOUSEWIFE_FEATURE_KEY \<and> sub_status s = ''suspended'') subs
          then \<lparr>gate_allowed = False, gate_why = GateSuspended, gate_plan_key = None, is_grandfathered = False\<rparr>
          else \<lparr>gate_allowed = False, gate_why = GateNoActive, gate_plan_key = None, is_grandfathered = False\<rparr>)"

section \<open>Properties\<close>

lemma offpeak_cases: "offpeak_fifths now = 4 \<or> offpeak_fifths now = 5"
  by (auto simp: offpeak_fifths_def Let_def split: option.split)

lemma ceil_fifths: "0 \<le> (r :: int) \<Longrightarrow> f = 4 \<or> f = 5 \<Longrightarrow> 4 * r \<le> 5 * ((r * f + 4) div 5) \<and> (r * f + 4) div 5 \<le> r"
  by auto

text \<open>
  A call costs between four fifths of its tokens times the rate of the model and the whole,
  rounded up, and nothing exactly if it used no tokens or the model is the free one.
\<close>

theorem credits_bounds:
  fixes model p c now
  defines "key \<equiv> map lower_ascii (strip (case model of None \<Rightarrow> [] | Some m \<Rightarrow> m))"
    and "tokens \<equiv> max 0 p + max 0 c"
  shows "(if key = ''mimo-v2-tts'' then credits_for model p c now = 0
    else 4 * (tokens * model_rate key) \<le> 5 * credits_for model p c now \<and>
         credits_for model p c now \<le> tokens * model_rate key \<and> (credits_for model p c now = 0 \<longleftrightarrow> tokens = 0))"
proof (cases "tokens = 0 \<or> key = ''mimo-v2-tts''")
  case True
  then show ?thesis by (auto simp: credits_for_def Let_def key_def tokens_def)
next
  case False
  have "0 \<le> tokens" by (simp add: tokens_def)
  with False have t: "0 < tokens" by simp
  moreover have r: "0 < model_rate key" by (simp add: model_rate_def)
  ultimately have raw: "0 < tokens * model_rate key" by simp
  have c: "credits_for model p c now = (tokens * model_rate key * offpeak_fifths now + 4) div 5"
    using False by (simp add: credits_for_def Let_def key_def tokens_def)
  from ceil_fifths [OF _ offpeak_cases, of "tokens * model_rate key" now] raw have
    b: "4 * (tokens * model_rate key) \<le> 5 * credits_for model p c now" "credits_for model p c now \<le> tokens * model_rate key"
    by (auto simp: c)
  with raw False show ?thesis by auto
qed

text \<open>The discount window ends a second early: in the last second before midnight UTC there is none.\<close>

lemma offpeak_misses_last_second:
  "offpeak_fifths (Some (24 * HOUR - 1)) = 5 \<and> offpeak_fifths (Some (24 * HOUR - 1000000)) = 4"
  by (simp add: offpeak_fifths_def DAY_def HOUR_def OFFPEAK_START_UTC_def OFFPEAK_END_UTC_def)

text \<open>
  Voice is allowed exactly if some running subscription is for an agent that includes it, and
  then it is billed to the least such agent, whatever the order of the rows.
\<close>

theorem voice_access_iff:
  assumes "tenant \<noteq> []"
  shows "resolve_voice_access includes_voice subs tenant now =
    (if {k \<in> active_feature_keys subs tenant now. includes_voice k} = {} then (False, None)
     else (True, Some (Min {k \<in> active_feature_keys subs tenant now. includes_voice k})))"
proof -
  let ?ks = "active_voice_carrier_keys includes_voice subs tenant now"
  have set: "set ?ks = {k \<in> active_feature_keys subs tenant now. includes_voice k}"
    by (auto simp: active_voice_carrier_keys_def active_feature_keys_def)
  have sorted: "sorted ?ks" by (simp add: active_voice_carrier_keys_def)
  show ?thesis
  proof (cases ?ks)
    case Nil
    with set assms show ?thesis by (simp add: resolve_voice_access_def)
  next
    case (Cons k ks)
    have "Min (set ?ks) = k" using sorted by (intro Min_eqI) (auto simp: Cons)
    with set Cons assms show ?thesis by (auto simp: resolve_voice_access_def)
  qed
qed

theorem voice_access_iff_witness:
  "resolve_voice_access (\<lambda>k. True) [] ''t1'' 0 = (False, None)"
  by (subst voice_access_iff) (simp_all add: active_feature_keys_def)

text \<open>
  Usage counts where it belongs: recording a call adds its credits to the status of its own
  tenant and feature, if it falls into the period, and changes no other; so a subscription
  that is exhausted stays so while its row is the active one.
\<close>

theorem usage_counted:
  assumes "record_llm_usage tenant feature model p c ovr at execs = (execs', n)"
    and "active_subscription subs tenant' feature' now = Some s"
  shows "credits_used (get_quota_status subs execs' tenant' feature' now now') =
      credits_used (get_quota_status subs execs tenant' feature' now now') +
        (if tenant' = tenant \<and> feature' = feature \<and> (case starts_at s of None \<Rightarrow> now' | Some t \<Rightarrow> t) \<le> at \<and>
            (case active_until s of None \<Rightarrow> True | Some t \<Rightarrow> at \<le> t) then n else 0) \<and>
    (quota_exhausted (get_quota_status subs execs tenant' feature' now now') \<and> 0 \<le> n \<longrightarrow>
       quota_exhausted (get_quota_status subs execs' tenant' feature' now now'))"
proof -
  have e: "execs' = execs @ [\<lparr>ex_tenant = tenant, ex_feature = feature, credits_consumed = n, created_at = at\<rparr>]"
    using assms(1) by (auto simp: record_llm_usage_def Let_def)
  have "sum_credits execs' tenant' feature' start until = sum_credits execs tenant' feature' start until +
      (if tenant' = tenant \<and> feature' = feature \<and> start \<le> at \<and> (case until of None \<Rightarrow> True | Some t \<Rightarrow> at \<le> t) then n else 0)"
    for start until
    by (cases until) (simp_all add: sum_credits_def e)
  then show ?thesis using assms(2)
    by (cases "credits_monthly_quota s") (auto simp: get_quota_status_def Let_def)
qed

definition sample_subscription :: subscription where
  "sample_subscription = \<lparr>sub_tenant = ''t1'', sub_feature = ''housewife_assistant'', sub_status = ''active'',
     starts_at = Some 0, active_until = None, quantity = 1, grandfathered_at = None, plan_key = ''sreda_free'',
     plan_feature = ''housewife_assistant'', plan_sort_order = 1, credits_monthly_quota = Some 500\<rparr>"

theorem usage_counted_witness:
  "credits_used (get_quota_status [sample_subscription]
     (fst (record_llm_usage ''t1'' ''housewife_assistant'' (Some '' MIMO-v2.5 '') 100 20 None 5 [])) ''t1''
     ''housewife_assistant'' 9 9) = 120"
proof -
  have r: "record_llm_usage ''t1'' ''housewife_assistant'' (Some '' MIMO-v2.5 '') 100 20 None 5 [] =
      ([\<lparr>ex_tenant = ''t1'', ex_feature = ''housewife_assistant'', credits_consumed = 120, created_at = 5\<rparr>], 120)"
    by code_simp
  have a: "active_subscription [sample_subscription] ''t1'' ''housewife_assistant'' 9 = Some sample_subscription"
    by (simp add: active_subscription_def sample_subscription_def in_window_def)
  have "starts_at sample_subscription = Some 0" "active_until sample_subscription = None"
    "credits_used (get_quota_status [sample_subscription] [] ''t1'' ''housewife_assistant'' 9 9) = 0"
    by (simp_all add: sample_subscription_def) code_simp
  with usage_counted [OF r a, of 9] show ?thesis by (simp add: r)
qed

end
