(* ===== verification/VoiceGate.thy ===== *)
theory VoiceGate
  imports Quota Budget
begin

text \<open>
  \<open>_maybe_transcribe_voice\<close> (\<open>services/telegram_bot.py\<close>) and \<open>_maybe_transcribe_max_voice\<close>
  (\<open>services/max_inbound.py\<close>): the gate a voice message passes before it is transcribed, with
  the reservations of a free tenant and their refunds. What the messenger, the audio probe and
  the recognizer answer are fields of the environment; an exception the code does not catch
  escapes. Texts for the user are named, not quoted.
\<close>

section \<open>State and environment\<close>

datatype notice =
    VoiceNotIncluded | VoiceBroken | SubscriptionExhausted | TooLong | UpgradeLlm | DownloadFailed
  | TypeInstead | UpgradeVoice | NotUnderstood

record 'n voice_state =
  usage_tbl :: "'n usage_table"
  executions :: "ai_execution list"
  notices :: "notice list"

datatype voice_result = Passthrough | Stopped | Transcribed string | Escaped

text \<open>Answers of collaborators: the error class the code catches, or another exception.\<close>

datatype 'a answer = Answer 'a | Refused | Oversize | Crashed

record 'n voice_env =
  has_voice :: bool
  v_tenant :: string
  voice_module :: bool
  includes_voice :: "string \<Rightarrow> bool"
  v_subs :: "subscription list"
  v_now :: int
  claimed_duration :: int
  recognizer :: bool
  daily_key :: string
  monthly_key :: string
  llm_fault :: "nat \<Rightarrow> db_fault option"
  voice_fault :: "nat \<Rightarrow> db_fault option"
  has_file_id :: bool
  file_info :: "bool answer" \<comment> \<open>whether it holds a path\<close>
  download :: "int answer" \<comment> \<open>the number of bytes\<close>
  probe :: "'n answer"
  recognize :: "string answer"
  send_raises :: "notice \<Rightarrow> bool"

definition VOICE_MAX_DURATION_SECONDS :: int where "VOICE_MAX_DURATION_SECONDS = 30"
definition VOICE_MAX_BYTES :: int where "VOICE_MAX_BYTES = 1000000"

text \<open>\<open>_send_error\<close> and return; the reply itself may raise what it does not catch.\<close>

definition tell :: "notice \<Rightarrow> 'n voice_state \<Rightarrow> 'n voice_state" where
  "tell n st = st\<lparr>notices := notices st @ [n]\<rparr>"

definition stop_voice :: "'n voice_env \<Rightarrow> notice \<Rightarrow> 'n voice_state \<Rightarrow> 'n voice_state \<times> voice_result" where
  "stop_voice env n st = (tell n st, if send_raises env n then Escaped else Stopped)"

definition llm_periods :: "'n :: linordered_idom voice_env \<Rightarrow> 'n period_spec list" where
  "llm_periods env = free_llm_periods (daily_key env) (monthly_key env)"

definition voice_periods :: "'n :: linordered_idom voice_env \<Rightarrow> 'n period_spec list" where
  "voice_periods env = free_voice_periods (daily_key env) (monthly_key env)"

definition refund_llm :: "'n :: linordered_idom voice_env \<Rightarrow> 'n voice_state \<Rightarrow> 'n voice_state" where
  "refund_llm env st = st\<lparr>usage_tbl := refund (v_tenant env) ''llm_turns'' 1 (llm_periods env) (usage_tbl st)\<rparr>"

definition refund_voice :: "'n :: linordered_idom voice_env \<Rightarrow> 'n \<Rightarrow> 'n voice_state \<Rightarrow> 'n voice_state" where
  "refund_voice env d st =
     st\<lparr>usage_tbl := refund (v_tenant env) ''voice_stt_seconds'' d (voice_periods env) (usage_tbl st)\<rparr>"

text \<open>Tell the user, then give the turn back if it was reserved.\<close>

definition stop_refund :: "'n :: linordered_idom voice_env \<Rightarrow> bool \<Rightarrow> notice \<Rightarrow> 'n voice_state \<Rightarrow> 'n voice_state \<times> voice_result" where
  "stop_refund env free n st =
     (if send_raises env n then (tell n st, Escaped)
      else ((if free then refund_llm env (tell n st) else tell n st), Stopped))"

section \<open>Checks before anything is reserved\<close>

definition is_free :: "'n voice_env \<Rightarrow> bool" where
  "is_free env =
     (let g = gate_check (v_subs env) (v_tenant env) in
      gate_plan_key g = Some ''sreda_free'' \<and> \<not> is_grandfathered g)"

text \<open>Access and the agent to bill; \<open>Inl\<close> is the notice with which the gate stops.\<close>

definition voice_access :: "'n voice_env \<Rightarrow> ai_execution list \<Rightarrow> notice + string" where
  "voice_access env execs =
     (if \<not> voice_module env then Inl VoiceNotIncluded
      else case resolve_voice_access (includes_voice env) (v_subs env) (v_tenant env) (v_now env) of
        (False, _) \<Rightarrow> Inl VoiceNotIncluded
      | (True, None) \<Rightarrow> Inl VoiceBroken
      | (True, Some billing) \<Rightarrow>
          (let q = get_quota_status (v_subs env) execs (v_tenant env) billing (v_now env) (v_now env) in
           if is_subscribed q \<and> quota_exhausted q then Inl SubscriptionExhausted else Inr billing))"

section \<open>From the audio to the transcript\<close>

definition transcribe :: "'n :: linordered_idom voice_env \<Rightarrow> string \<Rightarrow> 'n option \<Rightarrow> 'n voice_state \<Rightarrow> 'n voice_state \<times> voice_result" where
  "transcribe env billing reserved st =
     (case recognize env of
        Answer txt \<Rightarrow>
          (st\<lparr>executions := fst (record_api_usage (v_tenant env) billing 1 (v_now env) (executions st))\<rparr>, Transcribed txt)
      | Crashed \<Rightarrow> (st, Escaped)
      | _ \<Rightarrow>
          (if send_raises env NotUnderstood then (tell NotUnderstood st, Escaped)
           else case reserved of
                  None \<Rightarrow> (tell NotUnderstood st, Stopped)
                | Some d \<Rightarrow>
                    ((let st1 = refund_llm env (tell NotUnderstood st) in
                      if d \<noteq> 0 then refund_voice env d st1 else st1), Stopped)))"

definition reserve_and_transcribe ::
    "'n :: linordered_idom voice_env \<Rightarrow> string \<Rightarrow> bool \<Rightarrow> 'n voice_state \<Rightarrow> 'n voice_state \<times> voice_result" where
  "reserve_and_transcribe env billing free st =
     (if \<not> free then transcribe env billing None st
      else case probe env of
        Answer d \<Rightarrow>
          (case try_consume (voice_fault env) (v_tenant env) ''voice_stt_seconds'' d (voice_periods env) (usage_tbl st) of
             Inl _ \<Rightarrow> (st, Escaped)
           | Inr (t, False) \<Rightarrow> stop_voice env UpgradeVoice (refund_llm env (st\<lparr>usage_tbl := t\<rparr>))
           | Inr (t, True) \<Rightarrow> transcribe env billing (Some d) (st\<lparr>usage_tbl := t\<rparr>))
      | Crashed \<Rightarrow> (st, Escaped)
      | _ \<Rightarrow> stop_voice env TypeInstead (refund_llm env st))"

text \<open>The reservation of a turn, and what follows it.\<close>

definition reserve_turn ::
    "'n :: linordered_idom voice_env \<Rightarrow> (bool \<Rightarrow> 'n voice_state \<Rightarrow> 'n voice_state \<times> voice_result) \<Rightarrow> 'n voice_state \<Rightarrow>
     'n voice_state \<times> voice_result" where
  "reserve_turn env fetch st =
     (if \<not> is_free env then fetch False st
      else case try_consume (llm_fault env) (v_tenant env) ''llm_turns'' 1 (llm_periods env) (usage_tbl st) of
             Inl _ \<Rightarrow> (st, Escaped)
           | Inr (t, False) \<Rightarrow> stop_voice env UpgradeLlm (st\<lparr>usage_tbl := t\<rparr>)
           | Inr (t, True) \<Rightarrow> fetch True (st\<lparr>usage_tbl := t\<rparr>))"

section \<open>Telegram\<close>

definition fetch_telegram ::
    "'n :: linordered_idom voice_env \<Rightarrow> string \<Rightarrow> bool \<Rightarrow> 'n voice_state \<Rightarrow> 'n voice_state \<times> voice_result" where
  "fetch_telegram env billing free st =
     (if \<not> has_file_id env then stop_refund env free DownloadFailed st
      else case file_info env of
        Crashed \<Rightarrow> (st, Escaped)
      | Answer True \<Rightarrow>
          (case download env of
             Answer _ \<Rightarrow> reserve_and_transcribe env billing free st
           | Crashed \<Rightarrow> (st, Escaped)
           | _ \<Rightarrow> stop_refund env free DownloadFailed st)
      | _ \<Rightarrow> stop_refund env free DownloadFailed st)"

definition maybe_transcribe_voice :: "'n :: linordered_idom voice_env \<Rightarrow> 'n voice_state \<Rightarrow> 'n voice_state \<times> voice_result" where
  "maybe_transcribe_voice env st =
     (if \<not> has_voice env then (st, Passthrough)
      else case voice_access env (executions st) of
        Inl n \<Rightarrow> stop_voice env n st
      | Inr billing \<Rightarrow>
          if claimed_duration env > VOICE_MAX_DURATION_SECONDS then stop_voice env TooLong st
          else if \<not> recognizer env then stop_voice env VoiceBroken st
          else reserve_turn env (fetch_telegram env billing) st)"

section \<open>MAX\<close>

definition fetch_max ::
    "'n :: linordered_idom voice_env \<Rightarrow> string \<Rightarrow> bool \<Rightarrow> 'n voice_state \<Rightarrow> 'n voice_state \<times> voice_result" where
  "fetch_max env billing free st =
     (case download env of
        Oversize \<Rightarrow> stop_refund env free TooLong st
      | Answer bytes \<Rightarrow>
          if bytes > VOICE_MAX_BYTES then stop_refund env free TooLong st
          else reserve_and_transcribe env billing free st
      | _ \<Rightarrow> stop_refund env free DownloadFailed st)"

text \<open>\<open>_send_error\<close> catches every exception here.\<close>

definition maybe_transcribe_max_voice :: "'n :: linordered_idom voice_env \<Rightarrow> 'n voice_state \<Rightarrow> 'n voice_state \<times> voice_result" where
  "maybe_transcribe_max_voice env0 st =
     (let env = env0\<lparr>send_raises := (\<lambda>_. False)\<rparr> in
      if \<not> has_voice env then (st, Passthrough)
      else case voice_access env (executions st) of
        Inl n \<Rightarrow> stop_voice env n st
      | Inr billing \<Rightarrow>
          if \<not> recognizer env then stop_voice env VoiceBroken st
          else reserve_turn env (fetch_max env billing) st)"

section \<open>Accounts\<close>

text \<open>What a transcribed message of a free tenant is charged, per counter.\<close>

definition llm_key :: "'n :: linordered_idom voice_env \<Rightarrow> usage_key \<Rightarrow> bool" where
  "llm_key env k \<longleftrightarrow> k \<in> key_of (v_tenant env) ''llm_turns'' ` set (llm_periods env)"

definition voice_key :: "'n :: linordered_idom voice_env \<Rightarrow> usage_key \<Rightarrow> bool" where
  "voice_key env k \<longleftrightarrow> k \<in> key_of (v_tenant env) ''voice_stt_seconds'' ` set (voice_periods env)"

definition probed_seconds :: "'n :: linordered_idom voice_env \<Rightarrow> 'n" where
  "probed_seconds env = (case probe env of Answer d \<Rightarrow> d | _ \<Rightarrow> 0)"

definition voice_charge :: "'n :: linordered_idom voice_env \<Rightarrow> usage_key \<Rightarrow> 'n" where
  "voice_charge env k =
     (if llm_key env k then 1 else 0) + (if voice_key env k then probed_seconds env else 0)"

text \<open>
  The balance of a step: no exception escaped, and the counters moved by \<open>due\<close> if the message
  was transcribed and by \<open>back\<close> otherwise.
\<close>

definition settles ::
    "('n :: linordered_idom voice_state \<times> voice_result) \<Rightarrow> 'n voice_state \<Rightarrow> (usage_key \<Rightarrow> 'n) \<Rightarrow> (usage_key \<Rightarrow> 'n) \<Rightarrow> bool" where
  "settles res st due back \<longleftrightarrow>
     (case res of (st', r) \<Rightarrow> r \<noteq> Escaped \<longrightarrow>
        (\<forall>k. used_of (usage_tbl st') k = used_of (usage_tbl st) k + (if \<exists>txt. r = Transcribed txt then due k else back k)) \<and>
        length (executions st') = length (executions st) + (if \<exists>txt. r = Transcribed txt then 1 else 0))"

lemma tell_simps [simp]:
  "usage_tbl (tell n st) = usage_tbl st" "executions (tell n st) = executions st"
  by (simp_all add: tell_def)

lemma refund_simps [simp]:
  "executions (refund_llm env st) = executions st" "executions (refund_voice env d st) = executions st"
  by (simp_all add: refund_llm_def refund_voice_def)

text \<open>The counters never go below what was reserved, so a refund takes exactly that back.\<close>

definition nonneg :: "'n :: linordered_idom voice_state \<Rightarrow> bool" where
  "nonneg st \<longleftrightarrow> (\<forall>k. 0 \<le> used_of (usage_tbl st) k)"

lemma used_refund_llm:
  assumes "\<And>k. llm_key env k \<Longrightarrow> 1 \<le> used_of (usage_tbl st) k"
  shows "used_of (usage_tbl (refund_llm env st)) k = used_of (usage_tbl st) k - (if llm_key env k then 1 else 0)"
  using assms [of k] used_of_refund [of 1 "v_tenant env" "''llm_turns''" "llm_periods env" "usage_tbl st" k]
  by (auto simp: refund_llm_def llm_key_def llm_periods_def)

lemma used_refund_voice:
  assumes "0 \<le> d" and "\<And>k. voice_key env k \<Longrightarrow> d \<le> used_of (usage_tbl st) k"
  shows "used_of (usage_tbl (refund_voice env d st)) k = used_of (usage_tbl st) k - (if voice_key env k then d else 0)"
  using assms(2) [of k] used_of_refund [OF assms(1), of "v_tenant env" "''voice_stt_seconds''" "voice_periods env" "usage_tbl st" k]
  by (auto simp: refund_voice_def voice_key_def voice_periods_def)

lemma keys_apart: "\<not> (llm_key env k \<and> voice_key env k)"
  by (auto simp: llm_key_def voice_key_def key_of_def)

lemma used_consume_llm:
  assumes "try_consume f (v_tenant env) ''llm_turns'' 1 (llm_periods env) t = Inr (t', b)"
  shows "used_of t' k = used_of t k + (if b \<and> llm_key env k then 1 else 0)"
  using consume_all_or_nothing [OF _ assms, of k] by (auto simp: llm_key_def llm_periods_def)

lemma used_consume_voice:
  assumes "try_consume f (v_tenant env) ''voice_stt_seconds'' d (voice_periods env) t = Inr (t', b)"
  shows "used_of t' k = used_of t k + (if b \<and> voice_key env k then d else 0)"
  using consume_all_or_nothing [OF _ assms, of k] by (auto simp: voice_key_def voice_periods_def)

definition llm_due :: "'n :: linordered_idom voice_env \<Rightarrow> usage_key \<Rightarrow> 'n" where
  "llm_due env k = (if llm_key env k then 1 else 0)"

definition voice_due :: "'n :: linordered_idom voice_env \<Rightarrow> 'n \<Rightarrow> usage_key \<Rightarrow> 'n" where
  "voice_due env d k = (if voice_key env k then d else 0)"

lemma settles_stop [simp]:
  "settles (stop_voice env n st) st0 due back \<longleftrightarrow>
     (send_raises env n \<or> (\<forall>k. used_of (usage_tbl st) k = used_of (usage_tbl st0) k + back k) \<and>
        length (executions st) = length (executions st0))"
  by (auto simp: settles_def stop_voice_def)

lemma settles_escaped [simp]: "settles (st, Escaped) st0 due back"
  by (simp add: settles_def)

lemma settles_stop_refund:
  assumes "free \<Longrightarrow> \<forall>k. llm_key env k \<longrightarrow> 1 \<le> used_of (usage_tbl st) k"
  shows "settles (stop_refund env free n st) st due (\<lambda>k. if free then - llm_due env k else 0)"
  using assms used_refund_llm [of env "tell n st"]
  by (auto simp: settles_def stop_refund_def llm_due_def)

lemma settles_transcribe_unreserved: "settles (transcribe env billing None st) st (\<lambda>k. 0) (\<lambda>k. 0)"
  by (auto simp: settles_def transcribe_def record_api_usage_def split: answer.split)

lemma settles_transcribe:
  assumes "0 \<le> d" and "\<forall>k. llm_key env k \<longrightarrow> 1 \<le> used_of (usage_tbl st) k"
    and "\<forall>k. voice_key env k \<longrightarrow> d \<le> used_of (usage_tbl st) k"
  shows "settles (transcribe env billing (Some d) st) st (\<lambda>k. 0) (\<lambda>k. - llm_due env k - voice_due env d k)"
proof -
  have l: "used_of (usage_tbl (refund_llm env (tell n st))) k = used_of (usage_tbl st) k - llm_due env k" for n k
    using assms(2) used_refund_llm [of env "tell n st" k] by (simp add: llm_due_def del: split_paired_All)
  have v: "used_of (usage_tbl (refund_voice env d (refund_llm env (tell n st)))) k =
      used_of (usage_tbl st) k - llm_due env k - voice_due env d k" for n k
  proof -
    have "d \<le> used_of (usage_tbl (refund_llm env (tell n st))) k'" if "voice_key env k'" for k'
      using assms(3) [rule_format, OF that] keys_apart [of env k'] that by (simp add: l llm_due_def)
    from used_refund_voice [OF assms(1) this] show ?thesis by (simp add: l voice_due_def)
  qed
  show ?thesis using l v
    by (auto simp: settles_def transcribe_def record_api_usage_def voice_due_def Let_def split: answer.split)
qed

lemma settles_shift:
  assumes "settles res st due back" and "executions st = executions st0"
    and "\<And>k. used_of (usage_tbl st) k = used_of (usage_tbl st0) k + ext k"
  shows "settles res st0 (\<lambda>k. ext k + due k) (\<lambda>k. ext k + back k)"
  using assms by (auto simp: settles_def algebra_simps)

text \<open>A non-negative duration is all that is asked of the audio probe.\<close>

definition probe_ok :: "'n :: linordered_idom voice_env \<Rightarrow> bool" where
  "probe_ok env \<longleftrightarrow> (case probe env of Answer d \<Rightarrow> 0 \<le> d | _ \<Rightarrow> True)"

lemma settles_reserve:
  assumes "probe_ok env" and "nonneg st" and "free \<Longrightarrow> \<forall>k. llm_key env k \<longrightarrow> 1 \<le> used_of (usage_tbl st) k"
  shows "settles (reserve_and_transcribe env billing free st) st
    (\<lambda>k. if free then voice_due env (probed_seconds env) k else 0) (\<lambda>k. if free then - llm_due env k else 0)"
proof (cases free)
  case True
  note l = assms(3) [OF True]
  have refund: "used_of (usage_tbl (refund_llm env st)) k = used_of (usage_tbl st) k - llm_due env k" for k
    using l used_refund_llm [of env st k] by (simp add: llm_due_def del: split_paired_All)
  show ?thesis
  proof (cases "\<exists>d t. probe env = Answer d \<and>
      try_consume (voice_fault env) (v_tenant env) ''voice_stt_seconds'' d (voice_periods env) (usage_tbl st) = Inr (t, True)")
    case True
    then obtain d t where d: "probe env = Answer d" and t:
      "try_consume (voice_fault env) (v_tenant env) ''voice_stt_seconds'' d (voice_periods env) (usage_tbl st) = Inr (t, True)"
      by blast
    have d0: "0 \<le> d" using assms(1) d by (simp add: probe_ok_def)
    let ?st = "st\<lparr>usage_tbl := t\<rparr>"
    have used: "used_of t k = used_of (usage_tbl st) k + voice_due env d k" for k
      using used_consume_voice [OF t] by (simp add: voice_due_def)
    have "settles (transcribe env billing (Some d) ?st) ?st (\<lambda>k. 0) (\<lambda>k. - llm_due env k - voice_due env d k)"
    proof (rule settles_transcribe [OF d0])
      show "\<forall>k. llm_key env k \<longrightarrow> 1 \<le> used_of (usage_tbl ?st) k"
        using l keys_apart [of env] by (auto simp: used voice_due_def)
      show "\<forall>k. voice_key env k \<longrightarrow> d \<le> used_of (usage_tbl ?st) k"
        using assms(2) by (simp add: used voice_due_def nonneg_def)
    qed
    from settles_shift [OF this, of st "voice_due env d"] used
    have "settles (transcribe env billing (Some d) ?st) st (voice_due env d) (\<lambda>k. - llm_due env k)" by simp
    then show ?thesis using d t \<open>free\<close> by (simp add: reserve_and_transcribe_def probed_seconds_def)
  next
    case False
    have kept: "try_consume f (v_tenant env) m d ss (usage_tbl st) = Inr (t, False) \<Longrightarrow> t = usage_tbl st" for f m d ss t
      using try_consume_cases by fastforce
    have st: "st\<lparr>usage_tbl := usage_tbl st\<rparr> = st" by simp
    show ?thesis using False \<open>free\<close> refund
      by (auto simp: reserve_and_transcribe_def split: answer.split sum.split dest!: kept)
  qed
qed (simp add: reserve_and_transcribe_def settles_transcribe_unreserved)

lemma settles_reserve_turn:
  assumes "nonneg st"
    and "\<And>free st1. nonneg st1 \<Longrightarrow> (free \<Longrightarrow> \<forall>k. llm_key env k \<longrightarrow> 1 \<le> used_of (usage_tbl st1) k) \<Longrightarrow>
       settles (fetch free st1) st1 (\<lambda>k. if free then voice_due env (probed_seconds env) k else 0)
         (\<lambda>k. if free then - llm_due env k else 0)"
  shows "settles (reserve_turn env fetch st) st (\<lambda>k. if is_free env then voice_charge env k else 0) (\<lambda>k. 0)"
proof (cases "is_free env")
  case True
  consider e where "try_consume (llm_fault env) (v_tenant env) ''llm_turns'' 1 (llm_periods env) (usage_tbl st) = Inl e"
    | t where "try_consume (llm_fault env) (v_tenant env) ''llm_turns'' 1 (llm_periods env) (usage_tbl st) = Inr (t, False)"
    | t where "try_consume (llm_fault env) (v_tenant env) ''llm_turns'' 1 (llm_periods env) (usage_tbl st) = Inr (t, True)"
    by (cases "try_consume (llm_fault env) (v_tenant env) ''llm_turns'' 1 (llm_periods env) (usage_tbl st)") auto
  then show ?thesis
  proof cases
    case 2
    then have "t = usage_tbl st" using try_consume_cases by fastforce
    with 2 True show ?thesis by (simp add: reserve_turn_def)
  next
    case (3 t)
    let ?st = "st\<lparr>usage_tbl := t\<rparr>"
    have used: "used_of t k = used_of (usage_tbl st) k + llm_due env k" for k
      using used_consume_llm [OF 3] by (simp add: llm_due_def)
    have "settles (fetch True ?st) ?st (\<lambda>k. voice_due env (probed_seconds env) k) (\<lambda>k. - llm_due env k)"
      using assms(2) [of ?st True] assms(1) used by (simp add: nonneg_def llm_due_def)
    from settles_shift [OF this, of st "llm_due env"] used have
      "settles (fetch True ?st) st (\<lambda>k. llm_due env k + voice_due env (probed_seconds env) k) (\<lambda>k. 0)" by simp
    moreover have "(\<lambda>k. llm_due env k + voice_due env (probed_seconds env) k) = (\<lambda>k. voice_charge env k)"
      by (simp add: llm_due_def voice_due_def voice_charge_def fun_eq_iff)
    ultimately show ?thesis using 3 True by (simp add: reserve_turn_def)
  qed (use True in \<open>simp add: reserve_turn_def\<close>)
next
  case False
  with assms(2) [of st False] assms(1) show ?thesis by (simp add: reserve_turn_def)
qed

lemma settles_fetch_telegram:
  assumes "probe_ok env" and "nonneg st" and "free \<Longrightarrow> \<forall>k. llm_key env k \<longrightarrow> 1 \<le> used_of (usage_tbl st) k"
  shows "settles (fetch_telegram env billing free st) st
    (\<lambda>k. if free then voice_due env (probed_seconds env) k else 0) (\<lambda>k. if free then - llm_due env k else 0)"
  using settles_reserve [OF assms] settles_stop_refund [OF assms(3)]
  by (simp add: fetch_telegram_def split: answer.split bool.split)

lemma settles_fetch_max:
  assumes "probe_ok env" and "nonneg st" and "free \<Longrightarrow> \<forall>k. llm_key env k \<longrightarrow> 1 \<le> used_of (usage_tbl st) k"
  shows "settles (fetch_max env billing free st) st
    (\<lambda>k. if free then voice_due env (probed_seconds env) k else 0) (\<lambda>k. if free then - llm_due env k else 0)"
  using settles_reserve [OF assms] settles_stop_refund [OF assms(3)]
  by (simp add: fetch_max_def split: answer.split)

lemma settles_telegram:
  assumes "nonneg st" and "probe_ok env"
  shows "settles (maybe_transcribe_voice env st) st (\<lambda>k. if is_free env then voice_charge env k else 0) (\<lambda>k. 0)"
proof -
  have "settles (reserve_turn env (fetch_telegram env billing) st) st (\<lambda>k. if is_free env then voice_charge env k else 0) (\<lambda>k. 0)"
    for billing
    by (rule settles_reserve_turn [OF assms(1)]) (rule settles_fetch_telegram [OF assms(2)])
  then show ?thesis by (auto simp: maybe_transcribe_voice_def settles_def [of "(st, Passthrough)"] split: sum.split)
qed

lemma settles_max:
  assumes "nonneg st" and "probe_ok env"
  shows "settles (maybe_transcribe_max_voice env st) st (\<lambda>k. if is_free env then voice_charge env k else 0) (\<lambda>k. 0)"
proof -
  let ?env = "env\<lparr>send_raises := (\<lambda>_. False)\<rparr>"
  have same: "is_free ?env = is_free env" "voice_charge ?env = voice_charge env" "probe_ok ?env"
    using assms(2) by (simp_all add: is_free_def voice_charge_def llm_key_def voice_key_def llm_periods_def
        voice_periods_def probed_seconds_def probe_ok_def fun_eq_iff)
  have "settles (reserve_turn ?env (fetch_max ?env billing) st) st (\<lambda>k. if is_free ?env then voice_charge ?env k else 0) (\<lambda>k. 0)"
    for billing
    by (rule settles_reserve_turn [OF assms(1)]) (rule settles_fetch_max [OF same(3)])
  note this [unfolded same]
  then show ?thesis
    by (auto simp: maybe_transcribe_max_voice_def Let_def settles_def [of "(st, Passthrough)"] split: sum.split)
qed

section \<open>Properties\<close>


definition sample_voice :: "int voice_env" where
  "sample_voice = \<lparr>has_voice = True, v_tenant = ''t1'', voice_module = True, includes_voice = (\<lambda>k. k = ''housewife_assistant''),
     v_subs = [sample_subscription], v_now = 9, claimed_duration = 12, recognizer = True, daily_key = ''2026-06-03'',
     monthly_key = ''2026-06'', llm_fault = (\<lambda>_. None), voice_fault = (\<lambda>_. None), has_file_id = True,
     file_info = Answer True, download = Answer 18000, probe = Answer 12, recognize = Answer ''milk'',
     send_raises = (\<lambda>_. False)\<rparr>"

definition sample_voice_state :: "int voice_state" where
  "sample_voice_state = \<lparr>usage_tbl = sample_usage 9, executions = [], notices = []\<rparr>"

lemma sample_voice_ok: "nonneg sample_voice_state" "probe_ok sample_voice"
  using usage_ok_row [OF sample_usage_ok]
  by (auto simp: nonneg_def sample_voice_state_def used_of_def row_ok_def probe_ok_def sample_voice_def split: option.split)


text \<open>
  The gate of the MAX messenger keeps the same accounts; there no failed reply and no failed
  download can escape it.
\<close>

theorem max_voice_paid_iff_transcribed:
  assumes "maybe_transcribe_max_voice env st = (st', r)" and "nonneg st" and "probe_ok env"
  shows "(r \<noteq> Escaped \<longrightarrow> used_of (usage_tbl st') k = used_of (usage_tbl st) k +
      (if (\<exists>txt. r = Transcribed txt) \<and> is_free env then voice_charge env k else 0)) \<and>
    (r = Escaped \<longrightarrow> recognize env = Crashed \<or> is_free env)"
proof
  show "r \<noteq> Escaped \<longrightarrow> used_of (usage_tbl st') k = used_of (usage_tbl st) k +
      (if (\<exists>txt. r = Transcribed txt) \<and> is_free env then voice_charge env k else 0)"
    using settles_max [OF assms(2,3)] unfolding settles_def assms(1) by (simp del: split_paired_All)
  show "r = Escaped \<longrightarrow> recognize env = Crashed \<or> is_free env"
    using assms(1) by (auto simp: maybe_transcribe_max_voice_def Let_def stop_voice_def reserve_turn_def is_free_def fetch_max_def
        stop_refund_def reserve_and_transcribe_def transcribe_def split: if_splits sum.splits answer.splits)
qed

theorem max_voice_paid_iff_transcribed_witness:
  "used_of (usage_tbl (fst (maybe_transcribe_max_voice (sample_voice\<lparr>recognize := Refused\<rparr>) sample_voice_state)))
     (''t1'', ''llm_turns'', ''daily'', ''2026-06-03'') = 9"
proof -
  let ?env = "sample_voice\<lparr>recognize := Refused\<rparr>"
  have "snd (maybe_transcribe_max_voice ?env sample_voice_state) = Stopped" by code_simp
  then obtain st' where r: "maybe_transcribe_max_voice ?env sample_voice_state = (st', Stopped)"
    by (metis prod.collapse)
  have "probe_ok ?env" by code_simp
  moreover have "used_of (usage_tbl sample_voice_state) (''t1'', ''llm_turns'', ''daily'', ''2026-06-03'') = 9" by code_simp
  ultimately show ?thesis
    using max_voice_paid_iff_transcribed [OF r sample_voice_ok(1), of "(''t1'', ''llm_turns'', ''daily'', ''2026-06-03'')"] by (simp add: r)
qed

text \<open>
  The hypothesis on exceptions is needed for Telegram: a download that fails with another
  exception than \<open>TelegramDeliveryError\<close> keeps the reserved turn.
\<close>

lemma crashed_download_keeps_turn:
  "maybe_transcribe_voice (sample_voice\<lparr>download := Crashed\<rparr>) sample_voice_state =
     (sample_voice_state\<lparr>usage_tbl := sample_usage 10\<rparr>, Escaped)"
  by code_simp

end
