(* ===== verification/LlmBilling.thy ===== *)
theory LlmBilling
  imports PlanSchema
begin

text \<open>
  \<open>runtime/planner/billing.py\<close>: reservations of a token budget for calls of the planner's
  models, from the reservation before the call to exactly one final state. Each helper runs on
  a row it has locked, so it is one step. An argument of \<open>reserve\<close> says what the insertion meets.
\<close>

section \<open>Keys\<close>

datatype billing_error =
    EmptyExecutionId | ColonInExecutionId | EmptyModel | NegativeCallSeq | UnknownPhase | KeyTooLong
  | NonPositiveReservation | NegativeTokens | NoReservation | DoubleCharge | WrongState string | NotLapsed
  | ReservationIntegrity

definition PHASES :: "string list" where
  "PHASES = [''planner'', ''composer'', ''finalize_rescue'']"

definition make_llm_call_id :: "string \<Rightarrow> string \<Rightarrow> int \<Rightarrow> string \<Rightarrow> billing_error + string" where
  "make_llm_call_id execution_id phase call_seq model =
     (if execution_id = [] then Inl EmptyExecutionId
      else if CHR '':'' \<in> set execution_id then Inl ColonInExecutionId
      else if model = [] then Inl EmptyModel
      else if call_seq < 0 then Inl NegativeCallSeq
      else if phase \<notin> set PHASES then Inl UnknownPhase
      else
        (let key = execution_id @ '':'' @ phase @ '':'' @ show_nat (nat call_seq) @ '':'' @ model in
         if length key > 128 then Inl KeyTooLong else Inr key))"

section \<open>Reservations\<close>

record reservation =
  rv_execution :: "string option"
  rv_tenant :: string
  rv_feature :: "string option"
  rv_model :: "string option"
  rv_state :: string
  reserved_tokens :: int
  actual_tokens :: "int option"
  rv_created :: int
  rv_updated :: int
  rv_expires :: "int option"

text \<open>The rows by their unique \<open>llm_call_id\<close>.\<close>

type_synonym reservations = "(string, reservation) dict"

definition TERMINAL_STATES :: "string set" where
  "TERMINAL_STATES = {''charged'', ''released'', ''expired'', ''unknown_provider_outcome''}"

text \<open>A concurrent transaction inserted the key, or the insertion broke another constraint.\<close>

datatype insert_race = NoRace | RowBy reservation | OtherConstraint

definition reserve ::
    "insert_race \<Rightarrow> string \<Rightarrow> string option \<Rightarrow> string \<Rightarrow> string option \<Rightarrow> string option \<Rightarrow> int \<Rightarrow> int \<Rightarrow> int option \<Rightarrow>
     reservations \<Rightarrow> billing_error + (reservations \<times> reservation)" where
  "reserve race llm_call_id execution_id tenant feature model tokens now ttl t =
     (if tokens \<le> 0 then Inl NonPositiveReservation
      else case dget t llm_call_id of
        Some r \<Rightarrow> Inr (t, r)
      | None \<Rightarrow>
          (case race of
             NoRace \<Rightarrow>
               (let r = \<lparr>rv_execution = execution_id, rv_tenant = tenant, rv_feature = feature, rv_model = model,
                         rv_state = ''reserved'', reserved_tokens = tokens, actual_tokens = None,
                         rv_created = now, rv_updated = now,
                         rv_expires = (case ttl of None \<Rightarrow> None | Some s \<Rightarrow> Some (now + s * 1000000))\<rparr>
                in Inr (dput t llm_call_id r, r))
           | RowBy w \<Rightarrow> Inr (dput t llm_call_id w, w)
           | OtherConstraint \<Rightarrow> Inl ReservationIntegrity))"

definition charge :: "string \<Rightarrow> int \<Rightarrow> int \<Rightarrow> reservations \<Rightarrow> billing_error + reservations" where
  "charge llm_call_id tokens now t =
     (if tokens < 0 then Inl NegativeTokens
      else case dget t llm_call_id of
        None \<Rightarrow> Inl NoReservation
      | Some r \<Rightarrow>
          if rv_state r = ''charged'' then (if actual_tokens r = Some tokens then Inr t else Inl DoubleCharge)
          else if rv_state r \<noteq> ''reserved'' then Inl (WrongState (rv_state r))
          else Inr (dput t llm_call_id (r\<lparr>rv_state := ''charged'', actual_tokens := Some tokens, rv_updated := now\<rparr>)))"

definition release :: "string \<Rightarrow> int \<Rightarrow> reservations \<Rightarrow> billing_error + reservations" where
  "release llm_call_id now t =
     (case dget t llm_call_id of
        None \<Rightarrow> Inl NoReservation
      | Some r \<Rightarrow>
          if rv_state r = ''released'' then Inr t
          else if rv_state r \<noteq> ''reserved'' then Inl (WrongState (rv_state r))
          else Inr (dput t llm_call_id (r\<lparr>rv_state := ''released'', rv_updated := now\<rparr>)))"

definition mark_unknown_provider_outcome :: "string \<Rightarrow> int \<Rightarrow> reservations \<Rightarrow> billing_error + reservations" where
  "mark_unknown_provider_outcome llm_call_id now t =
     (case dget t llm_call_id of
        None \<Rightarrow> Inl NoReservation
      | Some r \<Rightarrow>
          if rv_state r = ''unknown_provider_outcome'' then Inr t
          else if rv_state r \<noteq> ''reserved'' then Inl (WrongState (rv_state r))
          else Inr (dput t llm_call_id
                 (r\<lparr>rv_state := ''unknown_provider_outcome'', actual_tokens := Some (reserved_tokens r), rv_updated := now\<rparr>)))"

definition expire :: "string \<Rightarrow> int \<Rightarrow> reservations \<Rightarrow> billing_error + reservations" where
  "expire llm_call_id now t =
     (case dget t llm_call_id of
        None \<Rightarrow> Inl NoReservation
      | Some r \<Rightarrow>
          if rv_state r = ''expired'' then Inr t
          else if rv_state r \<noteq> ''reserved'' then Inl (WrongState (rv_state r))
          else case rv_expires r of
            None \<Rightarrow> Inl NotLapsed
          | Some e \<Rightarrow>
              if e \<ge> now then Inl NotLapsed
              else Inr (dput t llm_call_id (r\<lparr>rv_state := ''expired'', rv_updated := now\<rparr>)))"

section \<open>Histories\<close>

text \<open>What a row says in each state; the constraint of the table on states is part of it.\<close>

definition reservation_ok :: "reservation \<Rightarrow> bool" where
  "reservation_ok r \<longleftrightarrow> 0 < reserved_tokens r \<and>
     (rv_state r \<in> {''reserved'', ''released'', ''expired''} \<and> actual_tokens r = None \<or>
      rv_state r = ''charged'' \<and> (\<exists>n\<ge>0. actual_tokens r = Some n) \<or>
      rv_state r = ''unknown_provider_outcome'' \<and> actual_tokens r = Some (reserved_tokens r))"

inductive billing_step :: "reservations \<Rightarrow> reservations \<Rightarrow> bool" where
  bs_reserve: "(\<And>w. race = RowBy w \<Longrightarrow> reservation_ok w) \<Longrightarrow>
     reserve race k execution_id tenant feature model tokens now ttl t = Inr (t', r) \<Longrightarrow> billing_step t t'"
| bs_charge: "charge k tokens now t = Inr t' \<Longrightarrow> billing_step t t'"
| bs_release: "release k now t = Inr t' \<Longrightarrow> billing_step t t'"
| bs_unknown: "mark_unknown_provider_outcome k now t = Inr t' \<Longrightarrow> billing_step t t'"
| bs_expire: "expire k now t = Inr t' \<Longrightarrow> billing_step t t'"

inductive_cases billing_stepE: "billing_step t t'"

text \<open>A step leaves the table alone, adds a row, or settles one that is reserved.\<close>

definition settles_row :: "reservation \<Rightarrow> reservation \<Rightarrow> bool" where
  "settles_row r r' \<longleftrightarrow> rv_state r = ''reserved'' \<and> rv_state r' \<in> TERMINAL_STATES \<and>
     reserved_tokens r' = reserved_tokens r \<and> (reservation_ok r \<longrightarrow> reservation_ok r')"

definition transition :: "string \<Rightarrow> reservations \<Rightarrow> reservations \<Rightarrow> bool" where
  "transition k t t' \<longleftrightarrow>
     t' = t \<or> (\<exists>r r'. dget t k = Some r \<and> t' = dput t k r' \<and> settles_row r r')"

lemma transition_put: "dget t k = Some r \<Longrightarrow> settles_row r r' \<Longrightarrow> transition k t (dput t k r')"
  unfolding transition_def by blast

lemma charge_transition: "charge k n now t = Inr t' \<Longrightarrow> transition k t t'"
  by (auto simp: charge_def settles_row_def TERMINAL_STATES_def reservation_ok_def split: if_splits option.splits
      intro!: transition_put) (simp add: transition_def)

lemma release_transition: "release k now t = Inr t' \<Longrightarrow> transition k t t'"
  by (auto simp: release_def settles_row_def TERMINAL_STATES_def reservation_ok_def split: if_splits option.splits
      intro!: transition_put) (simp add: transition_def)

lemma unknown_transition: "mark_unknown_provider_outcome k now t = Inr t' \<Longrightarrow> transition k t t'"
  by (auto simp: mark_unknown_provider_outcome_def settles_row_def TERMINAL_STATES_def reservation_ok_def
      split: if_splits option.splits intro!: transition_put) (simp add: transition_def)

lemma expire_transition: "expire k now t = Inr t' \<Longrightarrow> transition k t t'"
  by (auto simp: expire_def settles_row_def TERMINAL_STATES_def reservation_ok_def split: if_splits option.splits
      intro!: transition_put) (simp add: transition_def)

lemma reserve_new:
  assumes "reserve race k ex tn f m n now ttl t = Inr (t', r)" and "\<And>w. race = RowBy w \<Longrightarrow> reservation_ok w"
  shows "(t' = t \<or> dget t k = None \<and> t' = dput t k r \<and> reservation_ok r) \<and> dget t' k = Some r"
  using assms by (auto simp: reserve_def Let_def reservation_ok_def split: if_splits option.splits insert_race.splits)

lemma billing_step_cases:
  assumes "billing_step t t'"
  obtains (same) "t' = t"
  | (new) k r where "dget t k = None" "t' = dput t k r" "reservation_ok r"
  | (settled) k r r' where "dget t k = Some r" "t' = dput t k r'" "settles_row r r'"
proof -
  from assms consider k where "transition k t t'"
    | race k ex tn f m n now ttl r where "\<And>w. race = RowBy w \<Longrightarrow> reservation_ok w" "reserve race k ex tn f m n now ttl t = Inr (t', r)"
    by (cases rule: billing_step.cases)
      (blast dest: charge_transition release_transition unknown_transition expire_transition)+
  then show thesis
  proof cases
    case (1 k)
    then show thesis using same settled by (auto simp: transition_def)
  next
    case 2
    from reserve_new [OF 2(2,1)] show thesis using same new by blast
  qed
qed

definition billing_ok :: "reservations \<Rightarrow> bool" where
  "billing_ok t \<longleftrightarrow> dict_ok t \<and> (\<forall>k r. dget t k = Some r \<longrightarrow> reservation_ok r)"

lemma billing_step_ok: "billing_ok t \<Longrightarrow> billing_step t t' \<Longrightarrow> billing_ok t'"
  by (erule billing_step_cases) (auto simp: billing_ok_def settles_row_def)

interpretation billing: invariant_system "\<lambda>t. t = []" billing_step billing_ok
  by unfold_locales (simp add: billing_ok_def, rule billing_step_ok)

definition settled_as :: "string \<Rightarrow> reservation \<Rightarrow> reservations \<Rightarrow> bool" where
  "settled_as k r t \<longleftrightarrow> dget t k = Some r \<and> rv_state r \<in> TERMINAL_STATES"

lemma settled_step: "settled_as k r t \<Longrightarrow> billing_step t t' \<Longrightarrow> settled_as k r t'"
  by (erule billing_step_cases) (auto simp: settled_as_def settles_row_def TERMINAL_STATES_def)

interpretation settled: invariant_system "settled_as k r" billing_step "settled_as k r" for k r
  by unfold_locales (simp, rule settled_step)

section \<open>Properties\<close>

definition sample_reservation :: reservation where
  "sample_reservation = \<lparr>rv_execution = Some ''e1'', rv_tenant = ''t1'', rv_feature = None, rv_model = Some ''m'',
     rv_state = ''reserved'', reserved_tokens = 500, actual_tokens = None, rv_created = 0, rv_updated = 0,
     rv_expires = Some 60000000\<rparr>"

definition charged_reservation :: reservation where
  "charged_reservation = sample_reservation\<lparr>rv_state := ''charged'', actual_tokens := Some 120, rv_updated := 9\<rparr>"

lemma sample_billing_steps:
  "billing_step [] [(''c'', sample_reservation)]"
  "billing_step [(''c'', sample_reservation)] [(''c'', charged_reservation)]"
proof -
  show "billing_step [] [(''c'', sample_reservation)]"
    by (rule bs_reserve [where race = NoRace and k = "''c''" and execution_id = "Some ''e1''" and tenant = "''t1''"
          and feature = None and model = "Some ''m''" and tokens = 500 and now = 0 and ttl = "Some 60" and r = sample_reservation])
      (simp_all add: reserve_def sample_reservation_def Let_def)
  show "billing_step [(''c'', sample_reservation)] [(''c'', charged_reservation)]"
    by (rule bs_charge [where k = "''c''" and tokens = 120 and now = 9])
      (simp add: charge_def charged_reservation_def, simp add: sample_reservation_def)
qed

text \<open>
  A call is settled once: a reservation in a final state stays as it is through every later
  reservation, charge, release, expiry and retry, so no call is billed twice and none that was
  released or expired is billed at all.
\<close>

theorem settled_once:
  assumes "billing_step\<^sup>*\<^sup>* t t'" and "dget t k = Some r" and "rv_state r \<in> TERMINAL_STATES"
  shows "dget t' k = Some r"
  using settled.run_inv [OF assms(1), of k r] assms(2,3) by (simp add: settled_as_def)

theorem settled_once_witness: "dget [(''c'', charged_reservation)] ''c'' = Some charged_reservation"
  by (rule settled_once [OF rtranclp.rtrancl_refl, of "[(''c'', charged_reservation)]"])
    (simp_all add: charged_reservation_def TERMINAL_STATES_def)

text \<open>
  What is billed: in every reachable table a row has billed tokens exactly if it is charged or
  its outcome is unknown, these are not negative, and for an unknown outcome they are the whole
  reservation, so that such a call is never billed too little.
\<close>

theorem billed_tokens:
  assumes "reach (\<lambda>t. t = []) billing_step t" and "dget t k = Some r"
  shows "(case actual_tokens r of
       None \<Rightarrow> rv_state r \<in> {''reserved'', ''released'', ''expired''}
     | Some n \<Rightarrow> 0 \<le> n \<and> (rv_state r = ''charged'' \<or> rv_state r = ''unknown_provider_outcome'' \<and> n = reserved_tokens r))"
proof -
  from billing.reach_inv [OF assms(1)] assms(2) have "reservation_ok r" by (simp add: billing_ok_def)
  then show ?thesis by (auto simp: reservation_ok_def)
qed

theorem billed_tokens_witness: "(0 :: int) \<le> 120 \<and> rv_state charged_reservation = ''charged''"
proof -
  have "reach (\<lambda>t. t = []) billing_step ([] :: reservations)" by (rule reach_init) simp
  then have "reach (\<lambda>t. t = []) billing_step [(''c'', charged_reservation)]"
    using sample_billing_steps by (meson reach_step)
  from billed_tokens [OF this, of "''c''" charged_reservation] show ?thesis
    by (simp add: charged_reservation_def)
qed

text \<open>The decimal numeral of a number determines it and has no colon.\<close>

definition numeral_value :: "string \<Rightarrow> nat" where
  "numeral_value ds = foldl (\<lambda>n c. n * 10 + (of_char c - 48)) 0 ds"

lemma numeral_value_show: "numeral_value (show_nat n) = n"
proof (induction n rule: show_nat.induct)
  case (1 n)
  have "of_char (chr (48 + k)) = 48 + k" if "k < 10" for k :: nat
    using that by (simp add: chr_def)
  with 1 show ?case by (subst show_nat.simps) (auto simp: numeral_value_def)
qed

lemma show_nat_inject [simp]: "show_nat m = show_nat n \<longleftrightarrow> m = n"
  by (metis numeral_value_show)

lemma show_nat_no_colon: "CHR '':'' \<notin> set (show_nat n)"
  using show_nat_digits [of n] by (force simp: is_digit_def in_ranges_def)

lemma phase_no_colon: "p \<in> set PHASES \<Longrightarrow> CHR '':'' \<notin> set p"
  by (auto simp: PHASES_def)

text \<open>
  The key of a call names it: two calls get the same key exactly if they agree on the execution,
  the phase, the index and the model.
\<close>

theorem llm_call_id_injective:
  assumes "make_llm_call_id ex ph seq model = Inr k" and "make_llm_call_id ex' ph' seq' model' = Inr k'"
  shows "k = k' \<longleftrightarrow> ex = ex' \<and> ph = ph' \<and> seq = seq' \<and> model = model'"
proof -
  from assms have c: "CHR '':'' \<notin> set ex" "CHR '':'' \<notin> set ex'" "CHR '':'' \<notin> set ph" "CHR '':'' \<notin> set ph'"
    and s: "0 \<le> seq" "0 \<le> seq'"
    and k: "k = ex @ '':'' @ ph @ '':'' @ show_nat (nat seq) @ '':'' @ model"
      "k' = ex' @ '':'' @ ph' @ '':'' @ show_nat (nat seq') @ '':'' @ model'"
    by (auto simp: make_llm_call_id_def Let_def split: if_splits dest: phase_no_colon)
  have "k = k' \<longleftrightarrow> ex = ex' \<and> ph = ph' \<and> show_nat (nat seq) = show_nat (nat seq') \<and> model = model'"
    by (simp add: k split_at_colon [OF c(1,2)] split_at_colon [OF c(3,4)] split_at_colon [OF show_nat_no_colon show_nat_no_colon])
  with s show ?thesis by auto
qed

theorem llm_call_id_injective_witness:
  "make_llm_call_id ''e1'' ''planner'' 0 ''m:1'' \<noteq> make_llm_call_id ''e1'' ''planner'' 1 ''m:1''"
proof -
  have k: "make_llm_call_id ''e1'' ''planner'' 0 ''m:1'' = Inr ''e1:planner:0:m:1''"
    "make_llm_call_id ''e1'' ''planner'' 1 ''m:1'' = Inr ''e1:planner:1:m:1''" by code_simp+
  from llm_call_id_injective [OF k] show ?thesis by (simp add: k)
qed

text \<open>A reservation expires only once its time to live has passed, and never without one.\<close>

lemma expire_needs_ttl:
  assumes "expire k now t = Inr t'" and "dget t k = Some r" and "rv_state r = ''reserved''"
  shows "\<exists>e. rv_expires r = Some e \<and> e < now"
  using assms by (auto simp: expire_def split: option.splits if_splits)

end
