(* ===== verification/Annotations.thy ===== *)
theory Annotations
  imports ToolSpec Interpolation
begin

text \<open>
  The type-introspection half of \<open>runtime/planner/validator.py\<close>: what the plan validator reads
  off the pydantic input and output models of a tool. Python annotations are a datatype, the
  models an environment from class names to field tables (models may refer to themselves). The
  end of the theory proves that a reference path the validator rejects can never be resolved
  in an output that conforms to the declared model.
\<close>

section \<open>Annotations and models\<close>

text \<open>
  \<open>APlain\<close> is a class below the built-in number and container classes
  (\<open>_DEFINITELY_NOT_STRING\<close>), \<open>AStr\<close> one below \<open>str\<close>, \<open>AModel\<close> one below \<open>BaseModel\<close>,
  \<open>AClass\<close> any other; \<open>AOpaque\<close> is an annotation that is no class (\<open>NewType\<close>, type variables).
  \<open>OSequence\<close> is any other class below \<open>collections.abc.Sequence\<close> or \<open>Set\<close>.
\<close>

datatype origin = OList | OSet | OFrozenset | OTuple | ODict | OSequence | OOther

datatype metadata = MinLen nat | MaxLen nat | OtherMeta string

datatype anno =
    AAny
  | ANone
  | AStr
  | APlain string
  | AModel string
  | AClass string
  | AEllipsis
  | AOpaque string
  | ALiteral "pyval list"
  | AUnion "anno list"
  | AAnnotated anno "metadata list"
  | AGeneric origin "anno list"

datatype validation_alias =
    AliasStr string
  | AliasChoices "validation_alias list"
  | AliasPath "pyval list"

record field_info =
  f_anno :: anno
  f_meta :: "metadata list"
  f_required :: bool
  f_alias :: "string option"
  f_validation_alias :: "validation_alias option"

record model_decl =
  model_fields :: "(string, field_info) dict"
  populate_by_name :: bool

text \<open>
  The classes in scope, and \<open>str\<close> of an annotation object, which the code takes of the
  arguments of any \<open>status\<close> annotation.
\<close>

record type_env =
  model_of :: "string \<Rightarrow> model_decl"
  show_anno :: "anno \<Rightarrow> string"

text \<open>The registry entry with its two pydantic types.\<close>

record typed_spec =
  base_spec :: tool_spec
  in_model :: string
  out_anno :: anno

type_synonym typed_registry = "(string, typed_spec) dict"

definition plain_registry :: "typed_registry \<Rightarrow> registry" where
  "plain_registry treg = map (\<lambda>(k, t). (k, base_spec t)) treg"

section \<open>Accepted input names\<close>

fun iter_validation_alias_keys :: "validation_alias \<Rightarrow> string list" where
  "iter_validation_alias_keys (AliasStr s) = [s]"
| "iter_validation_alias_keys (AliasChoices cs) = concat (map iter_validation_alias_keys cs)"
| "iter_validation_alias_keys (AliasPath p) = (case p of VStr s # _ \<Rightarrow> [s] | _ \<Rightarrow> [])"

definition field_validation_keys :: "field_info \<Rightarrow> string list" where
  "field_validation_keys fi =
     (case f_validation_alias fi of
        Some va \<Rightarrow> iter_validation_alias_keys va
      | None \<Rightarrow> (case f_alias fi of Some a \<Rightarrow> [a] | None \<Rightarrow> []))"

text \<open>The input keys of one field; a field without alias is known by its name.\<close>

definition field_input_keys :: "bool \<Rightarrow> string \<Rightarrow> field_info \<Rightarrow> string list" where
  "field_input_keys by_name fname fi =
     (let ks = field_validation_keys fi in
      if ks \<noteq> [] then ks @ (if by_name then [fname] else []) else [fname])"

definition accepted_field_names :: "model_decl \<Rightarrow> string set" where
  "accepted_field_names m =
     set (concat (map (\<lambda>(n, fi). field_input_keys (populate_by_name m) n fi) (model_fields m)))"

definition normalize_to_field_name :: "string \<Rightarrow> model_decl \<Rightarrow> string option" where
  "normalize_to_field_name key m =
     map_option fst
       (find (\<lambda>(n, fi). key \<in> set (field_input_keys (populate_by_name m) n fi)) (model_fields m))"

lemma find_Some_mem: "find P xs = Some x \<Longrightarrow> x \<in> set xs \<and> P x"
  by (induction xs) (auto split: if_splits)

text \<open>The two readings of a key agree: accepted exactly when it stands for a field.\<close>

lemma accepted_iff_normalizes:
  "key \<in> accepted_field_names m \<longleftrightarrow> (\<exists>n\<in>set (dkeys (model_fields m)). normalize_to_field_name key m = Some n)"
proof -
  let ?P = "\<lambda>(n, fi). key \<in> set (field_input_keys (populate_by_name m) n fi)"
  have "key \<in> accepted_field_names m \<longleftrightarrow> (\<exists>x\<in>set (model_fields m). ?P x)"
    by (auto simp: accepted_field_names_def Bex_def)
  also have "\<dots> \<longleftrightarrow> find ?P (model_fields m) \<noteq> None" by (auto simp: find_None_iff)
  also have "\<dots> \<longleftrightarrow> (\<exists>n\<in>set (dkeys (model_fields m)). normalize_to_field_name key m = Some n)"
    by (cases "find ?P (model_fields m)")
      (auto simp: normalize_to_field_name_def dest!: find_Some_mem intro: rev_image_eqI)
  finally show ?thesis .
qed

section \<open>Reading annotations\<close>

definition annotation_with_constraints :: "field_info \<Rightarrow> anno" where
  "annotation_with_constraints fi =
     (if f_meta fi = [] then f_anno fi else AAnnotated (f_anno fi) (f_meta fi))"

definition is_vstr :: "pyval \<Rightarrow> bool" where
  "is_vstr v = (case v of VStr _ \<Rightarrow> True | _ \<Rightarrow> False)"

fun annotation_accepts_string :: "anno \<Rightarrow> bool" where
  "annotation_accepts_string ANone = False"
| "annotation_accepts_string (AAnnotated a _) = annotation_accepts_string a"
| "annotation_accepts_string (AUnion as) = list_ex annotation_accepts_string as"
| "annotation_accepts_string (ALiteral vs) = list_all is_vstr vs"
| "annotation_accepts_string (APlain _) = False"
| "annotation_accepts_string (AGeneric orig _) = (orig \<notin> {OList, OSet, OFrozenset, OTuple, ODict})"
| "annotation_accepts_string _ = True"

text \<open>The first arm of a union that is not \<open>None\<close>.\<close>

lemma size_find [termination_simp]: "find P as = Some a \<Longrightarrow> size a < Suc (size_list size as)"
  by (induction as) (auto split: if_splits)

fun strip_optional_and_annotated :: "anno \<Rightarrow> anno" where
  "strip_optional_and_annotated (AAnnotated a _) = strip_optional_and_annotated a"
| "strip_optional_and_annotated (AUnion as) =
     (case find (\<lambda>a. a \<noteq> ANone) as of
        None \<Rightarrow> AUnion as | Some a \<Rightarrow> strip_optional_and_annotated a)"
| "strip_optional_and_annotated a = a"

definition peel_container_element_annotation :: "anno \<Rightarrow> anno option" where
  "peel_container_element_annotation a =
     (case strip_optional_and_annotated a of
        AGeneric orig as \<Rightarrow>
          if orig \<in> {OList, OSet, OFrozenset} then (case as of t # _ \<Rightarrow> Some t | [] \<Rightarrow> None)
          else if orig = OTuple then (case as of [t, AEllipsis] \<Rightarrow> Some t | _ \<Rightarrow> None)
          else if orig = ODict then (case as of _ # t # _ \<Rightarrow> Some t | _ \<Rightarrow> None)
          else None
      | _ \<Rightarrow> None)"

definition peel_list_element_annotation :: "anno \<Rightarrow> anno option" where
  "peel_list_element_annotation a =
     (case strip_optional_and_annotated a of
        AGeneric OList (t # _) \<Rightarrow> Some t
      | _ \<Rightarrow> None)"

definition peel_dict_key_annotation :: "anno \<Rightarrow> anno option" where
  "peel_dict_key_annotation a =
     (case strip_optional_and_annotated a of
        AGeneric ODict (t # _) \<Rightarrow> Some t
      | _ \<Rightarrow> None)"

definition try_extract_basemodel :: "anno \<Rightarrow> string option" where
  "try_extract_basemodel a =
     (case strip_optional_and_annotated a of AModel n \<Rightarrow> Some n | _ \<Rightarrow> None)"

text \<open>\<open>typing.get_args\<close>, of which only the annotations matter, and \<open>isinstance(a, type)\<close>.\<close>

fun get_args :: "anno \<Rightarrow> anno list" where
  "get_args (AUnion as) = as"
| "get_args (AAnnotated a _) = [a]"
| "get_args (AGeneric _ as) = as"
| "get_args _ = []"

fun is_class :: "anno \<Rightarrow> bool" where
  "is_class AAny = True"
| "is_class ANone = True"
| "is_class AStr = True"
| "is_class (APlain _) = True"
| "is_class (AModel _) = True"
| "is_class (AClass _) = True"
| "is_class _ = False"

text \<open>
  \<open>getattr(member, "model_fields")\<close>: an \<open>Annotated\<close> alias forwards the attribute to the
  class inside; \<open>None\<close> is the \<open>AttributeError\<close>.
\<close>

fun fields_attr :: "type_env \<Rightarrow> anno \<Rightarrow> (string, field_info) dict option" where
  "fields_attr E (AModel n) = Some (model_fields (model_of E n))"
| "fields_attr E (AAnnotated a _) = fields_attr E a"
| "fields_attr E _ = None"

text \<open>\<open>str(v) for v in get_args(annotation)\<close>\<close>

definition args_as_str :: "type_env \<Rightarrow> anno \<Rightarrow> string list" where
  "args_as_str E a = (case a of ALiteral vs \<Rightarrow> map py_str vs | _ \<Rightarrow> map (show_anno E) (get_args a))"

definition allowed_status_literals :: "type_env \<Rightarrow> anno \<Rightarrow> string set" where
  "allowed_status_literals E om =
     (let union_t = (case get_args om of [] \<Rightarrow> om | a # _ \<Rightarrow> a)
      in set (concat (map (\<lambda>m. case fields_attr E m of
            None \<Rightarrow> []
          | Some fs \<Rightarrow> (case dget fs ''status'' of
                          None \<Rightarrow> [] | Some fi \<Rightarrow> args_as_str E (f_anno fi))) (get_args union_t))))"

definition output_union_members :: "anno \<Rightarrow> anno list" where
  "output_union_members om =
     (case get_args om of
        [] \<Rightarrow> if is_class om then [om] else []
      | union_t # _ \<Rightarrow> filter is_class (get_args union_t))"

definition output_field_names :: "type_env \<Rightarrow> anno \<Rightarrow> string set" where
  "output_field_names E om =
     set (concat (map (\<lambda>m. case fields_attr E m of None \<Rightarrow> [] | Some fs \<Rightarrow> dkeys fs)
       (output_union_members om)))"

definition member_has_status :: "type_env \<Rightarrow> string \<Rightarrow> anno \<Rightarrow> bool" where
  "member_has_status E st m =
     (case fields_attr E m of
        None \<Rightarrow> False
      | Some fs \<Rightarrow> (case dget fs ''status'' of
                      None \<Rightarrow> False | Some fi \<Rightarrow> st \<in> set (args_as_str E (f_anno fi))))"

definition filter_members_by_status :: "type_env \<Rightarrow> anno list \<Rightarrow> string option \<Rightarrow> anno list" where
  "filter_members_by_status E members st =
     (case st of None \<Rightarrow> members | Some s \<Rightarrow> filter (member_has_status E s) members)"

section \<open>Walking a reference path through the types\<close>

text \<open>The arms of a union without \<open>None\<close>, nested unions flattened, \<open>Annotated\<close> stripped.\<close>

fun strip_annotated :: "anno \<Rightarrow> anno" where
  "strip_annotated (AAnnotated a _) = strip_annotated a"
| "strip_annotated a = a"

fun flatten_union_arms :: "anno \<Rightarrow> anno list option" where
  "flatten_union_arms (AAnnotated a _) = flatten_union_arms a"
| "flatten_union_arms (AUnion as) =
     Some (concat (map (\<lambda>arm.
       if arm = ANone then []
       else case flatten_union_arms arm of Some arms \<Rightarrow> arms | None \<Rightarrow> [strip_annotated arm]) as))"
| "flatten_union_arms _ = None"

definition is_sequence_origin :: "anno \<Rightarrow> bool" where
  "is_sequence_origin a =
     (case a of AGeneric orig _ \<Rightarrow> orig \<in> {OList, OSet, OFrozenset, OTuple, OSequence} | _ \<Rightarrow> False)"

text \<open>
  Verdicts on a path: \<open>Some True\<close> resolvable, \<open>Some False\<close> certain to fail, \<open>None\<close> undecided.
  Over several arms or members the first that holds of: some accepts, some is undecided.
\<close>

definition tri_any :: "bool option list \<Rightarrow> bool option" where
  "tri_any rs =
     (if Some True \<in> set rs then Some True else if None \<in> set rs then None else Some False)"

lemma tri_any_cong [fundef_cong]:
  "xs = ys \<Longrightarrow> (\<And>x. x \<in> set ys \<Longrightarrow> f x = g x) \<Longrightarrow> tri_any (map f xs) = tri_any (map g ys)"
  by (auto simp: tri_any_def)

lemma size_strip: "size (strip_optional_and_annotated a) \<le> size a"
proof (induction a rule: strip_optional_and_annotated.induct)
  case (2 as)
  show ?case
  proof (cases "find (\<lambda>a. a \<noteq> ANone) as")
    case (Some a)
    with 2 size_find [OF Some] show ?thesis by force
  qed simp
qed auto

lemma size_strip_annotated: "size (strip_annotated a) \<le> size a"
  by (induction a rule: strip_annotated.induct) auto

lemma size_flatten: "flatten_union_arms a = Some arms \<Longrightarrow> b \<in> set arms \<Longrightarrow> size b < size a"
proof (induction a arbitrary: arms rule: flatten_union_arms.induct)
  case (2 as)
  then obtain arm where arm: "arm \<in> set as" "arm \<noteq> ANone"
    and b: "b \<in> set (case flatten_union_arms arm of Some arms \<Rightarrow> arms | None \<Rightarrow> [strip_annotated arm])"
    by (auto split: if_splits)
  have "size arm < Suc (size_list size as)"
    using arm(1) by (metis less_Suc_eq_le order_less_imp_le size_list_estimation' order_refl)
  moreover have "size b \<le> size arm"
    using 2(1) [OF arm] b size_strip_annotated [of arm] by (auto split: option.splits intro: less_imp_le)
  ultimately show ?case by simp
qed auto

text \<open>
  \<open>_annotation_path_status\<close> and \<open>_member_path_status\<close>. Each step into a model or through
  \<open>.only\<close> uses up a segment, and the arms of a union are smaller: the walk ends although
  models may contain themselves.
\<close>

function annotation_path_status :: "type_env \<Rightarrow> anno \<Rightarrow> string list \<Rightarrow> bool option"
  and member_path_status :: "type_env \<Rightarrow> anno \<Rightarrow> string list \<Rightarrow> bool option" where
  "annotation_path_status E a [] = Some True"
| "annotation_path_status E a (seg # segs) =
     (case flatten_union_arms a of
        Some arms \<Rightarrow> tri_any (map (\<lambda>arm. annotation_path_status E arm (seg # segs)) arms)
      | None \<Rightarrow>
          (let bare = strip_optional_and_annotated a in
           if seg = ''only'' then
             (case peel_list_element_annotation bare of
                None \<Rightarrow> Some False
              | Some elem \<Rightarrow> annotation_path_status E elem segs)
           else (case try_extract_basemodel bare of
                   Some n \<Rightarrow> member_path_status E (AModel n) (seg # segs)
                 | None \<Rightarrow> if is_sequence_origin bare then Some False else None)))"
| "member_path_status E m [] = Some True"
| "member_path_status E m (seg # segs) =
     (if seg = ''only'' then None
      else if seg \<noteq> [] \<and> hd seg = CHR ''_'' then Some True
      else (case fields_attr E m of
              None \<Rightarrow> None
            | Some fs \<Rightarrow>
                (case dget fs seg of
                   None \<Rightarrow> Some False
                 | Some fi \<Rightarrow> if segs = [] then Some True
                              else annotation_path_status E (f_anno fi) segs)))"
  by pat_completeness auto
termination
  by (relation "measures [\<lambda>x. case x of Inl (_, _, segs) \<Rightarrow> length segs | Inr (_, _, segs) \<Rightarrow> length segs,
        \<lambda>x. case x of Inl _ \<Rightarrow> 1 | Inr _ \<Rightarrow> 0,
        \<lambda>x. case x of Inl (_, a, _) \<Rightarrow> size a | Inr _ \<Rightarrow> 0]")
    (auto dest: size_flatten)

definition ref_field_exists_in_output ::
    "type_env \<Rightarrow> anno \<Rightarrow> string list \<Rightarrow> string option \<Rightarrow> bool option" where
  "ref_field_exists_in_output E om segs narrow =
     (let members = output_union_members om in
      if members = [] then None
      else
        (let ms = filter_members_by_status E members narrow in
         if narrow \<noteq> None \<and> ms = [] then None
         else (case segs of
                 [] \<Rightarrow> Some True
               | first # _ \<Rightarrow>
                   if first \<noteq> [] \<and> hd first = CHR ''_'' then Some True
                   else tri_any (map (\<lambda>m. member_path_status E m segs) ms))))"

section \<open>Outputs that conform to their model\<close>

text \<open>
  A dumped value (the result of \<open>model_dump\<close>) that has the type an annotation declares. A
  model's dump holds declared fields only; what the validator cannot see into (a bare class, a
  dictionary, \<open>Any\<close>) is left unconstrained.
\<close>

inductive conforms :: "type_env \<Rightarrow> anno \<Rightarrow> pyval \<Rightarrow> bool" for E where
  conf_any: "conforms E AAny v"
| conf_none: "conforms E ANone VNone"
| conf_str: "conforms E AStr (VStr s)"
| conf_plain: "conforms E (APlain c) v"
| conf_class: "conforms E (AClass c) v"
| conf_opaque: "conforms E (AOpaque c) v"
| conf_literal: "v \<in> set vs \<Longrightarrow> conforms E (ALiteral vs) v"
| conf_union: "a \<in> set as \<Longrightarrow> conforms E a v \<Longrightarrow> conforms E (AUnion as) v"
| conf_annotated: "conforms E a v \<Longrightarrow> conforms E (AAnnotated a ms) v"
| conf_model:
    "(\<And>k v. (k, v) \<in> set d \<Longrightarrow>
        \<exists>fi. dget (model_fields (model_of E n)) k = Some fi \<and> conforms E (f_anno fi) v) \<Longrightarrow>
      conforms E (AModel n) (VDict d)"
| conf_list: "(\<And>x. x \<in> set xs \<Longrightarrow> conforms E t x) \<Longrightarrow> conforms E (AGeneric OList (t # ts)) (VList xs)"
| conf_seq: "orig \<in> {OList, OSet, OFrozenset, OTuple, OSequence} \<Longrightarrow> v = VList xs \<or> v = VTuple xs \<Longrightarrow>
    orig = OList \<longrightarrow> ts = [] \<Longrightarrow> conforms E (AGeneric orig ts) v"
| conf_generic: "orig \<in> {ODict, OOther} \<Longrightarrow> conforms E (AGeneric orig ts) v"

inductive_cases conforms_noneE [elim!]: "conforms E ANone v"
inductive_cases conforms_unionE [elim!]: "conforms E (AUnion as) v"
inductive_cases conforms_annotatedE [elim!]: "conforms E (AAnnotated a ms) v"
inductive_cases conforms_modelE [elim!]: "conforms E (AModel n) v"
inductive_cases conforms_genericE: "conforms E (AGeneric orig ts) v"
inductive_cases conforms_literalE: "conforms E (ALiteral vs) v"

lemma conforms_strip_annotated: "conforms E a v \<Longrightarrow> conforms E (strip_annotated a) v"
  by (induction a rule: strip_annotated.induct) auto

text \<open>A value of a union is \<open>None\<close> or of one of its flattened arms.\<close>

lemma conforms_flatten:
  "conforms E a v \<Longrightarrow> flatten_union_arms a = Some arms \<Longrightarrow>
     v = VNone \<or> (\<exists>arm\<in>set arms. conforms E arm v)"
proof (induction a arbitrary: arms rule: flatten_union_arms.induct)
  case (2 as)
  from 2(2) obtain arm where arm: "arm \<in> set as" "conforms E arm v" by auto
  show ?case
  proof (cases "arm = ANone")
    case True
    with arm show ?thesis by auto
  next
    case False
    show ?thesis
    proof (cases "flatten_union_arms arm")
      case None
      with False arm 2(3) have "strip_annotated arm \<in> set arms" by (auto intro!: bexI [of _ arm])
      with conforms_strip_annotated [OF arm(2)] show ?thesis by blast
    next
      case (Some ys)
      with False arm(1) 2(3) have "set ys \<subseteq> set arms" by (auto intro!: bexI [of _ arm])
      with 2(1) [OF arm(1) False arm(2) Some] show ?thesis by blast
    qed
  qed
qed auto

text \<open>What is no union is only stripped of \<open>Annotated\<close>.\<close>

lemma strip_no_union:
  "flatten_union_arms a = None \<Longrightarrow> conforms E a v \<Longrightarrow> conforms E (strip_optional_and_annotated a) v"
  by (induction a rule: strip_optional_and_annotated.induct) auto

lemma strip_idem:
  "flatten_union_arms a = None \<Longrightarrow>
     strip_optional_and_annotated (strip_optional_and_annotated a) = strip_optional_and_annotated a"
  by (induction a rule: strip_optional_and_annotated.induct) auto

lemma conforms_sequence:
  "is_sequence_origin a \<Longrightarrow> conforms E a v \<Longrightarrow> \<exists>xs. v = VList xs \<or> v = VTuple xs"
  by (auto simp: is_sequence_origin_def split: anno.splits elim!: conforms_genericE)

text \<open>Names that are attributes of a dumped sequence.\<close>

definition plain_segments :: "string list \<Rightarrow> bool" where
  "plain_segments segs \<longleftrightarrow> ''only'' \<notin> set segs \<and> set segs \<inter> set list_methods = {}"

lemma walk_sequence_fails:
  assumes "plain_segments (f # fs)" and "v = VList xs \<or> v = VTuple xs \<or> v = VNone"
  shows "\<exists>e. walk_fields p v (f # fs) = Inl e"
  using assms by (auto simp: step_field_def plain_segments_def list_methods_def)

lemma plain_segments_Cons: "plain_segments (f # fs) \<Longrightarrow> f \<noteq> ''only'' \<and> plain_segments fs"
  by (auto simp: plain_segments_def)

lemma tri_any_FalseD: "tri_any (map f xs) = Some False \<Longrightarrow> x \<in> set xs \<Longrightarrow> f x = Some False"
  by (cases "f x") (force simp: tri_any_def split: if_splits)+

lemma conforms_fields:
  "conforms E m v \<Longrightarrow> fields_attr E m = Some fs \<Longrightarrow>
     \<exists>d. v = VDict d \<and> (\<forall>k x. dget d k = Some x \<longrightarrow>
       (\<exists>fi. dget fs k = Some fi \<and> conforms E (f_anno fi) x))"
  by (induction E m rule: fields_attr.induct) (auto dest!: dget_Some_mem)

lemma path_rejected_sound:
  "annotation_path_status E a segs = Some False \<Longrightarrow> conforms E a v \<Longrightarrow> plain_segments segs \<Longrightarrow>
     \<exists>e. walk_fields p v segs = Inl e"
  "member_path_status E m segs' = Some False \<Longrightarrow> conforms E m v \<Longrightarrow> plain_segments segs' \<Longrightarrow>
     \<exists>e. walk_fields p v segs' = Inl e"
proof (induction E a segs and E m segs' arbitrary: v and v
    rule: annotation_path_status_member_path_status.induct)
  case (2 E a seg segs)
  note only = plain_segments_Cons [OF 2(6)]
  show ?case
  proof (cases "flatten_union_arms a")
    case (Some arms)
    from conforms_flatten [OF 2(5) Some] show ?thesis
    proof
      assume "v = VNone"
      with walk_sequence_fails [OF 2(6)] show ?thesis by blast
    next
      assume "\<exists>arm\<in>set arms. conforms E arm v"
      then obtain arm where arm: "arm \<in> set arms" "conforms E arm v" by blast
      with 2(4) Some have "annotation_path_status E arm (seg # segs) = Some False"
        by (auto dest: tri_any_FalseD)
      from 2(3) [OF Some arm(1) this arm(2) 2(6)] show ?thesis .
    qed
  next
    case None
    let ?b = "strip_optional_and_annotated a"
    note c = strip_no_union [OF None 2(5)]
    show ?thesis
    proof (cases "try_extract_basemodel ?b")
      case (Some n)
      then have "?b = AModel n"
        using strip_idem [OF None] by (auto simp: try_extract_basemodel_def split: anno.splits)
      with c have "conforms E (AModel n) v" by simp
      moreover have "member_path_status E (AModel n) (seg # segs) = Some False"
        using 2(4) None only Some by simp
      ultimately show ?thesis using 2(2) [OF None refl _ Some _ _ 2(6)] only by (simp del: walk_fields.simps)
    next
      case N: None
      with 2(4) None only have "is_sequence_origin ?b" by (auto simp: Let_def split: if_splits)
      from conforms_sequence [OF this c] walk_sequence_fails [OF 2(6)] show ?thesis by blast
    qed
  qed
next
  case (4 E m seg segs)
  note only = plain_segments_Cons [OF 4(4)]
  from 4(2) only obtain fs where fs: "fields_attr E m = Some fs" and
    neg: "\<not> (seg \<noteq> [] \<and> hd seg = CHR ''_'')"
    by (auto split: if_splits option.splits)
  from conforms_fields [OF 4(3) fs] obtain d where v: "v = VDict d"
    and d: "\<And>k x. dget d k = Some x \<Longrightarrow> \<exists>fi. dget fs k = Some fi \<and> conforms E (f_anno fi) x"
    by blast
  show ?case
  proof (cases "dget d seg")
    case None
    with v neg show ?thesis by (simp add: step_field_def)
  next
    case (Some x)
    from d [OF this] obtain fi where fi: "dget fs seg = Some fi" "conforms E (f_anno fi) x" by blast
    with 4(2) only neg fs have "segs \<noteq> []" "annotation_path_status E (f_anno fi) segs = Some False"
      by (auto split: if_splits)
    with 4(1) [OF _ neg fs fi(1) _ _ fi(2)] only have "\<exists>e. walk_fields p x segs = Inl e" by blast
    with v neg Some show ?thesis by (simp add: step_field_def)
  qed
qed simp_all

text \<open>The status a producer ended with, and unions discriminated by a literal \<open>status\<close>.\<close>

definition status_is :: "string \<Rightarrow> pyval \<Rightarrow> bool" where
  "status_is s out \<longleftrightarrow> (case out of VDict d \<Rightarrow> dget d ''status'' = Some (VStr s) | _ \<Rightarrow> False)"

definition literal_status :: "type_env \<Rightarrow> anno \<Rightarrow> bool" where
  "literal_status E om \<longleftrightarrow>
     (\<forall>m\<in>set (output_union_members om). \<forall>fs fi.
        fields_attr E m = Some fs \<longrightarrow> dget fs ''status'' = Some fi \<longrightarrow> (\<exists>vs. f_anno fi = ALiteral vs))"

lemma member_of_status:
  assumes "m \<in> set (output_union_members om)" and "conforms E m out" and "literal_status E om"
    and "status_is s out" and "fields_attr E m = Some fs"
  shows "member_has_status E s m"
proof -
  from assms(4) obtain d where d: "out = VDict d" "dget d ''status'' = Some (VStr s)"
    by (auto simp: status_is_def split: pyval.splits)
  with conforms_fields [OF assms(2,5)] obtain fi where
    fi: "dget fs ''status'' = Some fi" "conforms E (f_anno fi) (VStr s)" by auto
  with assms(1,3,5) obtain vs where "f_anno fi = ALiteral vs" unfolding literal_status_def by blast
  with fi(2) have "f_anno fi = ALiteral vs" "VStr s \<in> set vs" by (auto elim: conforms_literalE)
  then have "s \<in> set (args_as_str E (f_anno fi))" by (force simp: args_as_str_def py_str_def)
  with fi(1) assms(5) show ?thesis by (simp add: member_has_status_def)
qed

text \<open>
  What a rejection means at run time: whatever the producer returned, provided it conforms to
  a member of its declared output and, for a check narrowed to one status, ended with it.
\<close>

lemma ref_rejected_sound:
  assumes "ref_field_exists_in_output E om segs narrow = Some False"
    and "AModel n \<in> set (output_union_members om)" and "conforms E (AModel n) out"
    and "\<And>s. narrow = Some s \<Longrightarrow> status_is s out \<and> literal_status E om"
    and "plain_segments segs"
  shows "\<exists>e. walk_fields p out segs = Inl e"
proof -
  let ?ms = "filter_members_by_status E (output_union_members om) narrow"
  have t: "tri_any (map (\<lambda>m. member_path_status E m segs) ?ms) = Some False"
    using assms(1) by (auto simp: ref_field_exists_in_output_def Let_def split: if_splits list.splits)
  have "AModel n \<in> set ?ms"
    using assms(2) assms(4) member_of_status [OF assms(2,3)]
    by (auto simp: filter_members_by_status_def split: option.splits)
  from path_rejected_sound(2) [OF tri_any_FalseD [OF t this] assms(3,5)] show ?thesis .
qed

end
