(* ===== verification/ArgChecks.thy ===== *)
theory ArgChecks
  imports Annotations PlanCompiler
begin

text \<open>
  The checks \<open>runtime/planner/validator.py\<close> makes on one action before a plan runs: unknown
  and malformed arguments, references, calls without effect, partial validation of arguments
  that still hold references, branch statuses. A violation keeps its step, tool, field path and
  code; its message is reduced to the texts that vary in it. What pydantic reports for a model
  or an annotation is a parameter.
\<close>

section \<open>Violations\<close>

record violation =
  v_step :: "string option"
  v_tool :: "string option"
  v_path :: "string option"
  v_code :: string
  v_info :: "string list"

definition viol :: "string option \<Rightarrow> string option \<Rightarrow> string option \<Rightarrow> string \<Rightarrow> string list \<Rightarrow> violation" where
  "viol s t path c info = \<lparr>v_step = s, v_tool = t, v_path = path, v_code = c, v_info = info\<rparr>"

definition truthy :: "string option \<Rightarrow> string option" where
  "truthy s = (case s of Some [] \<Rightarrow> None | _ \<Rightarrow> s)"

text \<open>\<open>render_violations\<close>; the message text is given by \<open>msg\<close>.\<close>

definition render_violation :: "(violation \<Rightarrow> string) \<Rightarrow> violation \<Rightarrow> string" where
  "render_violation msg v =
     join_with '': ''
       ((case truthy (v_step v) of
           None \<Rightarrow> []
         | Some s \<Rightarrow> [case truthy (v_tool v) of None \<Rightarrow> s | Some t \<Rightarrow> s @ '' ('' @ t @ '')'']) @
        (case truthy (v_path v) of None \<Rightarrow> [] | Some f \<Rightarrow> [f]) @ [msg v])"

definition render_violations :: "(violation \<Rightarrow> string) \<Rightarrow> violation list \<Rightarrow> string list" where
  "render_violations msg vs = map (render_violation msg) vs"

text \<open>
  One entry of \<open>ValidationError.errors()\<close>, and what pydantic answers: \<open>[]\<close> when
  \<open>model_validate\<close> or \<open>TypeAdapter(...).validate_python\<close> accepts the value.
\<close>

record py_err =
  e_loc :: "string list"
  e_type :: string
  e_msg :: string

record pydantic =
  model_errors :: "string \<Rightarrow> vdict \<Rightarrow> py_err list"
  adapter_errors :: "anno \<Rightarrow> pyval \<Rightarrow> py_err list"

section \<open>Phase 1: structure and references\<close>

definition spec_name :: "typed_spec \<Rightarrow> string option" where
  "spec_name ts = Some (ts_name (base_spec ts))"

definition in_decl :: "type_env \<Rightarrow> typed_spec \<Rightarrow> model_decl" where
  "in_decl E ts = model_of E (in_model ts)"

definition phase1_check_unknown_keys :: "type_env \<Rightarrow> string \<Rightarrow> action \<Rightarrow> typed_spec \<Rightarrow> violation list" where
  "phase1_check_unknown_keys E sid a ts =
     map (\<lambda>k. viol (Some sid) (spec_name ts) (Some k) ''unknown_arg'' [k])
       (filter (\<lambda>k. k \<notin> accepted_field_names (in_decl E ts)) (dkeys (args a)))"

fun iter_dict_keys_with_refs :: "pyval \<Rightarrow> string list" where
  "iter_dict_keys_with_refs (VDict kvs) =
     concat (map (\<lambda>(k, v). (if search_ref k then [k] else []) @ iter_dict_keys_with_refs v) kvs)"
| "iter_dict_keys_with_refs (VList xs) = concat (map iter_dict_keys_with_refs xs)"
| "iter_dict_keys_with_refs (VTuple xs) = concat (map iter_dict_keys_with_refs xs)"
| "iter_dict_keys_with_refs _ = []"

definition phase1_check_ref_in_dict_keys :: "string \<Rightarrow> action \<Rightarrow> typed_spec \<Rightarrow> violation list" where
  "phase1_check_ref_in_dict_keys sid a ts =
     map (\<lambda>k. viol (Some sid) (spec_name ts) (Some (''<dict key '' @ repr_string k @ ''>''))
            ''unsupported_ref_location'' [k])
       (iter_dict_keys_with_refs (VDict (args a)))"

definition phase1_check_ref_syntax :: "string \<Rightarrow> action \<Rightarrow> typed_spec \<Rightarrow> violation list" where
  "phase1_check_ref_syntax sid a ts =
     map (\<lambda>tok. viol (Some sid) (spec_name ts) None ''invalid_ref_syntax'' [tok])
       (iter_malformed_ref_tokens (VDict (args a)))"

text \<open>\<open>match.get("status")\<close> when it is a string.\<close>

definition branch_status :: "outcome_branch \<Rightarrow> string option" where
  "branch_status b = (case dget (match b) ''status'' of Some (VStr s) \<Rightarrow> Some s | _ \<Rightarrow> None)"

text \<open>The statuses of the producer's branches that lead to the consumer, sorted.\<close>

definition reachable_producer_statuses :: "actions \<Rightarrow> string \<Rightarrow> string \<Rightarrow> string list" where
  "reachable_producer_statuses acts producer consumer =
     (case dget acts producer of
        None \<Rightarrow> []
      | Some pa \<Rightarrow> sort (remdups (concat (map (\<lambda>b.
            if next_step b = Some consumer
            then (case branch_status b of Some s \<Rightarrow> if s \<noteq> [] then [s] else [] | None \<Rightarrow> [])
            else []) (expected_outcomes pa)))))"

definition parse_ref_segments :: "string \<Rightarrow> string list" where
  "parse_ref_segments path = tl (split_on (CHR ''.'') path)"

text \<open>
  \<open>_maybe_check_field_path\<close>. The callers have checked that the target is a step of the plan.
\<close>

definition maybe_check_field_path ::
    "type_env \<Rightarrow> typed_registry \<Rightarrow> actions \<Rightarrow> string \<Rightarrow> string \<Rightarrow> string option \<Rightarrow> string option \<Rightarrow>
     string \<Rightarrow> string option \<Rightarrow> violation list" where
  "maybe_check_field_path E treg acts path target host host_tool c narrow =
     (case dget acts target of
        None \<Rightarrow> []
      | Some ta \<Rightarrow>
          (case dget treg (tool ta) of
             None \<Rightarrow> []
           | Some tspec \<Rightarrow>
               (case parse_ref_segments path of
                  [] \<Rightarrow> []
                | seg # segs \<Rightarrow>
                    if ref_field_exists_in_output E (out_anno tspec) (seg # segs) narrow = Some False
                    then [viol host host_tool None c [path, seg]] else [])))"

definition check_arg_ref ::
    "type_env \<Rightarrow> actions \<Rightarrow> typed_registry option \<Rightarrow> string \<Rightarrow> typed_spec \<Rightarrow> string \<Rightarrow> violation list" where
  "check_arg_ref E acts reg sid ts path =
     (case extract_step_id path of
        None \<Rightarrow> []
      | Some target \<Rightarrow>
          if target \<notin> set (dkeys acts)
          then [viol (Some sid) (spec_name ts) None ''unknown_ref_target'' [path, target]]
          else if target = sid
          then [viol (Some sid) (spec_name ts) None ''self_ref'' [path]]
          else (case reg of
                  None \<Rightarrow> []
                | Some treg \<Rightarrow>
                    (let chk = maybe_check_field_path E treg acts path target (Some sid) (spec_name ts)
                                 ''arg_ref_unknown_field''
                     in case reachable_producer_statuses acts target sid of
                          [] \<Rightarrow> chk None
                        | sts \<Rightarrow> concat (map (\<lambda>s. chk (Some s)) sts))))"

definition phase1_check_refs ::
    "type_env \<Rightarrow> string \<Rightarrow> action \<Rightarrow> actions \<Rightarrow> typed_spec \<Rightarrow> typed_registry option \<Rightarrow> violation list" where
  "phase1_check_refs E sid a acts ts reg =
     concat (map (check_arg_ref E acts reg sid ts) (iter_refs (VDict (args a))))"

definition phase1_check_required_any_non_null :: "string \<Rightarrow> action \<Rightarrow> typed_spec \<Rightarrow> violation list" where
  "phase1_check_required_any_non_null sid a ts =
     (case required_any_non_null_args (base_spec ts) of
        None \<Rightarrow> []
      | Some names \<Rightarrow>
          if filter (\<lambda>n. case dget (args a) n of None \<Rightarrow> False | Some v \<Rightarrow> v \<noteq> VNone) names \<noteq> [] then []
          else [viol (Some sid) (spec_name ts) None ''silent_noop_call'' names])"

section \<open>Phase 2: arguments against the input model\<close>

text \<open>The loop over the emitted arguments: values by field name, and the keys each came under.\<close>

definition canonical_step ::
    "model_decl \<Rightarrow> string \<times> pyval \<Rightarrow> vdict \<times> (string, string list) dict \<Rightarrow> vdict \<times> (string, string list) dict" where
  "canonical_step m kv st =
     (case (kv, st) of
        ((key, v), (cargs, emitted)) \<Rightarrow>
          if key \<notin> accepted_field_names m then (cargs, emitted)
          else (case normalize_to_field_name key m of
                  None \<Rightarrow> (cargs, emitted)
                | Some c \<Rightarrow> (dput cargs c v,
                    dput emitted c ((case dget emitted c of None \<Rightarrow> [] | Some ks \<Rightarrow> ks) @ [key]))))"

definition canonical_args :: "model_decl \<Rightarrow> vdict \<Rightarrow> vdict" where
  "canonical_args m d = fst (fold (canonical_step m) d ([], []))"

definition normalize_model_input ::
    "string \<Rightarrow> string option \<Rightarrow> string option \<Rightarrow> model_decl \<Rightarrow> vdict \<Rightarrow> vdict \<times> violation list" where
  "normalize_model_input sid tname pre m d =
     (let (cargs, emitted) = fold (canonical_step m) d ([], [])
      in (cargs, map (\<lambda>(c, ks). viol (Some sid) tname
              (Some (case truthy pre of None \<Rightarrow> c | Some p \<Rightarrow> p @ ''.'' @ c)) ''duplicate_arg'' (sort ks))
            (filter (\<lambda>(c, ks). 1 < length ks) emitted)))"

definition dotted :: "string \<Rightarrow> string list \<Rightarrow> string" where
  "dotted field loc = (let tail = join_with ''.'' loc in if tail = [] then field else field @ ''.'' @ tail)"

definition missing_code :: "string \<Rightarrow> string" where
  "missing_code c = (if c = ''missing'' then ''missing_arg'' else c)"

definition violation_from_pydantic_error :: "string \<Rightarrow> typed_spec \<Rightarrow> py_err \<Rightarrow> violation" where
  "violation_from_pydantic_error sid ts e =
     viol (Some sid) (spec_name ts) (if e_loc e = [] then None else Some (join_with ''.'' (e_loc e)))
       (missing_code (e_type e)) [e_msg e]"

definition is_length_meta :: "metadata \<Rightarrow> bool" where
  "is_length_meta m = (case m of OtherMeta n \<Rightarrow> n = ''Len'' | _ \<Rightarrow> True)"

definition shell_type :: "pyval \<Rightarrow> anno option" where
  "shell_type v =
     (case v of
        VList _ \<Rightarrow> Some (AGeneric OList [AAny])
      | VTuple _ \<Rightarrow> Some (AGeneric OTuple [AAny, AEllipsis])
      | VDict _ \<Rightarrow> Some (AGeneric ODict [AAny, AAny])
      | _ \<Rightarrow> None)"

definition check_container_shell_constraints ::
    "pydantic \<Rightarrow> string \<Rightarrow> string option \<Rightarrow> string \<Rightarrow> pyval \<Rightarrow> anno \<Rightarrow> violation list" where
  "check_container_shell_constraints P sid tname field v a =
     (case a of
        AAnnotated _ ms \<Rightarrow>
          (let lens = filter is_length_meta ms in
           if lens = [] then []
           else (case shell_type v of
                   None \<Rightarrow> []
                 | Some sh \<Rightarrow> map (\<lambda>e. viol (Some sid) tname (Some field) (e_type e) [e_msg e])
                               (adapter_errors P (AAnnotated sh lens) v)))
      | _ \<Rightarrow> [])"

text \<open>A value without references, against its annotation.\<close>

definition check_concrete ::
    "pydantic \<Rightarrow> string \<Rightarrow> string option \<Rightarrow> string \<Rightarrow> pyval \<Rightarrow> anno \<Rightarrow> violation list" where
  "check_concrete P sid tname field v a =
     map (\<lambda>e. viol (Some sid) tname (Some (dotted field (e_loc e))) (e_type e) [e_msg e])
       (adapter_errors P a v)"

lemma canonical_fold_mem:
  "dget (fst (fold (canonical_step m) d st)) n = Some v \<Longrightarrow>
     dget (fst st) n = Some v \<or> v \<in> snd ` set d"
proof (induction d arbitrary: st)
  case (Cons x d)
  from Cons.IH [OF Cons.prems [unfolded fold_simps]] show ?case
    by (cases x; cases st) (auto simp: canonical_step_def split: if_splits option.splits)
qed simp

lemma canonical_args_mem: "dget (canonical_args m d) n = Some v \<Longrightarrow> \<exists>k. (k, v) \<in> set d"
  unfolding canonical_args_def by (drule canonical_fold_mem) force

lemma size_canonical [termination_simp]:
  assumes "dget (canonical_args m d) n = Some v"
  shows "size v < Suc (size_list (\<lambda>x. Suc (size (snd x))) d)"
proof -
  obtain k where "(k, v) \<in> set d" using canonical_args_mem [OF assms] by blast
  then show ?thesis by (induction d) auto
qed

lemma size_enumerate [termination_simp]:
  "(i, x) \<in> set (enumerate n xs) \<Longrightarrow> size x < Suc (size_list size xs)"
proof -
  assume "(i, x) \<in> set (enumerate n xs)"
  then have "x \<in> set xs" by (auto simp: enumerate_eq_zip dest: set_zip_rightD)
  then show ?thesis by (simp add: less_Suc_eq_le size_list_estimation')
qed

text \<open>
  \<open>_validate_field_value\<close> and \<open>_validate_nested_basemodel_partial\<close>. Both recurse into the
  members of the value. A dictionary key that is no reference is a text without references,
  so the call for it ends in the concrete check.
\<close>

function validate_field_value ::
    "type_env \<Rightarrow> pydantic \<Rightarrow> string \<Rightarrow> string option \<Rightarrow> string \<Rightarrow> pyval \<Rightarrow> anno \<Rightarrow> violation list"
  and validate_nested ::
    "type_env \<Rightarrow> pydantic \<Rightarrow> string \<Rightarrow> string option \<Rightarrow> string \<Rightarrow> vdict \<Rightarrow> string \<Rightarrow> violation list" where
  "validate_field_value E P sid tname field v a =
     (if is_full_ref_string v then []
      else if \<not> contains_ref v then check_concrete P sid tname field v a
      else case v of
        VStr s \<Rightarrow>
          if annotation_accepts_string a then []
          else [viol (Some sid) tname (Some field) ''invalid_arg_type'' [s]]
      | VList xs \<Rightarrow>
          check_container_shell_constraints P sid tname field v a @
          (case peel_container_element_annotation a of
             None \<Rightarrow> []
           | Some t \<Rightarrow> concat (map (\<lambda>(i, x).
               validate_field_value E P sid tname (field @ ''['' @ show_nat i @ '']'') x t) (enumerate 0 xs)))
      | VTuple xs \<Rightarrow>
          check_container_shell_constraints P sid tname field v a @
          (case peel_container_element_annotation a of
             None \<Rightarrow> []
           | Some t \<Rightarrow> concat (map (\<lambda>(i, x).
               validate_field_value E P sid tname (field @ ''['' @ show_nat i @ '']'') x t) (enumerate 0 xs)))
      | VDict kvs \<Rightarrow>
          (case try_extract_basemodel a of
             Some n \<Rightarrow> validate_nested E P sid tname field kvs n
           | None \<Rightarrow>
               check_container_shell_constraints P sid tname field v a @
               map (\<lambda>(k, x). viol (Some sid) tname (Some (field @ ''.<key '' @ repr_string k @ ''>''))
                      ''unsupported_ref_location'' [k])
                 (filter (\<lambda>(k, x). search_ref k) kvs) @
               concat (map (\<lambda>(k, x).
                 (case peel_dict_key_annotation a of
                    None \<Rightarrow> []
                  | Some kt \<Rightarrow> if search_ref k then []
                      else check_concrete P sid tname (field @ ''.<key '' @ repr_string k @ ''>'') (VStr k) kt) @
                 (case peel_container_element_annotation a of
                    None \<Rightarrow> []
                  | Some t \<Rightarrow> validate_field_value E P sid tname
                      (field @ ''['' @ repr_string k @ '']'') x t)) kvs))
      | _ \<Rightarrow> check_concrete P sid tname field v a)"
| "validate_nested E P sid tname field d n =
     (let m = model_of E n in
      map (\<lambda>k. viol (Some sid) tname (Some (field @ ''.'' @ k)) ''unknown_arg'' [n, k])
        (filter (\<lambda>k. k \<notin> accepted_field_names m) (dkeys d)) @
      snd (normalize_model_input sid tname (Some field) m d) @
      (if \<not> contains_ref (VDict d)
       then map (\<lambda>e. viol (Some sid) tname (Some (dotted field (e_loc e)))
                  (missing_code (e_type e)) [e_msg e])
              (model_errors P n (filter (\<lambda>(k, v). k \<in> accepted_field_names m) d))
       else concat (map (\<lambda>(f, fi).
              case dget (canonical_args m d) f of
                None \<Rightarrow> if f_required fi
                        then [viol (Some sid) tname (Some (field @ ''.'' @ f)) ''missing_arg'' [f, n]] else []
              | Some v \<Rightarrow> validate_field_value E P sid tname (field @ ''.'' @ f) v
                            (annotation_with_constraints fi)) (model_fields m))))"
  by pat_completeness auto
termination
  by (relation "measures [\<lambda>x. case x of Inl (_, _, _, _, _, v, _) \<Rightarrow> size v | Inr (_, _, _, _, _, d, _) \<Rightarrow> size (VDict d),
        \<lambda>x. case x of Inl _ \<Rightarrow> 1 | Inr _ \<Rightarrow> 0]")
    (auto simp: termination_simp)

declare validate_field_value.simps [simp del] validate_nested.simps [simp del]

definition check_field ::
    "type_env \<Rightarrow> pydantic \<Rightarrow> string \<Rightarrow> typed_spec \<Rightarrow> vdict \<Rightarrow> string \<times> field_info \<Rightarrow> violation list" where
  "check_field E P sid ts cargs nf =
     (case nf of (f, fi) \<Rightarrow>
        (case dget cargs f of
           None \<Rightarrow> if f_required fi then [viol (Some sid) (spec_name ts) (Some f) ''missing_arg'' [f]] else []
         | Some v \<Rightarrow> validate_field_value E P sid (spec_name ts) f v (annotation_with_constraints fi)))"

definition phase2_validate_args :: "type_env \<Rightarrow> pydantic \<Rightarrow> string \<Rightarrow> action \<Rightarrow> typed_spec \<Rightarrow> violation list" where
  "phase2_validate_args E P sid a ts =
     (let m = in_decl E ts;
          (cargs, dups) = normalize_model_input sid (spec_name ts) None m (args a);
          known = filter (\<lambda>(k, v). k \<in> accepted_field_names m) (args a)
      in dups @
         (if \<not> contains_ref (VDict known)
          then map (violation_from_pydantic_error sid ts) (model_errors P (in_model ts) known)
          else concat (map (check_field E P sid ts cargs) (model_fields m))))"

section \<open>Phase 3: branches\<close>

definition check_branch_status :: "string \<Rightarrow> action \<Rightarrow> string set \<Rightarrow> nat \<times> outcome_branch \<Rightarrow> violation list" where
  "check_branch_status sid a allowed ib =
     (case ib of (i, b) \<Rightarrow>
        (case dget (match b) ''status'' of
           None \<Rightarrow> []
         | Some VNone \<Rightarrow> []
         | Some (VStr s) \<Rightarrow>
             if s \<in> allowed then []
             else [viol (Some sid) (Some (tool a)) None ''branch_match_status_invented'' [show_nat i, s]]
         | Some v \<Rightarrow>
             [viol (Some sid) (Some (tool a)) None ''branch_match_status_wrong_type'' [show_nat i, type_name v]]))"

definition phase3_validate_branch_matches :: "type_env \<Rightarrow> string \<Rightarrow> action \<Rightarrow> typed_spec \<Rightarrow> violation list" where
  "phase3_validate_branch_matches E sid a ts =
     (let allowed = allowed_status_literals E (out_anno ts) in
      if allowed = {} then []
      else concat (map (check_branch_status sid a allowed) (enumerate 0 (expected_outcomes a))))"

definition phase3_check_catch_all_position :: "string \<Rightarrow> action \<Rightarrow> violation list" where
  "phase3_check_catch_all_position sid a =
     map (\<lambda>(i, b). viol (Some sid) (Some (tool a)) None ''misplaced_catch_all_branch'' [show_nat i])
       (filter (\<lambda>(i, b). match b = [] \<and> Suc i \<noteq> length (expected_outcomes a))
          (enumerate 0 (expected_outcomes a)))"

section \<open>One action\<close>

definition validate_action_args ::
    "type_env \<Rightarrow> pydantic \<Rightarrow> string \<Rightarrow> action \<Rightarrow> typed_spec \<Rightarrow> actions option \<Rightarrow>
     typed_registry option \<Rightarrow> violation list" where
  "validate_action_args E P sid a ts acts reg =
     phase1_check_unknown_keys E sid a ts @ phase1_check_ref_syntax sid a ts @
     phase1_check_ref_in_dict_keys sid a ts @
     (case acts of None \<Rightarrow> [] | Some as \<Rightarrow> phase1_check_refs E sid a as ts reg) @
     phase1_check_required_any_non_null sid a ts @ phase2_validate_args E P sid a ts @
     phase3_validate_branch_matches E sid a ts @ phase3_check_catch_all_position sid a"

end
