(* ===== verification/ComposerContracts.thy ===== *)
theory ComposerContracts
  imports Interpolation DepGraph
begin

text \<open>
  \<open>services/composer_contracts.py\<close> and \<open>services/clarification_contract.py\<close>: what the data of
  a reply template must look like, before execution (references allowed) and after it. An
  error message is a value of \<open>contract_error\<close> that keeps what varies in it. The table of
  contracts is written out by template id.
\<close>

section \<open>Recognising references\<close>

text \<open>
  \<open>_FULL_REF_RE = ^\${[^}]+}$\<close>: the \<open>$\<close> of the pattern also matches before a final newline.
\<close>

definition full_ref_text :: "string \<Rightarrow> bool" where
  "full_ref_text s \<longleftrightarrow>
     (case broad_at s of
        None \<Rightarrow> False
      | Some (inner, rest) \<Rightarrow> inner \<noteq> [] \<and> (rest = [] \<or> rest = [chr 10]))"

definition is_full_ref :: "pyval \<Rightarrow> bool" where
  "is_full_ref v = (case v of VStr s \<Rightarrow> full_ref_text s | _ \<Rightarrow> False)"

text \<open>\<open>_EMBEDDED_REF_RE.search\<close> and \<open>_CONTAINS_REF_RE.search\<close>.\<close>

definition embeds_ref :: "string \<Rightarrow> bool" where
  "embeds_ref s \<longleftrightarrow> broad_tokens s \<noteq> []"

definition nonblank :: "pyval option \<Rightarrow> bool" where
  "nonblank v = (case v of Some (VStr s) \<Rightarrow> strip s \<noteq> [] | _ \<Rightarrow> False)"

datatype contract_error =
    ExtraTopKeys "string list"
  | IntentMissing
  | IntentNotText pyval
  | ActionsNotList
  | NotUniform
  | ItemNotDict nat string
  | ItemExtraKeys nat "string list"
  | ItemValueMissing nat string
  | ItemValueNotText nat string pyval
  | ClarifyExtraKeys "string list"
  | MissingFieldsNotList string
  | FieldCodeNotText nat string
  | FieldCodeUnknown nat string
  | SummaryHasRef string
  | SummaryNotText pyval
  | KeyMissing string
  | KeyBlank string pyval
  | RawLineRef string pyval
  | ListKeyNotList string string
  | ListItemBlank string nat
  | ListItemShape string nat string
  | ListItemFieldMissing string nat string
  | ListItemFieldBlank string nat string pyval

text \<open>\<open>data.get(key)\<close>, with a stored \<open>None\<close> read as absent.\<close>

definition get_some :: "vdict \<Rightarrow> string \<Rightarrow> pyval option" where
  "get_some d k = (case dget d k of Some VNone \<Rightarrow> None | r \<Rightarrow> r)"

text \<open>\<open>sorted(set(d.keys()) - allowed)\<close>\<close>

definition extra_keys :: "vdict \<Rightarrow> string list \<Rightarrow> string list" where
  "extra_keys d allowed = sort (filter (\<lambda>k. k \<notin> set allowed) (dkeys d))"

section \<open>The narration payload humanize_result\<close>

definition humanize_top_keys :: "string list" where
  "humanize_top_keys = [''intent'', ''actions'']"

definition humanize_action_keys :: "string list" where
  "humanize_action_keys = [''user_visible_summary'', ''status'']"

definition is_step_id_action_item :: "pyval \<Rightarrow> bool" where
  "is_step_id_action_item item =
     (case item of
        VDict d \<Rightarrow> set (dkeys d) = {''step_id''} \<and> nonblank (dget d ''step_id'')
      | _ \<Rightarrow> False)"

definition is_step_id_narration_form :: "vdict \<Rightarrow> bool" where
  "is_step_id_narration_form d \<longleftrightarrow>
     set (dkeys d) = set humanize_top_keys \<and>
     (case dget d ''intent'' of
        Some (VStr s) \<Rightarrow> strip s \<noteq> [] \<and> \<not> embeds_ref s | _ \<Rightarrow> False) \<and>
     (case dget d ''actions'' of
        Some (VList xs) \<Rightarrow> xs \<noteq> [] \<and> list_all is_step_id_action_item xs | _ \<Rightarrow> False)"

definition check_action_value :: "bool \<Rightarrow> nat \<Rightarrow> vdict \<Rightarrow> string \<Rightarrow> contract_error list" where
  "check_action_value allow i d key =
     (case get_some d key of
        None \<Rightarrow> [ItemValueMissing i key]
      | Some v \<Rightarrow> if allow \<and> is_full_ref v then []
                  else if \<not> nonblank (Some v) then [ItemValueNotText i key v] else [])"

definition check_action_item :: "bool \<Rightarrow> nat \<times> pyval \<Rightarrow> contract_error list" where
  "check_action_item allow ix =
     (case ix of (i, x) \<Rightarrow>
        if allow \<and> is_full_ref x then []
        else (case x of
                VDict d \<Rightarrow>
                  (let extra = extra_keys d humanize_action_keys in
                   (if extra \<noteq> [] then [ItemExtraKeys i extra] else []) @
                   concat (map (check_action_value allow i d) humanize_action_keys))
              | _ \<Rightarrow> [ItemNotDict i (type_name x)]))"

definition check_intent :: "bool \<Rightarrow> vdict \<Rightarrow> contract_error list" where
  "check_intent allow d =
     (case get_some d ''intent'' of
        None \<Rightarrow> [IntentMissing]
      | Some v \<Rightarrow> if allow \<and> is_full_ref v then []
                  else if \<not> nonblank (Some v) then [IntentNotText v] else [])"

definition check_actions :: "bool \<Rightarrow> vdict \<Rightarrow> contract_error list" where
  "check_actions allow d =
     (case dget d ''actions'' of
        Some (VList (x # xs)) \<Rightarrow>
          if allow \<and> list_ex is_step_id_action_item (x # xs)
          then (if is_step_id_narration_form d then [] else [NotUniform])
          else concat (map (check_action_item allow) (enumerate 0 (x # xs)))
      | Some v \<Rightarrow> if allow \<and> is_full_ref v then [] else [ActionsNotList]
      | None \<Rightarrow> [ActionsNotList])"

definition validate_humanize_result_payload :: "vdict \<Rightarrow> bool \<Rightarrow> contract_error list" where
  "validate_humanize_result_payload d allow =
     (let extra = extra_keys d humanize_top_keys in
      (if extra \<noteq> [] then [ExtraTopKeys extra] else []) @ check_intent allow d @ check_actions allow d)"

section \<open>The clarification payload\<close>

definition RUNTIME_ONLY_TEMPLATE_IDS :: "string list" where
  "RUNTIME_ONLY_TEMPLATE_IDS = [''selector_ambiguity_clarification'']"

definition CLARIFICATION_FIELDS :: "string list" where
  "CLARIFICATION_FIELDS = [''reminder_subject'', ''time'', ''date'', ''recipient'', ''items'',
     ''quantity'', ''recipe_name'', ''query'', ''details'']"

definition check_field_code :: "nat \<times> pyval \<Rightarrow> contract_error list" where
  "check_field_code ix =
     (case ix of
        (i, VStr s) \<Rightarrow> if s \<in> set CLARIFICATION_FIELDS then [] else [FieldCodeUnknown i s]
      | (i, x) \<Rightarrow> [FieldCodeNotText i (type_name x)])"

definition check_missing_fields :: "vdict \<Rightarrow> contract_error list" where
  "check_missing_fields d =
     (case get_some d ''missing_fields'' of
        None \<Rightarrow> []
      | Some (VList xs) \<Rightarrow> concat (map check_field_code (enumerate 0 xs))
      | Some (VTuple xs) \<Rightarrow> concat (map check_field_code (enumerate 0 xs))
      | Some v \<Rightarrow> [MissingFieldsNotList (type_name v)])"

definition check_done_summary :: "vdict \<Rightarrow> contract_error list" where
  "check_done_summary d =
     (case get_some d ''done_summary'' of
        None \<Rightarrow> []
      | Some (VStr s) \<Rightarrow> if embeds_ref s then [SummaryHasRef s]
                        else if strip s = [] then [SummaryNotText (VStr s)] else []
      | Some v \<Rightarrow> [SummaryNotText v])"

definition validate_clarification_payload :: "vdict \<Rightarrow> bool \<Rightarrow> contract_error list" where
  "validate_clarification_payload d allow =
     (let extra = extra_keys d [''missing_fields'', ''done_summary'', ''clarity_reason''] in
      (if extra \<noteq> [] then [ClarifyExtraKeys extra] else []) @
      check_missing_fields d @ check_done_summary d)"

section \<open>Required keys of a template\<close>

definition TEMPLATE_REQUIRED_KEYS :: "(string, string list) dict" where
  "TEMPLATE_REQUIRED_KEYS =
     [(''shopping_added_ok'', [''items'']), (''shopping_added_empty'', [''duplicates'']),
      (''shopping_list_show'', [''items'']), (''reminder_set_ok'', [''when_phrase'', ''what'']),
      (''reminder_skipped_past'', [''trigger_at_local'', ''late_by_minutes'']),
      (''reminders_list_show'', [''items'']), (''checklist_show'', [''title'', ''items'']),
      (''checklist_empty'', [''title'']), (''checklists_list_show'', [''items'']),
      (''checklist_items_show'', [''items'']), (''recipe_show'', [''recipe_text'']),
      (''recipe_not_found_ask_alt'', [''query'']), (''ask_when_to_remind'', [''what''])]"

definition TEMPLATE_ITEM_FIELDS :: "(string, (string, string list) dict) dict" where
  "TEMPLATE_ITEM_FIELDS =
     [(''shopping_list_show'', [(''items'', [''display_line''])]),
      (''reminders_list_show'', [(''items'', [''display_line''])]),
      (''checklist_show'', [(''items'', [''title'', ''item_status''])]),
      (''checklists_list_show'', [(''items'', [''title'', ''pending_count''])]),
      (''checklist_items_show'', [(''items'', [''item_title'', ''list_title''])])]"

text \<open>\<open>v[2:-1].strip().endswith(".raw_line")\<close> of a full reference.\<close>

definition is_raw_line_ref :: "pyval \<Rightarrow> bool" where
  "is_raw_line_ref v =
     (case v of VStr s \<Rightarrow> full_ref_text s \<and> suffix ''.raw_line'' (strip (butlast (drop 2 s))) | _ \<Rightarrow> False)"

definition is_blank :: "pyval \<Rightarrow> bool" where
  "is_blank v =
     (case v of
        VNone \<Rightarrow> True | VStr s \<Rightarrow> strip s = [] | VList xs \<Rightarrow> xs = [] | VDict d \<Rightarrow> d = [] | _ \<Rightarrow> False)"

definition check_required_key :: "bool \<Rightarrow> vdict \<Rightarrow> string \<Rightarrow> contract_error list" where
  "check_required_key allow d key =
     (case dget d key of
        None \<Rightarrow> [KeyMissing key]
      | Some v \<Rightarrow> if allow \<and> is_full_ref v then []
                  else if is_blank v then [KeyBlank key v] else [])"

text \<open>A reference stands for its later value, unless it names the line with the internal id.\<close>

definition deferred :: "string \<Rightarrow> pyval \<Rightarrow> contract_error list" where
  "deferred list_key v = (if is_raw_line_ref v then [RawLineRef list_key v] else [])"

definition check_item_field :: "bool \<Rightarrow> string \<Rightarrow> nat \<Rightarrow> vdict \<Rightarrow> string \<Rightarrow> contract_error list" where
  "check_item_field allow list_key i d f =
     (case dget d f of
        None \<Rightarrow> [ListItemFieldMissing list_key i f]
      | Some v \<Rightarrow> if allow \<and> is_full_ref v then deferred list_key v
                  else if is_blank v then [ListItemFieldBlank list_key i f v] else [])"

definition check_list_item :: "bool \<Rightarrow> string \<Rightarrow> string list \<Rightarrow> nat \<times> pyval \<Rightarrow> contract_error list" where
  "check_list_item allow list_key flds ix =
     (case ix of (i, x) \<Rightarrow>
        if allow \<and> is_full_ref x then deferred list_key x
        else (case x of
                VStr s \<Rightarrow> if strip s = [] then [ListItemBlank list_key i] else []
              | VDict d \<Rightarrow> concat (map (check_item_field allow list_key i d) flds)
              | _ \<Rightarrow> [ListItemShape list_key i (type_name x)]))"

definition check_list_key :: "bool \<Rightarrow> vdict \<Rightarrow> string \<times> string list \<Rightarrow> contract_error list" where
  "check_list_key allow d kf =
     (case kf of (list_key, flds) \<Rightarrow>
        (case get_some d list_key of
           None \<Rightarrow> []
         | Some v \<Rightarrow>
             if allow \<and> is_full_ref v then deferred list_key v
             else (case v of
                     VList xs \<Rightarrow> concat (map (check_list_item allow list_key flds) (enumerate 0 xs))
                   | _ \<Rightarrow> [ListKeyNotList list_key (type_name v)])))"

definition required_keys_contract ::
    "string list \<Rightarrow> (string, string list) dict \<Rightarrow> vdict \<Rightarrow> bool \<Rightarrow> contract_error list" where
  "required_keys_contract required item_fields d allow =
     concat (map (check_required_key allow d) required) @
     concat (map (check_list_key allow d) item_fields)"

section \<open>The registry of contracts\<close>

datatype contract = NoContract | Contract "vdict \<Rightarrow> bool \<Rightarrow> contract_error list"

definition no_contract_ids :: "string list" where
  "no_contract_ids = [''shopping_list_empty'', ''reminders_list_empty'', ''checklists_list_empty'',
     ''checklist_items_empty'', ''generic_tool_error'', ''partial_with_compose_error'',
     ''invalid_plan_fallback'', ''reminder_cancelled'', ''identity_playful'', ''smalltalk_fallback'']"

definition get_composer_contract :: "string \<Rightarrow> contract option" where
  "get_composer_contract t =
     (if t \<in> set no_contract_ids then Some NoContract
      else case dget TEMPLATE_REQUIRED_KEYS t of
        Some required \<Rightarrow> Some (Contract (required_keys_contract required
          (case dget TEMPLATE_ITEM_FIELDS t of None \<Rightarrow> [] | Some fs \<Rightarrow> fs)))
      | None \<Rightarrow>
          if t \<in> {''ask_user_for_clarification'', ''partial_with_clarification''}
          then Some (Contract validate_clarification_payload) else None)"

section \<open>Properties\<close>

definition filled :: "vdict \<Rightarrow> string \<Rightarrow> bool" where
  "filled d k \<longleftrightarrow> (\<exists>v. dget d k = Some v \<and> \<not> is_blank v)"

text \<open>An element a list template can print: a text, or an object with the printed fields.\<close>

definition renderable :: "string list \<Rightarrow> pyval \<Rightarrow> bool" where
  "renderable flds x \<longleftrightarrow>
     (case x of VStr s \<Rightarrow> strip s \<noteq> [] | VDict d \<Rightarrow> (\<forall>f\<in>set flds. filled d f) | _ \<Rightarrow> False)"

lemma check_required_key_Nil: "check_required_key False d k = [] \<longleftrightarrow> filled d k"
  by (auto simp: check_required_key_def filled_def split: option.splits)

lemma check_item_field_Nil: "check_item_field False lk i d f = [] \<longleftrightarrow> filled d f"
  by (auto simp: check_item_field_def filled_def split: option.splits)

lemma check_list_item_Nil: "check_list_item False lk flds (i, x) = [] \<longleftrightarrow> renderable flds x"
  by (auto simp: check_list_item_def renderable_def check_item_field_Nil split: pyval.splits)

lemma all_enumerate: "(\<forall>ix\<in>set (enumerate n xs). P (snd ix)) \<longleftrightarrow> (\<forall>x\<in>set xs. P x)"
  by (metis (mono_tags, lifting) list.set_map map_snd_enumerate image_iff)

lemma check_list_key_Nil:
  "check_list_key False d (lk, flds) = [] \<longleftrightarrow>
     (\<forall>v. get_some d lk = Some v \<longrightarrow> (\<exists>xs. v = VList xs \<and> (\<forall>x\<in>set xs. renderable flds x)))"
proof -
  have "(\<forall>ix\<in>set (enumerate 0 xs). check_list_item False lk flds ix = []) \<longleftrightarrow> (\<forall>x\<in>set xs. renderable flds x)" for xs
    using all_enumerate [of 0 xs "renderable flds"] check_list_item_Nil by fastforce
  then show ?thesis
    by (auto simp: check_list_key_def split: option.splits pyval.splits)
qed

text \<open>
  the contract of a data-carrying template, on resolved data. It is accepted exactly
  when every required variable is bound to something that is not blank, and every list it
  prints is a list of texts that are not blank or of objects with all printed fields filled:
  the template finds every variable it renders.
\<close>

theorem required_keys_contract_iff:
  "required_keys_contract required item_fields d False = [] \<longleftrightarrow>
     (\<forall>k\<in>set required. filled d k) \<and>
     (\<forall>lk flds v. (lk, flds) \<in> set item_fields \<and> get_some d lk = Some v \<longrightarrow>
        (\<exists>xs. v = VList xs \<and> (\<forall>x\<in>set xs. renderable flds x)))"
  by (auto simp: required_keys_contract_def check_required_key_Nil check_list_key_Nil
      simp del: split_paired_All; blast)

lemma filter_extra_Nil: "extra_keys d allowed = [] \<longleftrightarrow> set (dkeys d) \<subseteq> set allowed"
proof -
  have "extra_keys d allowed = [] \<longleftrightarrow> filter (\<lambda>k. k \<notin> set allowed) (dkeys d) = []"
    unfolding extra_keys_def by (metis set_empty set_sort)
  then show ?thesis by (auto simp: filter_empty_conv)
qed

lemma narration_form_accepted:
  "is_step_id_narration_form d \<Longrightarrow> check_intent allow d = [] \<and> extra_keys d humanize_top_keys = []"
  by (auto simp: is_step_id_narration_form_def check_intent_def get_some_def nonblank_def filter_extra_Nil
      split: option.splits pyval.splits)

lemma step_id_item_refused:
  "is_step_id_action_item x \<Longrightarrow> check_action_item False (i, x) \<noteq> []"
proof -
  assume "is_step_id_action_item x"
  then obtain d where "x = VDict d" "set (dkeys d) = {''step_id''}"
    by (auto simp: is_step_id_action_item_def split: pyval.splits)
  moreover from this(2) have "extra_keys d humanize_action_keys \<noteq> []"
    unfolding filter_extra_Nil by (simp add: humanize_action_keys_def)
  ultimately show ?thesis by (simp add: check_action_item_def)
qed

text \<open>
  a narration by step ids is all or nothing. If some action of a humanize payload is
  given by its step id, the plan-time contract accepts the payload exactly when it has the
  complete form the composer's normaliser recognises, and the contract on resolved data never
  accepts it: nothing that only plan time lets through reaches the model un-normalised.
\<close>

theorem narration_all_or_nothing:
  assumes "dget d ''actions'' = Some (VList xs)" and "x \<in> set xs" and "is_step_id_action_item x"
  shows "(validate_humanize_result_payload d True = [] \<longleftrightarrow> is_step_id_narration_form d) \<and>
    validate_humanize_result_payload d False \<noteq> []"
proof
  obtain y ys where xs: "xs = y # ys" using assms(2) by (cases xs) auto
  have "list_ex is_step_id_action_item (y # ys)" using assms(2,3) xs by (auto simp: list_ex_iff)
  then have "check_actions True d = (if is_step_id_narration_form d then [] else [NotUniform])"
    using assms(1) xs by (simp add: check_actions_def)
  then show "validate_humanize_result_payload d True = [] \<longleftrightarrow> is_step_id_narration_form d"
    using narration_form_accepted [of d True] by (auto simp: validate_humanize_result_payload_def Let_def)
  obtain i where "(i, x) \<in> set (enumerate 0 xs)"
    using assms(2) by (metis imageE list.set_map map_snd_enumerate prod.collapse)
  with step_id_item_refused [OF assms(3)] have "concat (map (check_action_item False) (enumerate 0 xs)) \<noteq> []"
    by force
  then show "validate_humanize_result_payload d False \<noteq> []"
    using assms(1) xs by (simp add: validate_humanize_result_payload_def check_actions_def Let_def)
qed

theorem narration_all_or_nothing_witness:
  "validate_humanize_result_payload [(''intent'', VStr ''done''), (''actions'',
     VList [VDict [(''step_id'', VStr ''s1'')]])] True = []"
proof -
  let ?x = "VDict [(''step_id'', VStr ''s1'')]"
  let ?d = "[(''intent'', VStr ''done''), (''actions'', VList [?x])]"
  have "dget ?d ''actions'' = Some (VList [?x])" "is_step_id_action_item ?x" "is_step_id_narration_form ?d"
    by code_simp+
  with narration_all_or_nothing [of ?d "[?x]" ?x] show ?thesis by simp
qed

end
