(* ===== verification/Validator.thy ===== *)
theory Validator
  imports ArgChecks ComposerContracts
begin

text \<open>
  \<open>validate_plan\<close> of \<open>runtime/planner/validator.py\<close>: the checks over a whole plan (reference
  cycles, reply data, the selector rules, the allow-lists of reply templates and prompts) and
  their composition with the checks of each action in \<open>ArgChecks\<close>. The order in which a Python
  set is iterated is a parameter \<open>enum\<close>.
\<close>

section \<open>Cycles\<close>

datatype colour = White | Gray | Black

record dfs_state =
  colours :: "(string, colour) dict"
  cycle_nodes :: "string set"

definition colour_of :: "dfs_state \<Rightarrow> string \<Rightarrow> colour" where
  "colour_of s n = (case dget (colours s) n of None \<Rightarrow> White | Some c \<Rightarrow> c)"

definition paint :: "string \<Rightarrow> colour \<Rightarrow> dfs_state \<Rightarrow> dfs_state" where
  "paint n c s = s\<lparr>colours := dput (colours s) n c\<rparr>"

text \<open>\<open>cycle_nodes.update(stack[stack.index(nbr):])\<close>\<close>

definition close_cycle :: "string \<Rightarrow> string list \<Rightarrow> dfs_state \<Rightarrow> dfs_state" where
  "close_cycle nbr stack s = s\<lparr>cycle_nodes := cycle_nodes s \<union> set (dropWhile (\<lambda>n. n \<noteq> nbr) stack)\<rparr>"

text \<open>
  The recursion \<open>_dfs\<close>. The fuel bounds its depth; \<open>None\<close> means that it was not enough, which
  is proved not to happen when it starts with the number of steps.
\<close>

fun visit_all :: "(string \<Rightarrow> dfs_state \<Rightarrow> dfs_state option) \<Rightarrow> string list \<Rightarrow> string list \<Rightarrow> dfs_state \<Rightarrow> dfs_state option" where
  "visit_all visit stack [] s = Some s"
| "visit_all visit stack (nbr # nbrs) s =
     (if colour_of s nbr = Gray then visit_all visit stack nbrs (close_cycle nbr stack s)
      else if colour_of s nbr = White
      then (case visit nbr s of None \<Rightarrow> None | Some t \<Rightarrow> visit_all visit stack nbrs t)
      else visit_all visit stack nbrs s)"

fun dfs :: "nat \<Rightarrow> (string \<Rightarrow> string list) \<Rightarrow> string list \<Rightarrow> string \<Rightarrow> dfs_state \<Rightarrow> dfs_state option" where
  "dfs 0 nbrs stack node s = None"
| "dfs (Suc k) nbrs stack node s =
     (let stack' = stack @ [node] in
      map_option (paint node Black)
        (visit_all (dfs k nbrs stack') stack' (nbrs node) (paint node Gray s)))"

fun dfs_roots :: "nat \<Rightarrow> (string \<Rightarrow> string list) \<Rightarrow> string list \<Rightarrow> dfs_state \<Rightarrow> dfs_state option" where
  "dfs_roots k nbrs [] s = Some s"
| "dfs_roots k nbrs (n # ns) s =
     (if colour_of s n = White
      then (case dfs k nbrs [] n s of None \<Rightarrow> None | Some t \<Rightarrow> dfs_roots k nbrs ns t)
      else dfs_roots k nbrs ns s)"

definition graph_nbrs :: "(string set \<Rightarrow> string list) \<Rightarrow> graph \<Rightarrow> string \<Rightarrow> string list" where
  "graph_nbrs enum g n = (case dget g n of None \<Rightarrow> [] | Some ds \<Rightarrow> enum ds)"

definition find_cycle_nodes :: "(string set \<Rightarrow> string list) \<Rightarrow> actions \<Rightarrow> string set option" where
  "find_cycle_nodes enum acts =
     (let g = build_full_dep_graph acts in
      map_option cycle_nodes
        (dfs_roots (length g) (graph_nbrs enum g) (dkeys g)
          \<lparr>colours = map (\<lambda>(n, ds). (n, White)) g, cycle_nodes = {}\<rparr>))"

definition phase1_detect_ref_cycles :: "(string set \<Rightarrow> string list) \<Rightarrow> actions \<Rightarrow> violation list" where
  "phase1_detect_ref_cycles enum acts =
     (case find_cycle_nodes enum acts of
        None \<Rightarrow> []
      | Some cyc \<Rightarrow> map (\<lambda>n. viol (Some n) (map_option tool (dget acts n)) None ''cycle'' [n])
                     (sorted_list_of_set cyc))"

section \<open>Replies\<close>

text \<open>Every composer call of a plan with its host step: the plan's own, then the branches'.\<close>

definition iter_all_composes :: "plan \<Rightarrow> (string option \<times> composer_call) list" where
  "iter_all_composes p =
     (None, plan_compose p) #
     concat (map (\<lambda>(sid, a). concat (map (\<lambda>b.
       case br_compose b of None \<Rightarrow> [] | Some c \<Rightarrow> [(Some sid, c)]) (expected_outcomes a))) (actions p))"

definition check_root_ref :: "type_env \<Rightarrow> typed_registry option \<Rightarrow> actions \<Rightarrow> string \<Rightarrow> violation list" where
  "check_root_ref E reg acts path =
     (case extract_step_id path of
        None \<Rightarrow> []
      | Some target \<Rightarrow>
          if target \<notin> set (dkeys acts)
          then [viol None None None ''compose_ref_unknown_target'' [path, target]]
          else (case reg of
                  None \<Rightarrow> []
                | Some treg \<Rightarrow> maybe_check_field_path E treg acts path target None None
                                 ''compose_ref_unknown_field'' None))"

text \<open>A reference of a branch's reply; narrowed to the branch's status when it names its host.\<close>

definition check_branch_ref ::
    "type_env \<Rightarrow> typed_registry option \<Rightarrow> actions \<Rightarrow> string \<Rightarrow> action \<Rightarrow> outcome_branch \<Rightarrow> string \<Rightarrow> violation list" where
  "check_branch_ref E reg acts host a b path =
     (case extract_step_id path of
        None \<Rightarrow> []
      | Some target \<Rightarrow>
          if target \<notin> set (dkeys acts)
          then [viol (Some host) (Some (tool a)) None ''compose_ref_unknown_target'' [path, target]]
          else (case reg of
                  None \<Rightarrow> []
                | Some treg \<Rightarrow> maybe_check_field_path E treg acts path target (Some host) (Some (tool a))
                     ''compose_ref_unknown_field'' (if target = host then branch_status b else None)))"

definition phase1_check_compose_refs :: "type_env \<Rightarrow> plan \<Rightarrow> typed_registry option \<Rightarrow> violation list" where
  "phase1_check_compose_refs E p reg =
     concat (map (check_root_ref E reg (actions p)) (iter_refs (VDict (template_data (plan_compose p))))) @
     concat (map (\<lambda>(host, a). concat (map (\<lambda>b.
       case br_compose b of
         None \<Rightarrow> []
       | Some c \<Rightarrow> concat (map (check_branch_ref E reg (actions p) host a b)
                            (iter_refs (VDict (template_data c))))) (expected_outcomes a))) (actions p))"

definition show_template_item_sources :: "(string, (string \<times> string) list) dict" where
  "show_template_item_sources =
     [(''reminders_list_show'', [(''list_reminders'', ''items'')]),
      (''shopping_list_show'', [(''list_shopping'', ''items'')]),
      (''checklist_show'', [(''show_checklist'', ''items''), (''add_checklist_items'', ''created'')]),
      (''checklists_list_show'', [(''list_checklists'', ''checklists'')])]"

text \<open>The \<open>ValueError\<close> that \<open>extract_step_id\<close> raises on the empty path.\<close>

datatype validate_error = EmptyRefPath

definition opt_text :: "string option \<Rightarrow> string" where
  "opt_text s = (case s of None \<Rightarrow> [] | Some t \<Rightarrow> t)"

definition check_show_source ::
    "actions \<Rightarrow> string option \<Rightarrow> (string \<times> string) list \<Rightarrow> string \<Rightarrow> validate_error + violation list" where
  "check_show_source acts host allowed items =
     (let ref = strip items in
      if \<not> (take 2 ref = ''${'' \<and> ref \<noteq> [] \<and> last ref = CHR ''}'') then Inr []
      else (let inner = butlast (drop 2 ref) in
        case extract_step_id inner of
          None \<Rightarrow> Inl EmptyRefPath
        | Some target \<Rightarrow>
            (case dget acts target of
               None \<Rightarrow> Inr []
             | Some a \<Rightarrow>
                 (let fld = (case parse_ref_segments inner of [] \<Rightarrow> [] | f # _ \<Rightarrow> f) in
                  if (tool a, fld) \<in> set allowed then Inr []
                  else Inr [viol host (Some (tool a)) None ''show_template_source_mismatch'' [target, fld]]))))"

definition check_show_compose ::
    "actions \<Rightarrow> string option \<times> composer_call \<Rightarrow> validate_error + violation list" where
  "check_show_compose acts hc =
     (case hc of (host, c) \<Rightarrow>
        if cc_kind c \<noteq> KTemplate then Inr []
        else (case dget show_template_item_sources (opt_text (template_id c)) of
                None \<Rightarrow> Inr []
              | Some allowed \<Rightarrow>
                  (case dget (template_data c) ''items'' of
                     Some (VStr s) \<Rightarrow> check_show_source acts host allowed s
                   | _ \<Rightarrow> Inr [])))"

definition phase1_check_show_template_sources :: "plan \<Rightarrow> validate_error + violation list" where
  "phase1_check_show_template_sources p =
     bind_res (map_res (check_show_compose (actions p)) (iter_all_composes p)) (\<lambda>vss. Inr (concat vss))"

definition llm_required_key_present :: "pyval option \<Rightarrow> bool" where
  "llm_required_key_present v =
     (case v of
        None \<Rightarrow> False
      | Some (VStr s) \<Rightarrow> strip s \<noteq> []
      | Some x \<Rightarrow> x \<noteq> VNone \<and> x \<noteq> VList [] \<and> x \<noteq> VDict [])"

section \<open>The selector rules\<close>

definition ref_path_contains_only :: "string \<Rightarrow> bool" where
  "ref_path_contains_only path \<longleftrightarrow> ''only'' \<in> set (split_on (CHR ''.'') path)"

definition phase1_check_only_in_compose :: "plan \<Rightarrow> violation list" where
  "phase1_check_only_in_compose p =
     concat (map (\<lambda>(host, c). map (\<lambda>path. viol host None None ''only_selector_in_compose'' [path])
       (filter ref_path_contains_only (iter_refs (VDict (template_data c))))) (iter_all_composes p))"

definition action_has_empty_branch :: "action \<Rightarrow> bool" where
  "action_has_empty_branch a =
     list_ex (\<lambda>b. branch_status b = Some ''empty'' \<and> next_step b = None) (expected_outcomes a)"

definition check_only_producer :: "actions \<Rightarrow> string \<Rightarrow> action \<Rightarrow> string \<Rightarrow> violation list" where
  "check_only_producer acts consumer a path =
     (if \<not> ref_path_contains_only path then []
      else (case split_on (CHR ''.'') path of
              [] \<Rightarrow> []
            | producer # _ \<Rightarrow>
                (case dget acts producer of
                   None \<Rightarrow> []
                 | Some pa \<Rightarrow> if action_has_empty_branch pa then []
                     else [viol (Some consumer) (Some (tool a)) None ''only_selector_missing_empty_branch''
                             [path, producer]])))"

definition phase1_check_only_empty_branch :: "plan \<Rightarrow> violation list" where
  "phase1_check_only_empty_branch p =
     concat (map (\<lambda>(sid, a). concat (map (check_only_producer (actions p) sid a) (iter_refs (VDict (args a)))))
       (actions p))"

definition phase1_check_compose_ref_syntax :: "plan \<Rightarrow> violation list" where
  "phase1_check_compose_ref_syntax p =
     concat (map (\<lambda>(host, c). map (\<lambda>tok. viol host None None ''invalid_ref_syntax'' [tok])
       (iter_malformed_ref_tokens (VDict (template_data c)))) (iter_all_composes p))"

section \<open>The allow-lists of templates and prompts\<close>

text \<open>
  The message of a narration error, up to the dash that ends its variable part; the texts
  behind it contain none of the phrases looked for below.
\<close>

definition repr_strings :: "string list \<Rightarrow> string" where
  "repr_strings ss = py_repr (VList (map VStr ss))"

definition at_action :: "nat \<Rightarrow> string" where
  "at_action i = ''humanize_result template_data['' @ repr_string ''actions'' @ ''][''  @ show_nat i @ '']''"

definition humanize_message :: "contract_error \<Rightarrow> string" where
  "humanize_message e =
     (case e of
        ExtraTopKeys ks \<Rightarrow> ''humanize_result template_data has disallowed top-level keys: '' @ repr_strings ks @
          ''. Only '' @ repr_strings (sort humanize_top_keys) @ '' are permitted''
      | IntentMissing \<Rightarrow> ''humanize_result template_data missing required key '' @ repr_string ''intent'' @ ''.''
      | IntentNotText v \<Rightarrow> ''humanize_result template_data['' @ repr_string ''intent'' @
          ''] must be a non-empty string, got '' @ py_repr v @ ''.''
      | ActionsNotList \<Rightarrow> ''humanize_result template_data['' @ repr_string ''actions'' @ ''] must be a non-empty list.''
      | NotUniform \<Rightarrow> ''humanize_result: the new {step_id} narration form must be uniform''
      | ItemNotDict i t \<Rightarrow> at_action i @ '' must be a dict, got '' @ repr_string t @ ''.''
      | ItemExtraKeys i ks \<Rightarrow> at_action i @ '' has disallowed keys: '' @ repr_strings ks
      | ItemValueMissing i k \<Rightarrow> at_action i @ ''['' @ repr_string k @ ''] is missing.''
      | ItemValueNotText i k v \<Rightarrow> at_action i @ ''['' @ repr_string k @
          ''] must be a non-empty string, got '' @ py_repr v @ ''.''
      | _ \<Rightarrow> [])"

definition humanize_codes :: "(string \<times> string) list" where
  "humanize_codes =
     [(''must be uniform'', ''humanize_result_nonuniform_step_id_form''),
      (''disallowed top-level keys'', ''humanize_result_extra_top_keys''),
      (''disallowed'' @ [chr 10] @ ''keys'', ''humanize_result_extra_action_keys''),
      (''disallowed keys'', ''humanize_result_extra_action_keys''),
      (''must be a non-empty list'', ''humanize_result_actions_not_list''),
      (''must be a dict'', ''humanize_result_action_not_dict''),
      (''missing required key '' @ repr_string ''intent'', ''humanize_result_missing_intent''),
      (''intent'', ''humanize_result_blank_intent''),
      (''is missing'', ''humanize_result_action_missing_key'')]"

definition humanize_code :: "contract_error \<Rightarrow> string" where
  "humanize_code e =
     (case find (\<lambda>(phrase, c). sublist phrase (humanize_message e)) humanize_codes of
        Some (phrase, c) \<Rightarrow> c | None \<Rightarrow> ''humanize_result_invalid_data'')"

record composer_lists =
  composer_template_ids :: "string list option"
  composer_llm_prompt_keys :: "string list option"
  llm_prompt_required_keys :: "(string, string list) dict option"

definition opt_not_in :: "string option \<Rightarrow> string list \<Rightarrow> bool" where
  "opt_not_in x xs \<longleftrightarrow> x \<notin> Some ` set xs"

definition check_template_compose :: "composer_lists \<Rightarrow> string option \<Rightarrow> composer_call \<Rightarrow> violation list" where
  "check_template_compose L host c =
     (if \<not> opt_not_in (template_id c) RUNTIME_ONLY_TEMPLATE_IDS
      then [viol host None None ''runtime_only_template_in_plan'' [opt_text (template_id c)]]
      else
        (case composer_template_ids L of
           None \<Rightarrow> []
         | Some ids \<Rightarrow> if opt_not_in (template_id c) ids
             then [viol host None None ''unknown_template_id'' [opt_text (template_id c)]] else []) @
        (case get_composer_contract (opt_text (template_id c)) of
           Some (Contract f) \<Rightarrow>
             map (\<lambda>e. viol host None None
                (if \<not> opt_not_in (template_id c) [''ask_user_for_clarification'', ''partial_with_clarification'']
                 then ''clarification_payload_invalid'' else ''composer_contract_invalid'') [])
               (f (template_data c) True)
         | _ \<Rightarrow> []))"

definition check_llm_data :: "composer_lists \<Rightarrow> string option \<Rightarrow> string option \<Rightarrow> vdict \<Rightarrow> violation list" where
  "check_llm_data L host key data =
     (case (llm_prompt_required_keys L, key) of
        (Some req, Some k) \<Rightarrow>
          (case dget req k of
             None \<Rightarrow> []
           | Some ks \<Rightarrow>
               (let missing = sort (filter (\<lambda>rk. \<not> llm_required_key_present (dget data rk)) ks) in
                if missing = [] then [] else [viol host None None ''llm_compose_missing_data'' missing]))
      | _ \<Rightarrow> [])"

definition item_step_id :: "pyval \<Rightarrow> string list" where
  "item_step_id x = (case x of VDict d \<Rightarrow> (case dget d ''step_id'' of Some (VStr s) \<Rightarrow> [s] | _ \<Rightarrow> []) | _ \<Rightarrow> [])"

definition narrated_steps :: "vdict \<Rightarrow> string list" where
  "narrated_steps data =
     (case dget data ''actions'' of Some (VList xs) \<Rightarrow> concat (map item_step_id xs) | _ \<Rightarrow> [])"

definition check_humanize :: "actions \<Rightarrow> string option \<Rightarrow> vdict \<Rightarrow> violation list" where
  "check_humanize acts host data =
     map (\<lambda>e. viol host None None (humanize_code e) []) (validate_humanize_result_payload data True) @
     (if is_step_id_narration_form data
      then map (\<lambda>sid. viol host None None ''humanize_result_unknown_step'' [sid])
             (filter (\<lambda>sid. sid \<notin> set (dkeys acts)) (narrated_steps data))
      else [])"

definition check_llm_compose ::
    "composer_lists \<Rightarrow> actions \<Rightarrow> string option \<Rightarrow> composer_call \<Rightarrow> violation list" where
  "check_llm_compose L acts host c =
     (let key = llm_prompt_key c in
      if (case composer_llm_prompt_keys L of None \<Rightarrow> False | Some ks \<Rightarrow> opt_not_in key ks)
      then [viol host None None ''unknown_llm_prompt_key'' [opt_text key]]
      else check_llm_data L host key (template_data c) @
           (if key = Some ''humanize_result'' then check_humanize acts host (template_data c) else []))"

definition check_composer_allowlist :: "composer_lists \<Rightarrow> plan \<Rightarrow> violation list" where
  "check_composer_allowlist L p =
     concat (map (\<lambda>(host, c).
       case cc_kind c of
         KTemplate \<Rightarrow> check_template_compose L host c
       | KLlm \<Rightarrow> check_llm_compose L (actions p) host c) (iter_all_composes p))"

section \<open>validate_plan\<close>

definition validate_steps :: "type_env \<Rightarrow> pydantic \<Rightarrow> plan \<Rightarrow> typed_registry \<Rightarrow> violation list" where
  "validate_steps E P p treg =
     concat (map (\<lambda>(sid, a).
       case dget treg (tool a) of
         None \<Rightarrow> [viol (Some sid) (Some (tool a)) None ''unknown_tool'' [tool a]]
       | Some ts \<Rightarrow> validate_action_args E P sid a ts (Some (actions p)) (Some treg)) (actions p))"

definition validate_plan ::
    "type_env \<Rightarrow> pydantic \<Rightarrow> (string set \<Rightarrow> string list) \<Rightarrow> plan \<Rightarrow> typed_registry \<Rightarrow> composer_lists \<Rightarrow>
     validate_error + violation list" where
  "validate_plan E P enum p treg L =
     bind_res (phase1_check_show_template_sources p) (\<lambda>show_vs.
       Inr (validate_steps E P p treg @ phase1_detect_ref_cycles enum (actions p) @
         phase1_check_compose_ref_syntax p @ phase1_check_compose_refs E p (Some treg) @ show_vs @
         phase1_check_only_in_compose p @ phase1_check_only_empty_branch p @
         check_composer_allowlist L p))"

definition no_lists :: composer_lists where
  "no_lists = \<lparr>composer_template_ids = None, composer_llm_prompt_keys = None, llm_prompt_required_keys = None\<rparr>"

text \<open>\<open>validate_plan_or_raise\<close>: the violations an \<open>InvalidPlanError\<close> carries, if it is raised.\<close>

definition validate_plan_or_raise ::
    "type_env \<Rightarrow> pydantic \<Rightarrow> (string set \<Rightarrow> string list) \<Rightarrow> plan \<Rightarrow> typed_registry \<Rightarrow>
     (validate_error + violation list) option" where
  "validate_plan_or_raise E P enum p treg =
     (case validate_plan E P enum p treg no_lists of
        Inl e \<Rightarrow> Some (Inl e)
      | Inr vs \<Rightarrow> if vs = [] then None else Some (Inr vs))"

definition validate_plan_args ::
    "(violation \<Rightarrow> string) \<Rightarrow> type_env \<Rightarrow> pydantic \<Rightarrow> (string set \<Rightarrow> string list) \<Rightarrow> plan \<Rightarrow> typed_registry \<Rightarrow>
     validate_error + string list" where
  "validate_plan_args msg E P enum p treg =
     bind_res (validate_plan E P enum p treg no_lists) (\<lambda>vs. Inr (render_violations msg vs))"

section \<open>The depth-first search is correct\<close>

text \<open>The dependency edges the search follows, as in \<open>needs\<close>: \<open>(d, n)\<close> when \<open>n\<close> needs \<open>d\<close>.\<close>

definition edges :: "(string \<Rightarrow> string list) \<Rightarrow> (string \<times> string) set" where
  "edges nbrs = {(d, n). d \<in> set (nbrs n)}"

definition whites :: "string set \<Rightarrow> dfs_state \<Rightarrow> nat" where
  "whites V s = card {n \<in> V. colour_of s n = White}"

text \<open>
  The stack is a path of gray steps, every finished step is accessible unless a cycle was
  found, and what was found is on a cycle.
\<close>

definition search_inv :: "(string \<Rightarrow> string list) \<Rightarrow> string list \<Rightarrow> dfs_state \<Rightarrow> bool" where
  "search_inv nbrs stack s \<longleftrightarrow>
     set stack = {n. colour_of s n = Gray} \<and>
     (cycle_nodes s = {} \<longrightarrow> (\<forall>n. colour_of s n = Black \<longrightarrow> n \<in> Wellfounded.acc (edges nbrs))) \<and>
     (\<forall>n\<in>cycle_nodes s. (n, n) \<in> (edges nbrs)\<^sup>+) \<and>
     successively (\<lambda>a b. b \<in> set (nbrs a)) stack"

definition grows :: "dfs_state \<Rightarrow> dfs_state \<Rightarrow> bool" where
  "grows s t \<longleftrightarrow>
     (\<forall>n. colour_of s n = Black \<longrightarrow> colour_of t n = Black) \<and>
     (\<forall>n. colour_of t n = White \<longrightarrow> colour_of s n = White) \<and> cycle_nodes s \<subseteq> cycle_nodes t"

lemma colour_paint [simp]: "colour_of (paint n c s) m = (if m = n then c else colour_of s m)"
  by (simp add: colour_of_def paint_def)

lemma cycle_paint [simp]: "cycle_nodes (paint n c s) = cycle_nodes s"
  by (simp add: paint_def)

lemma close_simps [simp]:
  "colour_of (close_cycle nbr stack s) m = colour_of s m"
  "cycle_nodes (close_cycle nbr stack s) = cycle_nodes s \<union> set (dropWhile (\<lambda>n. n \<noteq> nbr) stack)"
  by (simp_all add: close_cycle_def colour_of_def)

lemma grows_refl: "grows s s"
  by (simp add: grows_def)

lemma grows_trans: "grows s t \<Longrightarrow> grows t u \<Longrightarrow> grows s u"
  unfolding grows_def by (meson subset_trans)

lemma grows_whites: "grows s t \<Longrightarrow> finite V \<Longrightarrow> whites V t \<le> whites V s"
  unfolding whites_def by (rule card_mono) (auto simp: grows_def)

lemma whites_paint_Gray:
  assumes "colour_of s n = White" and "n \<in> V" and "finite V"
  shows "whites V (paint n Gray s) < whites V s"
  unfolding whites_def by (rule psubset_card_mono) (use assms in \<open>auto split: if_splits\<close>)

lemma path_edges:
  "successively (\<lambda>a b. b \<in> set (nbrs a)) (a # as) \<Longrightarrow> x \<in> set (a # as) \<Longrightarrow> (x, a) \<in> (edges nbrs)\<^sup>*"
proof (induction as arbitrary: a)
  case (Cons b as)
  then have "(b, a) \<in> edges nbrs" by (simp add: edges_def)
  with Cons show ?case by (auto intro: rtrancl_into_rtrancl)
qed simp

lemma path_to_last:
  "successively (\<lambda>a b. b \<in> set (nbrs a)) as \<Longrightarrow> x \<in> set as \<Longrightarrow> (last as, x) \<in> (edges nbrs)\<^sup>*"
proof (induction as)
  case (Cons a as)
  show ?case
  proof (cases "x = a")
    case True
    with path_edges [of nbrs a as "last (a # as)"] Cons.prems show ?thesis by (auto split: if_splits)
  next
    case False
    with Cons show ?thesis by (auto simp: successively_Cons)
  qed
qed simp

text \<open>A back edge closes a cycle through every step from the gray one on.\<close>

lemma back_edge_cycle:
  assumes "successively (\<lambda>a b. b \<in> set (nbrs a)) stack" and "nbr \<in> set (nbrs (last stack))"
    and "nbr \<in> set stack" and "x \<in> set (dropWhile (\<lambda>n. n \<noteq> nbr) stack)"
  shows "(x, x) \<in> (edges nbrs)\<^sup>+"
proof -
  obtain pre as where split: "stack = pre @ nbr # as" and pre: "nbr \<notin> set pre"
    using split_list_first [OF assms(3)] by blast
  have as: "dropWhile (\<lambda>n. n \<noteq> nbr) stack = nbr # as"
    using pre by (simp add: split dropWhile_append)
  have succ: "successively (\<lambda>a b. b \<in> set (nbrs a)) (nbr # as)"
    using assms(1) by (simp add: split successively_append_iff)
  have last: "last stack = last (nbr # as)" by (simp add: split)
  have x: "x \<in> set (nbr # as)" using assms(4) unfolding as .
  have "(x, nbr) \<in> (edges nbrs)\<^sup>*" by (rule path_edges [OF succ x])
  moreover have "(nbr, last stack) \<in> edges nbrs" using assms(2) by (simp add: edges_def)
  moreover have "(last stack, x) \<in> (edges nbrs)\<^sup>*" unfolding last by (rule path_to_last [OF succ x])
  ultimately show ?thesis by (meson rtrancl_into_trancl1 rtrancl_trancl_trancl trancl_rtrancl_trancl)
qed

lemma search_inv_push:
  assumes "search_inv nbrs stack s" and "colour_of s n = White"
    and "stack = [] \<or> n \<in> set (nbrs (last stack))"
  shows "search_inv nbrs (stack @ [n]) (paint n Gray s)"
  using assms by (auto simp: search_inv_def successively_append_iff split: if_splits)

lemma search_inv_close:
  assumes "search_inv nbrs stack s" and "colour_of s nbr = Gray" and "nbr \<in> set (nbrs (last stack))"
  shows "search_inv nbrs stack (close_cycle nbr stack s)" and "cycle_nodes (close_cycle nbr stack s) \<noteq> {}"
proof -
  have mem: "nbr \<in> set stack" using assms(1,2) by (auto simp: search_inv_def)
  then have "dropWhile (\<lambda>n. n \<noteq> nbr) stack \<noteq> []" by (simp add: dropWhile_eq_Nil_conv)
  then show ne: "cycle_nodes (close_cycle nbr stack s) \<noteq> {}" by simp
  have path: "successively (\<lambda>a b. b \<in> set (nbrs a)) stack" using assms(1) by (simp add: search_inv_def)
  show "search_inv nbrs stack (close_cycle nbr stack s)"
    using assms(1) ne back_edge_cycle [OF path assms(3) mem] by (auto simp: search_inv_def)
qed

lemma search_inv_pop:
  assumes "search_inv nbrs (stack @ [n]) s" and "n \<notin> set stack"
    and "\<And>m. m \<in> set (nbrs n) \<Longrightarrow> colour_of s m = Black \<or> cycle_nodes s \<noteq> {}"
  shows "search_inv nbrs stack (paint n Black s)"
proof -
  have "n \<in> Wellfounded.acc (edges nbrs)" if "cycle_nodes s = {}"
  proof (rule accI)
    fix d assume "(d, n) \<in> edges nbrs"
    with assms(3) that have "colour_of s d = Black" by (simp add: edges_def)
    with assms(1) that show "d \<in> Wellfounded.acc (edges nbrs)" by (simp add: search_inv_def)
  qed
  moreover have "set stack = {m. m \<noteq> n \<and> colour_of s m = Gray}"
    using assms(1,2) by (auto simp: search_inv_def)
  ultimately show ?thesis
    using assms(1) by (auto simp: search_inv_def successively_append_iff split: if_splits)
qed

definition visits :: "(string \<Rightarrow> string list) \<Rightarrow> string set \<Rightarrow> string list \<Rightarrow> nat \<Rightarrow>
    (string \<Rightarrow> dfs_state \<Rightarrow> dfs_state option) \<Rightarrow> bool" where
  "visits nbrs V stack k visit \<longleftrightarrow>
     (\<forall>n s. search_inv nbrs stack s \<and> n \<in> V \<and> colour_of s n = White \<and> whites V s \<le> k \<and>
        (stack = [] \<or> n \<in> set (nbrs (last stack))) \<longrightarrow>
        (\<exists>t. visit n s = Some t \<and> search_inv nbrs stack t \<and> grows s t \<and> colour_of t n = Black))"

lemma visit_all_correct:
  assumes "visits nbrs V stack k visit" and "finite V" and "stack \<noteq> []"
  shows "search_inv nbrs stack s \<Longrightarrow> set ns \<subseteq> V \<inter> set (nbrs (last stack)) \<Longrightarrow> whites V s \<le> k \<Longrightarrow>
    \<exists>t. visit_all visit stack ns s = Some t \<and> search_inv nbrs stack t \<and> grows s t \<and>
      (\<forall>m\<in>set ns. colour_of t m = Black \<or> cycle_nodes t \<noteq> {})"
proof (induction ns arbitrary: s)
  case (Cons n ns)
  have step: "\<exists>t. visit_all visit stack (n # ns) s = Some t \<and> search_inv nbrs stack t \<and> grows s t \<and>
      (\<forall>m\<in>set (n # ns). colour_of t m = Black \<or> cycle_nodes t \<noteq> {})"
    if u: "visit_all visit stack (n # ns) s = visit_all visit stack ns u" "search_inv nbrs stack u"
      "grows s u" "colour_of u n = Black \<or> cycle_nodes u \<noteq> {}" for u
  proof -
    have "whites V u \<le> k" using grows_whites [OF u(3) assms(2)] Cons.prems(3) by simp
    with Cons.IH [OF u(2)] Cons.prems(2) obtain t where t: "visit_all visit stack ns u = Some t"
      "search_inv nbrs stack t" "grows u t" "\<forall>m\<in>set ns. colour_of t m = Black \<or> cycle_nodes t \<noteq> {}"
      by auto
    moreover have "colour_of t n = Black \<or> cycle_nodes t \<noteq> {}" using u(4) t(3) by (auto simp: grows_def)
    ultimately show ?thesis using u(1) grows_trans [OF u(3) t(3)] by auto
  qed
  show ?case
  proof (cases "colour_of s n")
    case Gray
    note cl = search_inv_close [OF Cons.prems(1) Gray]
    show ?thesis
      by (rule step [of "close_cycle n stack s"]) (use Gray Cons.prems(2) cl in \<open>auto simp: grows_def\<close>)
  next
    case White
    with assms(1) Cons.prems obtain u where
      "visit n s = Some u" "search_inv nbrs stack u" "grows s u" "colour_of u n = Black"
      unfolding visits_def by (metis Int_iff insert_subset list.simps(15))
    with White show ?thesis by (intro step [of u]) auto
  next
    case Black
    with Cons.prems(1) show ?thesis by (intro step [of s]) (auto simp: grows_refl)
  qed
qed (auto simp: grows_refl)

lemma dfs_correct:
  assumes "finite V" and "\<And>n. n \<in> V \<Longrightarrow> set (nbrs n) \<subseteq> V"
  shows "visits nbrs V stack k (dfs k nbrs stack)"
proof (induction k arbitrary: stack)
  case 0
  have "whites V s \<noteq> 0" if "n \<in> V" "colour_of s n = White" for n s
    using that assms(1) by (auto simp: whites_def card_eq_0_iff)
  then show ?case by (auto simp: visits_def)
next
  case (Suc k)
  show ?case unfolding visits_def
  proof (intro allI impI, elim conjE)
    fix n s assume s: "search_inv nbrs stack s" "n \<in> V" "colour_of s n = White" "whites V s \<le> Suc k"
      "stack = [] \<or> n \<in> set (nbrs (last stack))"
    let ?st = "stack @ [n]" and ?g = "paint n Gray s"
    have "whites V ?g \<le> k" using whites_paint_Gray [OF s(3,2) assms(1)] s(4) by simp
    with visit_all_correct [OF Suc.IH [of ?st] assms(1) _ search_inv_push [OF s(1,3,5)], of "nbrs n"]
      assms(2) [OF s(2)] obtain t where t: "visit_all (dfs k nbrs ?st) ?st (nbrs n) ?g = Some t"
      "search_inv nbrs ?st t" "grows ?g t" "\<forall>m\<in>set (nbrs n). colour_of t m = Black \<or> cycle_nodes t \<noteq> {}"
      by auto
    have "n \<notin> set stack" using s(1,3) by (auto simp: search_inv_def)
    then have "search_inv nbrs stack (paint n Black t)" using t by (intro search_inv_pop) auto
    moreover have "grows s (paint n Black t)" using t(3) s(3) by (auto simp: grows_def split: if_splits)
    ultimately show "\<exists>t. dfs (Suc k) nbrs stack n s = Some t \<and> search_inv nbrs stack t \<and> grows s t \<and>
        colour_of t n = Black"
      using t(1) by simp
  qed
qed

lemma dfs_roots_correct:
  assumes "finite V" and "\<And>n. n \<in> V \<Longrightarrow> set (nbrs n) \<subseteq> V"
  shows "search_inv nbrs [] s \<Longrightarrow> set ns \<subseteq> V \<Longrightarrow> whites V s \<le> k \<Longrightarrow>
    \<exists>t. dfs_roots k nbrs ns s = Some t \<and> search_inv nbrs [] t \<and> grows s t \<and>
      (\<forall>n\<in>set ns. colour_of t n \<noteq> White)"
proof (induction ns arbitrary: s)
  case (Cons n ns)
  have step: "\<exists>t. dfs_roots k nbrs (n # ns) s = Some t \<and> search_inv nbrs [] t \<and> grows s t \<and>
      (\<forall>m\<in>set (n # ns). colour_of t m \<noteq> White)"
    if u: "dfs_roots k nbrs (n # ns) s = dfs_roots k nbrs ns u" "search_inv nbrs [] u" "grows s u"
      "colour_of u n \<noteq> White" for u
  proof -
    have "whites V u \<le> k" using grows_whites [OF u(3) assms(1)] Cons.prems(3) by simp
    with Cons.IH [OF u(2)] Cons.prems(2) obtain t where t: "dfs_roots k nbrs ns u = Some t"
      "search_inv nbrs [] t" "grows u t" "\<forall>m\<in>set ns. colour_of t m \<noteq> White" by auto
    moreover have "colour_of t n \<noteq> White" using u(4) t(3) unfolding grows_def by blast
    ultimately show ?thesis using u(1) grows_trans [OF u(3) t(3)] by auto
  qed
  show ?case
  proof (cases "colour_of s n = White")
    case True
    with dfs_correct [where nbrs = nbrs and stack = "[]" and k = k, OF assms] Cons.prems obtain u where
      "dfs k nbrs [] n s = Some u" "search_inv nbrs [] u" "grows s u" "colour_of u n = Black"
      unfolding visits_def by (metis insert_subset list.simps(15))
    with True show ?thesis by (intro step [of u]) auto
  next
    case False
    with Cons.prems(1) show ?thesis by (intro step [of s]) (auto simp: grows_refl)
  qed
qed (auto simp: grows_refl)

text \<open>The iteration order of the sets of a plan's graph: any list with the same members.\<close>

definition enumerates :: "(string set \<Rightarrow> string list) \<Rightarrow> bool" where
  "enumerates enum \<longleftrightarrow> (\<forall>S. finite S \<longrightarrow> set (enum S) = S)"

lemma edges_full_graph:
  assumes "enumerates enum"
  shows "edges (graph_nbrs enum (build_full_dep_graph acts)) = exec_rel acts"
proof -
  let ?g = "build_full_dep_graph acts"
  have fin: "finite (exec_needs acts n)" for n
    by (rule finite_subset [OF exec_needs_keys]) simp
  have "d \<in> set (graph_nbrs enum ?g n) \<longleftrightarrow> (d, n) \<in> exec_rel acts" for d n
  proof (cases "n \<in> set (dkeys acts)")
    case True
    then have "set (graph_nbrs enum ?g n) = exec_needs acts n"
      using assms fin by (simp add: graph_nbrs_def full_graph_get enumerates_def del: set_map)
    with True exec_needs_keys [of acts n] show ?thesis by (auto simp: needs_def simp del: set_map)
  next
    case False
    then have "dget ?g n = None" using full_graph_keys [of acts] by (metis dget_None_iff)
    with False show ?thesis by (simp add: graph_nbrs_def needs_def del: set_map)
  qed
  then show ?thesis by (auto simp: edges_def)
qed

lemma find_cycle_nodes_correct:
  assumes "dict_ok acts" and "enumerates enum"
  obtains cyc where "find_cycle_nodes enum acts = Some cyc"
    "cyc = {} \<longleftrightarrow> acyclic (exec_rel acts)" "\<forall>n\<in>cyc. (n, n) \<in> (exec_rel acts)\<^sup>+"
proof -
  let ?g = "build_full_dep_graph acts" and ?V = "set (dkeys acts)"
  let ?nb = "graph_nbrs enum ?g"
  let ?s = "\<lparr>colours = map (\<lambda>(n, ds). (n, White)) ?g, cycle_nodes = {}\<rparr>"
  note e = edges_full_graph [OF assms(2), of acts]
  have white: "colour_of ?s n = White" for n
    by (auto simp: colour_of_def split: option.splits)
  have "set (?nb n) \<subseteq> ?V" for n
    using e unfolding edges_def needs_def by blast
  moreover have "search_inv ?nb [] ?s" using white by (simp add: search_inv_def)
  moreover have "whites ?V ?s \<le> length ?g"
  proof -
    have "whites ?V ?s \<le> card ?V" unfolding whites_def by (rule card_mono) auto
    also have "\<dots> \<le> length ?g" using full_graph_keys [of acts] by (metis card_length length_map)
    finally show ?thesis .
  qed
  ultimately obtain t where t: "dfs_roots (length ?g) ?nb (dkeys ?g) ?s = Some t"
    "search_inv ?nb [] t" "\<forall>n\<in>?V. colour_of t n \<noteq> White"
    using dfs_roots_correct [of ?V ?nb ?s "dkeys ?g" "length ?g"] by (auto simp del: set_map)
  have black: "colour_of t n = Black" if "n \<in> ?V" for n
    using t(2,3) that by (cases "colour_of t n") (auto simp: search_inv_def)
  have cyc: "\<forall>n\<in>cycle_nodes t. (n, n) \<in> (exec_rel acts)\<^sup>+"
    using t(2) by (simp add: search_inv_def e del: set_map)
  have "cycle_nodes t = {} \<longleftrightarrow> acyclic (exec_rel acts)"
  proof
    assume "cycle_nodes t = {}"
    with t(2) black have "?V \<subseteq> Wellfounded.acc (exec_rel acts)"
      by (auto simp: search_inv_def e simp del: set_map)
    then show "acyclic (exec_rel acts)" using acc_all_acyclic [of ?V "exec_needs acts"] by simp
  next
    assume "acyclic (exec_rel acts)"
    with cyc show "cycle_nodes t = {}" by (auto simp: acyclic_def)
  qed
  with t(1) cyc that [of "cycle_nodes t"] show thesis by (simp add: find_cycle_nodes_def Let_def)
qed

section \<open>A valid plan\<close>

lemma validate_plan_NilD:
  assumes "validate_plan E P enum p treg L = Inr []"
  shows "validate_steps E P p treg = []" "phase1_detect_ref_cycles enum (actions p) = []"
    "phase1_check_compose_ref_syntax p = []" "phase1_check_compose_refs E p (Some treg) = []"
    "phase1_check_show_template_sources p = Inr []"
    "phase1_check_only_in_compose p = []" "phase1_check_only_empty_branch p = []"
    "check_composer_allowlist L p = []"
  using assms by (auto simp: validate_plan_def bind_res_eq_Inr)

lemma validate_steps_NilD:
  assumes "validate_steps E P p treg = []" and "(sid, a) \<in> set (actions p)"
  obtains ts where "dget treg (tool a) = Some ts"
    "validate_action_args E P sid a ts (Some (actions p)) (Some treg) = []"
  using assms by (fastforce simp: validate_steps_def split: option.splits)

lemma action_args_NilD:
  assumes "validate_action_args E P sid a ts acts reg = []"
  shows "phase1_check_unknown_keys E sid a ts = []" "phase1_check_ref_syntax sid a ts = []"
    "phase1_check_ref_in_dict_keys sid a ts = []"
    "acts = Some as \<Longrightarrow> phase1_check_refs E sid a as ts reg = []"
    "phase1_check_required_any_non_null sid a ts = []" "phase2_validate_args E P sid a ts = []"
    "phase3_validate_branch_matches E sid a ts = []" "phase3_check_catch_all_position sid a = []"
  using assms by (auto simp: validate_action_args_def)

lemma plain_registry_keys [simp]: "dkeys (plain_registry treg) = dkeys treg"
  by (simp add: plain_registry_def comp_def case_prod_beta)

lemma plain_registry_get: "dget (plain_registry treg) k = map_option base_spec (dget treg k)"
  unfolding plain_registry_def by (induction treg) auto

lemma cycles_Nil_iff:
  assumes "dict_ok acts" and "enumerates enum"
  shows "phase1_detect_ref_cycles enum acts = [] \<longleftrightarrow> acyclic (exec_rel acts)"
proof -
  obtain cyc where c: "find_cycle_nodes enum acts = Some cyc" "cyc = {} \<longleftrightarrow> acyclic (exec_rel acts)"
    "\<forall>n\<in>cyc. (n, n) \<in> (exec_rel acts)\<^sup>+"
    by (rule find_cycle_nodes_correct [OF assms])
  have "cyc \<subseteq> set (dkeys acts)"
  proof
    fix n assume "n \<in> cyc"
    with c(3) obtain d where "(d, n) \<in> exec_rel acts" by (blast dest: tranclD2)
    then show "n \<in> set (dkeys acts)" unfolding needs_def by blast
  qed
  then have "finite cyc" by (rule finite_subset) simp
  with c(1,2) show ?thesis by (simp add: phase1_detect_ref_cycles_def)
qed

lemma validated_compiles:
  assumes "validate_plan E P enum p treg L = Inr []" and "dict_ok (actions p)" and "enumerates enum"
  shows "\<exists>ep. compile_plan p (plain_registry treg) = Inr ep"
proof -
  note v = validate_plan_NilD [OF assms(1)]
  have "\<forall>(s, a)\<in>set (actions p). tool a \<in> set (dkeys (plain_registry treg))"
  proof clarify
    fix s a assume "(s, a) \<in> set (actions p)"
    with v(1) obtain ts where "dget treg (tool a) = Some ts" by (rule validate_steps_NilD)
    then show "tool a \<in> set (dkeys (plain_registry treg))"
      using dget_None_iff [of treg "tool a"] by simp
  qed
  moreover have "acyclic (exec_rel (actions p))"
    using v(2) cycles_Nil_iff [OF assms(2,3)] by simp
  ultimately show ?thesis using compile_plan_iff [OF assms(2)] by blast
qed

text \<open>
  C36: a plan without violations compiles. If \<open>validate_plan\<close> reports nothing, every tool of
  the plan is registered and its execution graph has no cycle, so the compiler that runs next
  on the same registry returns an execution plan; this holds for every order in which the
  interpreter may iterate its sets.
\<close>

theorem validated_plan_compiles:
  assumes "validate_plan E P enum p treg L = Inr []" and "dict_ok (actions p)" and "enumerates enum"
  shows "\<exists>ep. compile_plan p (plain_registry treg) = Inr ep"
  using assms by (rule validated_compiles)

text \<open>A plan, two tools and their models on which the checks are evaluated.\<close>

definition text_field :: "bool \<Rightarrow> field_info" where
  "text_field req = \<lparr>f_anno = AStr, f_meta = [], f_required = req, f_alias = None, f_validation_alias = None\<rparr>"

definition status_field :: "string \<Rightarrow> field_info" where
  "status_field s = (text_field True)\<lparr>f_anno := ALiteral [VStr s]\<rparr>"

definition sample_types :: type_env where
  "sample_types = \<lparr>model_of = (\<lambda>n.
       if n = ''AddIn'' then \<lparr>model_fields = [(''x'', text_field True)], populate_by_name = False\<rparr>
       else if n = ''Ok'' then \<lparr>model_fields = [(''status'', status_field ''ok''), (''id'', text_field True),
              (''rows'', (text_field True)\<lparr>f_anno := AGeneric OList [AModel ''Row'']\<rparr>)],
              populate_by_name = False\<rparr>
       else if n = ''Row'' then \<lparr>model_fields = [(''name'', text_field True)], populate_by_name = False\<rparr>
       else \<lparr>model_fields = [(''status'', status_field ''error'')], populate_by_name = False\<rparr>),
     show_anno = (\<lambda>a. [])\<rparr>"

definition sample_out :: anno where
  "sample_out = AAnnotated (AUnion [AModel ''Ok'', AModel ''Err'']) [OtherMeta ''FieldInfo'']"

definition sample_treg :: typed_registry where
  "sample_treg =
     [(''add_task'', \<lparr>base_spec = sample_write, in_model = ''AddIn'', out_anno = sample_out\<rparr>),
      (''list_tasks'', \<lparr>base_spec = sample_read, in_model = ''AddIn'', out_anno = sample_out\<rparr>)]"

definition lax :: pydantic where
  "lax = \<lparr>model_errors = (\<lambda>n d. []), adapter_errors = (\<lambda>a v. [])\<rparr>"

text \<open>A set's members in the order of their names, on the sets of the samples.\<close>

definition by_name :: "string set \<Rightarrow> string list" where
  "by_name S = sorted_list_of_set S"

lemma enumerates_by_name: "enumerates by_name"
  by (simp add: enumerates_def by_name_def)

definition show_ok3 :: plan where
  "show_ok3 = plan_ok3\<lparr>plan_compose := (plan_compose plan_ok3)\<lparr>template_id := Some ''reminders_list_empty''\<rparr>\<rparr>"

lemma sample_plan_valid: "validate_plan sample_types lax by_name show_ok3 sample_treg no_lists = Inr []"
  by code_simp

theorem validated_plan_compiles_witness:
  "\<exists>ep. compile_plan show_ok3 (plain_registry sample_treg) = Inr ep"
  using validated_plan_compiles [OF sample_plan_valid _ enumerates_by_name] plan_samples(3)
  by (simp add: show_ok3_def)

text \<open>
  the cycle report is right about every step it names. It is empty exactly when the
  execution relation is acyclic, and every step named in it lies on a cycle.
\<close>

theorem cycle_report_sound:
  assumes "dict_ok acts" and "enumerates enum"
  shows "(phase1_detect_ref_cycles enum acts = [] \<longleftrightarrow> acyclic (exec_rel acts)) \<and>
    (\<forall>v\<in>set (phase1_detect_ref_cycles enum acts).
       \<exists>n. v_step v = Some n \<and> (n, n) \<in> (exec_rel acts)\<^sup>+)"
proof -
  obtain cyc where c: "find_cycle_nodes enum acts = Some cyc"
    "\<forall>n\<in>cyc. (n, n) \<in> (exec_rel acts)\<^sup>+"
    by (rule find_cycle_nodes_correct [OF assms])
  have "set (sorted_list_of_set cyc) \<subseteq> cyc"
    by (cases "finite cyc") auto
  with c have "\<forall>v\<in>set (phase1_detect_ref_cycles enum acts).
      \<exists>n. v_step v = Some n \<and> (n, n) \<in> (exec_rel acts)\<^sup>+"
    by (auto simp: phase1_detect_ref_cycles_def viol_def simp del: set_sorted_list_of_set)
  with cycles_Nil_iff [OF assms] show ?thesis by blast
qed

definition two_cycles :: actions where
  "two_cycles = [(''s1'', ref_action ''add_task'' ''${s2.id} ${s3.id}''),
     (''s2'', ref_action ''add_task'' ''${s1.id}''), (''s3'', ref_action ''add_task'' ''${s2.id}'')]"

lemma two_cycles_eval:
  "dict_ok two_cycles"
  "map v_step (phase1_detect_ref_cycles by_name two_cycles) = [Some ''s1'', Some ''s2'']"
  "map v_step (phase1_detect_ref_cycles (rev \<circ> by_name) two_cycles) = [Some ''s1'', Some ''s2'', Some ''s3'']"
  by code_simp+

lemma enumerates_rev: "enumerates (rev \<circ> by_name)"
  by (simp add: enumerates_def by_name_def)

theorem cycle_report_sound_witness:
  "\<not> acyclic (exec_rel two_cycles) \<and> (''s1'', ''s1'') \<in> (exec_rel two_cycles)\<^sup>+"
proof -
  note c = cycle_report_sound [OF two_cycles_eval(1) enumerates_by_name]
  have "Some ''s1'' \<in> v_step ` set (phase1_detect_ref_cycles by_name two_cycles)"
    using two_cycles_eval(2) by (metis list.set_intros(1) set_map)
  with c show ?thesis by fastforce
qed

text \<open>
  Not every step of a cycle is named: a step whose only way round leads through a finished
  one is missed, and which one that is depends on the iteration order of a set of strings.
\<close>

lemma cycle_report_incomplete:
  "(''s3'', ''s3'') \<in> (exec_rel two_cycles)\<^sup>+ \<and>
   Some ''s3'' \<notin> v_step ` set (phase1_detect_ref_cycles by_name two_cycles)"
proof
  have "Some ''s3'' \<in> v_step ` set (phase1_detect_ref_cycles (rev \<circ> by_name) two_cycles)"
    unfolding set_map [symmetric] two_cycles_eval(3) by simp
  then obtain v where v: "v \<in> set (phase1_detect_ref_cycles (rev \<circ> by_name) two_cycles)"
    "v_step v = Some ''s3''" by force
  obtain cyc where "find_cycle_nodes (rev \<circ> by_name) two_cycles = Some cyc"
    "\<forall>n\<in>cyc. (n, n) \<in> (exec_rel two_cycles)\<^sup>+"
    by (rule find_cycle_nodes_correct [OF two_cycles_eval(1) enumerates_rev])
  moreover have "set (sorted_list_of_set cyc) \<subseteq> cyc"
    by (cases "finite cyc") auto
  ultimately show "(''s3'', ''s3'') \<in> (exec_rel two_cycles)\<^sup>+"
    using v by (auto simp: phase1_detect_ref_cycles_def viol_def simp del: set_sorted_list_of_set)
  show "Some ''s3'' \<notin> v_step ` set (phase1_detect_ref_cycles by_name two_cycles)"
    unfolding set_map [symmetric] two_cycles_eval(2) by simp
qed

text \<open>Every reference in the arguments of a valid plan.\<close>

lemma arg_refs_checked:
  assumes "validate_plan E P enum p treg L = Inr []" and "(sid, a) \<in> set (actions p)"
    and "path \<in> set (iter_refs (VDict (args a)))"
  obtains ts target where "dget treg (tool a) = Some ts" "extract_step_id path = Some target"
    "target \<in> set (dkeys (actions p))" "target \<noteq> sid" "strict_path path"
    "check_arg_ref E (actions p) (Some treg) sid ts path = []"
proof -
  obtain ts where ts: "dget treg (tool a) = Some ts"
    "validate_action_args E P sid a ts (Some (actions p)) (Some treg) = []"
    using validate_steps_NilD [OF validate_plan_NilD(1) [OF assms(1)] assms(2)] by blast
  note v = action_args_NilD [OF ts(2)]
  have chk: "check_arg_ref E (actions p) (Some treg) sid ts path = []"
    using v(4) [OF refl] assms(3) by (auto simp: phase1_check_refs_def)
  have "path_ok path" by (rule iter_refs_path_ok [OF assms(3)])
  then have target: "extract_step_id path = Some (hd (split_on (CHR ''.'') path))"
    by (auto simp: extract_step_id_path_ok)
  have "hd (split_on (CHR ''.'') path) \<in> set (dkeys (actions p))" "hd (split_on (CHR ''.'') path) \<noteq> sid"
    using chk unfolding check_arg_ref_def target option.case by (auto split: if_splits)
  moreover have "strict_path path"
    using v(2) assms(3) by (auto simp: phase1_check_ref_syntax_def intro: malformed_Nil_refs)
  ultimately show thesis using that [OF ts(1) target] chk by blast
qed

text \<open>
  C37: references of a valid plan are scheduled. Every reference in the arguments of a step
  of a valid plan names another step of the plan, by a path of the strict grammar, and
  compilation puts that step into a strictly earlier layer: its output is there, if it
  succeeded, when the reference is resolved.
\<close>

theorem validated_refs_scheduled:
  assumes "validate_plan E P enum p treg L = Inr []" and "dict_ok (actions p)"
    and "compiled_layers (p, plain_registry treg) = Some (As @ l # Bs)"
    and "(sid, a) \<in> set (actions p)" and "sid \<in> set l" and "path \<in> set (iter_refs (VDict (args a)))"
  shows "\<exists>target. extract_step_id path = Some target \<and> strict_path path \<and> target \<in> set (concat As)"
proof -
  obtain ts target where t: "extract_step_id path = Some target" "target \<in> set (dkeys (actions p))"
    "target \<noteq> sid" "strict_path path"
    by (rule arg_refs_checked [OF assms(1,4,6)])
  have "target \<in> ref_steps (VDict (args a))"
    using t(1) assms(6) unfolding ref_steps_def by force
  then have "target \<in> exec_needs (actions p) sid"
    using t(2,3) mem_dget [OF assms(2,4)]
    by (simp add: exec_needs_def data_needs_def args_producers_def del: set_map)
  moreover have "exec_needs (actions p) sid \<subseteq> set (concat As)"
    using cl.lay_needs [of "(p, plain_registry treg)" As l Bs sid] assms(2,3,5) by auto
  ultimately show ?thesis using t by blast
qed

lemma show_ok3_layers:
  "compiled_layers (show_ok3, plain_registry sample_treg) = Some ([[''s1'', ''s3'']] @ [''s2''] # [])"
  "(''s2'', ref_action ''add_task'' ''${s1.id}'') \<in> set (actions show_ok3)"
  "''s1.id'' \<in> set (iter_refs (VDict (args (ref_action ''add_task'' ''${s1.id}''))))"
  by code_simp+

theorem validated_refs_scheduled_witness:
  "extract_step_id ''s1.id'' = Some ''s1'' \<and> ''s1'' \<in> set (concat [[''s1'', ''s3'']])"
proof -
  have "dict_ok (actions show_ok3)" by code_simp
  from validated_refs_scheduled [OF sample_plan_valid this show_ok3_layers(1,2) _ show_ok3_layers(3)]
  show ?thesis by (auto simp: extract_step_id_def)
qed

lemma maybe_check_mem:
  assumes "v \<in> set (maybe_check_field_path E treg acts path target host ht c narrow)"
  shows "\<exists>ta tspec. dget acts target = Some ta \<and> dget treg (tool ta) = Some tspec \<and>
    ref_field_exists_in_output E (out_anno tspec) (parse_ref_segments path) narrow = Some False"
proof (cases "dget acts target")
  case (Some ta)
  with assms show ?thesis
    by (cases "dget treg (tool ta)"; cases "parse_ref_segments path")
      (auto simp: maybe_check_field_path_def split: if_splits)
qed (use assms in \<open>simp add: maybe_check_field_path_def\<close>)

text \<open>
  a rejected reference could not have been resolved. When the check of a reference in
  the arguments reports \<open>arg_ref_unknown_field\<close>, there is a way into the step (through one of
  the producer's branch statuses, or any if the producer does not route to it) on which the
  executor's resolution of the path raises an error, whatever the producer returned within
  its declared output model. Selector paths and the names of list methods are outside.
\<close>

theorem rejected_ref_never_resolves:
  assumes "v \<in> set (check_arg_ref E acts (Some treg) sid ts path)" and "v_code v = ''arg_ref_unknown_field''"
    and "path_ok path" and "plain_segments (parse_ref_segments path)"
  shows "\<exists>target ta tspec narrow. extract_step_id path = Some target \<and> dget acts target = Some ta \<and>
    dget treg (tool ta) = Some tspec \<and>
    (case narrow of None \<Rightarrow> reachable_producer_statuses acts target sid = []
      | Some s \<Rightarrow> s \<in> set (reachable_producer_statuses acts target sid)) \<and>
    (\<forall>st out n. dget st target = Some out \<longrightarrow> AModel n \<in> set (output_union_members (out_anno tspec)) \<longrightarrow>
       conforms E (AModel n) out \<longrightarrow>
       (\<forall>s. narrow = Some s \<longrightarrow> status_is s out \<and> literal_status E (out_anno tspec)) \<longrightarrow>
       (\<exists>e. resolve_path path st = Inl e))"
proof -
  let ?t = "hd (split_on (CHR ''.'') path)"
  let ?chk = "maybe_check_field_path E treg acts path ?t (Some sid) (spec_name ts) ''arg_ref_unknown_field''"
  have t: "extract_step_id path = Some ?t" by (rule extract_step_id_path_ok [OF assms(3)])
  have codes: "''arg_ref_unknown_field'' \<noteq> ''unknown_ref_target''" "''arg_ref_unknown_field'' \<noteq> ''self_ref''"
    by simp_all
  obtain narrow where n: "v \<in> set (?chk narrow)" "case narrow of None \<Rightarrow> reachable_producer_statuses acts ?t sid = []
      | Some s \<Rightarrow> s \<in> set (reachable_producer_statuses acts ?t sid)"
  proof (cases "reachable_producer_statuses acts ?t sid")
    case Nil
    with assms(1,2) that [of None] show thesis
      by (auto simp: check_arg_ref_def t viol_def Let_def split: if_splits)
  next
    case (Cons s ss)
    with assms(1,2) that [of "Some _"] show thesis
      by (auto simp: check_arg_ref_def t viol_def Let_def split: if_splits)
  qed
  then obtain ta tspec where ta: "dget acts ?t = Some ta" "dget treg (tool ta) = Some tspec"
    "ref_field_exists_in_output E (out_anno tspec) (parse_ref_segments path) narrow = Some False"
    using maybe_check_mem by blast
  have "\<exists>e. resolve_path path st = Inl e"
    if "dget st ?t = Some out" "AModel n \<in> set (output_union_members (out_anno tspec))"
      "conforms E (AModel n) out" "\<forall>s. narrow = Some s \<longrightarrow> status_is s out \<and> literal_status E (out_anno tspec)"
    for st out n
  proof -
    have "\<exists>e. walk_fields path out (parse_ref_segments path) = Inl e"
      using that(4) by (intro ref_rejected_sound [OF ta(3) that(2,3) _ assms(4)]) blast
    moreover have "?t \<noteq> []" by (rule path_ok_hd [OF assms(3)])
    ultimately show ?thesis using that(1)
      by (cases "split_on (CHR ''.'') path") (auto simp: resolve_path_def parse_ref_segments_def)
  qed
  with t ta(1,2) n(2) show ?thesis by blast
qed

definition on_error :: outcome_branch where
  "on_error = \<lparr>match = [(''status'', VStr ''error'')], next_step = Some ''s2'', br_compose = None\<rparr>"

text \<open>The second step runs only after an error, yet reads a field of the success model.\<close>

definition wrong_route :: actions where
  "wrong_route = [(''s1'', (ref_action ''list_tasks'' ''all'')\<lparr>expected_outcomes := [on_error]\<rparr>),
     (''s2'', ref_action ''add_task'' ''${s1.id}'')]"

definition sample_ts :: typed_spec where
  "sample_ts = \<lparr>base_spec = sample_write, in_model = ''AddIn'', out_anno = sample_out\<rparr>"

lemma wrong_route_eval:
  "map v_code (check_arg_ref sample_types wrong_route (Some sample_treg) ''s2'' sample_ts ''s1.id'') =
     [''arg_ref_unknown_field'']"
  "reachable_producer_statuses wrong_route ''s1'' ''s2'' = [''error'']"
  "path_ok ''s1.id''" "plain_segments (parse_ref_segments ''s1.id'')" "extract_step_id ''s1.id'' = Some ''s1''"
  "map_option (\<lambda>a. map_option out_anno (dget sample_treg (tool a))) (dget wrong_route ''s1'') = Some (Some sample_out)"
  "AModel ''Err'' \<in> set (output_union_members sample_out)"
  "list_all (\<lambda>m. case fields_attr sample_types m of None \<Rightarrow> True
     | Some fs \<Rightarrow> (case dget fs ''status'' of None \<Rightarrow> True
         | Some fi \<Rightarrow> (case f_anno fi of ALiteral _ \<Rightarrow> True | _ \<Rightarrow> False))) (output_union_members sample_out)"
  by code_simp+

lemma sample_literal_status: "literal_status sample_types sample_out"
  using wrong_route_eval(8) unfolding literal_status_def list_all_iff
  by (fastforce split: anno.splits)

lemma sample_error_conforms:
  "conforms sample_types (AModel ''Err'') (VDict [(''status'', VStr ''error'')])"
  by (rule conf_model) (auto simp: sample_types_def status_field_def text_field_def intro: conf_literal)

theorem rejected_ref_never_resolves_witness:
  "\<exists>e. resolve_path ''s1.id'' [(''s1'', VDict [(''status'', VStr ''error'')])] = Inl e"
proof -
  obtain v where v: "v \<in> set (check_arg_ref sample_types wrong_route (Some sample_treg) ''s2'' sample_ts ''s1.id'')"
    "v_code v = ''arg_ref_unknown_field''"
    using wrong_route_eval(1) unfolding map_eq_Cons_conv by (metis list.set_intros(1))
  have d: "dget [(''s1'', VDict [(''status'', VStr ''error'')])] ''s1'' = Some (VDict [(''status'', VStr ''error'')])"
    "status_is ''error'' (VDict [(''status'', VStr ''error'')])"
    by (simp_all add: status_is_def)
  obtain ta tspec narrow where n: "dget wrong_route ''s1'' = Some ta" "dget sample_treg (tool ta) = Some tspec"
    "case narrow of None \<Rightarrow> reachable_producer_statuses wrong_route ''s1'' ''s2'' = []
      | Some s \<Rightarrow> s \<in> set (reachable_producer_statuses wrong_route ''s1'' ''s2'')"
    "\<And>st out n. dget st ''s1'' = Some out \<Longrightarrow> AModel n \<in> set (output_union_members (out_anno tspec)) \<Longrightarrow>
      conforms sample_types (AModel n) out \<Longrightarrow>
      (\<forall>s. narrow = Some s \<longrightarrow> status_is s out \<and> literal_status sample_types (out_anno tspec)) \<Longrightarrow>
      \<exists>e. resolve_path ''s1.id'' st = Inl e"
  proof -
    obtain t ta tspec narrow where *: "extract_step_id ''s1.id'' = Some t" "dget wrong_route t = Some ta"
      "dget sample_treg (tool ta) = Some tspec"
      "case narrow of None \<Rightarrow> reachable_producer_statuses wrong_route t ''s2'' = []
        | Some s \<Rightarrow> s \<in> set (reachable_producer_statuses wrong_route t ''s2'')"
      "\<forall>st out n. dget st t = Some out \<longrightarrow> AModel n \<in> set (output_union_members (out_anno tspec)) \<longrightarrow>
        conforms sample_types (AModel n) out \<longrightarrow>
        (\<forall>s. narrow = Some s \<longrightarrow> status_is s out \<and> literal_status sample_types (out_anno tspec)) \<longrightarrow>
        (\<exists>e. resolve_path ''s1.id'' st = Inl e)"
      using rejected_ref_never_resolves [OF v wrong_route_eval(3,4)]
      by (elim exE conjE) (rule that)
    from *(1) have t: "t = ''s1''" by (simp add: wrong_route_eval(5))
    show thesis by (rule that [OF *(2-4) [unfolded t]]) 
        (erule (3) *(5) [unfolded t, THEN spec, THEN spec, THEN spec, THEN mp, THEN mp, THEN mp, THEN mp])
  qed
  have "out_anno tspec = sample_out" using wrong_route_eval(6) n(1,2) by simp
  moreover have "narrow = Some ''error''"
    using n(3) wrong_route_eval(2) by (simp split: option.splits)
  ultimately show ?thesis
    using n(4) [OF d(1) _ sample_error_conforms] d(2) wrong_route_eval(7) sample_literal_status by simp
qed

text \<open>When the check of a show template's items raises.\<close>

lemma check_show_source_Inl:
  "check_show_source acts host allowed items = Inl e \<longleftrightarrow> strip items = ''${}''"
proof -
  let ?r = "strip items"
  have "check_show_source acts host allowed items = Inl e \<longleftrightarrow>
      take 2 ?r = ''${'' \<and> ?r \<noteq> [] \<and> last ?r = CHR ''}'' \<and> butlast (drop 2 ?r) = []"
    unfolding check_show_source_def Let_def extract_step_id_def
    by (cases e; cases "butlast (drop 2 ?r) = []") (simp_all split: option.split)
  also have "\<dots> \<longleftrightarrow> ?r = ''${}''"
  proof
    assume a: "take 2 ?r = ''${'' \<and> ?r \<noteq> [] \<and> last ?r = CHR ''}'' \<and> butlast (drop 2 ?r) = []"
    then obtain rest where r: "?r = ''${'' @ rest" by (metis append_take_drop_id)
    with a have "rest \<noteq> []" by auto
    then obtain ys y where "rest = ys @ [y]" by (metis rev_exhaust)
    with a r show "?r = ''${}''" by simp
  qed simp
  finally show ?thesis .
qed

lemma validate_error_only: "(e :: validate_error) = e'"
  by (cases e; cases e') simp

text \<open>
  the one way in which validation itself fails. \<open>validate_plan\<close> raises instead of
  reporting exactly when a template reply that shows a list binds \<open>items\<close> to the empty
  reference \<open>${}\<close>: the malformed token is reported by another check, but the list of
  violations is lost.
\<close>

theorem validate_plan_raises_iff:
  "validate_plan E P enum p treg L = Inl e \<longleftrightarrow>
     (\<exists>(host, c)\<in>set (iter_all_composes p). \<exists>s. cc_kind c = KTemplate \<and>
        opt_text (template_id c) \<in> set (dkeys show_template_item_sources) \<and>
        dget (template_data c) ''items'' = Some (VStr s) \<and> strip s = ''${}'')"
proof -
  have one: "check_show_compose (actions p) (host, c) = Inl e \<longleftrightarrow>
      cc_kind c = KTemplate \<and> opt_text (template_id c) \<in> set (dkeys show_template_item_sources) \<and>
      (\<exists>s. dget (template_data c) ''items'' = Some (VStr s) \<and> strip s = ''${}'')" for host c
  proof (cases "dget show_template_item_sources (opt_text (template_id c))")
    case None
    then have "opt_text (template_id c) \<notin> set (dkeys show_template_item_sources)"
      by (simp only: dget_None_iff not_False_eq_True)
    with None show ?thesis by (simp add: check_show_compose_def del: set_map)
  next
    case (Some allowed)
    then have "opt_text (template_id c) \<in> set (dkeys show_template_item_sources)"
      by (metis dget_None_iff option.distinct(1))
    with Some show ?thesis
      by (auto simp: check_show_compose_def check_show_source_Inl split: option.splits pyval.splits)
  qed
  have "validate_plan E P enum p treg L = Inl e \<longleftrightarrow>
      map_res (check_show_compose (actions p)) (iter_all_composes p) = Inl e"
    by (simp add: validate_plan_def phase1_check_show_template_sources_def bind_res_eq_Inl)
  also have "\<dots> \<longleftrightarrow> (\<exists>hc\<in>set (iter_all_composes p). check_show_compose (actions p) hc = Inl e)"
  proof
    assume "\<exists>hc\<in>set (iter_all_composes p). check_show_compose (actions p) hc = Inl e"
    then show "map_res (check_show_compose (actions p)) (iter_all_composes p) = Inl e"
      by (cases "map_res (check_show_compose (actions p)) (iter_all_composes p)")
        (auto dest: map_res_InrD intro: validate_error_only)
  qed (rule map_res_Inl)
  finally show ?thesis using one by (auto simp: Bex_def)
qed

end
