(* ===== verification/ValidatorProps.thy ===== *)
theory ValidatorProps
  imports Validator ExecutorOutcome
begin

text \<open>
  What the checks of the plan validator buy at run time: the executor's branch matching, its
  preparation of arguments, the no-op guard of the tool registry and the reply templates.
\<close>

section \<open>Branches\<close>

lemma match_from_no_catch_all:
  "\<forall>(i, b)\<in>set (enumerate idx bs). match b = [] \<longrightarrow> i = last_idx \<Longrightarrow>
     match_from idx last_idx bs out = find (\<lambda>(i, b). branch_matches out b) (enumerate idx bs)"
  by (induction bs arbitrary: idx) (auto simp: branch_matches_def)

text \<open>
  in a valid action a step's outcome takes the first branch whose expectations the
  output meets, an empty expectation being met by every output. The executor's rule of
  ignoring a catch-all that is not last is never used.
\<close>

theorem valid_branches_first_match:
  assumes "validate_action_args E P sid a ts acts reg = []"
  shows "match_branch (expected_outcomes a) out =
    find (\<lambda>(i, b). branch_matches out b) (enumerate 0 (expected_outcomes a))"
proof -
  let ?bs = "expected_outcomes a"
  have "filter (\<lambda>(i, b). match b = [] \<and> Suc i \<noteq> length ?bs) (enumerate 0 ?bs) = []"
    using action_args_NilD(8) [OF assms] by (simp add: phase3_check_catch_all_position_def)
  then have "\<forall>(i, b)\<in>set (enumerate 0 ?bs). match b = [] \<longrightarrow> i = length ?bs - 1"
    by (force simp: filter_empty_conv)
  then show ?thesis unfolding match_branch_def by (rule match_from_no_catch_all)
qed

definition branchy :: action where
  "branchy = (ref_action ''list_tasks'' ''all'')\<lparr>expected_outcomes :=
     [\<lparr>match = [(''status'', VStr ''ok'')], next_step = None, br_compose = None\<rparr>,
      \<lparr>match = [], next_step = None, br_compose = None\<rparr>]\<rparr>"

lemma branchy_valid: "validate_action_args sample_types lax ''s1'' branchy sample_ts None None = []"
  by code_simp

theorem valid_branches_first_match_witness:
  "match_branch (expected_outcomes branchy) [(''status'', VStr ''error'')] =
     find (\<lambda>(i, b). branch_matches [(''status'', VStr ''error'')] b) (enumerate 0 (expected_outcomes branchy))"
  by (rule valid_branches_first_match [OF branchy_valid])

section \<open>Arguments without references\<close>

lemma ref_free_string: "\<not> search_ref s \<Longrightarrow> refs_of s = []"
  by (simp add: search_ref_def)

lemma ref_free_resolve: "\<not> contains_ref v \<Longrightarrow> resolve_refs v st = Inr v"
proof (induction v rule: pyval_walk_induct)
  case (Str s)
  then show ?case by (simp add: resolve_in_string_def ref_free_string)
next
  case (List xs)
  then show ?case by (simp add: map_res_Inr_id list_ex_iff)
next
  case (Dict kvs)
  then have "map_res (\<lambda>(k, v). bind_res (resolve_refs v st) (\<lambda>r. Inr (k, r))) kvs = Inr kvs"
    by (intro map_res_Inr_id) (auto simp: list_ex_iff)
  then show ?case by simp
qed auto

lemma ref_free_resolve_selector: "\<not> contains_ref v \<Longrightarrow> resolve_selector_refs v st = Inr v"
proof (induction v rule: pyval_walk_induct)
  case (Str s)
  then show ?case by (simp add: resolve_selector_in_string_def ref_free_string)
next
  case (List xs)
  then show ?case by (simp add: map_res_Inr_id list_ex_iff)
next
  case (Dict kvs)
  then have "map_res (\<lambda>(k, v). bind_res (resolve_selector_refs v st) (\<lambda>r. Inr (k, r))) kvs = Inr kvs"
    by (intro map_res_Inr_id) (auto simp: list_ex_iff)
  then show ?case by simp
qed auto

lemma known_args:
  assumes "phase1_check_unknown_keys E sid a ts = []"
  shows "filter (\<lambda>(k, v). k \<in> accepted_field_names (in_decl E ts)) (args a) = args a"
proof -
  have "\<forall>k\<in>set (dkeys (args a)). k \<in> accepted_field_names (in_decl E ts)"
    using assms by (auto simp: phase1_check_unknown_keys_def filter_empty_conv)
  then show ?thesis by (auto simp: filter_id_conv)
qed

text \<open>
  literal arguments are checked once and for all. When an action validates and its
  arguments (JSON, as they come from the planner) hold no reference, the executor's
  preparation of them succeeds in every state with the value pydantic made of them at
  validation: such a step never ends in an argument violation. The hypothesis on pydantic is
  that \<open>model_validate\<close> raises exactly when it reports an error.
\<close>

theorem literal_args_never_violate:
  assumes "validate_action_args E P sid a ts acts reg = []"
    and "\<not> contains_ref (VDict (args a))" and "is_json (VDict (args a))"
    and "\<And>d. model_errors P (in_model ts) d = [] \<longleftrightarrow> (\<exists>d'. input_model (base_spec ts) d = Inr d')"
  shows "\<exists>d. input_model (base_spec ts) (args a) = Inr d \<and>
    (\<forall>st. prepare_args a (base_spec ts) st = Inr d)"
proof -
  note v = action_args_NilD [OF assms(1)]
  have "model_errors P (in_model ts) (args a) = []"
    using v(6) assms(2) unfolding phase2_validate_args_def Let_def known_args [OF v(1)]
    by (simp split: prod.splits)
  then obtain d where d: "input_model (base_spec ts) (args a) = Inr d" using assms(4) by blast
  have "prepare_args a (base_spec ts) st = Inr d" for st
    using d unfolding prepare_args_def ref_free_resolve_selector [OF assms(2)] sum.case
      ref_free_resolve [OF assms(2)] unwrap_json [OF assms(3)]
    by (simp add: validate_args_at_execute_time_def)
  with d show ?thesis by blast
qed

theorem literal_args_never_violate_witness:
  "prepare_args branchy (base_spec sample_ts) [] = Inr [(''x'', VStr ''all'')]"
proof -
  have "\<not> contains_ref (VDict (args branchy))" "is_json (VDict (args branchy))" by code_simp+
  moreover have "model_errors lax (in_model sample_ts) d = [] \<longleftrightarrow>
      (\<exists>d'. input_model (base_spec sample_ts) d = Inr d')" for d
    by (simp add: lax_def sample_ts_def sample_write_def)
  ultimately have "\<exists>d. input_model (base_spec sample_ts) (args branchy) = Inr d \<and>
      (\<forall>st. prepare_args branchy (base_spec sample_ts) st = Inr d)"
    by (rule literal_args_never_violate [OF branchy_valid])
  then show ?thesis
    by (simp add: sample_ts_def sample_write_def branchy_def ref_action_def)
qed

text \<open>The plan-time no-op check is the registry's own rule.\<close>

lemma required_any_agree:
  "phase1_check_required_any_non_null sid a ts = [] \<longleftrightarrow>
     validate_args_satisfy_required_any (base_spec ts) (args a)"
  by (auto simp: phase1_check_required_any_non_null_def validate_args_satisfy_required_any_def
      list_ex_iff filter_empty_conv split: option.splits)

end
