(* ===== verification/PyDatetime.thy ===== *)
theory PyDatetime
  imports Leases
begin

text \<open>
  What the delivery code uses of \<open>datetime\<close>: instants are microseconds since 1970-01-01 UTC; a
  local time is a wall clock reading, again in microseconds, with the \<open>fold\<close> bit that tells the
  two readings of a repeated hour apart. A time zone is the pair of its conversions, which come
  from the zone database and stay a parameter. The bounds of the calendar (years 1 to 9999) are
  not modelled: arithmetic that leaves them raises \<open>OverflowError\<close> in Python.
\<close>

section \<open>Instants and wall clocks\<close>

definition ONE_MINUTE :: int where "ONE_MINUTE = 60 * SEC"
definition ONE_HOUR :: int where "ONE_HOUR = 3600 * SEC"
definition ONE_DAY :: int where "ONE_DAY = 24 * ONE_HOUR"

lemma units_pos [simp]: "0 < SEC" "0 < ONE_MINUTE" "0 < ONE_HOUR" "0 < ONE_DAY" "ONE_HOUR \<noteq> 0" "ONE_DAY \<noteq> 0"
  by (simp_all add: SEC_def ONE_MINUTE_def ONE_HOUR_def ONE_DAY_def)

type_synonym wall_time = "int \<times> bool"

definition hour_of :: "int \<Rightarrow> int" where
  "hour_of w = w mod ONE_DAY div ONE_HOUR"

text \<open>\<open>weekday()\<close>: Monday is 0; 1970-01-01 was a Thursday.\<close>

definition weekday_of :: "int \<Rightarrow> int" where
  "weekday_of w = (w div ONE_DAY + 3) mod 7"

lemma hour_of_bounds: "0 \<le> hour_of w" "hour_of w < 24"
proof -
  have "0 \<le> w mod ONE_DAY" "w mod ONE_DAY < 24 * ONE_HOUR" using pos_mod_bound [of ONE_DAY w] by (simp_all add: ONE_DAY_def)
  then show "0 \<le> hour_of w" "hour_of w < 24"
    unfolding hour_of_def by (simp_all add: pos_imp_zdiv_nonneg_iff ONE_HOUR_def SEC_def)
qed

lemma weekday_of_bounds: "0 \<le> weekday_of w" "weekday_of w < 7"
  by (simp_all add: weekday_of_def)

text \<open>\<open>now_local.replace(hour=h, minute=0, second=0, microsecond=0)\<close> within the calendar day.\<close>

definition at_hour :: "int \<Rightarrow> int \<Rightarrow> int" where
  "at_hour w h = w div ONE_DAY * ONE_DAY + h * ONE_HOUR"

lemma hour_of_at_hour: "0 \<le> h \<Longrightarrow> h < 24 \<Longrightarrow> hour_of (at_hour w h) = h"
proof -
  assume h: "0 \<le> h" "h < 24"
  then have "0 \<le> h * ONE_HOUR" "h * ONE_HOUR < ONE_DAY" by (simp_all add: ONE_DAY_def ONE_HOUR_def SEC_def)
  then have "(w div ONE_DAY * ONE_DAY + h * ONE_HOUR) mod ONE_DAY = h * ONE_HOUR" by simp
  then show ?thesis by (simp add: hour_of_def at_hour_def)
qed

lemma hour_of_add_day [simp]: "hour_of (w + ONE_DAY) = hour_of w"
  by (simp add: hour_of_def)

lemma at_hour_bounds:
  assumes "0 \<le> h" "h < 24" shows "w - ONE_DAY < at_hour w h" "at_hour w h < w + ONE_DAY"
proof -
  have w: "w = w div ONE_DAY * ONE_DAY + w mod ONE_DAY" "0 \<le> w mod ONE_DAY" "w mod ONE_DAY < ONE_DAY"
    using pos_mod_bound [of ONE_DAY w] by simp_all
  have h: "0 \<le> h * ONE_HOUR" "h * ONE_HOUR < ONE_DAY" using assms by (simp_all add: ONE_DAY_def ONE_HOUR_def SEC_def)
  show "w - ONE_DAY < at_hour w h" "at_hour w h < w + ONE_DAY"
    unfolding at_hour_def using w h by linarith+
qed

text \<open>A time zone: \<open>astimezone\<close> in both directions.\<close>

record zone =
  local_of :: "int \<Rightarrow> wall_time"
  utc_of :: "wall_time \<Rightarrow> int"

definition utc_zone :: zone where
  "utc_zone = \<lparr>local_of = (\<lambda>t. (t, False)), utc_of = fst\<rparr>"

definition fixed_offset :: "zone \<Rightarrow> int \<Rightarrow> bool" where
  "fixed_offset z off \<longleftrightarrow>
     (\<forall>t. local_of z t = (t + off, False)) \<and> (\<forall>w. utc_of z (w, False) = w - off)"

lemma utc_zone_fixed: "fixed_offset utc_zone 0"
  by (simp add: fixed_offset_def utc_zone_def)

section \<open>Calendar and \<open>isoformat\<close>\<close>

text \<open>
  The proleptic Gregorian calendar as \<open>datetime\<close> computes it: \<open>_ord2ymd\<close> on the day number,
  where day 1 is 0001-01-01.
\<close>

definition is_leap :: "int \<Rightarrow> bool" where
  "is_leap y \<longleftrightarrow> y mod 4 = 0 \<and> (y mod 100 \<noteq> 0 \<or> y mod 400 = 0)"

definition days_before_month :: "bool \<Rightarrow> int list" where
  "days_before_month leap =
     (if leap then [0, 31, 60, 91, 121, 152, 182, 213, 244, 274, 305, 335]
      else [0, 31, 59, 90, 120, 151, 181, 212, 243, 273, 304, 334])"

text \<open>Year and zero-based day of the year.\<close>

definition year_day :: "int \<Rightarrow> int \<times> int" where
  "year_day n =
     (let m = n - 1; n400 = m div 146097; r400 = m mod 146097;
          n100 = r400 div 36524; r100 = r400 mod 36524;
          n4 = r100 div 1461; r4 = r100 mod 1461;
          n1 = r4 div 365; r1 = r4 mod 365;
          y = n400 * 400 + n100 * 100 + n4 * 4 + n1 + 1
      in if n1 = 4 \<or> n100 = 4 then (y - 1, 365) else (y, r1))"

text \<open>The month is the last one that starts at or before the day.\<close>

fun month_day :: "int \<Rightarrow> int \<Rightarrow> int list \<Rightarrow> int \<times> int" where
  "month_day m d [] = (m, d)"
| "month_day m d [b] = (m, d - b + 1)"
| "month_day m d (b # c # bs) = (if d < c then (m, d - b + 1) else month_day (m + 1) d (c # bs))"

definition ymd_of :: "int \<Rightarrow> int \<times> int \<times> int" where
  "ymd_of n = (case year_day n of (y, d) \<Rightarrow> (y, month_day 1 d (days_before_month (is_leap y))))"

definition EPOCH_DAY :: int where "EPOCH_DAY = 719163"

fun pad :: "nat \<Rightarrow> int \<Rightarrow> string" where
  "pad 0 k = []"
| "pad (Suc n) k = pad n (k div 10) @ [char_of (48 + k mod 10)]"

text \<open>\<open>isoformat()\<close> of an aware UTC datetime.\<close>

definition isoformat :: "int \<Rightarrow> string" where
  "isoformat t =
     (case ymd_of (t div ONE_DAY + EPOCH_DAY) of (y, m, d) \<Rightarrow>
        let s = t mod ONE_DAY div SEC; us = t mod SEC
        in pad 4 y @ ''-'' @ pad 2 m @ ''-'' @ pad 2 d @ ''T'' @
           pad 2 (s div 3600) @ '':'' @ pad 2 (s div 60 mod 60) @ '':'' @ pad 2 (s mod 60) @
           (if us = 0 then [] else ''.'' @ pad 6 us) @ ''+00:00'')"

section \<open>\<open>isoformat\<close> tells instants apart\<close>

lemma length_pad [simp]: "length (pad n k) = n"
  by (induction n k rule: pad.induct) auto

lemma int_div_less: "k < 10 * m \<Longrightarrow> k div 10 < m" for k m :: int
  by linarith

lemma pad_inject:
  "0 \<le> k \<Longrightarrow> k < 10 ^ n \<Longrightarrow> 0 \<le> k' \<Longrightarrow> k' < 10 ^ n \<Longrightarrow> pad n k = pad n k' \<longleftrightarrow> k = k'"
proof (induction n arbitrary: k k')
  case (Suc n)
  have div: "0 \<le> k div 10" "k div 10 < 10 ^ n" "0 \<le> k' div 10" "k' div 10 < 10 ^ n"
    using Suc.prems by (auto simp: pos_imp_zdiv_nonneg_iff intro!: int_div_less)
  have dig: "(char_of (48 + k mod 10) :: char) = char_of (48 + k' mod 10) \<longleftrightarrow> k mod 10 = k' mod 10"
  proof
    assume "(char_of (48 + k mod 10) :: char) = char_of (48 + k' mod 10)"
    then have "(of_char (char_of (48 + k mod 10) :: char) :: int) = of_char (char_of (48 + k' mod 10) :: char)"
      by simp
    moreover have "0 \<le> k mod 10" "k mod 10 < 10" "0 \<le> k' mod 10" "k' mod 10 < 10" by simp_all
    ultimately show "k mod 10 = k' mod 10" by (simp del: pos_mod_bound pos_mod_sign)
  qed simp
  have "k = k' \<longleftrightarrow> k div 10 = k' div 10 \<and> k mod 10 = k' mod 10" by (metis div_mult_mod_eq)
  then show ?case using Suc.IH [OF div] dig by simp
qed simp

lemma pad_append_inject: "pad n k @ xs = pad n k' @ ys \<longleftrightarrow> pad n k = pad n k' \<and> xs = ys"
  by simp

definition days_before_year :: "int \<Rightarrow> int" where
  "days_before_year y = (y - 1) * 365 + (y - 1) div 4 - (y - 1) div 100 + (y - 1) div 400"

lemma year_day_parts:
  fixes n :: int
  obtains a b c e r where "n - 1 = a * 146097 + b * 36524 + c * 1461 + e * 365 + r"
    "0 \<le> b" "0 \<le> c" "c < 25" "0 \<le> e" "0 \<le> r" "r < 365"
    "b < 4 \<and> e < 4 \<or> b < 4 \<and> e = 4 \<and> r = 0 \<or> b = 4 \<and> c = 0 \<and> e = 0 \<and> r = 0"
    "year_day n = (if e = 4 \<or> b = 4 then (a * 400 + b * 100 + c * 4 + e, 365)
                   else (a * 400 + b * 100 + c * 4 + e + 1, r))"
proof -
  define m where "m = n - 1"
  define a r4 where "a = m div 146097" and "r4 = m mod 146097"
  define b r1 where "b = r4 div 36524" and "r1 = r4 mod 36524"
  define c q where "c = r1 div 1461" and "q = r1 mod 1461"
  define e r where "e = q div 365" and "r = q mod 365"
  have m: "m = a * 146097 + r4" "0 \<le> r4" "r4 < 146097" by (simp_all add: a_def r4_def)
  have r4: "r4 = b * 36524 + r1" "0 \<le> r1" "r1 < 36524" by (simp_all add: b_def r1_def)
  have r1: "r1 = c * 1461 + q" "0 \<le> q" "q < 1461" by (simp_all add: c_def q_def)
  have q: "q = e * 365 + r" "0 \<le> r" "r < 365" by (simp_all add: e_def r_def)
  have b: "0 \<le> b" "b \<le> 4" "b = 4 \<Longrightarrow> r1 = 0" using m r4 by linarith+
  have c: "0 \<le> c" "c < 25" using r4 r1 by linarith+
  have c0: "r1 = 0 \<Longrightarrow> c = 0 \<and> q = 0" by (simp add: c_def q_def)
  have e: "0 \<le> e" "e \<le> 4" "e = 4 \<Longrightarrow> r = 0" using r1 q by linarith+
  have e0: "q = 0 \<Longrightarrow> e = 0 \<and> r = 0" by (simp add: e_def r_def)
  have yd: "year_day n = (if e = 4 \<or> b = 4 then (a * 400 + b * 100 + c * 4 + e, 365)
                   else (a * 400 + b * 100 + c * 4 + e + 1, r))"
    unfolding year_day_def Let_def m_def [symmetric] a_def [symmetric] r4_def [symmetric] b_def [symmetric]
      r1_def [symmetric] c_def [symmetric] q_def [symmetric] e_def [symmetric] r_def [symmetric] by simp
  show thesis
  proof (rule that [of a b c e r])
    show "n - 1 = a * 146097 + b * 36524 + c * 1461 + e * 365 + r" using m r4 r1 q m_def by linarith
    show "b < 4 \<and> e < 4 \<or> b < 4 \<and> e = 4 \<and> r = 0 \<or> b = 4 \<and> c = 0 \<and> e = 0 \<and> r = 0"
      using b c c0 e e0 by linarith
  qed (use b c e q yd in simp_all)
qed

lemma days_before_year_cycle:
  assumes "0 \<le> b" "b < 4" "0 \<le> c" "c < 25" "0 \<le> e" "e < 4"
  shows "days_before_year (a * 400 + b * 100 + c * 4 + e + 1) = a * 146097 + b * 36524 + c * 1461 + e * 365"
proof -
  have "(a * 400 + b * 100 + c * 4 + e) div 4 = a * 100 + b * 25 + c"
    "(a * 400 + b * 100 + c * 4 + e) div 100 = a * 4 + b"
    "(a * 400 + b * 100 + c * 4 + e) div 400 = a" using assms by linarith+
  then show ?thesis by (simp add: days_before_year_def algebra_simps)
qed

lemma year_day_inverse:
  assumes "year_day n = (y, d)" shows "n = days_before_year y + d + 1 \<and> 0 \<le> d \<and> d \<le> 365"
proof -
  obtain a b c e r where n: "n - 1 = a * 146097 + b * 36524 + c * 1461 + e * 365 + r"
    and bounds: "0 \<le> b" "0 \<le> c" "c < 25" "0 \<le> e" "0 \<le> r" "r < 365"
    and cases: "b < 4 \<and> e < 4 \<or> b < 4 \<and> e = 4 \<and> r = 0 \<or> b = 4 \<and> c = 0 \<and> e = 0 \<and> r = 0"
    and yd: "year_day n = (if e = 4 \<or> b = 4 then (a * 400 + b * 100 + c * 4 + e, 365)
                   else (a * 400 + b * 100 + c * 4 + e + 1, r))"
    by (rule year_day_parts)
  consider "b < 4" "e < 4" | "b < 4" "e = 4" "r = 0" | "b = 4" "c = 0" "e = 0" "r = 0" using cases by blast
  then show ?thesis
  proof cases
    case 1
    then show ?thesis using assms yd n bounds days_before_year_cycle [of b c e a] by auto
  next
    case 2
    then show ?thesis using assms yd n bounds days_before_year_cycle [of b c 3 a] by (auto simp: algebra_simps)
  next
    case 3
    then show ?thesis using assms yd n bounds days_before_year_cycle [of 3 24 3 a] by (auto simp: algebra_simps)
  qed
qed

lemma year_day_range:
  assumes "1 \<le> n" "n \<le> 3652059" "year_day n = (y, d)" shows "1 \<le> y \<and> y \<le> 9999"
proof -
  obtain a b c e r where n: "n - 1 = a * 146097 + b * 36524 + c * 1461 + e * 365 + r"
    and bounds: "0 \<le> b" "0 \<le> c" "c < 25" "0 \<le> e" "0 \<le> r" "r < 365"
    and cases: "b < 4 \<and> e < 4 \<or> b < 4 \<and> e = 4 \<and> r = 0 \<or> b = 4 \<and> c = 0 \<and> e = 0 \<and> r = 0"
    and yd: "year_day n = (if e = 4 \<or> b = 4 then (a * 400 + b * 100 + c * 4 + e, 365)
                   else (a * 400 + b * 100 + c * 4 + e + 1, r))"
    by (rule year_day_parts)
  have "0 \<le> a" "a \<le> 24" using n bounds cases assms(1,2) by linarith+
  then show ?thesis using yd assms bounds cases n by (auto split: if_splits)
qed

lemma month_day_12:
  assumes "0 \<le> d" "d \<le> 365" "month_day 1 d (days_before_month l) = (m, k)"
  shows "1 \<le> m \<and> m \<le> 12 \<and> 1 \<le> k \<and> k \<le> 32 \<and> d = days_before_month l ! nat (m - 1) + k - 1"
  using assms by (auto simp: days_before_month_def split: if_splits)

lemma ymd_of_inverse:
  assumes "ymd_of n = (y, m, k)"
  shows "n = days_before_year y + (days_before_month (is_leap y) ! nat (m - 1) + k - 1) + 1"
    "1 \<le> m" "m \<le> 12" "1 \<le> k" "k \<le> 32" "1 \<le> n \<Longrightarrow> n \<le> 3652059 \<Longrightarrow> 1 \<le> y \<and> y \<le> 9999"
proof -
  obtain d where d: "year_day n = (y, d)" "month_day 1 d (days_before_month (is_leap y)) = (m, k)"
    using assms by (auto simp: ymd_of_def split: prod.splits)
  have "n = days_before_year y + d + 1" "0 \<le> d" "d \<le> 365" using year_day_inverse [OF d(1)] by blast+
  with month_day_12 [OF _ _ d(2)]
  show "n = days_before_year y + (days_before_month (is_leap y) ! nat (m - 1) + k - 1) + 1"
    "1 \<le> m" "m \<le> 12" "1 \<le> k" "k \<le> 32" by auto
  show "1 \<le> n \<Longrightarrow> n \<le> 3652059 \<Longrightarrow> 1 \<le> y \<and> y \<le> 9999" using year_day_range [OF _ _ d(1)] by blast
qed

text \<open>The instants a \<open>datetime\<close> can hold.\<close>

definition valid_instant :: "int \<Rightarrow> bool" where
  "valid_instant t \<longleftrightarrow> 1 \<le> t div ONE_DAY + EPOCH_DAY \<and> t div ONE_DAY + EPOCH_DAY \<le> 3652059"

lemma instant_parts:
  "t = t div ONE_DAY * ONE_DAY + t mod ONE_DAY div SEC * SEC + t mod SEC" "0 \<le> t mod ONE_DAY div SEC" "t mod ONE_DAY div SEC < 86400"
  "0 \<le> t mod SEC" "t mod SEC < 1000000"
proof -
  have "t mod ONE_DAY mod SEC = t mod SEC" by (rule mod_mod_cancel) (simp add: ONE_DAY_def ONE_HOUR_def)
  then have "t mod ONE_DAY = t mod ONE_DAY div SEC * SEC + t mod SEC" by (metis div_mult_mod_eq)
  then show "t = t div ONE_DAY * ONE_DAY + t mod ONE_DAY div SEC * SEC + t mod SEC"
    using div_mult_mod_eq [of t ONE_DAY] by linarith
  have "0 \<le> t mod ONE_DAY" "t mod ONE_DAY < ONE_DAY" by simp_all
  then show "0 \<le> t mod ONE_DAY div SEC" "t mod ONE_DAY div SEC < 86400"
    by (simp_all add: pos_imp_zdiv_nonneg_iff ONE_DAY_def ONE_HOUR_def SEC_def)
  show "0 \<le> t mod SEC" "t mod SEC < 1000000" using pos_mod_bound [of SEC t] by (simp_all add: SEC_def)
qed

lemma time_of_day_inject:
  fixes s s' :: int
  assumes "s div 3600 = s' div 3600" "s div 60 mod 60 = s' div 60 mod 60" "s mod 60 = s' mod 60"
  shows "s = s'"
proof -
  have split: "x = x div 3600 * 3600 + x div 60 mod 60 * 60 + x mod 60" for x :: int
  proof -
    have gen: "a = q * 60 + r \<Longrightarrow> q = h * 60 + m \<Longrightarrow> a = h * 3600 + m * 60 + r" for a q r h m :: int by simp
    have "x div 3600 = x div 60 div 60" using zdiv_zmult2_eq [of 60 x 60] by simp
    then show ?thesis by (simp only: gen [OF div_mult_mod_eq [symmetric] div_mult_mod_eq [symmetric]])
  qed
  have "s = s div 3600 * 3600 + s div 60 mod 60 * 60 + s mod 60" by (rule split)
  also have "\<dots> = s'" unfolding assms by (rule split [symmetric])
  finally show ?thesis .
qed

lemma frac_inject:
  fixes u u' :: int
  assumes "0 \<le> u" "u < 1000000" "0 \<le> u'" "u' < 1000000"
    and "(if u = 0 then [] else ''.'' @ pad 6 u) @ ''+00:00'' =
         (if u' = 0 then [] else ''.'' @ pad 6 u') @ ''+00:00''"
  shows "u = u'"
  using assms pad_inject [of u 6 u'] by (auto split: if_splits)

lemma pad2_int:
  fixes a b :: int
  assumes "pad 2 a = pad 2 b" "0 \<le> a \<and> a < 100" "0 \<le> b \<and> b < 100" shows "a = b"
  using assms pad_inject [of a 2 b] by simp

lemma isoformat_inject:
  assumes "valid_instant t" "valid_instant t'" "isoformat t = isoformat t'" shows "t = t'"
proof -
  obtain y m d where ymd: "ymd_of (t div ONE_DAY + EPOCH_DAY) = (y, m, d)" by (metis prod_cases3)
  obtain y' m' d' where ymd': "ymd_of (t' div ONE_DAY + EPOCH_DAY) = (y', m', d')" by (metis prod_cases3)
  note i = ymd_of_inverse [OF ymd] and i' = ymd_of_inverse [OF ymd']
  have y: "1 \<le> y" "y \<le> 9999" "1 \<le> y'" "y' \<le> 9999" using i(6) i'(6) assms(1,2) by (auto simp: valid_instant_def)
  define s s' where "s = t mod ONE_DAY div SEC" and "s' = t' mod ONE_DAY div SEC"
  have s: "0 \<le> s" "s < 86400" "0 \<le> s'" "s' < 86400" using instant_parts s_def s'_def by simp_all
  have hm: "0 \<le> x div 3600 \<and> x div 3600 < 100" "0 \<le> x div 60 mod 60 \<and> x div 60 mod 60 < 100"
    "0 \<le> x mod 60 \<and> x mod 60 < 100" if "0 \<le> x" "x < 86400" for x :: int
  proof -
    show "0 \<le> x div 3600 \<and> x div 3600 < 100" using that by (simp add: pos_imp_zdiv_nonneg_iff)
    have "0 \<le> x div 60 mod 60" "x div 60 mod 60 < 60" "0 \<le> x mod 60" "x mod 60 < 60" by simp_all
    then show "0 \<le> x div 60 mod 60 \<and> x div 60 mod 60 < 100" "0 \<le> x mod 60 \<and> x mod 60 < 100" by linarith+
  qed
  have eq: "pad 4 y = pad 4 y'" "pad 2 m = pad 2 m'" "pad 2 d = pad 2 d'"
    "pad 2 (s div 3600) = pad 2 (s' div 3600)"
    "pad 2 (s div 60 mod 60) = pad 2 (s' div 60 mod 60)" "pad 2 (s mod 60) = pad 2 (s' mod 60)"
    and fr: "(if t mod SEC = 0 then [] else ''.'' @ pad 6 (t mod SEC)) @ ''+00:00'' =
      (if t' mod SEC = 0 then [] else ''.'' @ pad 6 (t' mod SEC)) @ ''+00:00''"
    using assms(3) unfolding isoformat_def ymd ymd' Let_def s_def [symmetric] s'_def [symmetric] prod.case
    unfolding pad_append_inject append_Cons append_Nil list.inject by blast+
  have "y = y'" "m = m'" "d = d'"
    using eq(1-3) y i(2-5) i'(2-5) by (simp_all add: pad_inject)
  then have day: "t div ONE_DAY = t' div ONE_DAY" using i(1) i'(1) by simp
  have "s div 3600 = s' div 3600" "s div 60 mod 60 = s' div 60 mod 60" "s mod 60 = s' mod 60"
    by (rule pad2_int [OF eq(4) hm(1) hm(1)] pad2_int [OF eq(5) hm(2) hm(2)] pad2_int [OF eq(6) hm(3) hm(3)]; fact s)+
  then have "s = s'" by (rule time_of_day_inject)
  moreover have "t mod SEC = t' mod SEC" using frac_inject [OF _ _ _ _ fr] instant_parts by blast
  ultimately show ?thesis using instant_parts(1) [of t] instant_parts(1) [of t'] day s_def s'_def by simp
qed

lemma isoformat_example: "isoformat 1777975200000000 = ''2026-05-05T10:00:00+00:00''"
  by code_simp

end
