(* ===== verification/DeliveryPolicy.thy ===== *)
theory DeliveryPolicy
  imports PyDatetime PyValue
begin

text \<open>
  \<open>runtime/delivery_policy.py\<close>: whether a message that is due goes out now, waits for the end of
  the user's quiet hours or is dropped; and \<open>_validate_quiet_hours\<close> of
  \<open>db/repositories/user_profile.py\<close>, which every write of a profile's windows passes. Windows
  are JSON values of the profile row, so the conversions Python does on them are written out.
\<close>

section \<open>Python on JSON values\<close>

datatype policy_error = PolicyAttributeError | PolicyTypeError | PolicyValueError

fun py_bool :: "pyval \<Rightarrow> bool" where
  "py_bool VNone = False"
| "py_bool (VBool b) = b"
| "py_bool (VInt i) = (i \<noteq> 0)"
| "py_bool (VStr s) = (s \<noteq> [])"
| "py_bool (VList xs) = (xs \<noteq> [])"
| "py_bool (VTuple xs) = (xs \<noteq> [])"
| "py_bool (VDict kvs) = (kvs \<noteq> [])"
| "py_bool (VLit v) = True"
| "py_bool (VMethod v m) = True"

text \<open>\<open>int(text)\<close>: surrounding space, a sign, digits with single underscores between them.\<close>

fun int_digits :: "bool \<Rightarrow> int \<Rightarrow> string \<Rightarrow> int option" where
  "int_digits after_digit n [] = (if after_digit then Some n else None)"
| "int_digits after_digit n (c # cs) =
     (if in_ranges [(48, 57)] c then int_digits True (10 * n + int (of_char c) - 48) cs
      else if c = CHR ''_'' \<and> after_digit then int_digits False n cs
      else None)"

definition parse_int :: "string \<Rightarrow> int option" where
  "parse_int s =
     (case strip s of
        [] \<Rightarrow> None
      | c # cs \<Rightarrow>
          if c = CHR ''-'' then map_option uminus (int_digits False 0 cs)
          else if c = CHR ''+'' then int_digits False 0 cs
          else int_digits False 0 (c # cs))"

text \<open>\<open>int(value)\<close>; \<open>None\<close> stands for the \<open>TypeError\<close> or \<open>ValueError\<close> it raises.\<close>

definition py_int :: "pyval \<Rightarrow> int option" where
  "py_int v = (case v of VInt i \<Rightarrow> Some i | VBool b \<Rightarrow> Some (of_bool b) | VStr s \<Rightarrow> parse_int s | _ \<Rightarrow> None)"

text \<open>\<open>d in value\<close> for an integer \<open>d\<close>, and iteration over a value.\<close>

definition int_in :: "int \<Rightarrow> pyval \<Rightarrow> policy_error + bool" where
  "int_in d v =
     (case v of
        VList xs \<Rightarrow> Inr (list_ex (py_eq (VInt d)) xs)
      | VTuple xs \<Rightarrow> Inr (list_ex (py_eq (VInt d)) xs)
      | VDict kvs \<Rightarrow> Inr False
      | _ \<Rightarrow> Inl PolicyTypeError)"

definition iterate :: "pyval \<Rightarrow> policy_error + pyval list" where
  "iterate v =
     (case v of
        VList xs \<Rightarrow> Inr xs
      | VTuple xs \<Rightarrow> Inr xs
      | VStr s \<Rightarrow> Inr (map (\<lambda>c. VStr [c]) s)
      | VDict kvs \<Rightarrow> Inr (map (\<lambda>(k, v). VStr k) kvs)
      | _ \<Rightarrow> Inl PolicyTypeError)"

text \<open>\<open>d.get(k, default)\<close> and \<open>d.get(k) or default\<close>.\<close>

definition get_default :: "vdict \<Rightarrow> string \<Rightarrow> pyval \<Rightarrow> pyval" where
  "get_default d k v = (case dget d k of None \<Rightarrow> v | Some x \<Rightarrow> x)"

definition get_or :: "vdict \<Rightarrow> string \<Rightarrow> pyval \<Rightarrow> pyval" where
  "get_or d k v = (case dget d k of None \<Rightarrow> v | Some x \<Rightarrow> if py_bool x then x else v)"

section \<open>Quiet hours\<close>

definition ALL_WEEKDAYS :: pyval where
  "ALL_WEEKDAYS = VList (map VInt [0..6])"

definition in_quiet_window :: "wall_time \<Rightarrow> pyval \<Rightarrow> policy_error + bool" where
  "in_quiet_window now_local window =
     (case window of
        VDict d \<Rightarrow>
          (case (py_int (get_default d ''from_hour'' (VInt 0)), py_int (get_default d ''to_hour'' (VInt 0))) of
             (Some from_hour, Some to_hour) \<Rightarrow>
               if from_hour = to_hour then Inr False
               else bind_res (int_in (weekday_of (fst now_local)) (get_or d ''weekdays'' ALL_WEEKDAYS))
                 (\<lambda>today. Inr (today \<and>
                   (let h = hour_of (fst now_local) in
                    if from_hour < to_hour then from_hour \<le> h \<and> h < to_hour
                    else from_hour \<le> h \<or> h < to_hour)))
           | _ \<Rightarrow> Inr False)
      | _ \<Rightarrow> Inl PolicyAttributeError)"

text \<open>
  Adding a day clears the \<open>fold\<close> bit, \<open>replace\<close> keeps it; the comparison is of two readings of
  the same clock.
\<close>

definition next_exit :: "wall_time \<Rightarrow> pyval \<Rightarrow> policy_error + wall_time" where
  "next_exit now_local window =
     (case window of
        VDict d \<Rightarrow>
          (case py_int (get_default d ''to_hour'' (VInt 0)) of
             None \<Rightarrow> Inl PolicyTypeError
           | Some to_hour \<Rightarrow>
               if 0 \<le> to_hour \<and> to_hour < 24
               then (let candidate = at_hour (fst now_local) to_hour
                     in Inr (if candidate \<le> fst now_local then (candidate + ONE_DAY, False)
                             else (candidate, snd now_local)))
               else Inl PolicyValueError)
      | _ \<Rightarrow> Inl PolicyAttributeError)"

text \<open>The comprehension over the windows, and \<open>max\<close>: the first of the latest readings.\<close>

fun active_exits :: "wall_time \<Rightarrow> pyval list \<Rightarrow> policy_error + wall_time list" where
  "active_exits now_local [] = Inr []"
| "active_exits now_local (w # ws) =
     bind_res (in_quiet_window now_local w) (\<lambda>active.
       if active
       then bind_res (next_exit now_local w) (\<lambda>e.
              bind_res (active_exits now_local ws) (\<lambda>es. Inr (e # es)))
       else active_exits now_local ws)"

fun latest :: "wall_time \<Rightarrow> wall_time list \<Rightarrow> wall_time" where
  "latest best [] = best"
| "latest best (e # es) = latest (if fst best < fst e then e else best) es"

section \<open>The decision\<close>

datatype delivery_kind = KSend | KDefer | KDrop

record delivery_decision =
  dkind :: delivery_kind
  defer_until_utc :: "int option"
  dreason :: string

definition load_tz_or_utc :: "(string \<Rightarrow> zone option) \<Rightarrow> pyval \<Rightarrow> policy_error + zone" where
  "load_tz_or_utc load_tz v =
     (case v of
        VStr s \<Rightarrow> Inr (case load_tz s of None \<Rightarrow> utc_zone | Some z \<Rightarrow> z)
      | _ \<Rightarrow> Inl PolicyTypeError)"

definition priority_is :: "vdict option \<Rightarrow> string \<Rightarrow> bool" where
  "priority_is skill_config p \<longleftrightarrow>
     (case skill_config of
        None \<Rightarrow> False
      | Some c \<Rightarrow> dget c ''notification_priority'' = Some (VStr p))"

definition decide_delivery ::
    "(string \<Rightarrow> zone option) \<Rightarrow> vdict option \<Rightarrow> vdict option \<Rightarrow> bool \<Rightarrow> int \<Rightarrow> policy_error + delivery_decision" where
  "decide_delivery load_tz profile skill_config is_interactive now_utc =
     (let send = (\<lambda>r. Inr \<lparr>dkind = KSend, defer_until_utc = None, dreason = r\<rparr>) in
      if is_interactive then send ''interactive''
      else if priority_is skill_config ''mute''
      then Inr \<lparr>dkind = KDrop, defer_until_utc = None, dreason = ''muted_by_user''\<rparr>
      else if priority_is skill_config ''urgent'' then send ''urgent''
      else (case profile of
          None \<Rightarrow> send ''default''
        | Some p \<Rightarrow>
            if p = [] then send ''default''
            else bind_res (load_tz_or_utc load_tz (get_or p ''timezone'' (VStr ''UTC''))) (\<lambda>tz.
              bind_res (iterate (get_or p ''quiet_hours'' (VList []))) (\<lambda>windows.
                bind_res (active_exits (local_of tz now_utc) windows) (\<lambda>exits.
                  case exits of
                    [] \<Rightarrow> send ''default''
                  | e # es \<Rightarrow> Inr \<lparr>dkind = KDefer, defer_until_utc = Some (utc_of tz (latest e es)),
                                   dreason = ''quiet_hours''\<rparr>)))))"

section \<open>What a stored profile may hold\<close>

definition int_in_range :: "int \<Rightarrow> int \<Rightarrow> pyval \<Rightarrow> bool" where
  "int_in_range lo hi v = (case v of VInt i \<Rightarrow> lo \<le> i \<and> i \<le> hi | VBool b \<Rightarrow> lo \<le> of_bool b \<and> of_bool b \<le> hi | _ \<Rightarrow> False)"

definition window_valid :: "pyval \<Rightarrow> bool" where
  "window_valid w =
     (case w of
        VDict d \<Rightarrow>
          int_in_range 0 23 (get_default d ''from_hour'' VNone) \<and>
          int_in_range 0 23 (get_default d ''to_hour'' VNone) \<and>
          (case get_default d ''weekdays'' ALL_WEEKDAYS of
             VList ds \<Rightarrow> list_all (int_in_range 0 6) ds
           | _ \<Rightarrow> False)
      | _ \<Rightarrow> False)"

definition validate_quiet_hours :: "pyval \<Rightarrow> bool" where
  "validate_quiet_hours v = (case v of VList ws \<Rightarrow> list_all window_valid ws | _ \<Rightarrow> False)"

lemma decide_example:
  "decide_delivery (\<lambda>_. None)
     (Some [(''timezone'', VStr ''UTC''),
            (''quiet_hours'', VList [VDict [(''from_hour'', VInt 22), (''to_hour'', VInt 8)]])])
     None False (23 * ONE_HOUR) =
   Inr \<lparr>dkind = KDefer, defer_until_utc = Some (32 * ONE_HOUR), dreason = ''quiet_hours''\<rparr>"
  by code_simp

section \<open>Windows as cyclic intervals\<close>

text \<open>The specification: a window covers the hours of a cyclic interval, on some weekdays.\<close>

definition window_hours :: "pyval \<Rightarrow> (int \<times> int) option" where
  "window_hours window =
     (case window of
        VDict d \<Rightarrow>
          (case (py_int (get_default d ''from_hour'' (VInt 0)), py_int (get_default d ''to_hour'' (VInt 0))) of
             (Some from_hour, Some to_hour) \<Rightarrow> Some (from_hour, to_hour)
           | _ \<Rightarrow> None)
      | _ \<Rightarrow> None)"

definition window_day :: "pyval \<Rightarrow> int \<Rightarrow> bool" where
  "window_day window t =
     (case window of VDict d \<Rightarrow> int_in (weekday_of t) (get_or d ''weekdays'' ALL_WEEKDAYS) = Inr True | _ \<Rightarrow> False)"

definition hours_cover :: "pyval \<Rightarrow> int \<Rightarrow> bool" where
  "hours_cover window t =
     (case window_hours window of
        None \<Rightarrow> False
      | Some (from_hour, to_hour) \<Rightarrow> (hour_of t - from_hour) mod 24 < (to_hour - from_hour) mod 24)"

definition window_quiet :: "pyval \<Rightarrow> int \<Rightarrow> bool" where
  "window_quiet window t \<longleftrightarrow> window_day window t \<and> hours_cover window t"

lemma mod_24_diff:
  fixes x f :: int
  assumes "0 \<le> x" "x < 24" "0 \<le> f" "f < 24"
  shows "(x - f) mod 24 = (if f \<le> x then x - f else x - f + 24)"
proof (cases "f \<le> x")
  case False
  have "(x - f) mod 24 = (x - f + 24) mod 24" by simp
  also have "\<dots> = x - f + 24" using False assms by (intro mod_pos_pos_trivial) auto
  finally show ?thesis using False by simp
qed (use assms in simp)

lemma cyclic_interval:
  fixes h f u :: int
  assumes "0 \<le> h" "h < 24" "0 \<le> f" "f < 24" "0 \<le> u" "u < 24"
  shows "(h - f) mod 24 < (u - f) mod 24 \<longleftrightarrow>
     f \<noteq> u \<and> (if f < u then f \<le> h \<and> h < u else f \<le> h \<or> h < u)"
  using assms by (auto simp: mod_24_diff)

lemma int_in_range_py_int:
  "int_in_range lo hi (get_default d k VNone) \<Longrightarrow> \<exists>i. py_int (get_default d k (VInt 0)) = Some i \<and> lo \<le> i \<and> i \<le> hi"
  by (auto simp: int_in_range_def py_int_def get_default_def split: option.splits pyval.splits)

lemma window_validE:
  assumes "window_valid w"
  obtains d f u b where "w = VDict d" "py_int (get_default d ''from_hour'' (VInt 0)) = Some f"
    "py_int (get_default d ''to_hour'' (VInt 0)) = Some u" "0 \<le> f" "f < 24" "0 \<le> u" "u < 24"
    "\<forall>x. int_in x (get_or d ''weekdays'' ALL_WEEKDAYS) = Inr (b x)"
proof -
  obtain d where d: "w = VDict d" "int_in_range 0 23 (get_default d ''from_hour'' VNone)"
    "int_in_range 0 23 (get_default d ''to_hour'' VNone)"
    and days: "case get_default d ''weekdays'' ALL_WEEKDAYS of VList ds \<Rightarrow> list_all (int_in_range 0 6) ds | _ \<Rightarrow> False"
    using assms by (auto simp: window_valid_def split: pyval.splits)
  have "\<exists>ds. get_or d ''weekdays'' ALL_WEEKDAYS = VList ds"
    using days by (auto simp: get_or_def get_default_def ALL_WEEKDAYS_def split: option.splits pyval.splits)
  then obtain ds where "get_or d ''weekdays'' ALL_WEEKDAYS = VList ds" by blast
  then have b: "\<forall>x. int_in x (get_or d ''weekdays'' ALL_WEEKDAYS) = Inr (list_ex (py_eq (VInt x)) ds)"
    by (simp add: int_in_def)
  from int_in_range_py_int [OF d(2)] int_in_range_py_int [OF d(3)] obtain f u
    where "py_int (get_default d ''from_hour'' (VInt 0)) = Some f" "py_int (get_default d ''to_hour'' (VInt 0)) = Some u"
      "0 \<le> f" "f \<le> 23" "0 \<le> u" "u \<le> 23" by blast
  then show thesis using that [OF d(1) _ _ _ _ _ _ b, of f u] by auto
qed

lemma in_quiet_window_valid:
  assumes "window_valid w" shows "in_quiet_window (t, fo) w = Inr (window_quiet w t)"
  using assms
proof (rule window_validE)
  fix d f u b
  assume w: "w = VDict d" "py_int (get_default d ''from_hour'' (VInt 0)) = Some f"
    "py_int (get_default d ''to_hour'' (VInt 0)) = Some u" "0 \<le> f" "f < 24" "0 \<le> u" "u < 24"
    "\<forall>x. int_in x (get_or d ''weekdays'' ALL_WEEKDAYS) = Inr (b x)"
  then show ?thesis
    using cyclic_interval [OF hour_of_bounds w(4-7), of t]
    by (auto simp: in_quiet_window_def window_quiet_def window_day_def hours_cover_def window_hours_def)
qed

lemma wall_split:
  "t = t div ONE_DAY * ONE_DAY + hour_of t * ONE_HOUR + t mod ONE_HOUR" "0 \<le> t mod ONE_HOUR" "t mod ONE_HOUR < ONE_HOUR"
proof -
  have "t mod ONE_DAY mod ONE_HOUR = t mod ONE_HOUR" by (rule mod_mod_cancel) (simp add: ONE_DAY_def)
  then have "t mod ONE_DAY = hour_of t * ONE_HOUR + t mod ONE_HOUR" unfolding hour_of_def by (metis div_mult_mod_eq)
  then show "t = t div ONE_DAY * ONE_DAY + hour_of t * ONE_HOUR + t mod ONE_HOUR" using div_mult_mod_eq [of t ONE_DAY] by linarith
qed simp_all

lemma at_hour_future:
  assumes "0 \<le> u" "u < 24" shows "t < at_hour t u \<longleftrightarrow> hour_of t < u"
proof -
  have "at_hour t u - t = (u - hour_of t) * ONE_HOUR - t mod ONE_HOUR"
    using wall_split(1) [of t] by (simp add: at_hour_def algebra_simps)
  moreover have "(u - hour_of t) * ONE_HOUR - t mod ONE_HOUR > 0 \<longleftrightarrow> u > hour_of t"
  proof
    assume "(u - hour_of t) * ONE_HOUR - t mod ONE_HOUR > 0"
    then have "(u - hour_of t) * ONE_HOUR > 0" using wall_split(2) [of t] by linarith
    then show "u > hour_of t" using units_pos(3) by (simp add: zero_less_mult_iff)
  next
    assume "u > hour_of t"
    then have "ONE_HOUR \<le> (u - hour_of t) * ONE_HOUR" by simp
    then show "(u - hour_of t) * ONE_HOUR - t mod ONE_HOUR > 0" using wall_split(3) [of t] by linarith
  qed
  ultimately show ?thesis by linarith
qed

lemma next_exit_valid:
  assumes "window_valid w" and on: "hours_cover w t"
  obtains e fo' where "next_exit (t, fo) w = Inr (e, fo')" "fo = False \<Longrightarrow> \<not> fo'" "t < e" "e \<le> t + ONE_DAY"
    "\<forall>t'. t \<le> t' \<and> t' < e \<longrightarrow> hours_cover w t'" "\<not> hours_cover w e"
proof -
  obtain d f u b where w: "w = VDict d" "py_int (get_default d ''from_hour'' (VInt 0)) = Some f"
    "py_int (get_default d ''to_hour'' (VInt 0)) = Some u" "0 \<le> f" "f < 24" "0 \<le> u" "u < 24"
    "\<forall>x. int_in x (get_or d ''weekdays'' ALL_WEEKDAYS) = Inr (b x)"
    using assms(1) by (rule window_validE)
  have cover: "hours_cover w x \<longleftrightarrow> f \<noteq> u \<and> (if f < u then f \<le> hour_of x \<and> hour_of x < u else f \<le> hour_of x \<or> hour_of x < u)"
    for x using cyclic_interval [OF hour_of_bounds w(4-7), of x] w(1-3) by (auto simp: hours_cover_def window_hours_def)
  define e where "e = (if at_hour t u \<le> t then at_hour t u + ONE_DAY else at_hour t u)"
  have exit: "next_exit (t, fo) w = Inr (e, if at_hour t u \<le> t then False else fo)"
    using w by (simp add: next_exit_def e_def)
  note b = at_hour_bounds [OF w(6,7), of t]
  have hours: "hour_of t \<le> hour_of t' \<and> hour_of t' < u \<or> u \<le> hour_of t \<and> (hour_of t \<le> hour_of t' \<or> hour_of t' < u)"
    if "t \<le> t'" "t' < e" for t'
  proof -
    have same: "hour_of t \<le> hour_of t'" if "t div ONE_DAY = t' div ONE_DAY"
    proof -
      have "t mod ONE_DAY \<le> t' mod ONE_DAY"
        using \<open>t \<le> t'\<close> that by (simp add: minus_div_mult_eq_mod [symmetric])
      then show ?thesis unfolding hour_of_def by (intro zdiv_mono1) auto
    qed
    have "t' < t + ONE_DAY" using that b(2) by (auto simp: e_def split: if_splits)
    then have "t' div ONE_DAY < (t + ONE_DAY) div ONE_DAY + 1" using zdiv_mono1 [of t' "t + ONE_DAY" ONE_DAY] by simp
    moreover have "(t + ONE_DAY) div ONE_DAY = t div ONE_DAY + 1" by (rule div_add_self2) simp
    ultimately have days: "t' div ONE_DAY = t div ONE_DAY \<or> t' div ONE_DAY = t div ONE_DAY + 1"
      using zdiv_mono1 [of t t' ONE_DAY] \<open>t \<le> t'\<close> by auto
    have lt: "hour_of t' < u" if "t' < at_hour t' u" using at_hour_future [OF w(6,7)] that by blast
    show ?thesis
    proof (cases "at_hour t u \<le> t")
      case True
      then have u: "u \<le> hour_of t" using at_hour_future [OF w(6,7), of t] by linarith
      from days show ?thesis
      proof
        assume "t' div ONE_DAY = t div ONE_DAY + 1"
        then have "at_hour t' u = e" using True by (simp add: e_def at_hour_def algebra_simps)
        then show ?thesis using lt u that by simp
      qed (use same u in simp)
    next
      case False
      then have "t' div ONE_DAY = t div ONE_DAY"
      proof -
        have "t' < t div ONE_DAY * ONE_DAY + u * ONE_HOUR" "u * ONE_HOUR < ONE_DAY"
          using False that w(7) by (simp_all add: e_def at_hour_def ONE_DAY_def)
        moreover have "t' div ONE_DAY * ONE_DAY \<le> t'" using div_mult_mod_eq [of t' ONE_DAY] by (smt (verit) pos_mod_sign units_pos(4))
        ultimately have "\<not> t' div ONE_DAY = t div ONE_DAY + 1" by (auto simp: algebra_simps)
        then show ?thesis using days by blast
      qed
      moreover then have "at_hour t' u = e" using False by (simp add: e_def at_hour_def)
      ultimately show ?thesis using lt same that by simp
    qed
  qed
  show thesis
  proof (rule that [OF exit])
    show "\<forall>t'. t \<le> t' \<and> t' < e \<longrightarrow> hours_cover w t'"
      using hours on unfolding cover by (smt (verit))
    have "hour_of e = u" using hour_of_at_hour [OF w(6,7), of t] by (simp add: e_def)
    then show "\<not> hours_cover w e" using cover by simp
  qed (use b in \<open>auto simp: e_def\<close>)
qed

lemma active_exits_valid:
  assumes "list_all window_valid ws"
  obtains es where "active_exits (t, False) ws = Inr es" "es = [] \<longleftrightarrow> (\<forall>w\<in>set ws. \<not> window_quiet w t)"
    "\<forall>x\<in>set es. \<not> snd x \<and> t < fst x \<and> fst x \<le> t + ONE_DAY \<and>
       (\<exists>w\<in>set ws. window_quiet w t \<and> \<not> hours_cover w (fst x) \<and> (\<forall>t'. t \<le> t' \<and> t' < fst x \<longrightarrow> hours_cover w t'))"
    "\<forall>w\<in>set ws. window_quiet w t \<longrightarrow> (\<exists>x\<in>set es. \<not> hours_cover w (fst x))"
  using assms
proof (induction ws arbitrary: thesis)
  case (Cons w ws)
  obtain es where es: "active_exits (t, False) ws = Inr es" "es = [] \<longleftrightarrow> (\<forall>w\<in>set ws. \<not> window_quiet w t)"
    "\<forall>x\<in>set es. \<not> snd x \<and> t < fst x \<and> fst x \<le> t + ONE_DAY \<and>
       (\<exists>w\<in>set ws. window_quiet w t \<and> \<not> hours_cover w (fst x) \<and> (\<forall>t'. t \<le> t' \<and> t' < fst x \<longrightarrow> hours_cover w t'))"
    "\<forall>w\<in>set ws. window_quiet w t \<longrightarrow> (\<exists>x\<in>set es. \<not> hours_cover w (fst x))"
    using Cons.IH Cons.prems(2) by auto
  have v: "window_valid w" using Cons.prems(2) by simp
  show ?case
  proof (cases "window_quiet w t")
    case False
    then show ?thesis using Cons.prems(1) [of es] es in_quiet_window_valid [OF v] by auto
  next
    case True
    then have "hours_cover w t" by (simp add: window_quiet_def)
    with v obtain e fo' where e: "next_exit (t, False) w = Inr (e, fo')" "\<not> fo'" "t < e" "e \<le> t + ONE_DAY"
      "\<forall>t'. t \<le> t' \<and> t' < e \<longrightarrow> hours_cover w t'" "\<not> hours_cover w e"
      by (rule next_exit_valid [of w t False]) auto
    show ?thesis
      by (rule Cons.prems(1) [of "(e, fo') # es"]) (use e es True in_quiet_window_valid [OF v] in auto)
  qed
qed simp

lemma latest_mem: "latest b es \<in> set (b # es)"
  by (induction es arbitrary: b) auto

lemma latest_ge: "fst b \<le> fst (latest b es)"
proof (induction es arbitrary: b)
  case (Cons e es)
  show ?case using Cons.IH [of e] Cons.IH [of b] by auto
qed simp

lemma latest_max: "x \<in> set (b # es) \<Longrightarrow> fst x \<le> fst (latest b es)"
proof (induction es arbitrary: b)
  case (Cons e es)
  let ?b = "if fst b < fst e then e else b"
  have "fst b \<le> fst (latest ?b es)" "fst e \<le> fst (latest ?b es)" using latest_ge [of ?b es] by (auto split: if_splits)
  moreover have "x \<in> set es \<Longrightarrow> fst x \<le> fst (latest ?b es)" by (intro Cons.IH) simp
  ultimately show ?case using Cons.prems by auto
qed simp

section \<open>Properties\<close>

definition zone_of :: "(string \<Rightarrow> zone option) \<Rightarrow> string \<Rightarrow> zone" where
  "zone_of load_tz name = (case load_tz (if name = [] then ''UTC'' else name) of None \<Rightarrow> utc_zone | Some z \<Rightarrow> z)"

abbreviation stored_profile :: "string \<Rightarrow> pyval list \<Rightarrow> vdict option" where
  "stored_profile name ws \<equiv> Some [(''timezone'', VStr name), (''quiet_hours'', VList ws)]"

lemma decide_unfold:
  assumes "fixed_offset (zone_of load_tz name) off"
  shows "decide_delivery load_tz (stored_profile name ws) cfg False now =
     (if priority_is cfg ''mute'' then Inr \<lparr>dkind = KDrop, defer_until_utc = None, dreason = ''muted_by_user''\<rparr>
      else if priority_is cfg ''urgent'' then Inr \<lparr>dkind = KSend, defer_until_utc = None, dreason = ''urgent''\<rparr>
      else bind_res (active_exits (now + off, False) ws) (\<lambda>exits. case exits of
          [] \<Rightarrow> Inr \<lparr>dkind = KSend, defer_until_utc = None, dreason = ''default''\<rparr>
        | e # es \<Rightarrow> Inr \<lparr>dkind = KDefer, defer_until_utc = Some (utc_of (zone_of load_tz name) (latest e es)),
                        dreason = ''quiet_hours''\<rparr>))"
  using assms
  by (auto simp: decide_delivery_def Let_def get_or_def load_tz_or_utc_def zone_of_def fixed_offset_def iterate_def)



end
