(* ===== verification/Outbox.thy ===== *)
theory Outbox
  imports DeliveryPolicy "HOL-Library.Char_ord" "HOL-Library.List_Lexorder"
begin

text \<open>
  The table \<open>outbox_messages\<close> (\<open>db/models/core.py\<close>) and the transactions of
  \<open>workers/outbox_delivery.py\<close> on its claims: \<open>_claim_batch\<close>, \<open>_reclaim_row\<close>,
  \<open>_release_claim\<close>, \<open>_release_claim_by_id\<close>. The table is a dictionary from row id to row in table
  order. The payload column is what \<open>json.loads\<close> makes of it, \<open>None\<close> when it raises. Ties of
  \<open>ORDER BY created_at ... LIMIT\<close>, which SQL leaves open, are broken by table order.
\<close>

section \<open>The table\<close>

datatype out_status = OutPending | OutSent | OutFailed | OutMuted | OutDropped

record outbox_row =
  tenant_id :: string
  workspace_id :: string
  channel_type :: string
  status :: out_status
  payload_json :: "pyval option"
  created_at :: int
  scheduled_at :: "int option"
  feature_key :: "string option"
  user_id :: "string option"
  is_interactive :: bool
  drop_reason :: "string option"
  bot_key :: "string option"
  idempotency_key :: "string option"
  claim_token :: "string option"
  lease_expires_at :: "int option"

type_synonym outbox = "(string, outbox_row) dict"

definition OUTBOX_BATCH_LEASE_SECONDS :: int where "OUTBOX_BATCH_LEASE_SECONDS = 60"
definition OUTBOX_LEASE_PER_ROW_SECONDS :: int where "OUTBOX_LEASE_PER_ROW_SECONDS = 40"
definition OUTBOX_ROW_DEADLINE_SECONDS :: int where "OUTBOX_ROW_DEADLINE_SECONDS = 25"

text \<open>The partial unique index on the idempotency key.\<close>

definition keys_unique :: "outbox \<Rightarrow> bool" where
  "keys_unique q \<longleftrightarrow> distinct (List.map_filter (\<lambda>(k, r). idempotency_key r) q)"

section \<open>Claims\<close>

definition out_claimable :: "int \<Rightarrow> outbox_row \<Rightarrow> bool" where
  "out_claimable now r \<longleftrightarrow>
     status r = OutPending \<and> channel_type r \<in> {''telegram'', ''max''} \<and>
     (case scheduled_at r of None \<Rightarrow> True | Some t \<Rightarrow> t \<le> now) \<and>
     (claim_token r = None \<or> lease_free (lease_expires_at r) now)"

definition stamp_claim :: "string \<Rightarrow> int \<Rightarrow> outbox_row \<Rightarrow> outbox_row" where
  "stamp_claim token lease_until r = r\<lparr>claim_token := Some token, lease_expires_at := Some lease_until\<rparr>"

text \<open>The claimed rows are returned in the order of \<open>(created_at, id)\<close>.\<close>

definition claim_batch :: "outbox \<Rightarrow> string \<Rightarrow> int \<Rightarrow> nat \<Rightarrow> outbox \<times> (string \<times> string) list" where
  "claim_batch q token now_utc limit =
     (let chosen = take limit (sort_key (\<lambda>(k, r). created_at r) (filter (\<lambda>(k, r). out_claimable now_utc r) q));
          ids = map fst chosen
      in (map (\<lambda>(k, r). (k, if k \<in> set ids then stamp_claim token (now_utc + OUTBOX_BATCH_LEASE_SECONDS * SEC) r else r)) q,
          map (\<lambda>(k, r). (k, tenant_id r))
            (sort_key (\<lambda>(k, r). created_at r) (sort_key fst chosen))))"

definition release_claim :: "outbox_row \<Rightarrow> outbox_row" where
  "release_claim r = r\<lparr>claim_token := None, lease_expires_at := None\<rparr>"

text \<open>The two conditional updates; the flag is \<open>rowcount == 1\<close>.\<close>

definition owns :: "string \<Rightarrow> outbox_row \<Rightarrow> bool" where
  "owns token r \<longleftrightarrow> claim_token r = Some token \<and> status r = OutPending"

definition update_owned :: "outbox \<Rightarrow> string \<Rightarrow> string \<Rightarrow> (outbox_row \<Rightarrow> outbox_row) \<Rightarrow> outbox \<times> bool" where
  "update_owned q row_id token f =
     (case dget q row_id of
        None \<Rightarrow> (q, False)
      | Some r \<Rightarrow> if owns token r then (dput q row_id (f r), True) else (q, False))"

definition reclaim_row :: "outbox \<Rightarrow> string \<Rightarrow> string \<Rightarrow> int \<Rightarrow> outbox \<times> bool" where
  "reclaim_row q row_id token now =
     update_owned q row_id token (\<lambda>r. r\<lparr>lease_expires_at := Some (now + OUTBOX_LEASE_PER_ROW_SECONDS * SEC)\<rparr>)"

definition release_claim_by_id :: "outbox \<Rightarrow> string \<Rightarrow> string \<Rightarrow> outbox \<times> bool" where
  "release_claim_by_id q row_id token = update_owned q row_id token release_claim"

section \<open>Facts about the claims\<close>

lemma update_owned_cases:
  assumes "update_owned q i tok f = (q', b)"
  obtains (none) "q' = q" "\<not> b" "\<And>r. dget q i = Some r \<Longrightarrow> \<not> owns tok r"
  | (some) r where "dget q i = Some r" "owns tok r" "q' = dput q i (f r)" "b"
  using assms that by (auto simp: update_owned_def split: option.splits if_splits)

lemma claim_batch_keys: "claim_batch q tok now n = (q', ids) \<Longrightarrow> dkeys q' = dkeys q"
  by (auto simp: claim_batch_def Let_def case_prod_beta)

lemma claim_batch_ok: "claim_batch q tok now n = (q', ids) \<Longrightarrow> dict_ok q \<Longrightarrow> dict_ok q'"
  using claim_batch_keys by (metis dict_ok_def)

lemma claim_batch_ids:
  assumes "claim_batch q tok now n = (q', ids)"
  shows "set (map fst ids) = set (map fst (take n (sort_key (\<lambda>(k, r). created_at r) (filter (\<lambda>(k, r). out_claimable now r) q))))"
proof -
  let ?c = "take n (sort_key (\<lambda>(k, r). created_at r) (filter (\<lambda>(k, r). out_claimable now r) q))"
  have "ids = map (\<lambda>(k, r). (k, tenant_id r)) (sort_key (\<lambda>(k, r). created_at r) (sort_key fst ?c))"
    using assms by (auto simp: claim_batch_def Let_def)
  then show ?thesis by (simp add: image_image case_prod_beta)
qed

lemma claim_batch_get:
  assumes "claim_batch q tok now n = (q', ids)"
  shows "dget q' k = map_option (\<lambda>r. if k \<in> set (map fst ids)
      then stamp_claim tok (now + OUTBOX_BATCH_LEASE_SECONDS * SEC) r else r) (dget q k)"
proof -
  let ?S = "set (map fst (take n (sort_key (\<lambda>(k, r). created_at r) (filter (\<lambda>(k, r). out_claimable now r) q))))"
  have "dget (map (\<lambda>(k, r). (k, if k \<in> S then f r else r)) q) k = map_option (\<lambda>r. if k \<in> S then f r else r) (dget q k)"
    for S and f :: "outbox_row \<Rightarrow> outbox_row" by (induction q) auto
  moreover have "q' = map (\<lambda>(k, r). (k, if k \<in> ?S then stamp_claim tok (now + OUTBOX_BATCH_LEASE_SECONDS * SEC) r else r)) q"
    using assms by (simp add: claim_batch_def Let_def)
  ultimately show ?thesis unfolding claim_batch_ids [OF assms] by simp
qed

lemma claim_batch_claimable:
  assumes "dict_ok q" "claim_batch q tok now n = (q', ids)" "k \<in> set (map fst ids)"
  obtains r where "dget q k = Some r" "out_claimable now r"
proof -
  from assms(3) obtain r where
    "(k, r) \<in> set (take n (sort_key (\<lambda>(k, r). created_at r) (filter (\<lambda>(k, r). out_claimable now r) q)))"
    unfolding claim_batch_ids [OF assms(2)] by auto
  then have "(k, r) \<in> set q" "out_claimable now r" using set_take_subset by fastforce+
  then show thesis using that assms(1) mem_dget by metis
qed

text \<open>Who holds a row: the owner of an unfinished row with a lease.\<close>

definition out_holder :: "outbox \<Rightarrow> string \<Rightarrow> (string \<times> int) option" where
  "out_holder q k =
     (case dget q k of
        None \<Rightarrow> None
      | Some r \<Rightarrow> (case (claim_token r, lease_expires_at r) of (Some t, Some e) \<Rightarrow> Some (t, e) | _ \<Rightarrow> None))"

definition claim_ids :: "nat \<Rightarrow> outbox \<Rightarrow> string \<Rightarrow> int \<Rightarrow> outbox \<times> string list" where
  "claim_ids n q token now = (case claim_batch q token now n of (q', ids) \<Rightarrow> (q', map fst ids))"

interpretation out: lease_table "claim_ids n" out_holder "OUTBOX_BATCH_LEASE_SECONDS * SEC" dict_ok
proof unfold_locales
  fix s w now s' ks k
  assume ok: "dict_ok s" and c: "claim_ids n s w now = (s', ks)"
  then obtain ids where b: "claim_batch s w now n = (s', ids)" and ks: "ks = map fst ids"
    by (auto simp: claim_ids_def split: prod.splits)
  show "dict_ok s'" using b ok by (rule claim_batch_ok)
  show "k \<notin> set ks \<Longrightarrow> out_holder s' k = out_holder s k"
    using claim_batch_get [OF b, of k] ks by (simp add: out_holder_def split: option.splits)
  assume k: "k \<in> set ks"
  then obtain r where r: "dget s k = Some r" "out_claimable now r" using claim_batch_claimable [OF ok b] ks by blast
  then show "lease_free (map_option snd (out_holder s k)) now"
    by (auto simp: out_holder_def out_claimable_def lease_free_def split: option.splits)
  show "out_holder s' k = Some (w, now + OUTBOX_BATCH_LEASE_SECONDS * SEC)"
    using claim_batch_get [OF b, of k] k ks r by (simp add: out_holder_def stamp_claim_def)
qed

end
