(* ===== verification/OutboxDelivery.thy ===== *)
theory OutboxDelivery
  imports Outbox
begin

text \<open>
  The delivery of one claimed row in \<open>workers/outbox_delivery.py\<close>: \<open>_process_one\<close>, the Telegram and
  MAX send paths, and the tick \<open>process_pending_messages\<close>. What the network, the feature hooks and
  the other tables answer is an environment; every theorem holds for all of it. The calls that go
  out are part of the result. Trace blocks (\<open>_emit_trace\<close>, the \<open>_trace\<close> key) only log and are left out.
\<close>

section \<open>Buttons\<close>

text \<open>\<open>render_max_inline_keyboard_attachment\<close> of \<open>integrations/max/client.py\<close>.\<close>

definition max_button :: "pyval \<Rightarrow> pyval list" where
  "max_button btn =
     (case btn of
        VDict b \<Rightarrow>
          (case dget b ''text'' of
             Some (VStr t) \<Rightarrow>
               if strip t = [] then []
               else if py_bool (get_default b ''url'' VNone)
               then [VDict [(''type'', VStr ''link''), (''text'', VStr t),
                            (''url'', VStr (py_str (get_default b ''url'' VNone)))]]
               else if get_default b ''callback_data'' VNone \<noteq> VNone
               then [VDict [(''type'', VStr ''callback''), (''text'', VStr t),
                            (''payload'', VStr (py_str (get_default b ''callback_data'' VNone)))]]
               else []
           | _ \<Rightarrow> [])
      | _ \<Rightarrow> [])"

definition max_button_row :: "pyval \<Rightarrow> pyval list" where
  "max_button_row row =
     (case row of
        VList btns \<Rightarrow> (case concat (map max_button btns) of [] \<Rightarrow> [] | b # bs \<Rightarrow> [VList (b # bs)])
      | _ \<Rightarrow> [])"

definition render_max_inline_keyboard_attachment :: "pyval \<Rightarrow> pyval" where
  "render_max_inline_keyboard_attachment reply_markup =
     (case reply_markup of
        VDict m \<Rightarrow>
          (case get_default m ''inline_keyboard'' VNone of
             VList rows \<Rightarrow>
               (case concat (map max_button_row rows) of
                  [] \<Rightarrow> VNone
                | b # bs \<Rightarrow> VList [VDict [(''type'', VStr ''inline_keyboard''),
                                         (''payload'', VDict [(''buttons'', VList (b # bs))])]])
           | _ \<Rightarrow> VNone)
      | _ \<Rightarrow> VNone)"

section \<open>The environment of a delivery\<close>

definition LEGACY_NULL_BOT_KEY :: string where "LEGACY_NULL_BOT_KEY = ''sreda''"

datatype tg_client = DefaultClient | BotClient string

text \<open>How a bounded send ends: a timeout is a delivery error of its channel.\<close>

datatype send_result = SendOk | SendDeliveryError | SendOtherError

datatype ext_call =
    TgSend tg_client pyval pyval pyval pyval \<comment> \<open>chat, text, reply markup, parse mode\<close>
  | TgHook string
  | MaxEdit string pyval pyval \<comment> \<open>message, text, attachments\<close>
  | MaxSend pyval pyval pyval pyval \<comment> \<open>chat, text, format, attachments\<close>
  | MaxDelete string
  | AdminAlert

record delivery_env =
  tenant_active :: "string \<Rightarrow> bool"
  profile_of :: "string \<Rightarrow> string \<Rightarrow> (string \<times> pyval option) option" \<comment> \<open>time zone, decoded quiet hours\<close>
  priority_of :: "string \<Rightarrow> string \<Rightarrow> string \<Rightarrow> string option"
  load_tz :: "string \<Rightarrow> zone option"
  tg_registry :: "string list option" \<comment> \<open>keys of the registry, if there is one\<close>
  tg_default :: bool \<comment> \<open>\<open>self.telegram\<close> is set\<close>
  tg_result :: "ext_call \<Rightarrow> send_result"
  has_hook :: "string \<Rightarrow> bool"
  max_present :: bool
  max_token_set :: bool
  edit_ok :: "nat \<Rightarrow> bool" \<comment> \<open>attempt 0 or 1 of the edit\<close>
  max_result :: "ext_call \<Rightarrow> send_result"

text \<open>
  What \<open>_process_one\<close> does to its row: the attributes it commits, or \<open>None\<close> when an exception
  leaves it before the commit; and the calls it made.
\<close>

type_synonym attempt = "outbox_row option \<times> ext_call list"

definition decode_quiet_hours :: "pyval option \<Rightarrow> pyval" where
  "decode_quiet_hours v = (case v of Some (VList ws) \<Rightarrow> VList ws | _ \<Rightarrow> VList [])"

definition load_user_context :: "delivery_env \<Rightarrow> outbox_row \<Rightarrow> vdict option \<times> vdict option" where
  "load_user_context env r =
     (case user_id r of
        None \<Rightarrow> (None, None)
      | Some u \<Rightarrow>
          if u = [] then (None, None)
          else
            (case profile_of env (tenant_id r) u of
               None \<Rightarrow> None
             | Some (tz, qh) \<Rightarrow> Some [(''timezone'', VStr tz), (''quiet_hours'', decode_quiet_hours qh)],
             case feature_key r of
               None \<Rightarrow> None
             | Some f \<Rightarrow>
                 if f = [] then None
                 else map_option (\<lambda>p. [(''notification_priority'', VStr p)]) (priority_of env (tenant_id r) u f)))"

section \<open>Telegram\<close>

datatype resolved = UseClient tg_client | NoClient | UnknownBot | LookupRaises

text \<open>A missing key is looked up once more when the row has no bot at all.\<close>

definition resolve_tg_client :: "delivery_env \<Rightarrow> outbox_row \<Rightarrow> resolved" where
  "resolve_tg_client env r =
     (case tg_registry env of
        None \<Rightarrow> if tg_default env then UseClient DefaultClient else NoClient
      | Some keys \<Rightarrow>
          (let effective_bot_key = (case bot_key r of None \<Rightarrow> LEGACY_NULL_BOT_KEY
                 | Some b \<Rightarrow> if b = [] then LEGACY_NULL_BOT_KEY else b) in
           if effective_bot_key \<in> set keys then UseClient (BotClient effective_bot_key)
           else if bot_key r = None
           then (if LEGACY_NULL_BOT_KEY \<in> set keys then UseClient (BotClient LEGACY_NULL_BOT_KEY) else LookupRaises)
           else UnknownBot))"

definition after_send :: "outbox_row \<Rightarrow> send_result \<Rightarrow> outbox_row" where
  "after_send r res =
     (case res of
        SendOk \<Rightarrow> release_claim (r\<lparr>status := OutSent\<rparr>)
      | SendDeliveryError \<Rightarrow> release_claim (r\<lparr>status := OutPending\<rparr>)
      | SendOtherError \<Rightarrow> r\<lparr>status := OutFailed\<rparr>)"

definition run_hook :: "delivery_env \<Rightarrow> outbox_row \<Rightarrow> ext_call list" where
  "run_hook env r = (case feature_key r of Some f \<Rightarrow> if f \<noteq> [] \<and> has_hook env f then [TgHook f] else [] | None \<Rightarrow> [])"

definition send_now_telegram :: "delivery_env \<Rightarrow> outbox_row \<Rightarrow> attempt" where
  "send_now_telegram env r =
     (case resolve_tg_client env r of
        LookupRaises \<Rightarrow> (None, [])
      | UnknownBot \<Rightarrow> (Some (r\<lparr>status := OutFailed, drop_reason := Some ''unknown_bot_key''\<rparr>), [])
      | NoClient \<Rightarrow> (Some (r\<lparr>status := OutSent\<rparr>), [])
      | UseClient client \<Rightarrow>
          (case payload_json r of
             None \<Rightarrow> (Some (r\<lparr>status := OutFailed\<rparr>), [])
           | Some (VDict p) \<Rightarrow>
               (let call = TgSend client (get_default p ''chat_id'' VNone) (get_default p ''text'' (VStr []))
                      (get_default p ''reply_markup'' VNone) (get_default p ''parse_mode'' VNone);
                    res = tg_result env call
                in (Some (after_send r res), call # (if res = SendOk then run_hook env r else [])))
           | Some _ \<Rightarrow> (None, [])))"

section \<open>MAX\<close>

text \<open>Up to two edits; any exception of the first one is retried.\<close>

definition edit_calls :: "delivery_env \<Rightarrow> ext_call \<Rightarrow> ext_call list \<times> bool" where
  "edit_calls env call =
     (if edit_ok env 0 then ([call], True)
      else ([call, call], edit_ok env 1))"

definition send_now_max :: "delivery_env \<Rightarrow> outbox_row \<Rightarrow> attempt" where
  "send_now_max env r =
     (if \<not> max_present env
      then (if max_token_set env then (Some (r\<lparr>status := OutFailed\<rparr>), [AdminAlert])
            else (Some (r\<lparr>status := OutSent\<rparr>), []))
      else
        (case payload_json r of
           None \<Rightarrow> (Some (r\<lparr>status := OutFailed\<rparr>), [])
         | Some (VDict p) \<Rightarrow>
             (let mid = get_default p ''_ack_edit_message_id'' VNone;
                  already_visible = py_bool (get_default p ''_ack_final_already_visible'' (VBool False));
                  chat_id = get_default p ''chat_id'' VNone;
                  txt = get_default p ''text'' (VStr []) in
              if chat_id = VNone then (Some (r\<lparr>status := OutFailed\<rparr>), [])
              else
                (let given = get_default p ''attachments'' VNone;
                     attachments = (if py_bool given then given
                       else render_max_inline_keyboard_attachment (get_default p ''reply_markup'' VNone));
                     send = MaxSend chat_id txt (get_default p ''format'' VNone) attachments
                 in
                 if py_bool mid
                 then if already_visible \<and> \<not> py_bool attachments
                   then (Some (r\<lparr>status := OutSent\<rparr>), [])
                   else (case edit_calls env (MaxEdit (py_str mid) txt attachments) of
                       (edits, True) \<Rightarrow> (Some (after_send r SendOk), edits)
                     | (edits, False) \<Rightarrow>
                         (Some (after_send r (max_result env send)),
                          edits @ send # (if max_result env send = SendOk then [MaxDelete (py_str mid)] else [])))
                 else (Some (after_send r (max_result env send)), [send])))
         | Some _ \<Rightarrow> (None, [])))"

section \<open>One row\<close>

definition send_now :: "delivery_env \<Rightarrow> outbox_row \<Rightarrow> attempt" where
  "send_now env r = (if channel_type r = ''max'' then send_now_max env r else send_now_telegram env r)"

definition process_one :: "delivery_env \<Rightarrow> int \<Rightarrow> outbox_row \<Rightarrow> attempt" where
  "process_one env now_utc r =
     (if \<not> tenant_active env (tenant_id r)
      then (Some (r\<lparr>status := OutDropped, drop_reason := Some ''tenant_deleted''\<rparr>), [])
      else
        (case load_user_context env r of
           (profile, skill_config) \<Rightarrow>
             (case decide_delivery (load_tz env) profile skill_config (is_interactive r) now_utc of
                Inl e \<Rightarrow> (None, [])
              | Inr d \<Rightarrow>
                  (case dkind d of
                     KDrop \<Rightarrow> (Some (r\<lparr>status := OutMuted\<rparr>), [])
                   | KDefer \<Rightarrow> (Some (release_claim (r\<lparr>scheduled_at := defer_until_utc d\<rparr>)), [])
                   | KSend \<Rightarrow> send_now env r))))"

text \<open>
  The commit writes the attributes that changed since the row was loaded, and no others: what
  another transaction wrote to the rest of the row stays.
\<close>

definition changed :: "'a \<Rightarrow> 'a \<Rightarrow> 'a \<Rightarrow> 'a" where
  "changed loaded new current = (if new = loaded then current else new)"

definition orm_flush :: "outbox_row \<Rightarrow> outbox_row \<Rightarrow> outbox_row \<Rightarrow> outbox_row" where
  "orm_flush loaded new current =
     current\<lparr>status := changed (status loaded) (status new) (status current),
             drop_reason := changed (drop_reason loaded) (drop_reason new) (drop_reason current),
             scheduled_at := changed (scheduled_at loaded) (scheduled_at new) (scheduled_at current),
             claim_token := changed (claim_token loaded) (claim_token new) (claim_token current),
             lease_expires_at := changed (lease_expires_at loaded) (lease_expires_at new) (lease_expires_at current)\<rparr>"

definition commit_attempt :: "outbox \<Rightarrow> string \<Rightarrow> outbox_row \<Rightarrow> attempt \<Rightarrow> outbox" where
  "commit_attempt q row_id loaded a =
     (case (fst a, dget q row_id) of
        (Some new, Some current) \<Rightarrow> dput q row_id (orm_flush loaded new current)
      | _ \<Rightarrow> q)"

section \<open>The tick of one worker\<close>

text \<open>
  \<open>clock i\<close> is the time the lease of the \<open>i\<close>-th row is renewed, \<open>late i\<close> whether its delivery runs
  into the deadline. The result counts the rows delivered or decided.
\<close>

fun process_rows ::
    "delivery_env \<Rightarrow> string \<Rightarrow> int \<Rightarrow> (nat \<Rightarrow> int) \<Rightarrow> (nat \<Rightarrow> bool) \<Rightarrow> nat \<Rightarrow> (string \<times> string) list \<Rightarrow> outbox \<Rightarrow>
     outbox \<times> nat" where
  "process_rows env token now_utc clock late i [] q = (q, 0)"
| "process_rows env token now_utc clock late i ((row_id, tenant) # rows) q =
     (case reclaim_row q row_id token (clock i) of
        (q1, False) \<Rightarrow> process_rows env token now_utc clock late (Suc i) rows q1
      | (q1, True) \<Rightarrow>
          (case dget q1 row_id of
             None \<Rightarrow> process_rows env token now_utc clock late (Suc i) rows q1
           | Some r \<Rightarrow>
               if late i
               then process_rows env token now_utc clock late (Suc i) rows (fst (release_claim_by_id q1 row_id token))
               else
                 (let a = process_one env now_utc r;
                      (q2, n) = process_rows env token now_utc clock late (Suc i) rows (commit_attempt q1 row_id r a)
                  in (q2, if fst a = None then n else Suc n))))"

definition process_pending_messages ::
    "delivery_env \<Rightarrow> string \<Rightarrow> int \<Rightarrow> (nat \<Rightarrow> int) \<Rightarrow> (nat \<Rightarrow> bool) \<Rightarrow> nat \<Rightarrow> outbox \<Rightarrow> outbox \<times> nat" where
  "process_pending_messages env token now_utc clock late limit q =
     (case claim_batch q token now_utc limit of (q1, rows) \<Rightarrow> process_rows env token now_utc clock late 0 rows q1)"

section \<open>What a status means\<close>

fun accepted :: "delivery_env \<Rightarrow> ext_call \<Rightarrow> bool" where
  "accepted env (TgSend cl c t m p) = (tg_result env (TgSend cl c t m p) = SendOk)"
| "accepted env (MaxSend c t f a) = (max_result env (MaxSend c t f a) = SendOk)"
| "accepted env _ = False"

fun is_edit :: "ext_call \<Rightarrow> bool" where
  "is_edit (MaxEdit mid t a) = True"
| "is_edit _ = False"

text \<open>How often the text reached the user: accepted sends, and an edit that went through.\<close>

definition shown :: "delivery_env \<Rightarrow> ext_call list \<Rightarrow> nat" where
  "shown env calls = length (filter (accepted env) calls) +
     (if list_ex is_edit calls \<and> (edit_ok env 0 \<or> edit_ok env 1) then 1 else 0)"

text \<open>Nothing to send to: no client is wired, or the edited message already shows the text.\<close>

definition nothing_to_send :: "delivery_env \<Rightarrow> outbox_row \<Rightarrow> bool" where
  "nothing_to_send env r \<longleftrightarrow>
     (if channel_type r = ''max''
      then \<not> max_present env \<and> \<not> max_token_set env \<or>
        (\<exists>p. payload_json r = Some (VDict p) \<and> py_bool (get_default p ''_ack_edit_message_id'' VNone) \<and>
             py_bool (get_default p ''_ack_final_already_visible'' (VBool False)))
      else resolve_tg_client env r = NoClient)"

definition send_ok :: "delivery_env \<Rightarrow> outbox_row \<Rightarrow> attempt \<Rightarrow> bool" where
  "send_ok env r a \<longleftrightarrow> shown env (snd a) \<le> 1 \<and>
     (shown env (snd a) = 1 \<longrightarrow> (\<exists>r'. fst a = Some r' \<and> status r' = OutSent)) \<and>
     (\<forall>r'. fst a = Some r' \<longrightarrow>
        (status r' = OutSent \<longrightarrow> shown env (snd a) = 1 \<or> nothing_to_send env r) \<and>
        (status r' = OutPending \<longrightarrow> claim_token r' = None \<and> lease_expires_at r' = None))"

lemma run_hook_not_shown [simp]:
  "filter (accepted env) (run_hook env r) = []" "\<not> list_ex is_edit (run_hook env r)"
  by (auto simp: run_hook_def split: option.splits)

text \<open>The ways an attempt ends, each with its account.\<close>

lemma send_ok_intros:
  "shown env calls = 0 \<Longrightarrow> send_ok env r (None, calls)"
  "shown env calls = 0 \<Longrightarrow> send_ok env r (Some (r\<lparr>status := OutFailed\<rparr>), calls)"
  "shown env calls = 0 \<Longrightarrow> send_ok env r (Some (r\<lparr>status := OutFailed, drop_reason := dr\<rparr>), calls)"
  "shown env calls = 0 \<Longrightarrow> nothing_to_send env r \<Longrightarrow> send_ok env r (Some (r\<lparr>status := OutSent\<rparr>), calls)"
  "shown env calls = (if res = SendOk then 1 else 0) \<Longrightarrow> send_ok env r (Some (after_send r res), calls)"
  by (auto simp: send_ok_def after_send_def release_claim_def split: send_result.splits)

lemma shown_simps [simp]:
  "shown env [] = 0" "shown env [AdminAlert] = 0"
  "shown env [MaxSend c t f a] = (if max_result env (MaxSend c t f a) = SendOk then 1 else 0)"
  "shown env (TgSend cl c t m p # (if b then run_hook env r else [])) = (if tg_result env (TgSend cl c t m p) = SendOk then 1 else 0)"
  by (auto simp: shown_def)

lemma send_telegram_ok:
  assumes "channel_type r \<noteq> ''max''" shows "send_ok env r (send_now_telegram env r)"
proof -
  have call: "send_ok env r (let res = tg_result env (TgSend cl c t m p)
      in (Some (after_send r res), TgSend cl c t m p # (if res = SendOk then run_hook env r else [])))" for cl c t m p
    unfolding Let_def by (intro send_ok_intros(5) shown_simps)
  show ?thesis unfolding send_now_telegram_def
    using assms call by (auto simp: nothing_to_send_def Let_def intro: send_ok_intros(1-4)
      split: resolved.split option.split pyval.split)
qed

lemma shown_edit:
  "edit_calls env (MaxEdit mid t a) = (edits, True) \<Longrightarrow> shown env edits = 1"
  "edit_calls env (MaxEdit mid t a) = (edits, False) \<Longrightarrow>
     shown env (edits @ MaxSend c t' f a' # (if b then [MaxDelete m] else [])) =
     (if max_result env (MaxSend c t' f a') = SendOk then 1 else 0)"
  by (auto simp: edit_calls_def shown_def split: if_splits)

lemma send_max_payload_ok:
  assumes "channel_type r = ''max''" "max_present env" "payload_json r = Some (VDict p)"
  shows "send_ok env r (send_now_max env r)"
proof -
  define mid where "mid = get_default p ''_ack_edit_message_id'' VNone"
  define visible where "visible = py_bool (get_default p ''_ack_final_already_visible'' (VBool False))"
  define att where "att = (if py_bool (get_default p ''attachments'' VNone) then get_default p ''attachments'' VNone
      else render_max_inline_keyboard_attachment (get_default p ''reply_markup'' VNone))"
  define send where "send = MaxSend (get_default p ''chat_id'' VNone) (get_default p ''text'' (VStr []))
      (get_default p ''format'' VNone) att"
  have eq: "send_now_max env r =
     (if get_default p ''chat_id'' VNone = VNone then (Some (r\<lparr>status := OutFailed\<rparr>), [])
      else if py_bool mid
      then if visible \<and> \<not> py_bool att then (Some (r\<lparr>status := OutSent\<rparr>), [])
        else (case edit_calls env (MaxEdit (py_str mid) (get_default p ''text'' (VStr [])) att) of
            (edits, True) \<Rightarrow> (Some (after_send r SendOk), edits)
          | (edits, False) \<Rightarrow> (Some (after_send r (max_result env send)),
              edits @ send # (if max_result env send = SendOk then [MaxDelete (py_str mid)] else [])))
      else (Some (after_send r (max_result env send)), [send]))"
    using assms unfolding send_now_max_def Let_def mid_def visible_def att_def send_def by simp
  have stub: "py_bool mid \<Longrightarrow> visible \<Longrightarrow> nothing_to_send env r"
    using assms by (simp add: nothing_to_send_def mid_def visible_def)
  obtain edits ok where e: "edit_calls env (MaxEdit (py_str mid) (get_default p ''text'' (VStr [])) att) = (edits, ok)"
    by fastforce
  show ?thesis
  proof (cases ok)
    case True
    then have "send_ok env r (Some (after_send r SendOk), edits)"
      using shown_edit(1) e by (intro send_ok_intros(5)) simp
    then show ?thesis unfolding eq e using True stub by (auto intro: send_ok_intros(2-4) send_ok_intros(5) simp: send_def)
  next
    case False
    then have "send_ok env r (Some (after_send r (max_result env send)),
        edits @ send # (if max_result env send = SendOk then [MaxDelete (py_str mid)] else []))"
      unfolding send_def using shown_edit(2) e by (intro send_ok_intros(5)) simp
    then show ?thesis unfolding eq e using False stub by (auto intro: send_ok_intros(2-4) send_ok_intros(5) simp: send_def)
  qed
qed

lemma send_max_ok:
  assumes "channel_type r = ''max''" shows "send_ok env r (send_now_max env r)"
proof (cases "max_present env")
  case False
  then show ?thesis using assms by (auto simp: send_now_max_def nothing_to_send_def intro: send_ok_intros)
next
  case True
  then show ?thesis using send_max_payload_ok [OF assms True]
    by (cases "payload_json r"; auto simp: send_now_max_def intro: send_ok_intros split: pyval.split)
qed

lemma process_one_ok: "status r = OutPending \<Longrightarrow> send_ok env r (process_one env now r)"
  using send_telegram_ok [of r env] send_max_ok [of r env]
  by (auto simp: process_one_def send_now_def send_ok_def shown_def release_claim_def
      split: prod.splits sum.splits delivery_kind.splits)

text \<open>
  what the status of a delivered row says about the user. One attempt shows the text at most
  once, whatever the network answers and however often a MAX message is edited; when it was shown
  the row becomes sent, so it is not repeated; a row becomes sent only when the text was shown or
  there was nothing to send; and a row that stays pending gives its claim back, so that the next
  tick takes it. No call leaves unless the tenant is active and the policy says to send.
\<close>

theorem attempt_meaning:
  assumes "status r = OutPending" and "process_one env now r = (res, calls)"
  shows "shown env calls \<le> 1 \<and>
    (shown env calls = 1 \<longrightarrow> (\<exists>r'. res = Some r' \<and> status r' = OutSent)) \<and>
    (\<forall>r'. res = Some r' \<and> status r' = OutSent \<longrightarrow> shown env calls = 1 \<or> nothing_to_send env r) \<and>
    (\<forall>r'. res = Some r' \<and> status r' = OutPending \<longrightarrow> claim_token r' = None \<and> lease_expires_at r' = None) \<and>
    (calls \<noteq> [] \<longrightarrow> tenant_active env (tenant_id r) \<and>
      (case load_user_context env r of (profile, cfg) \<Rightarrow>
         (\<exists>d. decide_delivery (load_tz env) profile cfg (is_interactive r) now = Inr d \<and> dkind d = KSend)))"
  using process_one_ok [OF assms(1), of env now] assms(2)
  by (auto simp: send_ok_def process_one_def split: prod.splits sum.splits delivery_kind.splits if_splits)

definition sample_delivery_env :: delivery_env where
  "sample_delivery_env = \<lparr>tenant_active = (\<lambda>_. True), profile_of = (\<lambda>_ _. None), priority_of = (\<lambda>_ _ _. None),
     load_tz = (\<lambda>_. None), tg_registry = Some [''sreda''], tg_default = False, tg_result = (\<lambda>_. SendOk),
     has_hook = (\<lambda>_. False), max_present = True, max_token_set = True, edit_ok = (\<lambda>_. False),
     max_result = (\<lambda>_. SendDeliveryError)\<rparr>"

definition sample_row :: outbox_row where
  "sample_row = \<lparr>tenant_id = ''t'', workspace_id = ''w'', channel_type = ''telegram'', status = OutPending,
     payload_json = Some (VDict [(''chat_id'', VInt 7), (''text'', VStr ''hello'')]), created_at = 0, scheduled_at = None,
     feature_key = None, user_id = None, is_interactive = False, drop_reason = None, bot_key = None,
     idempotency_key = None, claim_token = None, lease_expires_at = None\<rparr>"

lemma sample_attempt:
  "process_one sample_delivery_env 0 sample_row = (Some (sample_row\<lparr>status := OutSent\<rparr>),
     [TgSend (BotClient ''sreda'') (VInt 7) (VStr ''hello'') VNone VNone])"
  by code_simp

theorem attempt_meaning_witness:
  "shown sample_delivery_env [TgSend (BotClient ''sreda'') (VInt 7) (VStr ''hello'') VNone VNone] \<le> 1 \<and>
   tenant_active sample_delivery_env ''t''"
  using attempt_meaning [OF _ sample_attempt] by (simp add: sample_row_def)

text \<open>
  A row without a bot key whose default bot is not registered: the lookup that is meant as a
  fallback repeats the failed one, so the delivery ends with the exception and writes nothing.
\<close>

theorem null_bot_fallback_raises:
  assumes "channel_type r \<noteq> ''max''" "tg_registry env = Some keys" "bot_key r = None" "LEGACY_NULL_BOT_KEY \<notin> set keys"
  shows "send_now env r = (None, [])"
  using assms by (simp add: send_now_def send_now_telegram_def resolve_tg_client_def)

end
