(* ===== verification/DeliveryProtocol.thy ===== *)
theory DeliveryProtocol
  imports OutboxDelivery
begin

text \<open>
  Any number of delivery workers (\<open>workers/outbox_delivery.py\<close>) on one outbox, as a transition
  system. A worker is a tick with its own claim token; its steps are the transactions of the code:
  the batch claim, the renewal of one row's lease, the commit at the end of a delivery, the release
  after a missed deadline. Between them anything may happen: other workers, new rows, the drain
  of a deleted tenant (\<open>services/tenant_lifecycle.py\<close>), a crash. One clock is shared by all.
\<close>

section \<open>The system\<close>

datatype flight =
    Idle
  | Flying string int outbox_row \<comment> \<open>row, time of the lease, the row as loaded\<close>
  | Releasing string

record worker =
  todo :: "string list"
  flight :: flight
  tick_now :: int

record delivery_state =
  rows :: outbox
  workers :: "(string, worker) dict"
  shared_clock :: int
  delivered :: "string list" \<comment> \<open>rows committed as sent, in order\<close>

text \<open>The drain of \<open>soft_delete_tenant\<close>.\<close>

definition drain_row :: "string \<Rightarrow> outbox_row \<Rightarrow> outbox_row" where
  "drain_row tenant r =
     (if tenant_id r = tenant \<and> status r = OutPending
      then r\<lparr>status := OutDropped, drop_reason := Some ''tenant_deleted''\<rparr> else r)"

definition drain_outbox :: "string \<Rightarrow> outbox \<Rightarrow> outbox" where
  "drain_outbox tenant q = map (\<lambda>(k, r). (k, drain_row tenant r)) q"

definition set_worker :: "string \<Rightarrow> worker \<Rightarrow> delivery_state \<Rightarrow> delivery_state" where
  "set_worker tok w s = s\<lparr>workers := dput (workers s) tok w\<rparr>"

definition record_sent :: "string \<Rightarrow> attempt \<Rightarrow> delivery_state \<Rightarrow> delivery_state" where
  "record_sent row_id a s =
     (case fst a of
        Some new \<Rightarrow> if status new = OutSent then s\<lparr>delivered := delivered s @ [row_id]\<rparr> else s
      | None \<Rightarrow> s)"

definition DEADLINE :: int where "DEADLINE = OUTBOX_ROW_DEADLINE_SECONDS * SEC"
definition ROW_LEASE :: int where "ROW_LEASE = OUTBOX_LEASE_PER_ROW_SECONDS * SEC"
definition BATCH_LEASE :: int where "BATCH_LEASE = OUTBOX_BATCH_LEASE_SECONDS * SEC"

lemma deadline_within_lease: "0 < DEADLINE" "DEADLINE < ROW_LEASE" "ROW_LEASE < BATCH_LEASE"
  by (simp_all add: DEADLINE_def ROW_LEASE_def BATCH_LEASE_def OUTBOX_ROW_DEADLINE_SECONDS_def
      OUTBOX_LEASE_PER_ROW_SECONDS_def OUTBOX_BATCH_LEASE_SECONDS_def SEC_def)

inductive delivery_step :: "delivery_state \<Rightarrow> delivery_state \<Rightarrow> bool" where
  ds_time: "shared_clock s \<le> t \<Longrightarrow> delivery_step s (s\<lparr>shared_clock := t\<rparr>)"
| ds_insert: "row_id \<notin> set (dkeys (rows s)) \<Longrightarrow> status r = OutPending \<Longrightarrow> claim_token r = None \<Longrightarrow>
     lease_expires_at r = None \<Longrightarrow> delivery_step s (s\<lparr>rows := dput (rows s) row_id r\<rparr>)"
| ds_claim: "tok \<notin> set (dkeys (workers s)) \<Longrightarrow> claim_batch (rows s) tok (shared_clock s) limit = (q, ids) \<Longrightarrow>
     delivery_step s (set_worker tok \<lparr>todo = map fst ids, flight = Idle, tick_now = shared_clock s\<rparr> (s\<lparr>rows := q\<rparr>))"
| ds_start: "dget (workers s) tok = Some w \<Longrightarrow> flight w = Idle \<Longrightarrow> todo w = row_id # rest \<Longrightarrow>
     reclaim_row (rows s) row_id tok (shared_clock s) = (q, True) \<Longrightarrow> dget q row_id = Some r \<Longrightarrow>
     delivery_step s (set_worker tok (w\<lparr>todo := rest, flight := Flying row_id (shared_clock s) r\<rparr>) (s\<lparr>rows := q\<rparr>))"
| ds_skip: "dget (workers s) tok = Some w \<Longrightarrow> flight w = Idle \<Longrightarrow> todo w = row_id # rest \<Longrightarrow>
     reclaim_row (rows s) row_id tok (shared_clock s) = (q, False) \<Longrightarrow>
     delivery_step s (set_worker tok (w\<lparr>todo := rest\<rparr>) (s\<lparr>rows := q\<rparr>))"
| ds_finish: "dget (workers s) tok = Some w \<Longrightarrow> flight w = Flying row_id t0 r \<Longrightarrow> shared_clock s < t0 + DEADLINE \<Longrightarrow>
     process_one env (tick_now w) r = a \<Longrightarrow>
     delivery_step s (record_sent row_id a
       (set_worker tok (w\<lparr>flight := Idle\<rparr>) (s\<lparr>rows := commit_attempt (rows s) row_id r a\<rparr>)))"
| ds_timeout: "dget (workers s) tok = Some w \<Longrightarrow> flight w = Flying row_id t0 r \<Longrightarrow>
     delivery_step s (set_worker tok (w\<lparr>flight := Releasing row_id\<rparr>) s)"
| ds_release: "dget (workers s) tok = Some w \<Longrightarrow> flight w = Releasing row_id \<Longrightarrow>
     release_claim_by_id (rows s) row_id tok = (q, b) \<Longrightarrow>
     delivery_step s (set_worker tok (w\<lparr>flight := Idle\<rparr>) (s\<lparr>rows := q\<rparr>))"
| ds_crash: "dget (workers s) tok = Some w \<Longrightarrow>
     delivery_step s (set_worker tok \<lparr>todo = [], flight = Idle, tick_now = tick_now w\<rparr> s)"
| ds_drain: "delivery_step s (s\<lparr>rows := drain_outbox tenant (rows s)\<rparr>)"

definition delivery_init :: "delivery_state \<Rightarrow> bool" where
  "delivery_init s \<longleftrightarrow> rows s = [] \<and> workers s = [] \<and> delivered s = []"

section \<open>The invariant\<close>

text \<open>A delivery in flight owns its row as long as the lease it took runs.\<close>

definition holds_row :: "delivery_state \<Rightarrow> string \<Rightarrow> string \<Rightarrow> int \<Rightarrow> bool" where
  "holds_row s tok row_id t0 \<longleftrightarrow>
     (\<exists>c. dget (rows s) row_id = Some c \<and> claim_token c = Some tok \<and> lease_expires_at c = Some (t0 + ROW_LEASE) \<and>
          status c \<in> {OutPending, OutDropped})"

definition flight_ok :: "delivery_state \<Rightarrow> string \<Rightarrow> worker \<Rightarrow> bool" where
  "flight_ok s tok w \<longleftrightarrow>
     (case flight w of
        Flying row_id t0 r \<Rightarrow> status r = OutPending \<and> t0 \<le> shared_clock s \<and> (shared_clock s \<le> t0 + ROW_LEASE \<longrightarrow> holds_row s tok row_id t0)
      | _ \<Rightarrow> True)"

definition leases_short :: "delivery_state \<Rightarrow> bool" where
  "leases_short s \<longleftrightarrow>
     (\<forall>k c e. dget (rows s) k = Some c \<longrightarrow> lease_expires_at c = Some e \<longrightarrow> e \<le> shared_clock s + BATCH_LEASE)"

definition sent_ok :: "delivery_state \<Rightarrow> bool" where
  "sent_ok s \<longleftrightarrow> distinct (delivered s) \<and>
     (\<forall>k\<in>set (delivered s). \<exists>c. dget (rows s) k = Some c \<and> status c = OutSent)"

definition delivery_inv :: "delivery_state \<Rightarrow> bool" where
  "delivery_inv s \<longleftrightarrow> dict_ok (rows s) \<and>
     (\<forall>tok w. dget (workers s) tok = Some w \<longrightarrow> flight_ok s tok w) \<and> leases_short s \<and> sent_ok s"

lemma delivery_inv_init: "delivery_init s \<Longrightarrow> delivery_inv s"
  by (simp add: delivery_init_def delivery_inv_def leases_short_def sent_ok_def)

text \<open>How a step may change one row; \<open>X\<close> are the tokens that act.\<close>

definition row_evolves :: "int \<Rightarrow> string set \<Rightarrow> outbox_row \<Rightarrow> outbox_row \<Rightarrow> bool" where
  "row_evolves now X c c' \<longleftrightarrow>
     (lease_expires_at c' = lease_expires_at c \<or> (\<forall>e. lease_expires_at c' = Some e \<longrightarrow> e \<le> now + BATCH_LEASE)) \<and>
     (status c \<in> {OutSent, OutFailed, OutMuted} \<longrightarrow> status c' = status c) \<and>
     (\<forall>tok t0. tok \<notin> X \<and> claim_token c = Some tok \<and> lease_expires_at c = Some (t0 + ROW_LEASE) \<and> now \<le> t0 + ROW_LEASE \<and>
        status c \<in> {OutPending, OutDropped} \<longrightarrow>
        claim_token c' = Some tok \<and> lease_expires_at c' = Some (t0 + ROW_LEASE) \<and> status c' \<in> {OutPending, OutDropped})"

definition rows_evolve :: "int \<Rightarrow> string set \<Rightarrow> outbox \<Rightarrow> outbox \<Rightarrow> bool" where
  "rows_evolve now X p q \<longleftrightarrow> (dict_ok p \<longrightarrow> dict_ok q) \<and>
     (\<forall>k. case dget p k of
            None \<Rightarrow> (\<forall>c'. dget q k = Some c' \<longrightarrow> lease_expires_at c' = None)
          | Some c \<Rightarrow> (\<exists>c'. dget q k = Some c' \<and> row_evolves now X c c'))"

lemma row_evolves_refl [simp]: "row_evolves now X c c"
  by (simp add: row_evolves_def)

lemma rows_evolve_refl [simp]: "rows_evolve now X p p"
  by (auto simp: rows_evolve_def split: option.splits)

lemma evolve_dput:
  "dget p k = Some c \<Longrightarrow> row_evolves now X c c' \<Longrightarrow> rows_evolve now X p (dput p k c')"
  by (auto simp: rows_evolve_def split: option.splits)

lemma evolve_insert:
  "k \<notin> set (dkeys p) \<Longrightarrow> lease_expires_at r = None \<Longrightarrow> rows_evolve now X p (dput p k r)"
  by (auto simp: rows_evolve_def dget_None_iff [symmetric] split: option.splits simp del: set_map)

lemma evolve_claim:
  assumes "dict_ok p" "claim_batch p tok now n = (q, ids)"
  shows "rows_evolve now X p q"
  unfolding rows_evolve_def
proof (intro conjI allI impI)
  show "dict_ok q" using claim_batch_ok [OF assms(2)] assms(1) by simp
  fix k
  have "row_evolves now X c (stamp_claim tok (now + OUTBOX_BATCH_LEASE_SECONDS * SEC) c)"
    if "dget p k = Some c" "k \<in> set (map fst ids)" for c
  proof -
    have "out_claimable now c" using claim_batch_claimable [OF assms that(2)] that(1) by auto
    then show ?thesis
      by (auto simp: row_evolves_def stamp_claim_def out_claimable_def lease_free_def BATCH_LEASE_def split: option.splits)
  qed
  then show "case dget p k of None \<Rightarrow> \<forall>c'. dget q k = Some c' \<longrightarrow> lease_expires_at c' = None
      | Some c \<Rightarrow> \<exists>c'. dget q k = Some c' \<and> row_evolves now X c c'"
    using claim_batch_get [OF assms(2), of k] by (auto split: option.splits simp del: set_map)
qed

lemma evolve_owned:
  assumes "update_owned p k tok f = (q, b)" "tok \<in> X"
    and "\<And>c. owns tok c \<Longrightarrow> \<forall>e. lease_expires_at (f c) = Some e \<longrightarrow> e \<le> now + BATCH_LEASE"
  shows "rows_evolve now X p q"
  using assms(1)
proof (cases rule: update_owned_cases)
  case (some c)
  then have "row_evolves now X c (f c)" using assms(2,3) by (auto simp: row_evolves_def owns_def)
  with some show ?thesis by (auto intro: evolve_dput)
qed simp

lemma drain_outbox_get: "dget (drain_outbox tenant p) k = map_option (drain_row tenant) (dget p k)"
  by (simp add: drain_outbox_def)

lemma evolve_drain: "rows_evolve now X p (drain_outbox tenant p)"
proof -
  have "dkeys (drain_outbox tenant p) = dkeys p" by (simp add: drain_outbox_def case_prod_beta)
  then show ?thesis
    by (auto simp: rows_evolve_def drain_outbox_get row_evolves_def drain_row_def dict_ok_def split: option.splits)
qed

lemma process_one_lease:
  assumes "fst (process_one env now r) = Some new"
  shows "lease_expires_at new = lease_expires_at r \<or> lease_expires_at new = None"
  using assms
  by (auto simp: process_one_def send_now_def send_now_telegram_def send_now_max_def after_send_def release_claim_def Let_def
      split: prod.splits sum.splits delivery_kind.splits if_splits resolved.splits option.splits pyval.splits
        send_result.splits bool.splits)

lemma evolve_commit:
  assumes "a = process_one env n r" "status r = OutPending" "tok \<in> X"
    and c: "dget p k = Some c" "claim_token c = Some tok" "status c \<in> {OutPending, OutDropped}"
  shows "rows_evolve now X p (commit_attempt p k r a)"
proof (cases "fst a")
  case (Some new)
  have "lease_expires_at new = lease_expires_at r \<or> lease_expires_at new = None"
    by (rule process_one_lease [of env n]) (use Some assms(1) in simp)
  then have "row_evolves now X c (orm_flush r new c)"
    using assms(2,3) c by (auto simp: row_evolves_def orm_flush_def changed_def)
  then show ?thesis using Some c by (auto simp: commit_attempt_def intro: evolve_dput)
qed (simp add: commit_attempt_def)

text \<open>What is left of the invariant after the rows changed: everything but the workers that acted.\<close>

lemma evolve_inv:
  assumes inv: "delivery_inv s" and ev: "rows_evolve (shared_clock s) X (rows s) q"
  shows "dict_ok q" "leases_short (s\<lparr>rows := q\<rparr>)" "sent_ok (s\<lparr>rows := q\<rparr>)"
    "\<And>tok w. dget (workers s) tok = Some w \<Longrightarrow> tok \<notin> X \<Longrightarrow> flight_ok (s\<lparr>rows := q\<rparr>) tok w"
proof -
  have step: "\<exists>c'. dget q k = Some c' \<and> row_evolves (shared_clock s) X c c'" if "dget (rows s) k = Some c" for k c
    using ev [unfolded rows_evolve_def, THEN conjunct2, THEN spec, of k] that by simp
  have origin: "lease_expires_at c' = None \<or> (\<exists>c. dget (rows s) k = Some c \<and> row_evolves (shared_clock s) X c c')"
    if "dget q k = Some c'" for k c'
    using ev [unfolded rows_evolve_def, THEN conjunct2, THEN spec, of k] that by (auto split: option.splits)
  show "dict_ok q" using ev inv by (simp add: rows_evolve_def delivery_inv_def)
  show "leases_short (s\<lparr>rows := q\<rparr>)"
    using inv unfolding delivery_inv_def leases_short_def row_evolves_def
  proof (clarsimp)
    fix k c' e
    assume "dget q k = Some c'" "lease_expires_at c' = Some e"
      and old: "\<forall>k c. dget (rows s) k = Some c \<longrightarrow> (\<forall>e. lease_expires_at c = Some e \<longrightarrow> e \<le> shared_clock s + BATCH_LEASE)"
    then show "e \<le> shared_clock s + BATCH_LEASE" using origin [of k c'] by (auto simp: row_evolves_def)
  qed
  show "sent_ok (s\<lparr>rows := q\<rparr>)"
    using inv step unfolding delivery_inv_def sent_ok_def row_evolves_def by fastforce
  fix tok w
  assume w: "dget (workers s) tok = Some w" "tok \<notin> X"
  then have "flight_ok s tok w" using inv by (simp add: delivery_inv_def)
  then show "flight_ok (s\<lparr>rows := q\<rparr>) tok w"
    using w(2) step unfolding flight_ok_def holds_row_def row_evolves_def
    by (auto split: flight.splits) (smt (verit, best))+
qed

lemma workers_set_worker:
  "dget (workers (set_worker tok w s)) t = (if t = tok then Some w else dget (workers s) t)"
  by (simp add: set_worker_def)

lemma inv_after:
  assumes inv: "delivery_inv s" and ev: "rows_evolve (shared_clock s) {tok} (rows s) q"
    and own: "flight_ok (s\<lparr>rows := q\<rparr>) tok w"
  shows "delivery_inv (set_worker tok w (s\<lparr>rows := q\<rparr>))"
proof -
  have "flight_ok (set_worker tok w (s\<lparr>rows := q\<rparr>)) t v"
    if "dget (workers (set_worker tok w (s\<lparr>rows := q\<rparr>))) t = Some v" for t v
  proof -
    have "flight_ok (s\<lparr>rows := q\<rparr>) t v"
      using that own evolve_inv(4) [OF inv ev, of t v] by (auto simp: workers_set_worker split: if_splits)
    then show ?thesis by (auto simp: flight_ok_def holds_row_def set_worker_def split: flight.splits)
  qed
  then show ?thesis
    using evolve_inv(1-3) [OF inv ev] unfolding delivery_inv_def leases_short_def sent_ok_def by (simp add: set_worker_def)
qed

lemma flight_ok_idle: "(\<And>k t r. flight w \<noteq> Flying k t r) \<Longrightarrow> flight_ok s tok w"
  by (auto simp: flight_ok_def split: flight.splits)

lemma delivery_inv_step:
  assumes inv: "delivery_inv s" and "delivery_step s s'" shows "delivery_inv s'"
  using assms(2)
proof cases
  case (ds_time t)
  have "leases_short s'" using inv ds_time unfolding delivery_inv_def leases_short_def by fastforce
  moreover have "flight_ok s' tok w" if "dget (workers s') tok = Some w" for tok w
  proof -
    have "flight_ok s tok w" using inv that ds_time(1) by (simp add: delivery_inv_def)
    then show ?thesis using ds_time by (auto simp: flight_ok_def holds_row_def split: flight.splits)
  qed
  ultimately show ?thesis using inv ds_time by (simp add: delivery_inv_def sent_ok_def)
next
  case (ds_insert row_id r)
  have ev: "rows_evolve (shared_clock s) {} (rows s) (dput (rows s) row_id r)" using ds_insert by (intro evolve_insert)
  show ?thesis using evolve_inv [OF inv ev] ds_insert(1) by (simp add: delivery_inv_def)
next
  case (ds_claim tok limit q ids)
  have "dict_ok (rows s)" using inv by (simp add: delivery_inv_def)
  then have "rows_evolve (shared_clock s) {tok} (rows s) q" using ds_claim(3) by (rule evolve_claim)
  then show ?thesis unfolding ds_claim(1) by (intro inv_after [OF inv] flight_ok_idle) simp_all
next
  case (ds_start tok w row_id rest q r)
  have u: "update_owned (rows s) row_id tok (\<lambda>r. r\<lparr>lease_expires_at := Some (shared_clock s + ROW_LEASE)\<rparr>) = (q, True)"
    using ds_start(5) by (simp add: reclaim_row_def ROW_LEASE_def)
  then have ev: "rows_evolve (shared_clock s) {tok} (rows s) q"
    by (rule evolve_owned) (use deadline_within_lease in auto)
  have r: "claim_token r = Some tok" "lease_expires_at r = Some (shared_clock s + ROW_LEASE)" "status r = OutPending"
    using u ds_start(6) by (cases rule: update_owned_cases; auto simp: owns_def)+
  show ?thesis unfolding ds_start(1)
    by (rule inv_after [OF inv ev]) (use r ds_start(6) in \<open>auto simp: flight_ok_def holds_row_def\<close>)
next
  case (ds_skip tok w row_id rest q)
  then have "rows_evolve (shared_clock s) {tok} (rows s) q"
    unfolding reclaim_row_def by (auto elim!: update_owned_cases)
  then show ?thesis unfolding ds_skip(1) by (intro inv_after [OF inv] flight_ok_idle) (use ds_skip in simp_all)
next
  case (ds_finish tok w row_id t0 r env a)
  have "flight_ok s tok w" using inv ds_finish(2) by (simp add: delivery_inv_def)
  then have "status r = OutPending" "holds_row s tok row_id t0"
    using ds_finish(3,4) deadline_within_lease by (auto simp: flight_ok_def)
  then obtain c where c: "dget (rows s) row_id = Some c" "claim_token c = Some tok"
    "status c = OutPending \<or> status c = OutDropped" and r: "status r = OutPending"
    by (auto simp: holds_row_def)
  have ev: "rows_evolve (shared_clock s) {tok} (rows s) (commit_attempt (rows s) row_id r a)"
    by (rule evolve_commit [OF _ r _ c(1,2)]) (use ds_finish(5) c(3) in auto)
  let ?s = "set_worker tok (w\<lparr>flight := Idle\<rparr>) (s\<lparr>rows := commit_attempt (rows s) row_id r a\<rparr>)"
  have inv': "delivery_inv ?s" by (intro inv_after [OF inv ev] flight_ok_idle) simp
  have "sent_ok (record_sent row_id a ?s)"
  proof (cases "\<exists>new. fst a = Some new \<and> status new = OutSent")
    case True
    then obtain new where new: "fst a = Some new" "status new = OutSent" by blast
    have "row_id \<notin> set (delivered s)" using inv c by (auto simp: delivery_inv_def sent_ok_def)
    moreover have "dget (rows ?s) row_id = Some (orm_flush r new c)"
      using new c(1) by (simp add: set_worker_def commit_attempt_def)
    moreover have "status (orm_flush r new c) = OutSent" using new r by (simp add: orm_flush_def changed_def)
    ultimately show ?thesis
      using inv' new by (auto simp: delivery_inv_def sent_ok_def record_sent_def set_worker_def)
  next
    case False
    then show ?thesis using inv' by (auto simp: delivery_inv_def record_sent_def split: option.splits)
  qed
  moreover have "dict_ok (rows (record_sent row_id a ?s))" "leases_short (record_sent row_id a ?s)"
    "\<And>t v. flight_ok (record_sent row_id a ?s) t v = flight_ok ?s t v" "workers (record_sent row_id a ?s) = workers ?s"
    using inv' by (auto simp: delivery_inv_def record_sent_def leases_short_def flight_ok_def holds_row_def
        split: option.splits flight.splits)
  ultimately show ?thesis using inv' unfolding ds_finish(1) delivery_inv_def by metis
next
  case (ds_timeout tok w row_id t0 r)
  then show ?thesis
    using inv_after [OF inv rows_evolve_refl flight_ok_idle, of "w\<lparr>flight := Releasing row_id\<rparr>" tok] by simp
next
  case (ds_release tok w row_id q b)
  then have "rows_evolve (shared_clock s) {tok} (rows s) q"
    unfolding release_claim_by_id_def by (elim evolve_owned) (auto simp: release_claim_def)
  then show ?thesis unfolding ds_release(1) by (intro inv_after [OF inv] flight_ok_idle) simp_all
next
  case (ds_crash tok w)
  then show ?thesis
    using inv_after [OF inv rows_evolve_refl flight_ok_idle, of "\<lparr>todo = [], flight = Idle, tick_now = tick_now w\<rparr>" tok]
    by simp
next
  case (ds_drain tenant)
  have ev: "rows_evolve (shared_clock s) {} (rows s) (drain_outbox tenant (rows s))" by (rule evolve_drain)
  show ?thesis using evolve_inv [OF inv ev] ds_drain by (simp add: delivery_inv_def)
qed

interpretation delivery: invariant_system delivery_init delivery_step delivery_inv
  by unfold_locales (fact delivery_inv_init, fact delivery_inv_step)

section \<open>What one step does to the rows\<close>

lemma step_evolves:
  assumes inv: "delivery_inv s" and "delivery_step s s'"
  shows "\<exists>X. rows_evolve (shared_clock s) X (rows s) (rows s')"
  using assms(2)
proof cases
  case (ds_insert row_id r)
  then show ?thesis using evolve_insert by auto
next
  case (ds_claim tok limit q ids)
  then show ?thesis using evolve_claim [of "rows s"] inv by (auto simp: delivery_inv_def set_worker_def)
next
  case (ds_start tok w row_id rest q r)
  then have "rows_evolve (shared_clock s) {tok} (rows s) q"
    unfolding reclaim_row_def by (elim evolve_owned) (use deadline_within_lease in \<open>auto simp: ROW_LEASE_def\<close>)
  then show ?thesis using ds_start(1) by (auto simp: set_worker_def)
next
  case (ds_skip tok w row_id rest q)
  then have "q = rows s" unfolding reclaim_row_def by (auto elim!: update_owned_cases)
  then show ?thesis using ds_skip(1) by (auto simp: set_worker_def intro: exI [of _ "{}"])
next
  case (ds_finish tok w row_id t0 r env a)
  have "flight_ok s tok w" using inv ds_finish(2) by (simp add: delivery_inv_def)
  then have "status r = OutPending" "holds_row s tok row_id t0"
    using ds_finish(3,4) deadline_within_lease by (auto simp: flight_ok_def)
  then obtain c where "dget (rows s) row_id = Some c" "claim_token c = Some tok" "status c \<in> {OutPending, OutDropped}"
    by (auto simp: holds_row_def)
  then have "rows_evolve (shared_clock s) {tok} (rows s) (commit_attempt (rows s) row_id r a)"
    using ds_finish(5) \<open>status r = OutPending\<close> by (intro evolve_commit) auto
  then show ?thesis using ds_finish(1) by (auto simp: set_worker_def record_sent_def split: option.splits)
next
  case (ds_release tok w row_id q b)
  then have "rows_evolve (shared_clock s) {tok} (rows s) q"
    unfolding release_claim_by_id_def by (elim evolve_owned) (auto simp: release_claim_def)
  then show ?thesis using ds_release(1) by (auto simp: set_worker_def)
next
  case (ds_drain tenant)
  then show ?thesis using evolve_drain by auto
qed (auto simp: set_worker_def intro: exI [of _ "{}"])

lemma final_step:
  assumes "delivery_inv s" "delivery_step s s'" "dget (rows s) k = Some c" "status c \<in> {OutSent, OutFailed, OutMuted}"
  shows "\<exists>c'. dget (rows s') k = Some c' \<and> status c' = status c"
proof -
  obtain X where "rows_evolve (shared_clock s) X (rows s) (rows s')" using step_evolves [OF assms(1,2)] by blast
  from this [unfolded rows_evolve_def, THEN conjunct2, THEN spec, of k] assms(3,4) show ?thesis
    by (auto simp: row_evolves_def)
qed

lemma final_run:
  assumes "delivery_step\<^sup>*\<^sup>* s s'" "delivery_inv s" "dget (rows s) k = Some c" "status c \<in> {OutSent, OutFailed, OutMuted}"
  shows "\<exists>c'. dget (rows s') k = Some c' \<and> status c' = status c"
  using assms
proof (induction rule: rtranclp_induct)
  case (step y z)
  then obtain c' where c': "dget (rows y) k = Some c'" "status c' = status c" by auto
  have "delivery_inv y" using delivery.run_inv step.hyps(1) step.prems(1) by blast
  then show ?case using final_step [OF _ step.hyps(2) c'(1)] c'(2) step.prems(3) by simp
qed auto

section \<open>Properties\<close>

text \<open>A run: two ticks on one row, the second after the lease of the first.\<close>

definition row_leased :: "string \<Rightarrow> int \<Rightarrow> outbox_row" where
  "row_leased tok until = sample_row\<lparr>claim_token := Some tok, lease_expires_at := Some until\<rparr>"

definition start_state :: delivery_state where
  "start_state = \<lparr>rows = [], workers = [], shared_clock = 0, delivered = []\<rparr>"

definition state_of :: "outbox_row \<Rightarrow> (string \<times> worker) list \<Rightarrow> int \<Rightarrow> string list \<Rightarrow> delivery_state" where
  "state_of r ws t del = \<lparr>rows = [(''m'', r)], workers = ws, shared_clock = t, delivered = del\<rparr>"

abbreviation claimed_tick :: "int \<Rightarrow> worker" where
  "claimed_tick t \<equiv> \<lparr>todo = [''m''], flight = Idle, tick_now = t\<rparr>"

abbreviation flying_tick :: "string \<Rightarrow> int \<Rightarrow> worker" where
  "flying_tick tok t \<equiv> \<lparr>todo = [], flight = Flying ''m'' t (row_leased tok (t + 40000000)), tick_now = t\<rparr>"

lemma run_claimed: "reach delivery_init delivery_step (state_of (row_leased ''a'' 60000000) [(''a'', claimed_tick 0)] 0 [])"
proof -
  have 1: "reach delivery_init delivery_step start_state"
    by (rule reach_init) (simp add: delivery_init_def start_state_def)
  have "delivery_step start_state (start_state\<lparr>rows := dput (rows start_state) ''m'' sample_row\<rparr>)"
    by (rule ds_insert) (simp_all add: start_state_def sample_row_def)
  then have "delivery_step start_state (state_of sample_row [] 0 [])" by (simp add: start_state_def state_of_def)
  with 1 have 2: "reach delivery_init delivery_step (state_of sample_row [] 0 [])" by (rule reach_step)
  have "claim_batch (rows (state_of sample_row [] 0 [])) ''a'' (shared_clock (state_of sample_row [] 0 [])) 1 =
      ([(''m'', row_leased ''a'' 60000000)], [(''m'', ''t'')])" by code_simp
  from ds_claim [OF _ this] have "delivery_step (state_of sample_row [] 0 [])
      (state_of (row_leased ''a'' 60000000) [(''a'', claimed_tick 0)] 0 [])"
    by (simp add: set_worker_def state_of_def)
  with 2 show ?thesis by (rule reach_step)
qed

lemma run_flying: "reach delivery_init delivery_step (state_of (row_leased ''a'' 40000000) [(''a'', flying_tick ''a'' 0)] 0 [])"
proof -
  let ?s = "state_of (row_leased ''a'' 60000000) [(''a'', claimed_tick 0)] 0 []"
  have "reclaim_row (rows ?s) ''m'' ''a'' (shared_clock ?s) = ([(''m'', row_leased ''a'' 40000000)], True)" by code_simp
  from ds_start [OF _ _ _ this, of "claimed_tick 0" "[]" "row_leased ''a'' 40000000"]
  have "delivery_step ?s (state_of (row_leased ''a'' 40000000) [(''a'', flying_tick ''a'' 0)] 0 [])"
    by (simp add: set_worker_def state_of_def)
  with run_claimed show ?thesis by (rule reach_step)
qed

lemma run_two_flying: "reach delivery_init delivery_step
    (state_of (row_leased ''b'' 90000000) [(''a'', flying_tick ''a'' 0), (''b'', flying_tick ''b'' 50000000)] 50000000 [])"
proof -
  let ?r = "row_leased ''a'' 40000000" and ?a = "(''a'', flying_tick ''a'' 0)"
  have "delivery_step (state_of ?r [?a] 0 []) (state_of ?r [?a] 0 []\<lparr>shared_clock := 50000000\<rparr>)"
    by (rule ds_time) (simp add: state_of_def)
  then have 1: "reach delivery_init delivery_step (state_of ?r [?a] 50000000 [])"
    using run_flying by (simp add: state_of_def) (rule reach_step)
  have "claim_batch (rows (state_of ?r [?a] 50000000 [])) ''b'' (shared_clock (state_of ?r [?a] 50000000 [])) 1 =
      ([(''m'', row_leased ''b'' 110000000)], [(''m'', ''t'')])" by code_simp
  from ds_claim [OF _ this]
  have "delivery_step (state_of ?r [?a] 50000000 [])
      (state_of (row_leased ''b'' 110000000) [?a, (''b'', claimed_tick 50000000)] 50000000 [])"
    by (simp add: set_worker_def state_of_def)
  with 1 have 2: "reach delivery_init delivery_step
      (state_of (row_leased ''b'' 110000000) [?a, (''b'', claimed_tick 50000000)] 50000000 [])" by (rule reach_step)
  let ?s = "state_of (row_leased ''b'' 110000000) [?a, (''b'', claimed_tick 50000000)] 50000000 []"
  have "reclaim_row (rows ?s) ''m'' ''b'' (shared_clock ?s) = ([(''m'', row_leased ''b'' 90000000)], True)" by code_simp
  from ds_start [OF _ _ _ this, of "claimed_tick 50000000" "[]" "row_leased ''b'' 90000000"]
  have "delivery_step ?s (state_of (row_leased ''b'' 90000000) [?a, (''b'', flying_tick ''b'' 50000000)] 50000000 [])"
    by (simp add: set_worker_def state_of_def)
  with 2 show ?thesis by (rule reach_step)
qed

lemma run_sent: "reach delivery_init delivery_step
    (state_of (sample_row\<lparr>status := OutSent\<rparr>) [(''a'', \<lparr>todo = [], flight = Idle, tick_now = 0\<rparr>)] 0 [''m''])"
proof -
  let ?s = "state_of (row_leased ''a'' 40000000) [(''a'', flying_tick ''a'' 0)] 0 []"
  have p: "process_one sample_delivery_env (tick_now (flying_tick ''a'' 0)) (row_leased ''a'' 40000000) =
      (Some (sample_row\<lparr>status := OutSent\<rparr>), [TgSend (BotClient ''sreda'') (VInt 7) (VStr ''hello'') VNone VNone])"
    by code_simp
  have "commit_attempt (rows ?s) ''m'' (row_leased ''a'' 40000000)
      (Some (sample_row\<lparr>status := OutSent\<rparr>), [TgSend (BotClient ''sreda'') (VInt 7) (VStr ''hello'') VNone VNone]) =
      [(''m'', sample_row\<lparr>status := OutSent\<rparr>)]" by code_simp
  with ds_finish [where s = ?s and tok = "''a''" and row_id = "''m''" and ?t0.0 = 0, OF _ _ _ p]
  have "delivery_step ?s (state_of (sample_row\<lparr>status := OutSent\<rparr>) [(''a'', \<lparr>todo = [], flight = Idle, tick_now = 0\<rparr>)] 0 [''m''])"
    using deadline_within_lease(1) by (simp add: set_worker_def state_of_def record_sent_def)
  with run_flying show ?thesis by (rule reach_step)
qed





text \<open>
  C29: nothing is stranded. A pending row of a delivery channel, in whatever state crashed workers
  left it, can be claimed one batch lease from now at the latest (or at its scheduled time), and a
  batch large enough for all claimable rows takes it.
\<close>

theorem pending_claimable_again:
  assumes "reach delivery_init delivery_step s" "dget (rows s) k = Some r" "status r = OutPending"
    and "channel_type r \<in> {''telegram'', ''max''}" "case scheduled_at r of None \<Rightarrow> True | Some u \<Rightarrow> u \<le> t"
    and "shared_clock s + BATCH_LEASE < t" "length (filter (\<lambda>(k, r). out_claimable t r) (rows s)) \<le> limit"
    and "claim_batch (rows s) tok t limit = (q, ids)"
  shows "k \<in> set (map fst ids) \<and> out_holder q k = Some (tok, t + BATCH_LEASE)"
proof -
  have inv: "delivery_inv s" using delivery.reach_inv [OF assms(1)] .
  then have "lease_free (lease_expires_at r) t"
    using assms(2,6) by (fastforce simp: delivery_inv_def leases_short_def lease_free_def split: option.splits)
  then have cl: "out_claimable t r" using assms(3-5) by (auto simp: out_claimable_def split: option.splits)
  let ?c = "filter (\<lambda>(k, r). out_claimable t r) (rows s)"
  have "take limit (sort_key (\<lambda>(k, r). created_at r) ?c) = sort_key (\<lambda>(k, r). created_at r) ?c"
    using assms(7) by simp
  then have "set (map fst ids) = fst ` set ?c" unfolding claim_batch_ids [OF assms(8)] by simp
  moreover have "(k, r) \<in> set ?c" using dget_Some_mem [OF assms(2)] cl by simp
  ultimately have k: "k \<in> set (map fst ids)" by (metis fst_conv image_eqI)
  then have "out_holder q k = Some (tok, t + BATCH_LEASE)"
    using claim_batch_get [OF assms(8), of k] assms(2) by (simp add: out_holder_def stamp_claim_def BATCH_LEASE_def)
  with k show ?thesis by blast
qed

theorem pending_claimable_again_witness:
  "''m'' \<in> set (map fst [(''m'', ''t'')]) \<and>
   out_holder [(''m'', row_leased ''c'' 130000000)] ''m'' = Some (''c'', 70000000 + BATCH_LEASE)"
proof -
  have "claim_batch (rows (state_of (row_leased ''a'' 40000000) [(''a'', flying_tick ''a'' 0)] 0 [])) ''c'' 70000000 1 =
      ([(''m'', row_leased ''c'' 130000000)], [(''m'', ''t'')])" by code_simp
  moreover have "out_claimable 70000000 (row_leased ''a'' 40000000)" by code_simp
  ultimately show ?thesis
    using pending_claimable_again [OF run_flying, of "''m''" "row_leased ''a'' 40000000" 70000000 1 "''c''"]
    by (simp add: state_of_def row_leased_def sample_row_def BATCH_LEASE_def OUTBOX_BATCH_LEASE_SECONDS_def SEC_def)
qed

section \<open>The code's tick is a run\<close>

definition tick_at :: "string \<Rightarrow> string list \<Rightarrow> int \<Rightarrow> delivery_state \<Rightarrow> bool" where
  "tick_at tok ids now s \<longleftrightarrow> dget (workers s) tok = Some \<lparr>todo = ids, flight = Idle, tick_now = now\<rparr>"

lemma run_time: "shared_clock s \<le> t \<Longrightarrow> delivery_step\<^sup>*\<^sup>* s (s\<lparr>shared_clock := t\<rparr>)"
  using ds_time by blast

lemma tick_one_row:
  assumes s: "tick_at tok (row_id # ids) now s" and t: "shared_clock s \<le> t"
  shows "\<exists>s'. delivery_step\<^sup>*\<^sup>* s s' \<and> tick_at tok ids now s' \<and> shared_clock s' = t \<and>
    rows s' = (case reclaim_row (rows s) row_id tok t of
        (q, False) \<Rightarrow> q
      | (q, True) \<Rightarrow>
          (case dget q row_id of
             None \<Rightarrow> q
           | Some r \<Rightarrow> if late then fst (release_claim_by_id q row_id tok)
               else commit_attempt q row_id r (process_one env now r)))"
proof -
  define s1 where "s1 = s\<lparr>shared_clock := t\<rparr>"
  have run1: "delivery_step\<^sup>*\<^sup>* s s1" unfolding s1_def using t by (rule run_time)
  have w: "dget (workers s1) tok = Some \<lparr>todo = row_id # ids, flight = Idle, tick_now = now\<rparr>"
    using s by (simp add: tick_at_def s1_def)
  obtain q b where q: "reclaim_row (rows s) row_id tok t = (q, b)" by fastforce
  then have q1: "reclaim_row (rows s1) row_id tok (shared_clock s1) = (q, b)" by (simp add: s1_def)
  show ?thesis
  proof (cases b)
    case False
    let ?s2 = "set_worker tok \<lparr>todo = ids, flight = Idle, tick_now = now\<rparr> (s1\<lparr>rows := q\<rparr>)"
    have "reclaim_row (rows s1) row_id tok (shared_clock s1) = (q, False)" using q1 False by simp
    from ds_skip [OF w _ _ this, of ids] have "delivery_step s1 ?s2" by simp
    with run1 have "delivery_step\<^sup>*\<^sup>* s ?s2" by (rule rtranclp.rtrancl_into_rtrancl)
    moreover have "tick_at tok ids now ?s2" "shared_clock ?s2 = t" "rows ?s2 = q"
      by (simp_all add: tick_at_def set_worker_def s1_def)
    ultimately show ?thesis using q False by auto
  next
    case True
    obtain r where r: "dget q row_id = Some r"
      using q True by (auto simp: reclaim_row_def elim!: update_owned_cases)
    let ?w = "\<lparr>todo = ids, flight = Flying row_id t r, tick_now = now\<rparr>"
    define s2 where "s2 = set_worker tok ?w (s1\<lparr>rows := q\<rparr>)"
    have "delivery_step s1 s2"
      using ds_start [OF w _ _ _ r, of ids] q1 True by (simp add: s2_def s1_def)
    with run1 have run2: "delivery_step\<^sup>*\<^sup>* s s2" by (rule rtranclp.rtrancl_into_rtrancl)
    have w2: "dget (workers s2) tok = Some ?w" by (simp add: s2_def workers_set_worker)
    show ?thesis
    proof (cases late)
      case False
      let ?a = "process_one env now r"
      let ?s3 = "record_sent row_id ?a (set_worker tok (?w\<lparr>flight := Idle\<rparr>) (s2\<lparr>rows := commit_attempt (rows s2) row_id r ?a\<rparr>))"
      have "delivery_step s2 ?s3"
        by (rule ds_finish [OF w2]) (use deadline_within_lease in \<open>auto simp: s2_def s1_def set_worker_def\<close>)
      with run2 have "delivery_step\<^sup>*\<^sup>* s ?s3" by (rule rtranclp.rtrancl_into_rtrancl)
      moreover have "tick_at tok ids now ?s3" "shared_clock ?s3 = t" "rows ?s3 = commit_attempt q row_id r ?a"
        by (auto simp: tick_at_def record_sent_def set_worker_def s2_def s1_def split: option.splits)
      ultimately show ?thesis using q True r False by auto
    next
      case True
      let ?s3 = "set_worker tok (?w\<lparr>flight := Releasing row_id\<rparr>) s2"
      have w3: "dget (workers ?s3) tok = Some (?w\<lparr>flight := Releasing row_id\<rparr>)" by (simp add: workers_set_worker)
      obtain q' b' where q': "release_claim_by_id (rows ?s3) row_id tok = (q', b')" by fastforce
      let ?s4 = "set_worker tok (?w\<lparr>flight := Idle\<rparr>) (?s3\<lparr>rows := q'\<rparr>)"
      have "delivery_step s2 ?s3" by (rule ds_timeout [OF w2]) simp
      moreover have "delivery_step ?s3 ?s4" using ds_release [OF w3 _ q'] by simp
      ultimately have "delivery_step\<^sup>*\<^sup>* s ?s4" using run2 by (meson rtranclp.rtrancl_into_rtrancl)
      moreover have "tick_at tok ids now ?s4" "shared_clock ?s4 = t" "rows ?s4 = fst (release_claim_by_id q row_id tok)"
        using q' by (auto simp: tick_at_def set_worker_def s2_def s1_def)
      ultimately show ?thesis using q \<open>b\<close> r True by auto
    qed
  qed
qed

lemma process_rows_run:
  assumes "tick_at tok (map fst ids) now s" "shared_clock s \<le> clk i" "\<And>j. clk j \<le> clk (Suc j)"
  shows "\<exists>s'. delivery_step\<^sup>*\<^sup>* s s' \<and> tick_at tok [] now s' \<and>
    rows s' = fst (process_rows env tok now clk late i ids (rows s))"
  using assms(1,2)
proof (induction ids arbitrary: i s)
  case Nil
  then show ?case by auto
next
  case (Cons p ids)
  obtain row_id tenant where p: "p = (row_id, tenant)" by (cases p)
  obtain s1 where s1: "delivery_step\<^sup>*\<^sup>* s s1" "tick_at tok (map fst ids) now s1" "shared_clock s1 = clk i"
    "rows s1 = (case reclaim_row (rows s) row_id tok (clk i) of
        (q, False) \<Rightarrow> q
      | (q, True) \<Rightarrow>
          (case dget q row_id of
             None \<Rightarrow> q
           | Some r \<Rightarrow> if late i then fst (release_claim_by_id q row_id tok)
               else commit_attempt q row_id r (process_one env now r)))"
    using tick_one_row [of tok row_id "map fst ids" now s "clk i" "late i" env] Cons.prems p by auto
  obtain s' where s': "delivery_step\<^sup>*\<^sup>* s1 s'" "tick_at tok [] now s'"
    "rows s' = fst (process_rows env tok now clk late (Suc i) ids (rows s1))"
    using Cons.IH [of s1 "Suc i"] s1(2,3) assms(3) by auto
  have "rows s' = fst (process_rows env tok now clk late i (p # ids) (rows s))"
    using s1(4) s'(3) by (auto simp: p Let_def split: prod.splits bool.splits option.splits)
  then show ?case using s1(1) s'(1,2) by (meson rtranclp_trans)
qed

text \<open>
  refinement. The tick of the code (claim a batch, then row after row with a fresh lease each) is
  a run of the transition system from any state, so what holds of every run holds of the code,
  whatever other workers do before and after it.
\<close>

theorem tick_refines_protocol:
  assumes "tok \<notin> set (dkeys (workers s))" "shared_clock s = now" "now \<le> clk 0" "\<And>j. clk j \<le> clk (Suc j)"
    and "process_pending_messages env tok now clk late limit (rows s) = (q, n)"
  shows "\<exists>s'. delivery_step\<^sup>*\<^sup>* s s' \<and> rows s' = q"
proof -
  obtain q1 ids where c: "claim_batch (rows s) tok (shared_clock s) limit = (q1, ids)" by fastforce
  let ?s1 = "set_worker tok \<lparr>todo = map fst ids, flight = Idle, tick_now = shared_clock s\<rparr> (s\<lparr>rows := q1\<rparr>)"
  have 1: "delivery_step s ?s1" using assms(1) c by (rule ds_claim)
  have "tick_at tok (map fst ids) now ?s1" "shared_clock ?s1 \<le> clk 0" "rows ?s1 = q1"
    using assms(2,3) by (simp_all add: tick_at_def set_worker_def)
  then obtain s' where "delivery_step\<^sup>*\<^sup>* ?s1 s'" "rows s' = fst (process_rows env tok now clk late 0 ids q1)"
    using process_rows_run [of tok ids now ?s1 clk 0 env late] assms(4) by auto
  moreover have "q = fst (process_rows env tok now clk late 0 ids q1)"
    using assms(2,5) c by (simp add: process_pending_messages_def)
  ultimately show ?thesis using 1 by (metis converse_rtranclp_into_rtranclp)
qed

theorem tick_refines_protocol_witness:
  "\<exists>s'. delivery_step\<^sup>*\<^sup>* (state_of sample_row [] 0 []) s' \<and> rows s' = [(''m'', sample_row\<lparr>status := OutSent\<rparr>)]"
proof -
  have "process_pending_messages sample_delivery_env ''a'' 0 (\<lambda>_. 0) (\<lambda>_. False) 5 (rows (state_of sample_row [] 0 [])) =
      ([(''m'', sample_row\<lparr>status := OutSent\<rparr>)], 1)" by code_simp
  then show ?thesis
    using tick_refines_protocol [of "''a''" "state_of sample_row [] 0 []" 0 "\<lambda>_. 0"] by (simp add: state_of_def)
qed

section \<open>A delivery over a deleted tenant\<close>

text \<open>
  The drain of a deleted tenant marks its pending rows dropped, also the one that is being
  delivered. The commit of that delivery writes its status by primary key: the row ends sent.
\<close>

theorem drain_overwritten:
  assumes "reach delivery_init delivery_step s" "dget (workers s) tok = Some w" "flight w = Flying row_id t0 r"
    and "shared_clock s < t0 + DEADLINE" "process_one env (tick_now w) r = (Some new, calls)" "status new = OutSent"
    and c: "dget (rows s) row_id = Some c" "status c = OutPending" "tenant_id c = tenant"
  shows "\<exists>s1 s2 c2. delivery_step s s1 \<and> delivery_step s1 s2 \<and>
     map_option status (dget (rows s1) row_id) = Some OutDropped \<and>
     dget (rows s2) row_id = Some c2 \<and> status c2 = OutSent"
proof -
  define s1 where "s1 = s\<lparr>rows := drain_outbox tenant (rows s)\<rparr>"
  have "flight_ok s tok w" using delivery.reach_inv [OF assms(1)] assms(2) by (simp add: delivery_inv_def)
  then have r: "status r = OutPending" using assms(3) by (simp add: flight_ok_def)
  have 1: "delivery_step s s1" unfolding s1_def by (rule ds_drain)
  have d: "dget (rows s1) row_id = Some (drain_row tenant c)" using c by (simp add: s1_def drain_outbox_get)
  let ?a = "(Some new, calls)"
  let ?s2 = "record_sent row_id ?a (set_worker tok (w\<lparr>flight := Idle\<rparr>) (s1\<lparr>rows := commit_attempt (rows s1) row_id r ?a\<rparr>))"
  have 2: "delivery_step s1 ?s2"
    by (rule ds_finish [OF _ assms(3) _ assms(5)]) (use assms(2,4) in \<open>simp_all add: s1_def\<close>)
  have "dget (rows ?s2) row_id = Some (orm_flush r new (drain_row tenant c))"
    using d assms(6) by (simp add: record_sent_def set_worker_def commit_attempt_def)
  moreover have "status (orm_flush r new (drain_row tenant c)) = OutSent"
    using r assms(6) by (simp add: orm_flush_def changed_def)
  moreover have "status (drain_row tenant c) = OutDropped" using c by (simp add: drain_row_def)
  ultimately show ?thesis using 1 2 d by auto
qed

end
