(* ===== verification/OperationIds.thy ===== *)
theory OperationIds
  imports PyValue
begin

text \<open>
  \<open>services/operation_id.py\<close> and \<open>services/text_normalization.py\<close>: the ids that make a retried
  operation the same operation, and the hash under which a title is recognised. SHA-1, SHA-256,
  HMAC, Unicode normalisation, lower case and the lemmatiser (pymorphy3) are parameters; as
  everywhere in the development a character is a code point below 256.
\<close>

definition US :: char where "US = CHR 0x1F"

section \<open>Normalisation of titles\<close>

record text_env =
  nfc :: "string \<Rightarrow> string"
  lower :: "string \<Rightarrow> string"
  fold_yo :: "string \<Rightarrow> string" \<comment> \<open>replaces the letter yo\<close>
  lemmatize_word :: "string \<Rightarrow> string"

definition NORMALIZATION_VERSION :: nat where "NORMALIZATION_VERSION = 2"

text \<open>\<open>string.punctuation\<close> and the blanks.\<close>

definition boundary_punct :: "char \<Rightarrow> bool" where
  "boundary_punct c \<longleftrightarrow> in_ranges [(33, 47), (58, 64), (91, 96), (123, 126), (32, 32), (9, 10), (13, 13)] c"

definition strip_boundary :: "string \<Rightarrow> string" where
  "strip_boundary s = rev (dropWhile boundary_punct (rev (dropWhile boundary_punct s)))"

lemma dropWhile_shorter:
  assumes "t = dropWhile is_space s" "t \<noteq> []"
  shows "length (dropWhile (\<lambda>c. \<not> is_space c) t) < length s"
proof -
  obtain c cs where t: "t = c # cs" using assms(2) by (cases t) auto
  then have "\<not> is_space c" using assms(1) by (metis hd_dropWhile list.discI list.sel(1))
  then have "length (dropWhile (\<lambda>c. \<not> is_space c) t) \<le> length cs" using t by (simp add: length_dropWhile_le)
  moreover have "length t \<le> length s" using assms(1) by (simp add: length_dropWhile_le)
  ultimately show ?thesis using t by simp
qed

text \<open>\<open>text.split()\<close>.\<close>

function split_ws :: "string \<Rightarrow> string list" where
  "split_ws s =
     (let t = dropWhile is_space s in
      if t = [] then []
      else takeWhile (\<lambda>c. \<not> is_space c) t # split_ws (dropWhile (\<lambda>c. \<not> is_space c) t))"
  by pat_completeness auto

termination
  by (relation "measure length") (auto intro: dropWhile_shorter)

declare split_ws.simps [simp del]

definition normalize_for_dedup :: "text_env \<Rightarrow> string \<Rightarrow> string" where
  "normalize_for_dedup E title =
     (if title = [] then []
      else
        (let t = strip_boundary (fold_yo E (lower E (nfc E title))) in
         if t = [] then []
         else
           (let words = filter (\<lambda>w. w \<noteq> []) (map strip_boundary (split_ws t)) in
            if words = [] then [] else fold_yo E (join_with '' '' (map (lemmatize_word E) words)))))"

section \<open>Ids\<close>

definition compute_operation_id_create ::
    "(string \<Rightarrow> string) \<Rightarrow> string \<Rightarrow> string \<Rightarrow> string \<Rightarrow> string \<Rightarrow> string \<Rightarrow> string" where
  "compute_operation_id_create sha1 plan_id step_id action entity_type logical_key =
     ''op_'' @ sha1 (join_with [US] [plan_id, step_id, action, entity_type, logical_key])"

definition compute_operation_id_update ::
    "(string \<Rightarrow> string) \<Rightarrow> string \<Rightarrow> string \<Rightarrow> string \<Rightarrow> string \<Rightarrow> string \<Rightarrow> string" where
  "compute_operation_id_update sha1 plan_id step_id action entity_type entity_id =
     ''op_'' @ sha1 (join_with [US] [plan_id, step_id, action, entity_type, entity_id])"

record hash_env = text_env +
  sha256 :: "string \<Rightarrow> string"
  hmac_sha256 :: "string \<Rightarrow> string \<Rightarrow> string"
  encryption_key :: string

definition title_payload :: "string \<Rightarrow> string \<Rightarrow> string \<Rightarrow> string \<Rightarrow> string \<Rightarrow> string" where
  "title_payload entity tenant user normalized extra =
     join_with [US] ([''v'' @ show_nat NORMALIZATION_VERSION, entity, tenant, user, normalized] @
       (if extra = [] then [] else [extra]))"

definition compute_normalized_title_hash ::
    "hash_env \<Rightarrow> string \<Rightarrow> string \<Rightarrow> string \<Rightarrow> string \<Rightarrow> string \<Rightarrow> string" where
  "compute_normalized_title_hash H title entity tenant user extra =
     (let normalized = normalize_for_dedup (text_env.truncate H) title in
      if normalized = [] then []
      else
        (let msg = title_payload entity tenant user normalized extra in
         if encryption_key H \<noteq> [] then hmac_sha256 H (encryption_key H) msg else sha256 H msg))"

section \<open>Properties\<close>

lemma split_at_sep:
  "sep \<notin> set a \<Longrightarrow> sep \<notin> set b \<Longrightarrow> a @ sep # x = b @ sep # y \<longleftrightarrow> a = b \<and> x = y"
proof (induction a arbitrary: b)
  case Nil
  then show ?case by (cases b) auto
next
  case (Cons c a)
  then show ?case by (cases b) auto
qed

text \<open>The separator keeps the fields apart: a message determines them, the last one unrestricted.\<close>

lemma join_fields_inject:
  "length xs = length ys \<Longrightarrow> \<forall>f\<in>set xs. sep \<notin> set f \<Longrightarrow> \<forall>f\<in>set ys. sep \<notin> set f \<Longrightarrow>
     join_with [sep] (xs @ [k]) = join_with [sep] (ys @ [l]) \<longleftrightarrow> xs = ys \<and> k = l"
proof (induction xs ys rule: list_induct2)
  case (Cons x xs y ys)
  have "join_with [sep] ((z # zs) @ [j]) = z @ sep # join_with [sep] (zs @ [j])" for z zs j
    by (cases zs) auto
  then show ?case using Cons by (simp add: split_at_sep)
qed simp

text \<open>
  an operation id stands for one operation. Two create (or update) ids are equal only for the
  same plan, step, action, entity type and key, unless SHA-1 collides on two different messages: no
  field can imitate another across the separator.
\<close>

theorem op_id_tells_operations_apart:
  assumes "\<forall>f\<in>{p, s, a, e, p', s', a', e'}. US \<notin> set f"
    and "compute_operation_id_create sha1 p s a e k = compute_operation_id_create sha1 p' s' a' e' k' \<or>
         compute_operation_id_create sha1 p s a e k = compute_operation_id_update sha1 p' s' a' e' k'"
  shows "(p, s, a, e, k) = (p', s', a', e', k') \<or> (\<exists>m m'. m \<noteq> m' \<and> sha1 m = sha1 m')"
proof -
  have "sha1 (join_with [US] ([p, s, a, e] @ [k])) = sha1 (join_with [US] ([p', s', a', e'] @ [k']))"
    using assms(2) by (auto simp: compute_operation_id_create_def compute_operation_id_update_def)
  then show ?thesis
    using join_fields_inject [of "[p, s, a, e]" "[p', s', a', e']" US k k'] assms(1) by auto
qed

theorem op_id_tells_operations_apart_witness:
  "(''p'', ''s'', ''create'', ''task'', ''k'') = (''p'', ''s'', ''create'', ''task'', ''k'') \<or>
   (\<exists>m m'. m \<noteq> m' \<and> rev m = rev (m' :: string))"
  by (rule op_id_tells_operations_apart) (auto simp: US_def chr_def)

text \<open>The hash of a title separates entity types, tenants, users and the time key, as far as it is a hash.\<close>

theorem title_hash_scoped:
  assumes "\<forall>f\<in>{e, t, u, e', t', u'}. US \<notin> set f"
    and n: "normalize_for_dedup (text_env.truncate H) title = n" "n \<noteq> []" "US \<notin> set n"
    and n': "normalize_for_dedup (text_env.truncate H) title' = n'" "n' \<noteq> []" "US \<notin> set n'"
    and inj: "\<And>m m'. hmac_sha256 H (encryption_key H) m = hmac_sha256 H (encryption_key H) m' \<Longrightarrow> m = m'"
    and key: "encryption_key H \<noteq> []" and "x \<noteq> []" "x' \<noteq> []"
    and "compute_normalized_title_hash H title e t u x = compute_normalized_title_hash H title' e' t' u' x'"
  shows "(e, t, u, n, x) = (e', t', u', n', x')"
proof -
  let ?v = "''v'' @ show_nat NORMALIZATION_VERSION"
  have v: "US \<notin> set ?v"
    by code_simp
  have "join_with [US] ([?v, e, t, u, n] @ [x]) = join_with [US] ([?v, e', t', u', n'] @ [x'])"
  proof -
    have "hmac_sha256 H (encryption_key H) (title_payload e t u n x) = hmac_sha256 H (encryption_key H) (title_payload e' t' u' n' x')"
      using assms(12) n(1,2) n'(1,2) key by (simp add: compute_normalized_title_hash_def Let_def)
    then have "title_payload e t u n x = title_payload e' t' u' n' x'" by (rule inj)
    then show ?thesis using assms(10,11) by (simp add: title_payload_def)
  qed
  then show ?thesis
    using join_fields_inject [of "[?v, e, t, u, n]" "[?v, e', t', u', n']" US x x'] assms(1) n(3) n'(3) v by auto
qed

end
