(* ===== verification/Reminders.thy ===== *)
theory Reminders
  imports AuditFeed PyDatetime OperationIds
begin

text \<open>
  \<open>services/housewife_reminders.py\<close>: the reminders of a family and everything that changes them,
  on the table \<open>family_reminders\<close> (\<open>db/models/housewife.py\<close>) as a dictionary from id to row. The
  recurrence library (dateutil's \<open>rrulestr\<close>) and the embedding client are parameters. A commit
  fails when a unique index of the table would be violated. Times are microseconds, UTC.
\<close>

section \<open>The table\<close>

datatype rem_status = RemPending | RemFired | RemCancelled

record reminder =
  rem_tenant :: string
  rem_user :: "string option"
  title :: string
  trigger_at :: int
  recurrence_rule :: "string option"
  rem_status :: rem_status
  source_memo :: "string option"
  next_trigger_at :: "int option"
  last_fired_at :: "int option"
  acknowledged_at :: "int option"
  escalation_count :: int
  embedding :: "string option"
  rem_bot_key :: string
  operation_id :: "string option"
  normalized_title_hash :: "string option"
  rem_created_at :: int
  rem_updated_at :: int

type_synonym reminders = "(string, reminder) dict"

definition ESCALATION_INTERVAL_MINUTES :: int where "ESCALATION_INTERVAL_MINUTES = 2"
definition ESCALATION_MAX_FIRES :: int where "ESCALATION_MAX_FIRES = 1"
definition SNOOZE_DEFAULT_MINUTES :: int where "SNOOZE_DEFAULT_MINUTES = 10"
definition LATE_FIRE_GRACE_MINUTES :: int where "LATE_FIRE_GRACE_MINUTES = 15"

text \<open>
  The unique indexes: one row per operation of a user (\<open>NULL\<close> users and ids are distinct in SQL),
  and one pending row per title hash, where no user counts as one user.
\<close>

definition op_key :: "reminder \<Rightarrow> (string \<times> string \<times> string) option" where
  "op_key r = (case (rem_user r, operation_id r) of (Some u, Some op) \<Rightarrow> Some (rem_tenant r, u, op) | _ \<Rightarrow> None)"

definition TENANT_WIDE :: string where "TENANT_WIDE = ''__tenant_wide__''"

definition semantic_key :: "reminder \<Rightarrow> (string \<times> string \<times> string) option" where
  "semantic_key r =
     (if rem_status r = RemPending
      then map_option (\<lambda>h. (rem_tenant r, case rem_user r of None \<Rightarrow> TENANT_WIDE | Some u \<Rightarrow> u, h)) (normalized_title_hash r)
      else None)"

definition reminders_ok :: "reminders \<Rightarrow> bool" where
  "reminders_ok q \<longleftrightarrow> dict_ok q \<and>
     distinct (List.map_filter op_key (dvals q)) \<and> distinct (List.map_filter semantic_key (dvals q))"

datatype reminder_error = RemValueError string | RemIntegrityError | RemRuntimeError | RemAuditError emit_error

definition commit_reminders :: "reminders \<Rightarrow> reminder_error + reminders" where
  "commit_reminders q = (if reminders_ok q then Inr q else Inl RemIntegrityError)"

section \<open>Recurrence\<close>

text \<open>
  \<open>rrulestr(rule, dtstart)\<close>, \<open>None\<close> when it raises; \<open>.after(t, inc=False)\<close> of the result, \<open>None\<close>
  when it raises and \<open>Some None\<close> when there is no later occurrence.
\<close>

type_synonym rrule_lib = "string \<Rightarrow> int \<Rightarrow> (int \<Rightarrow> int option option) option"

definition compute_next_occurrence_after :: "rrule_lib \<Rightarrow> string \<Rightarrow> int \<Rightarrow> int \<Rightarrow> int option" where
  "compute_next_occurrence_after rr rule dtstart reference =
     (case rr rule dtstart of
        None \<Rightarrow> None
      | Some after \<Rightarrow> (case after reference of None \<Rightarrow> None | Some n \<Rightarrow> n))"

definition no_rule :: "string option \<Rightarrow> bool" where
  "no_rule rule \<longleftrightarrow> rule = None \<or> rule = Some []"

definition initial_next_trigger_at :: "rrule_lib \<Rightarrow> int \<Rightarrow> int \<Rightarrow> string option \<Rightarrow> reminder_error + int" where
  "initial_next_trigger_at rr now trigger rule =
     (if no_rule rule then Inr trigger
      else
        (case rr (the rule) trigger of
           None \<Rightarrow> Inl (RemValueError ''invalid rule'')
         | Some after \<Rightarrow>
             if trigger > now then Inr trigger
             else (case after now of
                 None \<Rightarrow> Inl (RemValueError ''rrule failed'')
               | Some None \<Rightarrow> Inl (RemValueError ''recurrence_rule has no future occurrences'')
               | Some (Some n) \<Rightarrow> Inr n)))"

section \<open>Scheduling\<close>

record sched_request =
  sq_tenant :: string
  sq_user :: "string option"
  sq_title :: string
  sq_trigger :: int
  sq_rule :: "string option"
  sq_memo :: "string option"
  sq_bot :: "string option"

text \<open>The runtime context of the ReAct path.\<close>

record sched_ctx =
  ctx_execution_id :: string
  ctx_step_id :: string
  ctx_tenant :: string
  ctx_audit :: tool_ctx

record sched_env =
  rrules :: rrule_lib
  embed :: "string \<Rightarrow> string option" \<comment> \<open>\<open>None\<close> without a client or when it fails\<close>
  sha1 :: "string \<Rightarrow> string"
  hashes :: hash_env
  sched_digest :: "vdict \<Rightarrow> string"
  sched_audit_race :: bool
  sched_now :: int
  new_id :: string

record rem_db =
  reminders :: reminders
  rem_audit :: audit_db

definition LEGACY_BOT :: string where "LEGACY_BOT = ''sreda''"

definition new_reminder :: "sched_env \<Rightarrow> sched_request \<Rightarrow> int \<Rightarrow> string option \<Rightarrow> string option \<Rightarrow> reminder" where
  "new_reminder env rq next op nhash =
     \<lparr>rem_tenant = sq_tenant rq, rem_user = sq_user rq, title = strip (sq_title rq), trigger_at = sq_trigger rq,
      recurrence_rule = sq_rule rq, rem_status = RemPending, source_memo = sq_memo rq, next_trigger_at = Some next,
      last_fired_at = None, acknowledged_at = None, escalation_count = 0, embedding = embed env (strip (sq_title rq)),
      rem_bot_key = (case sq_bot rq of None \<Rightarrow> LEGACY_BOT | Some b \<Rightarrow> b), operation_id = op, normalized_title_hash = nhash,
      rem_created_at = sched_now env, rem_updated_at = sched_now env\<rparr>"

text \<open>The keys of the ReAct path: the title with its time, and the rule.\<close>

definition rule_text :: "string option \<Rightarrow> string" where
  "rule_text rule = (case rule of None \<Rightarrow> [] | Some r \<Rightarrow> r)"

definition sched_op_id :: "sched_env \<Rightarrow> sched_ctx \<Rightarrow> sched_request \<Rightarrow> string" where
  "sched_op_id env ctx rq =
     compute_operation_id_create (sha1 env) (ctx_execution_id ctx) (ctx_step_id ctx) ''create'' ''family_reminder''
       (join_with [US] [normalize_for_dedup (text_env.truncate (hashes env)) (strip (sq_title rq)),
          isoformat (sq_trigger rq), rule_text (sq_rule rq)])"

definition sched_hash :: "sched_env \<Rightarrow> sched_request \<Rightarrow> string \<Rightarrow> string option" where
  "sched_hash env rq user =
     (case compute_normalized_title_hash (hashes env) (strip (sq_title rq)) ''family_reminder'' (sq_tenant rq) user
         (join_with [US] [isoformat (sq_trigger rq), rule_text (sq_rule rq)]) of
        [] \<Rightarrow> None
      | h \<Rightarrow> Some h)"

text \<open>\<open>find_existing_pending_semantic\<close> of \<open>services/idempotent_ops.py\<close>: the oldest row.\<close>

definition find_existing_pending_semantic ::
    "reminders \<Rightarrow> string \<Rightarrow> string option \<Rightarrow> string \<Rightarrow> (string \<times> reminder) option" where
  "find_existing_pending_semantic q tenant user nhash =
     (let wanted = (case user of None \<Rightarrow> TENANT_WIDE | Some u \<Rightarrow> if u = [] then TENANT_WIDE else u) in
      case sort_key (\<lambda>(k, r). rem_created_at r)
        (filter (\<lambda>(k, r). semantic_key r = Some (tenant, wanted, nhash)) q) of
        [] \<Rightarrow> None
      | x # _ \<Rightarrow> Some x)"

definition find_op_row :: "reminders \<Rightarrow> string \<Rightarrow> string \<Rightarrow> string \<Rightarrow> (string \<times> reminder) option" where
  "find_op_row q tenant user op = find (\<lambda>(k, r). op_key r = Some (tenant, user, op)) q"

text \<open>\<open>INSERT ... ON CONFLICT (tenant, user, operation_id) DO NOTHING\<close>.\<close>

definition insert_reminder :: "reminders \<Rightarrow> string \<Rightarrow> reminder \<Rightarrow> reminder_error + reminders" where
  "insert_reminder q i r =
     (if op_key r \<noteq> None \<and> list_ex (\<lambda>x. op_key x = op_key r) (dvals q) then Inr q
      else if i \<in> set (dkeys q) then Inl RemIntegrityError
      else commit_reminders (dput q i r))"

definition audit_created :: "sched_env \<Rightarrow> sched_request \<Rightarrow> string \<Rightarrow> string \<Rightarrow> string \<Rightarrow> audit_event" where
  "audit_created env rq user op i =
     \<lparr>row_id = 0, ev_operation_id = op, ev_tenant = sq_tenant rq, ev_user = Some user, ev_source = SREDA,
      entity_type = ''family_reminder'', entity_id = Some i, ev_action = ''created'', payload = None,
      payload_hash = None, caused_by = None, occurred_at = sched_now env\<rparr>"

text \<open>
  The ReAct path. \<open>racer\<close> is a row another transaction commits between the lookup and the insert.
  Without \<open>commit\<close> the caller owns the transaction: no recovery from a race and no audit here.
\<close>

definition schedule_ctx ::
    "sched_env \<Rightarrow> sched_ctx \<Rightarrow> (string \<times> reminder) option \<Rightarrow> bool \<Rightarrow> sched_request \<Rightarrow> int \<Rightarrow> rem_db \<Rightarrow>
     reminder_error + (rem_db \<times> string)" where
  "schedule_ctx env ctx racer commit rq next db =
     (case sq_user rq of
        None \<Rightarrow> Inl (RemValueError ''user_id'')
      | Some user \<Rightarrow>
          if user = [] then Inl (RemValueError ''user_id'')
          else if ctx_tenant ctx \<noteq> [] \<and> ctx_tenant ctx \<noteq> sq_tenant rq then Inl (RemValueError ''tenant'')
          else
            (let op = sched_op_id env ctx rq; nhash = sched_hash env rq user;
                 existing = (\<lambda>q. case nhash of None \<Rightarrow> None
                   | Some h \<Rightarrow> find_existing_pending_semantic q (sq_tenant rq) (Some user) h) in
             case existing (reminders db) of
               Some (i, r) \<Rightarrow> Inr (db, i)
             | None \<Rightarrow>
                 (let q0 = (case racer of None \<Rightarrow> reminders db | Some (i, r) \<Rightarrow> dput (reminders db) i r) in
                  case insert_reminder q0 (new_id env) (new_reminder env rq next (Some op) nhash) of
                    Inl e \<Rightarrow>
                      (if commit
                       then (case existing q0 of Some (i, r) \<Rightarrow> Inr (db\<lparr>reminders := q0\<rparr>, i) | None \<Rightarrow> Inl e)
                       else Inl e)
                  | Inr q1 \<Rightarrow>
                      (case find_op_row q1 (sq_tenant rq) user op of
                         None \<Rightarrow> Inl RemRuntimeError
                       | Some (i, r) \<Rightarrow>
                           if commit
                           then (case emit_tool_audit (sched_digest env) (sched_audit_race env) (Some (ctx_audit ctx)) (rem_audit db)
                                   (audit_created env rq user op i) (sched_now env) of
                                   Inl e \<Rightarrow> Inl (RemAuditError e)
                                 | Inr a \<Rightarrow> Inr (\<lparr>reminders = q1, rem_audit = a\<rparr>, i))
                           else Inr (db\<lparr>reminders := q1\<rparr>, i)))))"

definition schedule ::
    "sched_env \<Rightarrow> sched_ctx option \<Rightarrow> (string \<times> reminder) option \<Rightarrow> bool \<Rightarrow> sched_request \<Rightarrow> rem_db \<Rightarrow>
     reminder_error + (rem_db \<times> string)" where
  "schedule env ctx racer commit rq db =
     (if \<not> no_rule (sq_rule rq) \<and> rrules env (the (sq_rule rq)) (sq_trigger rq) = None
      then Inl (RemValueError ''invalid recurrence_rule'')
      else
        bind_res (initial_next_trigger_at (rrules env) (sched_now env) (sq_trigger rq) (sq_rule rq)) (\<lambda>next.
          case ctx of
            None \<Rightarrow>
              if new_id env \<in> set (dkeys (reminders db)) then Inl RemIntegrityError
              else bind_res (commit_reminders (dput (reminders db) (new_id env) (new_reminder env rq next None None)))
                (\<lambda>q. Inr (db\<lparr>reminders := q\<rparr>, new_id env))
          | Some c \<Rightarrow> schedule_ctx env c racer commit rq next db))"

section \<open>The other operations of the service\<close>

record upd_request =
  up_title :: "string option"
  up_trigger :: "int option"
  up_rule :: "string option"
  up_clear :: bool

text \<open>The rule after the update, validated against the start it will have.\<close>

definition updated_rule :: "rrule_lib \<Rightarrow> upd_request \<Rightarrow> reminder \<Rightarrow> reminder_error + string option" where
  "updated_rule rr up r =
     (if up_clear up then Inr None
      else
        (case up_rule up of
           None \<Rightarrow> Inr (recurrence_rule r)
         | Some rule \<Rightarrow>
             (case rr rule (case up_trigger up of None \<Rightarrow> trigger_at r | Some t \<Rightarrow> t) of
                None \<Rightarrow> Inl (RemValueError ''invalid recurrence_rule'')
              | Some _ \<Rightarrow> Inr (Some rule))))"

definition updated_next :: "rrule_lib \<Rightarrow> int \<Rightarrow> upd_request \<Rightarrow> string option \<Rightarrow> reminder \<Rightarrow> reminder_error + int option" where
  "updated_next rr t_now up rule r =
     (case up_trigger up of
        Some t \<Rightarrow> bind_res (initial_next_trigger_at rr t_now t rule) (\<lambda>n. Inr (Some n))
      | None \<Rightarrow>
          if up_rule up \<noteq> None
          then bind_res (initial_next_trigger_at rr t_now (trigger_at r) rule) (\<lambda>n. Inr (Some n))
          else Inr None)"

definition retitle :: "(string \<Rightarrow> string option) \<Rightarrow> string option \<Rightarrow> reminder \<Rightarrow> reminder" where
  "retitle emb t r =
     (case t of
        None \<Rightarrow> r
      | Some x \<Rightarrow> if strip x \<noteq> [] \<and> strip x \<noteq> title r then r\<lparr>title := strip x, embedding := emb (strip x)\<rparr> else r)"

definition retime :: "int option \<Rightarrow> int option \<Rightarrow> reminder \<Rightarrow> reminder" where
  "retime trigger next r =
     (case (trigger, next) of
        (Some t, n) \<Rightarrow> r\<lparr>trigger_at := t, next_trigger_at := n, escalation_count := 0\<rparr>
      | (None, Some n) \<Rightarrow> r\<lparr>next_trigger_at := Some n, escalation_count := 0\<rparr>
      | (None, None) \<Rightarrow> r)"

text \<open>The result says whether a row was updated.\<close>

definition update_reminder ::
    "sched_env \<Rightarrow> string \<Rightarrow> string \<Rightarrow> upd_request \<Rightarrow> reminders \<Rightarrow> reminder_error + (reminders \<times> bool)" where
  "update_reminder env tenant i up q =
     (case dget q i of
        None \<Rightarrow> Inr (q, False)
      | Some r \<Rightarrow>
          if rem_tenant r \<noteq> tenant \<or> rem_status r \<noteq> RemPending then Inr (q, False)
          else if (case up_title up of None \<Rightarrow> False | Some t \<Rightarrow> strip t = []) then Inl (RemValueError ''title must not be blank'')
          else
            bind_res (updated_rule (rrules env) up r) (\<lambda>rule.
              bind_res (updated_next (rrules env) (sched_now env) up rule r) (\<lambda>next.
                (let r1 = retime (up_trigger up) next (retitle (embed env) (up_title up) r);
                     r2 = (if up_clear up \<or> up_rule up \<noteq> None then r1\<lparr>recurrence_rule := rule\<rparr> else r1)
                 in bind_res (commit_reminders (dput q i (r2\<lparr>rem_updated_at := sched_now env\<rparr>)))
                      (\<lambda>q'. Inr (q', True))))))"

text \<open>Active reminders of a tenant, by next trigger, those without one last.\<close>

definition is_active :: "string \<Rightarrow> string option \<Rightarrow> reminder \<Rightarrow> bool" where
  "is_active tenant user r \<longleftrightarrow> rem_tenant r = tenant \<and> rem_status r = RemPending \<and>
     (case user of None \<Rightarrow> True | Some u \<Rightarrow> u = [] \<or> rem_user r = Some u)"

definition list_active :: "reminders \<Rightarrow> string \<Rightarrow> string option \<Rightarrow> (string \<times> reminder) list" where
  "list_active q tenant user =
     (let xs = filter (\<lambda>(k, r). is_active tenant user r) q in
      sort_key (\<lambda>(k, r). the (next_trigger_at r)) (filter (\<lambda>(k, r). next_trigger_at r \<noteq> None) xs) @
      filter (\<lambda>(k, r). next_trigger_at r = None) xs)"

definition count_active :: "reminders \<Rightarrow> string \<Rightarrow> string option \<Rightarrow> nat" where
  "count_active q tenant user = length (filter (\<lambda>(k, r). is_active tenant user r) q)"

definition cancel_reminder :: "int \<Rightarrow> string \<Rightarrow> string \<Rightarrow> reminders \<Rightarrow> reminder_error + (reminders \<times> bool)" where
  "cancel_reminder t_now tenant i q =
     (case dget q i of
        None \<Rightarrow> Inr (q, False)
      | Some r \<Rightarrow>
          if rem_tenant r \<noteq> tenant \<or> rem_status r = RemCancelled then Inr (q, False)
          else bind_res (commit_reminders
                 (dput q i (r\<lparr>rem_status := RemCancelled, next_trigger_at := None, rem_updated_at := t_now\<rparr>)))
               (\<lambda>q'. Inr (q', True)))"

definition rem_due :: "(string \<Rightarrow> bool) \<Rightarrow> int \<Rightarrow> reminder \<Rightarrow> bool" where
  "rem_due active t_now r \<longleftrightarrow> rem_status r = RemPending \<and>
     (case next_trigger_at r of None \<Rightarrow> False | Some t \<Rightarrow> t \<le> t_now) \<and> active (rem_tenant r)"

definition due_now :: "(string \<Rightarrow> bool) \<Rightarrow> int \<Rightarrow> nat \<Rightarrow> reminders \<Rightarrow> (string \<times> reminder) list" where
  "due_now active t_now limit q =
     take limit (sort_key (\<lambda>(k, r). the (next_trigger_at r)) (filter (\<lambda>(k, r). rem_due active t_now r) q))"

text \<open>The end of a firing: the next occurrence, or the end of the reminder.\<close>

definition close_firing :: "rrule_lib \<Rightarrow> int \<Rightarrow> reminder \<Rightarrow> reminder" where
  "close_firing rr t_now r =
     (if no_rule (recurrence_rule r) then r\<lparr>rem_status := RemFired, next_trigger_at := None\<rparr>
      else
        (case compute_next_occurrence_after rr (the (recurrence_rule r)) (trigger_at r) t_now of
           None \<Rightarrow> r\<lparr>rem_status := RemFired, next_trigger_at := None\<rparr>
         | Some n \<Rightarrow> r\<lparr>next_trigger_at := Some n\<rparr>))"

definition mark_fired :: "rrule_lib \<Rightarrow> int \<Rightarrow> reminder \<Rightarrow> reminder" where
  "mark_fired rr t_now r =
     (let r1 = r\<lparr>last_fired_at := Some t_now, rem_updated_at := t_now, escalation_count := escalation_count r + 1\<rparr> in
      if escalation_count r1 < ESCALATION_MAX_FIRES
      then r1\<lparr>next_trigger_at := Some (t_now + ESCALATION_INTERVAL_MINUTES * ONE_MINUTE)\<rparr>
      else close_firing rr t_now (r1\<lparr>escalation_count := 0\<rparr>))"

definition acknowledge :: "rrule_lib \<Rightarrow> int \<Rightarrow> reminder \<Rightarrow> reminder" where
  "acknowledge rr t_now r =
     close_firing rr t_now (r\<lparr>acknowledged_at := Some t_now, rem_updated_at := t_now, escalation_count := 0\<rparr>)"

definition snooze :: "int \<Rightarrow> int \<Rightarrow> reminder \<Rightarrow> reminder" where
  "snooze minutes t_now r =
     r\<lparr>next_trigger_at := Some (t_now + max 1 (if minutes = 0 then 1 else minutes) * ONE_MINUTE),
       escalation_count := 0, acknowledged_at := None, rem_status := RemPending, rem_updated_at := t_now\<rparr>"

section \<open>The buttons below a reminder\<close>

text \<open>
  \<open>_handle_reminder_callback\<close> of \<open>services/telegram_bot.py\<close> and \<open>_handle_max_reminder_callback\<close> of
  \<open>services/max_inbound.py\<close>: the change of the row, and what the user is told. \<open>locked\<close>: the row
  lock was not granted in time.
\<close>

datatype callback_answer = CbBusy | CbDone | CbAccepted | CbSnoozed | CbForeign

definition press_button :: "rrule_lib \<Rightarrow> int \<Rightarrow> string \<Rightarrow> reminder \<Rightarrow> reminder \<times> callback_answer" where
  "press_button rr t_now act r =
     (if act = ''rem_done'' then (acknowledge rr t_now r, CbAccepted)
      else (snooze SNOOZE_DEFAULT_MINUTES t_now r, CbSnoozed))"

definition handle_reminder_callback ::
    "rrule_lib \<Rightarrow> int \<Rightarrow> bool \<Rightarrow> string \<Rightarrow> string \<Rightarrow> reminders \<Rightarrow> reminder_error + (reminders \<times> callback_answer)" where
  "handle_reminder_callback rr t_now locked act i q =
     (if i \<noteq> [] \<and> locked then Inr (q, CbBusy)
      else
        (case (if i = [] then None else dget q i) of
           None \<Rightarrow> Inr (q, CbDone)
         | Some r \<Rightarrow>
             (case press_button rr t_now act r of
                (r', ans) \<Rightarrow> bind_res (commit_reminders (dput q i r')) (\<lambda>q'. Inr (q', ans)))))"

definition handle_max_reminder_callback ::
    "rrule_lib \<Rightarrow> int \<Rightarrow> bool \<Rightarrow> string \<Rightarrow> string \<Rightarrow> string \<Rightarrow> reminders \<Rightarrow> reminder_error + (reminders \<times> callback_answer)" where
  "handle_max_reminder_callback rr t_now locked tenant act i q =
     (if i \<noteq> [] \<and> locked then Inr (q, CbBusy)
      else
        (case (if i = [] then None else dget q i) of
           None \<Rightarrow> Inr (q, CbDone)
         | Some r \<Rightarrow>
             if rem_tenant r \<noteq> tenant then Inr (q, CbForeign)
             else (case press_button rr t_now act r of
                (r', ans) \<Rightarrow> bind_res (commit_reminders (dput q i r')) (\<lambda>q'. Inr (q', ans)))))"

section \<open>The table over time\<close>

definition armed :: "reminder \<Rightarrow> bool" where
  "armed r \<longleftrightarrow> (rem_status r = RemPending \<longrightarrow> next_trigger_at r \<noteq> None)"

definition rem_inv :: "reminders \<Rightarrow> bool" where
  "rem_inv q \<longleftrightarrow> reminders_ok q \<and> (\<forall>i r. dget q i = Some r \<longrightarrow> armed r)"

text \<open>A row another transaction may commit meanwhile.\<close>

definition legal_racer :: "reminders \<Rightarrow> (string \<times> reminder) option \<Rightarrow> bool" where
  "legal_racer q x \<longleftrightarrow>
     (case x of None \<Rightarrow> True | Some (i, r) \<Rightarrow> i \<notin> set (dkeys q) \<and> armed r \<and> reminders_ok (dput q i r))"

inductive rem_step :: "reminders \<Rightarrow> reminders \<Rightarrow> bool" where
  rs_schedule: "legal_racer (reminders db) racer \<Longrightarrow> schedule env ctx racer commit rq db = Inr (db', i) \<Longrightarrow>
     rem_step (reminders db) (reminders db')"
| rs_update: "update_reminder env tenant i up q = Inr (q', b) \<Longrightarrow> rem_step q q'"
| rs_cancel: "cancel_reminder t_now tenant i q = Inr (q', b) \<Longrightarrow> rem_step q q'"
| rs_fire: "dget q i = Some r \<Longrightarrow> commit_reminders (dput q i (mark_fired rr t_now r)) = Inr q' \<Longrightarrow> rem_step q q'"
| rs_telegram: "handle_reminder_callback rr t_now locked act i q = Inr (q', ans) \<Longrightarrow> rem_step q q'"
| rs_max: "handle_max_reminder_callback rr t_now locked tenant act i q = Inr (q', ans) \<Longrightarrow> rem_step q q'"

lemma commit_inv:
  "rem_inv q \<Longrightarrow> armed r \<Longrightarrow> commit_reminders (dput q i r) = Inr q' \<Longrightarrow> rem_inv q'"
  by (auto simp: rem_inv_def commit_reminders_def split: if_splits)

lemma insert_inv:
  "rem_inv q \<Longrightarrow> armed r \<Longrightarrow> insert_reminder q i r = Inr q' \<Longrightarrow> rem_inv q'"
  by (auto simp: insert_reminder_def split: if_splits intro: commit_inv)

lemma racer_inv: "rem_inv q \<Longrightarrow> legal_racer q (Some (i, r)) \<Longrightarrow> rem_inv (dput q i r)"
  by (auto simp: rem_inv_def legal_racer_def)

lemma armed_simps:
  "armed (new_reminder env rq next op h)" "armed (snooze m t r)" "armed r \<Longrightarrow> armed (mark_fired rr t r)"
  "armed r \<Longrightarrow> armed (acknowledge rr t r)" "armed (r\<lparr>rem_status := RemCancelled, next_trigger_at := n, rem_updated_at := u\<rparr>)"
  "armed r \<Longrightarrow> armed (retitle emb x r)"
  by (auto simp: armed_def new_reminder_def snooze_def mark_fired_def acknowledge_def close_firing_def retitle_def Let_def
      split: option.splits)

lemma schedule_ctx_inv:
  assumes "rem_inv (reminders db)" "legal_racer (reminders db) racer"
    and "schedule_ctx env c racer commit rq next db = Inr (db', i)"
  shows "rem_inv (reminders db')"
proof -
  let ?q0 = "case racer of None \<Rightarrow> reminders db | Some (i, r) \<Rightarrow> dput (reminders db) i r"
  have "rem_inv ?q0" using assms(1,2) racer_inv by (auto split: option.splits)
  then have "rem_inv q1" if "insert_reminder ?q0 (new_id env) (new_reminder env rq next op h) = Inr q1" for q1 op h
    using that armed_simps(1) insert_inv by blast
  with assms(1,3) \<open>rem_inv ?q0\<close> show ?thesis
    by (auto simp: schedule_ctx_def Let_def split: option.splits if_splits sum.splits prod.splits)
qed

lemma schedule_inv:
  assumes "rem_inv (reminders db)" "legal_racer (reminders db) racer" "schedule env ctx racer commit rq db = Inr (db', i)"
  shows "rem_inv (reminders db')"
proof (cases ctx)
  case None
  then obtain nxt q where "db' = db\<lparr>reminders := q\<rparr>"
    "commit_reminders (dput (reminders db) (new_id env) (new_reminder env rq nxt None None)) = Inr q"
    using assms(3) by (auto simp: schedule_def bind_res_eq_Inr split: if_splits)
  then show ?thesis using commit_inv [OF assms(1) armed_simps(1)] by auto
next
  case (Some c)
  then obtain nxt where "schedule_ctx env c racer commit rq nxt db = Inr (db', i)"
    using assms(3) by (auto simp: schedule_def bind_res_eq_Inr split: if_splits)
  then show ?thesis using schedule_ctx_inv assms(1,2) by blast
qed

lemma update_inv:
  assumes "rem_inv q" "update_reminder env tenant i up q = Inr (q', b)" shows "rem_inv q'"
proof (cases "dget q i")
  case (Some r)
  show ?thesis
  proof (cases b)
    case True
    then obtain rule nxt r2 where n: "updated_next (rrules env) (sched_now env) up rule r = Inr nxt"
      and r2: "r2 = (if up_clear up \<or> up_rule up \<noteq> None
          then (retime (up_trigger up) nxt (retitle (embed env) (up_title up) r))\<lparr>recurrence_rule := rule\<rparr>
          else retime (up_trigger up) nxt (retitle (embed env) (up_title up) r))"
      and c: "commit_reminders (dput q i (r2\<lparr>rem_updated_at := sched_now env\<rparr>)) = Inr q'"
      using assms(2) Some by (auto simp: update_reminder_def bind_res_eq_Inr Let_def split: if_splits)
    have "armed (retitle (embed env) (up_title up) r)" using assms(1) Some armed_simps(6) by (simp add: rem_inv_def)
    moreover have "up_trigger up \<noteq> None \<Longrightarrow> nxt \<noteq> None"
      using n by (auto simp: updated_next_def bind_res_eq_Inr split: option.splits)
    ultimately have "armed (r2\<lparr>rem_updated_at := sched_now env\<rparr>)"
      by (auto simp: r2 armed_def retime_def split: option.splits)
    then show ?thesis using commit_inv [OF assms(1) _ c] by blast
  next
    case False
    then show ?thesis using assms Some
      by (auto simp: update_reminder_def bind_res_eq_Inr Let_def split: if_splits)
  qed
qed (use assms in \<open>simp add: update_reminder_def\<close>)

lemma press_armed: "armed r \<Longrightarrow> press_button rr t act r = (r', ans) \<Longrightarrow> armed r'"
  by (auto simp: press_button_def armed_simps split: if_splits)

lemma press_inv:
  "rem_inv q \<Longrightarrow> dget q i = Some r \<Longrightarrow> press_button rr t act r = (r', ans) \<Longrightarrow> commit_reminders (dput q i r') = Inr q' \<Longrightarrow>
     rem_inv q'"
  using commit_inv press_armed unfolding rem_inv_def by blast

lemma rem_inv_step:
  assumes inv: "rem_inv q" and "rem_step q q'" shows "rem_inv q'"
  using assms(2)
proof cases
  case (rs_schedule db racer env ctx commit rq db' i)
  then show ?thesis using schedule_inv inv by blast
next
  case (rs_update env tenant i up b)
  then show ?thesis using update_inv inv by blast
next
  case (rs_cancel t_now tenant i b)
  then show ?thesis using inv commit_inv [OF inv armed_simps(5)]
    by (auto simp: cancel_reminder_def bind_res_eq_Inr split: option.splits if_splits)
next
  case (rs_fire i r rr t_now)
  then have "armed r" using inv by (simp add: rem_inv_def)
  then show ?thesis using commit_inv [OF inv armed_simps(3) rs_fire(2)] by simp
next
  case (rs_telegram rr t_now locked act i ans)
  then show ?thesis using inv
    by (auto simp: handle_reminder_callback_def bind_res_eq_Inr split: if_splits option.splits prod.splits intro: press_inv)
next
  case (rs_max rr t_now locked tenant act i ans)
  then show ?thesis using inv
    by (auto simp: handle_max_reminder_callback_def bind_res_eq_Inr split: if_splits option.splits prod.splits intro: press_inv)
qed

definition no_reminders :: "reminders \<Rightarrow> bool" where "no_reminders q \<longleftrightarrow> q = []"

lemma rem_inv_init: "no_reminders q \<Longrightarrow> rem_inv q"
  by (simp add: no_reminders_def rem_inv_def reminders_ok_def map_filter_def)

interpretation rem: invariant_system no_reminders rem_step rem_inv
  by unfold_locales (fact rem_inv_init, fact rem_inv_step)

section \<open>Unique keys\<close>

lemma unique_key:
  "distinct (List.map_filter f (dvals q)) \<Longrightarrow> (i, r) \<in> set q \<Longrightarrow> (j, s) \<in> set q \<Longrightarrow> f r = Some k \<Longrightarrow> f s = Some k \<Longrightarrow>
     (i, r) = (j, s)"
proof (induction q)
  case (Cons x q)
  have mem: "(a, b) \<in> set q \<Longrightarrow> f b = Some k \<Longrightarrow> k \<in> set (List.map_filter f (dvals q))" for a b
    by (force simp: map_filter_def)
  from Cons show ?case
    by (auto simp: map_filter_simps split: option.splits dest: mem)
qed simp

lemma find_semantic_None:
  "find_existing_pending_semantic q tenant (Some u) h = None \<Longrightarrow> u \<noteq> [] \<Longrightarrow> (i, r) \<in> set q \<Longrightarrow>
     semantic_key r \<noteq> Some (tenant, u, h)"
proof -
  assume n: "find_existing_pending_semantic q tenant (Some u) h = None" "u \<noteq> []" "(i, r) \<in> set q"
  then have "sort_key (\<lambda>(k, r). rem_created_at r) (filter (\<lambda>(k, r). semantic_key r = Some (tenant, u, h)) q) = []"
    by (auto simp: find_existing_pending_semantic_def split: list.splits)
  then have "filter (\<lambda>(k, r). semantic_key r = Some (tenant, u, h)) q = []" by (metis set_sort set_empty)
  then show ?thesis using n(3) by (auto simp: filter_empty_conv)
qed

lemma find_semantic_Some:
  assumes "find_existing_pending_semantic q tenant (Some u) h = Some (i, r)" "u \<noteq> []"
  shows "(i, r) \<in> set q" "semantic_key r = Some (tenant, u, h)"
proof -
  obtain xs where "sort_key (\<lambda>(k, r). rem_created_at r) (filter (\<lambda>(k, r). semantic_key r = Some (tenant, u, h)) q) = (i, r) # xs"
    using assms by (auto simp: find_existing_pending_semantic_def split: list.splits)
  then have "(i, r) \<in> set (filter (\<lambda>(k, r). semantic_key r = Some (tenant, u, h)) q)"
    by (metis list.set_intros(1) set_sort)
  then show "(i, r) \<in> set q" "semantic_key r = Some (tenant, u, h)" by auto
qed

lemma find_semantic_unique:
  assumes "reminders_ok q" "(i, r) \<in> set q" "semantic_key r = Some (tenant, u, h)" "u \<noteq> []"
  shows "find_existing_pending_semantic q tenant (Some u) h = Some (i, r)"
proof (cases "find_existing_pending_semantic q tenant (Some u) h")
  case None
  then show ?thesis using find_semantic_None [OF None assms(4) assms(2)] assms(3) by blast
next
  case (Some x)
  obtain j s where x: "x = (j, s)" by (cases x)
  have "(j, s) = (i, r)"
    using unique_key [of semantic_key q j s i r "(tenant, u, h)"] find_semantic_Some [OF Some [unfolded x] assms(4)] assms(1-3)
    by (simp add: reminders_ok_def)
  then show ?thesis using Some x by simp
qed

lemma find_op_unique:
  assumes "reminders_ok q" "(i, r) \<in> set q" "op_key r = Some (tenant, u, op)"
  shows "find_op_row q tenant u op = Some (i, r)"
proof (cases "find_op_row q tenant u op")
  case None
  then show ?thesis using assms(2,3) by (auto simp: find_op_row_def find_None_iff)
next
  case (Some x)
  obtain j s where x: "x = (j, s)" by (cases x)
  then have "(j, s) \<in> set q" "op_key s = Some (tenant, u, op)"
    using Some nth_mem by (fastforce simp: find_op_row_def find_Some_iff)+
  then have "(j, s) = (i, r)"
    using unique_key [of op_key q j s i r "(tenant, u, op)"] assms by (simp add: reminders_ok_def)
  then show ?thesis using Some x by simp
qed

lemma dput_fresh: "k \<notin> set (dkeys q) \<Longrightarrow> dput q k v = q @ [(k, v)]"
  by (induction q) auto

lemma insert_cases:
  assumes "insert_reminder q i r = Inr q'"
  obtains (known) j s where "q' = q" "(j, s) \<in> set q" "op_key s = op_key r" "op_key r \<noteq> None"
  | (new) "i \<notin> set (dkeys q)" "q' = q @ [(i, r)]" "reminders_ok q'"
proof (cases "op_key r \<noteq> None \<and> list_ex (\<lambda>x. op_key x = op_key r) (dvals q)")
  case True
  then show thesis using assms known by (auto simp: insert_reminder_def list_ex_iff)
next
  case False
  then have "i \<notin> set (dkeys q)" "commit_reminders (dput q i r) = Inr q'"
    using assms by (auto simp: insert_reminder_def split: if_splits)
  then show thesis using new by (auto simp: commit_reminders_def dput_fresh split: if_splits)
qed

section \<open>Samples\<close>

definition sample_hash_env :: hash_env where
  "sample_hash_env = \<lparr>nfc = \<lambda>s. s, lower = \<lambda>s. s, fold_yo = \<lambda>s. s, lemmatize_word = \<lambda>s. s,
     sha256 = \<lambda>s. s, hmac_sha256 = \<lambda>k s. s, encryption_key = []\<rparr>"

text \<open>A library with one rule, every minute after the start.\<close>

definition minutely :: rrule_lib where
  "minutely rule dtstart = (if rule = ''FREQ=MINUTELY'' then Some (\<lambda>t. Some (Some (max dtstart (t + ONE_MINUTE)))) else None)"

definition sample_sched_env :: "string \<Rightarrow> int \<Rightarrow> sched_env" where
  "sample_sched_env i t = \<lparr>rrules = minutely, embed = \<lambda>_. None, sha1 = \<lambda>s. s, hashes = sample_hash_env,
     sched_digest = \<lambda>_. [], sched_audit_race = False, sched_now = t, new_id = i\<rparr>"

definition sample_ctx :: "string \<Rightarrow> sched_ctx" where
  "sample_ctx turn = \<lparr>ctx_execution_id = turn, ctx_step_id = ''s1'', ctx_tenant = ''t1'',
     ctx_audit = \<lparr>ctx_origin = None, ctx_turn_key = None, ctx_thread_id = None, ctx_channel = None, ctx_tool_name = ''r''\<rparr>\<rparr>"

definition sample_rem_request :: "string option \<Rightarrow> sched_request" where
  "sample_rem_request rule = \<lparr>sq_tenant = ''t1'', sq_user = Some ''u1'', sq_title = ''milk'', sq_trigger = 50, sq_rule = rule,
     sq_memo = None, sq_bot = None\<rparr>"

definition empty_db :: rem_db where
  "empty_db = \<lparr>reminders = [], rem_audit = \<lparr>outbox = [], feed = [], next_outbox_id = 0, next_feed_id = 0\<rparr>\<rparr>"

text \<open>A reminder of the plain path at 50, and one of the ReAct path.\<close>

definition milk_reminder :: reminder where
  "milk_reminder = new_reminder (sample_sched_env ''r1'' 7) (sample_rem_request None) 50 None None"

definition milk_db :: rem_db where
  "milk_db = empty_db\<lparr>reminders := [(''r1'', milk_reminder)]\<rparr>"

lemma milk_scheduled:
  "schedule (sample_sched_env ''r1'' 7) None None True (sample_rem_request None) empty_db = Inr (milk_db, ''r1'')"
  by code_simp

definition scheduled_db :: rem_db where
  "scheduled_db = (case schedule (sample_sched_env ''r1'' 7) (Some (sample_ctx ''e1'')) None True (sample_rem_request None) empty_db of
     Inr (db, _) \<Rightarrow> db | Inl _ \<Rightarrow> empty_db)"

section \<open>Properties\<close>



definition later_law :: "rrule_lib \<Rightarrow> bool" where
  "later_law rr \<longleftrightarrow> (\<forall>rule d f t n. rr rule d = Some f \<longrightarrow> f t = Some (Some n) \<longrightarrow> t < n)"

lemma mark_fired_ends:
  assumes "later_law rr" "0 \<le> escalation_count r" "rem_status r = RemPending" "s \<le> t"
  shows "\<not> rem_due active s (mark_fired rr t r) \<and>
    (if no_rule (recurrence_rule r) \<or>
        compute_next_occurrence_after rr (the (recurrence_rule r)) (trigger_at r) t = None
     then rem_status (mark_fired rr t r) = RemFired \<and> next_trigger_at (mark_fired rr t r) = None
     else rem_status (mark_fired rr t r) = RemPending \<and>
       (\<exists>n>t. next_trigger_at (mark_fired rr t r) = Some n))"
proof -
  have later: "t < n" if "compute_next_occurrence_after rr rule d t = Some n" for rule d n
    using that assms(1) by (auto simp: compute_next_occurrence_after_def later_law_def split: option.splits)
  note defs = mark_fired_def Let_def ESCALATION_MAX_FIRES_def close_firing_def rem_due_def
  show ?thesis
  proof (cases "compute_next_occurrence_after rr (the (recurrence_rule r)) (trigger_at r) t")
    case None
    then show ?thesis using assms(2,3) by (auto simp: defs)
  next
    case (Some n)
    then have "t < n" by (rule later)
    then show ?thesis using Some assms(2-4) by (auto simp: defs)
  qed
qed

text \<open>
  a firing ends. After \<open>mark_fired\<close> (single-fire mode) a pending reminder is not due any more at
  the time of the firing or before: it has ended exactly if it has no rule or the rule no later
  occurrence, and otherwise waits, pending, for an occurrence strictly in the future.
\<close>

theorem firing_moves_on:
  assumes "later_law rr" "0 \<le> escalation_count r" "rem_status r = RemPending" "s \<le> t"
  shows "\<not> rem_due active s (mark_fired rr t r) \<and>
    (if no_rule (recurrence_rule r) \<or>
        compute_next_occurrence_after rr (the (recurrence_rule r)) (trigger_at r) t = None
     then rem_status (mark_fired rr t r) = RemFired \<and> next_trigger_at (mark_fired rr t r) = None
     else rem_status (mark_fired rr t r) = RemPending \<and>
       (\<exists>n>t. next_trigger_at (mark_fired rr t r) = Some n))"
  using assms by (rule mark_fired_ends)

theorem firing_moves_on_witness:
  "\<not> rem_due (\<lambda>_. True) 60 (mark_fired minutely 60 milk_reminder) \<and>
    (if no_rule (recurrence_rule milk_reminder) \<or>
        compute_next_occurrence_after minutely (the (recurrence_rule milk_reminder))
          (trigger_at milk_reminder) 60 = None
     then rem_status (mark_fired minutely 60 milk_reminder) = RemFired \<and>
       next_trigger_at (mark_fired minutely 60 milk_reminder) = None
     else rem_status (mark_fired minutely 60 milk_reminder) = RemPending \<and>
       (\<exists>n>60. next_trigger_at (mark_fired minutely 60 milk_reminder) = Some n))"
proof (rule firing_moves_on)
  show "later_law minutely" by (auto simp: later_law_def minutely_def ONE_MINUTE_def SEC_def split: if_splits)
  show "0 \<le> escalation_count milk_reminder" "rem_status milk_reminder = RemPending"
    by code_simp+
qed simp

lemma schedule_ctx_of:
  assumes "schedule env (Some c) racer commit rq db = Inr (db', i)"
  obtains nxt where "schedule_ctx env c racer commit rq nxt db = Inr (db', i)"
  using assms by (auto simp: schedule_def bind_res_eq_Inr split: if_splits)

text \<open>What a committed scheduling without a race leaves behind.\<close>

lemma schedule_ctx_result:
  assumes ok: "reminders_ok (reminders db)" and s: "schedule_ctx env c None True rq nxt db = Inr (db', i)"
  obtains u where "sq_user rq = Some u" "u \<noteq> []" "reminders_ok (reminders db')"
    "(\<exists>r h. sched_hash env rq u = Some h \<and> (i, r) \<in> set (reminders db') \<and> semantic_key r = Some (sq_tenant rq, u, h)) \<or>
     (\<exists>r. (i, r) \<in> set (reminders db') \<and> op_key r = Some (sq_tenant rq, u, sched_op_id env c rq) \<and>
        (\<forall>h x j. sched_hash env rq u = Some h \<longrightarrow> (j, x) \<in> set (reminders db') \<longrightarrow>
           semantic_key x = Some (sq_tenant rq, u, h) \<longrightarrow> j = i))"
proof -
  obtain u where u: "sq_user rq = Some u" "u \<noteq> []"
    using s by (auto simp: schedule_ctx_def split: option.splits if_splits)
  define op where "op = sched_op_id env c rq"
  define nh where "nh = sched_hash env rq u"
  define found where "found = (case nh of None \<Rightarrow> None
      | Some h \<Rightarrow> find_existing_pending_semantic (reminders db) (sq_tenant rq) (Some u) h)"
  show thesis
  proof (cases found)
    case (Some x)
    obtain j r where x: "x = (j, r)" by (cases x)
    then obtain h where h: "nh = Some h" "find_existing_pending_semantic (reminders db) (sq_tenant rq) (Some u) h = Some (j, r)"
      using Some by (auto simp: found_def split: option.splits)
    have "db' = db" "i = j"
      using s u Some x by (auto simp: schedule_ctx_def Let_def found_def nh_def split: if_splits)
    then show thesis using that [OF u] ok find_semantic_Some [OF h(2) u(2)] h(1) by (auto simp: nh_def)
  next
    case None
    let ?r = "new_reminder env rq nxt (Some op) nh"
    obtain q1 j r where q1: "insert_reminder (reminders db) (new_id env) ?r = Inr q1"
      and f: "find_op_row q1 (sq_tenant rq) u op = Some (j, r)" and db': "reminders db' = q1" "i = j"
      using s u None by (auto simp: schedule_ctx_def Let_def found_def nh_def op_def split: if_splits sum.splits option.splits)
    have r: "(j, r) \<in> set q1" "op_key r = Some (sq_tenant rq, u, op)"
      using f nth_mem by (fastforce simp: find_op_row_def find_Some_iff)+
    have none: "semantic_key x \<noteq> Some (sq_tenant rq, u, h)" if "nh = Some h" "(k, x) \<in> set (reminders db)" for h k x
      using None that find_semantic_None [OF _ u(2)] by (auto simp: found_def)
    show thesis
      using q1
    proof (cases rule: insert_cases)
      case known
      then show thesis using that [OF u] ok r db' none by (auto simp: op_def nh_def)
    next
      case new
      have key: "op_key ?r = Some (sq_tenant rq, u, op)" using u(1) by (simp add: op_key_def new_reminder_def)
      have "(new_id env, ?r) \<in> set q1" using new by simp
      then have "(j, r) = (new_id env, ?r)"
        using unique_key [of op_key q1 j r "new_id env" ?r] new(3) r key by (simp add: reminders_ok_def)
      then show thesis using that [OF u] new r db' none by (auto simp: op_def nh_def)
    qed
  qed
qed



section \<open>What the code does elsewhere than its comments say\<close>

text \<open>
  \<open>restore_tenant\<close> cancels the reminders missed during a deletion because \<open>snooze\<close> could revive a
  fired one; but \<open>snooze\<close> sets \<open>pending\<close> whatever the status is, and the button reaches it.
\<close>

theorem snooze_revives_cancelled:
  assumes "dget q i = Some r" "i \<noteq> []" "rem_status r = RemCancelled"
    and "reminders_ok (dput q i (snooze SNOOZE_DEFAULT_MINUTES t r))"
  shows "handle_reminder_callback rr t False ''rem_snooze'' i q
      = Inr (dput q i (snooze SNOOZE_DEFAULT_MINUTES t r), CbSnoozed)"
    and "rem_due (\<lambda>_. True) (t + 10 * ONE_MINUTE) (snooze SNOOZE_DEFAULT_MINUTES t r)"
  using assms by (simp_all add: handle_reminder_callback_def press_button_def commit_reminders_def snooze_def rem_due_def
      SNOOZE_DEFAULT_MINUTES_def)

definition move_milk :: upd_request where
  "move_milk = \<lparr>up_title = None, up_trigger = Some 90, up_rule = None, up_clear = False\<rparr>"

definition moved_db :: rem_db where
  "moved_db = scheduled_db\<lparr>reminders := (case update_reminder (sample_sched_env [] 8) ''t1'' ''r1'' move_milk (reminders scheduled_db) of
     Inr (q, _) \<Rightarrow> q | Inl _ \<Rightarrow> [])\<rparr>"

text \<open>
  \<open>update\<close> leaves \<open>normalized_title_hash\<close> as it was, with the old time in it: after a reminder at 50
  is moved to 90, a new turn that asks for one at 50 is answered with the moved row, and nothing is
  scheduled for 50.
\<close>

theorem moved_reminder_swallows_original:
  "schedule (sample_sched_env ''r2'' 9) (Some (sample_ctx ''e2'')) None True (sample_rem_request None) moved_db = Inr (moved_db, ''r1'') \<and>
   map_option next_trigger_at (dget (reminders moved_db) ''r1'') = Some (Some 90) \<and> dkeys (reminders moved_db) = [''r1'']"
  by (intro conjI) code_simp+

text \<open>The empty rule, which the comment of \<open>update\<close> offers to clear the recurrence, is parsed like any other.\<close>

theorem empty_rule_is_rejected:
  assumes "dget q i = Some r" "rem_tenant r = tenant" "rem_status r = RemPending"
    and "up_title up = None" "up_rule up = Some []" "\<not> up_clear up"
    and "\<forall>d. rrules env [] d = None"
  shows "update_reminder env tenant i up q = Inl (RemValueError ''invalid recurrence_rule'')"
  using assms by (simp add: update_reminder_def updated_rule_def bind_res_def)

end
