(* ===== verification/ReminderWorker.thy ===== *)
theory ReminderWorker
  imports DeliveryProtocol Reminders
begin

text \<open>
  \<open>workers/housewife_reminder_worker.py\<close> with \<open>services/channel_routing.py\<close>: due reminders become
  rows of the outbox, one for each channel of the user, and move on. A row of the outbox has the key
  \<open>reminder:instant:channel:bot\<close>, under a unique index. The tables the worker only reads (users,
  tenants, workspaces) are parameters; so are the row ids it draws. Non-ASCII labels are UTF-8 bytes.
\<close>

section \<open>Routing\<close>

record user_row =
  ur_tenant :: string
  telegram_account_id :: "string option"
  max_chat_id :: "string option"
  last_bot_key :: "string option"

datatype bot_keys = NoRegistry | Registry "string list" | KeyList "string list"

record outbox_routing =
  rt_channel :: string
  rt_chat_id :: string
  rt_bot_key :: "string option"

fun telegram_bot_keys :: "bot_keys \<Rightarrow> string list" where
  "telegram_bot_keys NoRegistry = []"
| "telegram_bot_keys (Registry bots) = bots"
| "telegram_bot_keys (KeyList ks) = ks"

text \<open>The truth of an optional string, and \<open>a or b\<close>.\<close>

definition filled :: "string option \<Rightarrow> bool" where
  "filled s \<longleftrightarrow> (case s of None \<Rightarrow> False | Some x \<Rightarrow> x \<noteq> [])"

definition or_text :: "string option \<Rightarrow> string \<Rightarrow> string" where
  "or_text s d = (if filled s then the s else d)"

text \<open>\<open>pref\<close> is the tenant row's \<open>preferred_channel\<close>; the outer \<open>None\<close> is a missing row.\<close>

definition resolve_outbox_routings ::
    "string option option \<Rightarrow> user_row option \<Rightarrow> bot_keys \<Rightarrow> outbox_routing list" where
  "resolve_outbox_routings tenant user keys =
     (case user of
        None \<Rightarrow> []
      | Some u \<Rightarrow>
          (let pref = (case tenant of None \<Rightarrow> [] | Some p \<Rightarrow> or_text p []);
               tg = (''telegram'', telegram_account_id u); mx = (''max'', max_chat_id u);
               order = (if pref = ''max'' then [mx, tg] else [tg, mx]);
               tg_bot = (if filled (last_bot_key u) \<and> the (last_bot_key u) \<in> set (telegram_bot_keys keys)
                         then last_bot_key u else None)
           in List.map_filter (\<lambda>(channel, chat).
                if filled chat
                then Some \<lparr>rt_channel = channel, rt_chat_id = the chat,
                           rt_bot_key = (if channel = ''telegram'' then tg_bot else None)\<rparr>
                else None) order))"

record firing_env =
  tenant_pref :: "string \<Rightarrow> string option option"
  users :: "(string, user_row) dict"
  workspaces :: "(string, string) dict" \<comment> \<open>id and tenant\<close>
  registry :: bot_keys
  fire_rrules :: rrule_lib
  live_at_scan :: "string \<Rightarrow> bool"
  live_at_fire :: "string \<Rightarrow> bool"
  out_id :: "string \<Rightarrow> string" \<comment> \<open>the id drawn for the row with this key\<close>
  fire_now :: int

text \<open>The lowest id of the rows that qualify, \<open>ORDER BY id LIMIT 1\<close>.\<close>

definition first_row :: "('v \<Rightarrow> bool) \<Rightarrow> (string, 'v) dict \<Rightarrow> (string \<times> 'v) option" where
  "first_row P d = (case sort_key fst (filter (\<lambda>(k, v). P v) d) of [] \<Rightarrow> None | x # _ \<Rightarrow> Some x)"

definition resolve_routings :: "firing_env \<Rightarrow> reminder \<Rightarrow> outbox_routing list" where
  "resolve_routings env r =
     (if filled (rem_user r)
      then
        (case dget (users env) (the (rem_user r)) of
           None \<Rightarrow> []
         | Some u \<Rightarrow>
             if ur_tenant u \<noteq> rem_tenant r then []
             else resolve_outbox_routings (tenant_pref env (rem_tenant r)) (Some u) (registry env))
      else
        (case first_row (\<lambda>u. ur_tenant u = rem_tenant r \<and> (telegram_account_id u \<noteq> None \<or> max_chat_id u \<noteq> None)) (users env) of
           None \<Rightarrow> []
         | Some (_, u) \<Rightarrow> resolve_outbox_routings (tenant_pref env (rem_tenant r)) (Some u) (registry env)))"

definition resolve_workspace_id :: "firing_env \<Rightarrow> string \<Rightarrow> string option" where
  "resolve_workspace_id env tenant = map_option fst (first_row (\<lambda>t. t = tenant) (workspaces env))"

section \<open>The message of a firing\<close>

definition BUTTON_ACK :: string where
  "BUTTON_ACK = [CHR 0xD0, CHR 0x93, CHR 0xD0, CHR 0xBE, CHR 0xD1, CHR 0x82, CHR 0xD0, CHR 0xBE,
     CHR 0xD0, CHR 0xB2, CHR 0xD0, CHR 0xBE, CHR 0x20, CHR 0xE2, CHR 0x9C, CHR 0x85]"

definition BUTTON_SNOOZE :: string where
  "BUTTON_SNOOZE = [CHR 0xD0, CHR 0x9E, CHR 0xD1, CHR 0x82, CHR 0xD0, CHR 0xBB, CHR 0xD0, CHR 0xBE,
     CHR 0xD0, CHR 0xB6, CHR 0xD0, CHR 0xB8, CHR 0xD1, CHR 0x82, CHR 0xD1, CHR 0x8C,
     CHR 0x20, CHR 0xE2, CHR 0x8F, CHR 0xB0]"

definition BELL :: string where "BELL = [CHR 0xF0, CHR 0x9F, CHR 0x94, CHR 0x94, CHR 0x20]"

definition HOUSEWIFE_FEATURE_KEY_W :: string where "HOUSEWIFE_FEATURE_KEY_W = ''housewife_assistant''"

definition reply_markup :: "string \<Rightarrow> pyval" where
  "reply_markup i =
     VDict [(''inline_keyboard'', VList [VList
       [VDict [(''text'', VStr BUTTON_ACK), (''callback_data'', VStr (''rem_done:'' @ i))],
        VDict [(''text'', VStr BUTTON_SNOOZE), (''callback_data'', VStr (''rem_snooze:'' @ i))]]])]"

definition row_bot :: "reminder \<Rightarrow> outbox_routing \<Rightarrow> string" where
  "row_bot r rt = or_text (rt_bot_key rt) (if rem_bot_key r \<noteq> [] then rem_bot_key r else LEGACY_NULL_BOT_KEY)"

definition fired_instant :: "reminder \<Rightarrow> int" where
  "fired_instant r = (case next_trigger_at r of None \<Rightarrow> trigger_at r | Some t \<Rightarrow> t)"

definition idem_key :: "string \<Rightarrow> reminder \<Rightarrow> outbox_routing \<Rightarrow> string" where
  "idem_key i r rt = join_with '':'' [i, isoformat (fired_instant r), rt_channel rt, row_bot r rt]"

definition outbox_message :: "firing_env \<Rightarrow> string \<Rightarrow> string \<Rightarrow> reminder \<Rightarrow> outbox_routing \<Rightarrow> outbox_row" where
  "outbox_message env workspace i r rt =
     \<lparr>tenant_id = rem_tenant r, workspace_id = workspace, channel_type = rt_channel rt, status = OutPending,
      payload_json = Some (VDict [(''chat_id'', VStr (rt_chat_id rt)), (''text'', VStr (BELL @ title r)),
        (''reply_markup'', reply_markup i)]),
      created_at = fire_now env, scheduled_at = None, feature_key = Some HOUSEWIFE_FEATURE_KEY_W, user_id = rem_user r,
      is_interactive = False, drop_reason = None, bot_key = Some (row_bot r rt), idempotency_key = Some (idem_key i r rt),
      claim_token = None, lease_expires_at = None\<rparr>"

definition outbox_key_exists :: "outbox \<Rightarrow> string \<Rightarrow> bool" where
  "outbox_key_exists q key = list_ex (\<lambda>x. idempotency_key x = Some key) (dvals q)"

text \<open>
  One routing. \<open>race\<close>: a row with this key that another transaction commits after the lookup; the
  savepoint takes back the insert that the unique index (or the primary key) refuses.
\<close>

type_synonym race = "string \<Rightarrow> (string \<times> outbox_row) option"

definition enqueue_one :: "firing_env \<Rightarrow> race \<Rightarrow> string \<Rightarrow> string \<Rightarrow> reminder \<Rightarrow> outbox \<Rightarrow> outbox_routing \<Rightarrow> outbox" where
  "enqueue_one env race workspace i r q rt =
     (let key = idem_key i r rt in
      if outbox_key_exists q key then q
      else
        (let q0 = (case race key of None \<Rightarrow> q | Some (j, x) \<Rightarrow> dput q j x);
             q1 = dput q0 (out_id env key) (outbox_message env workspace i r rt)
         in if out_id env key \<in> set (dkeys q0) \<or> \<not> keys_unique q1 then q0 else q1))"

fun enqueue_all :: "firing_env \<Rightarrow> race \<Rightarrow> string \<Rightarrow> string \<Rightarrow> reminder \<Rightarrow> outbox_routing list \<Rightarrow> outbox \<Rightarrow> outbox" where
  "enqueue_all env race w i r [] q = q"
| "enqueue_all env race w i r (rt # rts) q = enqueue_all env race w i r rts (enqueue_one env race w i r q rt)"

definition enqueue_outbox_for :: "firing_env \<Rightarrow> race \<Rightarrow> string \<Rightarrow> reminder \<Rightarrow> outbox \<Rightarrow> outbox" where
  "enqueue_outbox_for env race i r q =
     (let routings = resolve_routings env r in
      if routings = [] then q
      else
        (case resolve_workspace_id env (rem_tenant r) of
           None \<Rightarrow> q
         | Some w \<Rightarrow> if w = [] then q else enqueue_all env race w i r routings q))"

section \<open>The tick\<close>

datatype fire_outcome = Fired | SilentLate | Fenced | Failed

record firing_state =
  fs_reminders :: reminders
  fs_outbox :: outbox

definition too_late :: "int \<Rightarrow> reminder \<Rightarrow> bool" where
  "too_late t_now r \<longleftrightarrow>
     (case next_trigger_at r of None \<Rightarrow> False | Some t \<Rightarrow> t_now - t > LATE_FIRE_GRACE_MINUTES * ONE_MINUTE)"

text \<open>One row, in a transaction of its own: an exception leaves everything as it was.\<close>

definition advance :: "firing_env \<Rightarrow> string \<Rightarrow> reminder \<Rightarrow> reminders \<Rightarrow> reminder_error + reminders" where
  "advance env i r q = commit_reminders (dput q i (mark_fired (fire_rrules env) (fire_now env) r))"

definition fire_one :: "firing_env \<Rightarrow> race \<Rightarrow> string \<times> string \<Rightarrow> firing_state \<Rightarrow> firing_state \<times> fire_outcome" where
  "fire_one env race due s =
     (case due of (i, tenant) \<Rightarrow>
        (case dget (fs_reminders s) i of
           None \<Rightarrow> (s, Fenced)
         | Some r \<Rightarrow>
             if \<not> live_at_fire env tenant then (s, Fenced)
             else if rem_status r \<noteq> RemPending then (s, Fenced)
             else if (case next_trigger_at r of None \<Rightarrow> False | Some t \<Rightarrow> t > fire_now env) then (s, Fenced)
             else
               (let q = (if too_late (fire_now env) r then fs_outbox s
                         else enqueue_outbox_for env race i r (fs_outbox s)) in
                case advance env i r (fs_reminders s) of
                  Inl e \<Rightarrow> (s, Failed)
                | Inr rs \<Rightarrow>
                    (\<lparr>fs_reminders = rs, fs_outbox = q\<rparr>, if too_late (fire_now env) r then SilentLate else Fired))))"

fun fire_all :: "firing_env \<Rightarrow> race \<Rightarrow> (string \<times> string) list \<Rightarrow> firing_state \<Rightarrow> firing_state \<times> nat" where
  "fire_all env race [] s = (s, 0)"
| "fire_all env race (d # ds) s =
     (case fire_one env race d s of
        (s1, out) \<Rightarrow> (case fire_all env race ds s1 of (s2, n) \<Rightarrow> (s2, n + (if out = Fired then 1 else 0))))"

definition due_ids :: "firing_env \<Rightarrow> nat \<Rightarrow> reminders \<Rightarrow> (string \<times> string) list" where
  "due_ids env limit q = map (\<lambda>(i, r). (i, rem_tenant r)) (due_now (live_at_scan env) (fire_now env) limit q)"

definition reminder_tick :: "firing_env \<Rightarrow> race \<Rightarrow> nat \<Rightarrow> firing_state \<Rightarrow> firing_state \<times> nat" where
  "reminder_tick env race limit s = fire_all env race (due_ids env limit (fs_reminders s)) s"

section \<open>Advancing never fails\<close>

text \<open>A firing changes none of the unique keys of its row, or takes the row out of the index.\<close>

lemma mark_fired_keys:
  "op_key (mark_fired rr t r) = op_key r"
  "semantic_key (mark_fired rr t r) = semantic_key r \<or> semantic_key (mark_fired rr t r) = None"
  by (auto simp: mark_fired_def close_firing_def op_key_def semantic_key_def Let_def split: option.splits)

lemma distinct_keys_dput:
  assumes "distinct (List.map_filter f (dvals q))" "dget q i = Some r" "f r' = f r \<or> f r' = None"
  shows "distinct (List.map_filter f (dvals (dput q i r'))) \<and>
    set (List.map_filter f (dvals (dput q i r'))) \<subseteq> set (List.map_filter f (dvals q))"
  using assms
proof (induction q)
  case (Cons x q)
  then show ?case
    by (cases x; cases "fst x = i") (auto simp: map_filter_simps split: option.splits)
qed simp

lemma advance_ok:
  assumes "reminders_ok q" "dget q i = Some r"
  shows "advance env i r q = Inr (dput q i (mark_fired (fire_rrules env) (fire_now env) r))"
  using assms distinct_keys_dput [of op_key q i r] distinct_keys_dput [of semantic_key q i r] mark_fired_keys
  by (simp add: advance_def commit_reminders_def reminders_ok_def)

section \<open>The outbox of a tick\<close>

text \<open>
  The ids drawn for new rows, the worker's and a racing writer's, are fresh: in no use, and different
  for different keys. A racing row is pending and unclaimed, and has the key it races for.
\<close>

definition drawn_ids :: "firing_env \<Rightarrow> race \<Rightarrow> string \<Rightarrow> string set" where
  "drawn_ids env race key = insert (out_id env key) (case race key of None \<Rightarrow> {} | Some (j, x) \<Rightarrow> {j})"

definition unclaimed :: "outbox_row \<Rightarrow> bool" where
  "unclaimed x \<longleftrightarrow> status x = OutPending \<and> claim_token x = None \<and> lease_expires_at x = None"

lemma unclaimed_message [simp]: "unclaimed (outbox_message env w i r rt)"
  by (simp add: unclaimed_def outbox_message_def)

definition legal_ids :: "firing_env \<Rightarrow> race \<Rightarrow> outbox \<Rightarrow> bool" where
  "legal_ids env race q \<longleftrightarrow>
     (\<forall>key j x. race key = Some (j, x) \<longrightarrow> idempotency_key x = Some key \<and> unclaimed x) \<and>
     (\<forall>key. outbox_key_exists q key \<or> drawn_ids env race key \<inter> set (dkeys q) = {}) \<and>
     (\<forall>key key'. key \<noteq> key' \<longrightarrow> drawn_ids env race key \<inter> drawn_ids env race key' = {})"

definition outbox_ok :: "firing_env \<Rightarrow> race \<Rightarrow> outbox \<Rightarrow> bool" where
  "outbox_ok env race q \<longleftrightarrow> dict_ok q \<and> keys_unique q \<and> legal_ids env race q"

definition outbox_grows :: "outbox \<Rightarrow> outbox \<Rightarrow> bool" where
  "outbox_grows q q' \<longleftrightarrow> (\<exists>new. q' = q @ new \<and> (\<forall>(k, x)\<in>set new. unclaimed x))"

lemma outbox_grows_refl [simp]: "outbox_grows q q"
  by (simp add: outbox_grows_def)

lemma key_exists_iff: "outbox_key_exists q key \<longleftrightarrow> (\<exists>(k, x)\<in>set q. idempotency_key x = Some key)"
  by (force simp: outbox_key_exists_def list_ex_iff)

lemma keys_unique_snoc:
  "keys_unique (q @ [(k, x)]) \<longleftrightarrow>
     keys_unique q \<and> (\<forall>key. idempotency_key x = Some key \<longrightarrow> \<not> outbox_key_exists q key)"
  by (cases "idempotency_key x")
    (auto simp: keys_unique_def map_filter_snoc set_map_filter_iff key_exists_iff)

lemma enqueue_one_cases:
  assumes ok: "outbox_ok env race q"
  obtains (known) "outbox_key_exists q (idem_key i r rt)" "enqueue_one env race w i r q rt = q"
  | (raced) j x where "\<not> outbox_key_exists q (idem_key i r rt)" "race (idem_key i r rt) = Some (j, x)" "j \<notin> set (dkeys q)"
      "idempotency_key x = Some (idem_key i r rt)" "unclaimed x" "enqueue_one env race w i r q rt = q @ [(j, x)]"
  | (new) "\<not> outbox_key_exists q (idem_key i r rt)" "race (idem_key i r rt) = None"
      "out_id env (idem_key i r rt) \<notin> set (dkeys q)"
      "enqueue_one env race w i r q rt = q @ [(out_id env (idem_key i r rt), outbox_message env w i r rt)]"
proof (cases "outbox_key_exists q (idem_key i r rt)")
  case True
  then show thesis using known by (simp add: enqueue_one_def Let_def)
next
  case False
  define key where "key = idem_key i r rt"
  have legal: "legal_ids env race q" "keys_unique q" using ok by (simp_all add: outbox_ok_def)
  have fresh: "k \<notin> set (dkeys q)" if "k \<in> drawn_ids env race key" for k
    using legal(1) that False unfolding legal_ids_def key_def by blast
  have key_of: "idempotency_key (outbox_message env w i r rt) = Some key" by (simp add: outbox_message_def key_def)
  show thesis
  proof (cases "race key")
    case None
    have "out_id env key \<notin> set (dkeys q)" using fresh by (simp add: drawn_ids_def)
    then show thesis using new False None legal key_of
      by (simp add: enqueue_one_def Let_def dput_fresh keys_unique_snoc flip: key_def)
  next
    case (Some jx)
    then obtain j x where jx: "race key = Some (j, x)" by (cases jx) auto
    then have j: "j \<notin> set (dkeys q)" "idempotency_key x = Some key" "unclaimed x"
      using fresh [of j] legal(1) by (auto simp: drawn_ids_def legal_ids_def)
    have "enqueue_one env race w i r q rt = q @ [(j, x)]"
    proof (cases "out_id env key \<in> set (dkeys (q @ [(j, x)]))")
      case True
      then show ?thesis using False jx j by (simp add: enqueue_one_def Let_def dput_fresh flip: key_def)
    next
      case ni: False
      have "\<not> keys_unique ((q @ [(j, x)]) @ [(out_id env key, outbox_message env w i r rt)])"
        using j(2) key_of unfolding keys_unique_snoc by (auto simp: outbox_key_exists_def)
      then show ?thesis using False jx j ni dput_fresh [OF ni] by (simp add: enqueue_one_def Let_def dput_fresh flip: key_def)
    qed
    then show thesis using raced False jx j by (simp add: key_def)
  qed
qed

text \<open>The growth of the outbox by one row with a key of its own keeps the ids legal.\<close>

lemma outbox_ok_snoc:
  assumes ok: "outbox_ok env race q" and k: "k \<notin> set (dkeys q)" "k \<in> drawn_ids env race key"
    and x: "idempotency_key x = Some key" "\<not> outbox_key_exists q key"
  shows "outbox_ok env race (q @ [(k, x)])"
proof -
  have legal: "legal_ids env race q" and u: "dict_ok q" "keys_unique q" using ok by (auto simp: outbox_ok_def)
  have "outbox_key_exists (q @ [(k, x)]) key' \<or> drawn_ids env race key' \<inter> set (dkeys (q @ [(k, x)])) = {}" for key'
  proof (cases "key' = key \<or> outbox_key_exists q key'")
    case True
    then show ?thesis using x(1) by (auto simp: outbox_key_exists_def)
  next
    case False
    then have "drawn_ids env race key' \<inter> set (dkeys q) = {}" "k \<notin> drawn_ids env race key'"
      using legal k(2) unfolding legal_ids_def by blast+
    then show ?thesis by auto
  qed
  then have "legal_ids env race (q @ [(k, x)])" using legal by (simp add: legal_ids_def)
  then show ?thesis using u k(1) x by (auto simp: outbox_ok_def dict_ok_def keys_unique_snoc)
qed

lemma enqueue_one_ok:
  assumes ok: "outbox_ok env race q"
  shows "outbox_ok env race (enqueue_one env race w i r q rt)"
    "outbox_key_exists (enqueue_one env race w i r q rt) (idem_key i r rt)"
    "\<exists>new. enqueue_one env race w i r q rt = q @ new \<and> (\<forall>(k, x)\<in>set new. unclaimed x) \<and>
       (race = (\<lambda>_. None) \<longrightarrow> (\<forall>(k, x)\<in>set new. x = outbox_message env w i r rt))"
proof -
  have "outbox_ok env race (enqueue_one env race w i r q rt) \<and>
    outbox_key_exists (enqueue_one env race w i r q rt) (idem_key i r rt) \<and>
    (\<exists>new. enqueue_one env race w i r q rt = q @ new \<and> (\<forall>(k, x)\<in>set new. unclaimed x) \<and>
       (race = (\<lambda>_. None) \<longrightarrow> (\<forall>(k, x)\<in>set new. x = outbox_message env w i r rt)))"
    using ok
  proof (cases rule: enqueue_one_cases [where i = i and r = r and rt = rt and w = w])
    case known
    then show ?thesis using ok by simp
  next
    case (raced j x)
    then have "outbox_ok env race (q @ [(j, x)])" by (intro outbox_ok_snoc [OF ok]) (auto simp: drawn_ids_def)
    then show ?thesis using raced by (auto simp: outbox_key_exists_def)
  next
    case new
    then have "outbox_ok env race (q @ [(out_id env (idem_key i r rt), outbox_message env w i r rt)])"
      by (intro outbox_ok_snoc [OF ok]) (auto simp: drawn_ids_def outbox_message_def)
    moreover have "unclaimed (outbox_message env w i r rt)" by simp
    ultimately show ?thesis using new by (auto simp: outbox_key_exists_def) (simp add: outbox_message_def)
  qed
  then show "outbox_ok env race (enqueue_one env race w i r q rt)"
    "outbox_key_exists (enqueue_one env race w i r q rt) (idem_key i r rt)"
    "\<exists>new. enqueue_one env race w i r q rt = q @ new \<and> (\<forall>(k, x)\<in>set new. unclaimed x) \<and>
       (race = (\<lambda>_. None) \<longrightarrow> (\<forall>(k, x)\<in>set new. x = outbox_message env w i r rt))" by blast+
qed

lemma key_exists_append: "outbox_key_exists q key \<Longrightarrow> outbox_key_exists (q @ new) key"
  by (auto simp: outbox_key_exists_def)

lemma enqueue_all_ok:
  "outbox_ok env race q \<Longrightarrow> outbox_ok env race (enqueue_all env race w i r rts q) \<and>
    (\<forall>rt\<in>set rts. outbox_key_exists (enqueue_all env race w i r rts q) (idem_key i r rt)) \<and>
    (\<exists>new. enqueue_all env race w i r rts q = q @ new \<and> (\<forall>(k, x)\<in>set new. unclaimed x) \<and>
      (race = (\<lambda>_. None) \<longrightarrow> (\<forall>(k, x)\<in>set new. \<exists>rt\<in>set rts. x = outbox_message env w i r rt)))"
proof (induction rts arbitrary: q)
  case (Cons rt rts)
  note one = enqueue_one_ok [OF Cons.prems, where w = w and i = i and r = r and rt = rt]
  let ?q1 = "enqueue_one env race w i r q rt"
  obtain new1 where n1: "?q1 = q @ new1" "\<forall>(k, x)\<in>set new1. unclaimed x"
    "race = (\<lambda>_. None) \<longrightarrow> (\<forall>(k, x)\<in>set new1. x = outbox_message env w i r rt)" using one(3) by blast
  from Cons.IH [OF one(1)] obtain new2 where n2: "enqueue_all env race w i r rts ?q1 = ?q1 @ new2"
    "\<forall>(k, x)\<in>set new2. unclaimed x"
    "race = (\<lambda>_. None) \<longrightarrow> (\<forall>(k, x)\<in>set new2. \<exists>rt\<in>set rts. x = outbox_message env w i r rt)"
    and t: "outbox_ok env race (enqueue_all env race w i r rts ?q1)"
    and ex: "\<forall>rt'\<in>set rts. outbox_key_exists (enqueue_all env race w i r rts ?q1) (idem_key i r rt')"
    by blast
  have "outbox_key_exists (enqueue_all env race w i r rts ?q1) (idem_key i r rt)"
    using key_exists_append [OF one(2)] n2(1) by simp
  moreover have "\<exists>new. enqueue_all env race w i r (rt # rts) q = q @ new \<and> (\<forall>(k, x)\<in>set new. unclaimed x) \<and>
      (race = (\<lambda>_. None) \<longrightarrow> (\<forall>(k, x)\<in>set new. \<exists>rt'\<in>set (rt # rts). x = outbox_message env w i r rt'))"
    using n1 n2 by (intro exI [of _ "new1 @ new2"]) auto
  ultimately show ?case using t ex by simp
qed simp

lemma enqueue_outbox_ok:
  assumes "outbox_ok env race q"
  shows "outbox_ok env race (enqueue_outbox_for env race i r q)" "outbox_grows q (enqueue_outbox_for env race i r q)"
proof -
  have "outbox_ok env race (enqueue_outbox_for env race i r q) \<and> outbox_grows q (enqueue_outbox_for env race i r q)"
  proof (cases "enqueue_outbox_for env race i r q = q")
    case True
    then show ?thesis using assms by simp
  next
    case False
    then obtain w where e: "enqueue_outbox_for env race i r q = enqueue_all env race w i r (resolve_routings env r) q"
      by (auto simp: enqueue_outbox_for_def Let_def split: if_splits option.splits)
    show ?thesis
      using enqueue_all_ok [OF assms, where w = w and i = i and r = r and rts = "resolve_routings env r"]
      unfolding e outbox_grows_def by blast
  qed
  then show "outbox_ok env race (enqueue_outbox_for env race i r q)" "outbox_grows q (enqueue_outbox_for env race i r q)" by blast+
qed

text \<open>What one row's transaction does, when its tables are well formed.\<close>

lemma fire_one_cases:
  assumes "reminders_ok (fs_reminders s)"
  obtains (fenced) "fire_one env race (i, t) s = (s, Fenced)"
  | (late) r where "dget (fs_reminders s) i = Some r" "rem_status r = RemPending" "live_at_fire env t" "too_late (fire_now env) r"
      "fire_one env race (i, t) s =
         (s\<lparr>fs_reminders := dput (fs_reminders s) i (mark_fired (fire_rrules env) (fire_now env) r)\<rparr>, SilentLate)"
  | (fired) r where "dget (fs_reminders s) i = Some r" "rem_status r = RemPending" "live_at_fire env t" "\<not> too_late (fire_now env) r"
      "\<not> (case next_trigger_at r of None \<Rightarrow> False | Some n \<Rightarrow> n > fire_now env)"
      "fire_one env race (i, t) s =
         (\<lparr>fs_reminders = dput (fs_reminders s) i (mark_fired (fire_rrules env) (fire_now env) r),
           fs_outbox = enqueue_outbox_for env race i r (fs_outbox s)\<rparr>, Fired)"
proof (cases "dget (fs_reminders s) i")
  case None
  then show thesis using fenced by (simp add: fire_one_def)
next
  case (Some r)
  define future where "future = (case next_trigger_at r of None \<Rightarrow> False | Some n \<Rightarrow> n > fire_now env)"
  show thesis
  proof (cases "live_at_fire env t \<and> rem_status r = RemPending \<and> \<not> future")
    case False
    then show thesis using fenced Some by (auto simp: fire_one_def simp flip: future_def)
  next
    case True
    note adv = advance_ok [OF assms Some, of env]
    show thesis
    proof (cases "too_late (fire_now env) r")
      case l: True
      then have "fire_one env race (i, t) s =
          (s\<lparr>fs_reminders := dput (fs_reminders s) i (mark_fired (fire_rrules env) (fire_now env) r)\<rparr>, SilentLate)"
        using True Some adv by (simp add: fire_one_def Let_def flip: future_def)
      then show thesis using late Some True l by blast
    next
      case l: False
      then have "fire_one env race (i, t) s =
         (\<lparr>fs_reminders = dput (fs_reminders s) i (mark_fired (fire_rrules env) (fire_now env) r),
           fs_outbox = enqueue_outbox_for env race i r (fs_outbox s)\<rparr>, Fired)"
        using True Some adv by (simp add: fire_one_def Let_def flip: future_def)
      then show thesis using fired Some True l by (simp add: future_def)
    qed
  qed
qed

section \<open>The key tells firings apart\<close>

lemma pad_no_colon: "CHR '':'' \<notin> set (pad n k)"
proof (induction n k rule: pad.induct)
  case (2 n k)
  have "(char_of (48 + k mod 10) :: char) \<noteq> CHR '':''"
  proof
    assume "(char_of (48 + k mod 10) :: char) = CHR '':''"
    then have "(of_char (char_of (48 + k mod 10) :: char) :: int) = of_char (CHR '':'')" by simp
    moreover have "0 \<le> k mod 10" "k mod 10 < 10" by simp_all
    ultimately show False by (simp del: pos_mod_bound pos_mod_sign)
  qed
  then show ?case using 2 by simp
qed simp

lemma isoformat_parts:
  obtains a b c d where "isoformat t = a @ CHR '':'' # b @ CHR '':'' # c @ CHR '':'' # d"
    "CHR '':'' \<notin> set a" "CHR '':'' \<notin> set b" "CHR '':'' \<notin> set c" "CHR '':'' \<notin> set d"
proof -
  obtain y m d where ymd: "ymd_of (t div ONE_DAY + EPOCH_DAY) = (y, m, d)" by (metis prod_cases3)
  define s us where "s = t mod ONE_DAY div SEC" and "us = t mod SEC"
  show thesis
    by (rule that [of "pad 4 y @ ''-'' @ pad 2 m @ ''-'' @ pad 2 d @ ''T'' @ pad 2 (s div 3600)" "pad 2 (s div 60 mod 60)"
          "pad 2 (s mod 60) @ (if us = 0 then [] else ''.'' @ pad 6 us) @ ''+00''" "''00''"])
      (simp_all add: isoformat_def ymd Let_def pad_no_colon flip: s_def us_def)
qed

lemma iso_rest_inject:
  assumes "isoformat t @ CHR '':'' # x = isoformat t' @ CHR '':'' # y" shows "isoformat t = isoformat t' \<and> x = y"
proof -
  obtain a b c d where p: "isoformat t = a @ CHR '':'' # b @ CHR '':'' # c @ CHR '':'' # d"
    "CHR '':'' \<notin> set a" "CHR '':'' \<notin> set b" "CHR '':'' \<notin> set c" "CHR '':'' \<notin> set d" by (rule isoformat_parts)
  obtain a' b' c' d' where p': "isoformat t' = a' @ CHR '':'' # b' @ CHR '':'' # c' @ CHR '':'' # d'"
    "CHR '':'' \<notin> set a'" "CHR '':'' \<notin> set b'" "CHR '':'' \<notin> set c'" "CHR '':'' \<notin> set d'" by (rule isoformat_parts)
  show ?thesis using assms p p' by (simp add: split_at_sep)
qed

lemma idem_key_inject:
  assumes "idem_key i r rt = idem_key i' r' rt'"
    and "CHR '':'' \<notin> set i" "CHR '':'' \<notin> set i'" "CHR '':'' \<notin> set (rt_channel rt)" "CHR '':'' \<notin> set (rt_channel rt')"
    and "valid_instant (fired_instant r)" "valid_instant (fired_instant r')"
  shows "i = i' \<and> fired_instant r = fired_instant r' \<and> rt_channel rt = rt_channel rt' \<and> row_bot r rt = row_bot r' rt'"
proof -
  have e: "i = i'" "isoformat (fired_instant r) @ CHR '':'' # rt_channel rt @ CHR '':'' # row_bot r rt =
      isoformat (fired_instant r') @ CHR '':'' # rt_channel rt' @ CHR '':'' # row_bot r' rt'"
    using assms(1-3) by (simp_all add: idem_key_def split_at_sep)
  then show ?thesis using iso_rest_inject [OF e(2)] isoformat_inject assms(4-7) by (auto simp: split_at_sep)
qed

section \<open>Firing once\<close>

lemma unique_message:
  assumes "keys_unique q" "outbox_key_exists q key"
  shows "length (filter (\<lambda>(k, x). idempotency_key x = Some key) q) = 1"
  using assms
proof (induction q)
  case (Cons y q)
  obtain k x where y: "y = (k, x)" by (cases y)
  have tail: "keys_unique q" using Cons.prems(1) by (auto simp: keys_unique_def map_filter_simps split: option.splits)
  show ?case
  proof (cases "idempotency_key x = Some key")
    case True
    then have "key \<notin> set (List.map_filter (\<lambda>(k, r). idempotency_key r) q)"
      using Cons.prems(1) y by (simp add: keys_unique_def map_filter_simps)
    then have "filter (\<lambda>(k, x). idempotency_key x = Some key) q = []"
      by (auto simp: set_map_filter_iff filter_empty_conv)
    then show ?thesis using y True by simp
  next
    case False
    then show ?thesis using Cons.IH [OF tail] Cons.prems(2) y by (auto simp: key_exists_iff)
  qed
qed (simp add: outbox_key_exists_def)

lemma fired_is_fenced:
  assumes "later_law (fire_rrules env)" "0 \<le> escalation_count r" "rem_status r = RemPending"
    and "dget (fs_reminders s) i = Some (mark_fired (fire_rrules env) (fire_now env) r)" "fire_now env' \<le> fire_now env"
  shows "fire_one env' race (i, t) s = (s, Fenced)"
  using mark_fired_ends [OF assms(1-3) assms(5), of "\<lambda>_. True"] assms(4,5)
  by (auto simp: fire_one_def Let_def split: if_splits)


section \<open>A run\<close>

text \<open>The reminder for milk of one user with a Telegram account, fired at 60 and delivered.\<close>

definition sample_firing_env :: firing_env where
  "sample_firing_env = \<lparr>tenant_pref = \<lambda>_. Some None,
     users = [(''u1'', \<lparr>ur_tenant = ''t1'', telegram_account_id = Some ''7'', max_chat_id = None, last_bot_key = None\<rparr>)],
     workspaces = [(''w1'', ''t1'')], registry = Registry [''sreda''], fire_rrules = minutely, live_at_scan = \<lambda>_. True,
     live_at_fire = \<lambda>_. True, out_id = \<lambda>key. key, fire_now = 60\<rparr>"

definition to_fire :: firing_state where
  "to_fire = \<lparr>fs_reminders = reminders milk_db, fs_outbox = []\<rparr>"

definition after_fire :: firing_state where
  "after_fire = fst (fire_one sample_firing_env (\<lambda>_. None) (''r1'', ''t1'') to_fire)"

definition tg_routing :: outbox_routing where
  "tg_routing = \<lparr>rt_channel = ''telegram'', rt_chat_id = ''7'', rt_bot_key = None\<rparr>"

definition milk_id :: string where "milk_id = idem_key ''r1'' milk_reminder tg_routing"

definition milk_row :: outbox_row where
  "milk_row = outbox_message sample_firing_env ''w1'' ''r1'' milk_reminder tg_routing"

definition milk_leased :: "int \<Rightarrow> outbox_row" where
  "milk_leased t = milk_row\<lparr>claim_token := Some ''a'', lease_expires_at := Some t\<rparr>"

definition milk_state :: "outbox_row \<Rightarrow> worker option \<Rightarrow> string list \<Rightarrow> delivery_state" where
  "milk_state r w ds = \<lparr>rows = [(milk_id, r)], workers = (case w of None \<Rightarrow> [] | Some x \<Rightarrow> [(''a'', x)]), shared_clock = 100,
     delivered = ds\<rparr>"

lemma outbox_ok_sample: "outbox_ok sample_firing_env (\<lambda>_. None) []"
  by (simp add: outbox_ok_def keys_unique_def map_filter_simps legal_ids_def drawn_ids_def sample_firing_env_def)

lemma fire_sample:
  "fire_one sample_firing_env (\<lambda>_. None) (''r1'', ''t1'') to_fire = (after_fire, Fired)"
  "fs_outbox after_fire = [(milk_id, milk_row)]"
  by code_simp+


section \<open>The chain from reminder to delivery\<close>

text \<open>
  The reminder table, the outbox and any number of delivery workers together. The worker's
  transaction is one step; so is each operation of the reminder service and each step of delivery,
  of which the database only commits those that respect the unique index.
\<close>

type_synonym chain = "reminders \<times> delivery_state"

inductive chain_step :: "chain \<Rightarrow> chain \<Rightarrow> bool" where
  cs_fire: "outbox_ok env race (rows s) \<Longrightarrow>
     fire_one env race (i, t) \<lparr>fs_reminders = rs, fs_outbox = rows s\<rparr> = (s', out) \<Longrightarrow>
     chain_step (rs, s) (fs_reminders s', s\<lparr>rows := fs_outbox s'\<rparr>)"
| cs_service: "rem_step rs rs' \<Longrightarrow> chain_step (rs, s) (rs', s)"
| cs_deliver: "delivery_step s s' \<Longrightarrow> keys_unique (rows s') \<Longrightarrow> chain_step (rs, s) (rs, s')"

definition chain_init :: "chain \<Rightarrow> bool" where
  "chain_init c \<longleftrightarrow> no_reminders (fst c) \<and> delivery_init (snd c)"

definition chain_inv :: "chain \<Rightarrow> bool" where
  "chain_inv c \<longleftrightarrow> rem_inv (fst c) \<and> delivery_inv (snd c) \<and> keys_unique (rows (snd c))"

text \<open>For the delivery system a firing is a sequence of insertions.\<close>

lemma inserts_run:
  "dict_ok (q @ new) \<Longrightarrow> \<forall>(k, x)\<in>set new. unclaimed x \<Longrightarrow> delivery_step\<^sup>*\<^sup>* (s\<lparr>rows := q\<rparr>) (s\<lparr>rows := q @ new\<rparr>)"
proof (induction new arbitrary: q)
  case (Cons y new)
  obtain k x where y: "y = (k, x)" by (cases y)
  have "k \<notin> set (dkeys (rows (s\<lparr>rows := q\<rparr>)))" using Cons.prems(1) y by (auto simp: dict_ok_def)
  then have "delivery_step (s\<lparr>rows := q\<rparr>) ((s\<lparr>rows := q\<rparr>)\<lparr>rows := dput (rows (s\<lparr>rows := q\<rparr>)) k x\<rparr>)"
    using Cons.prems(2) y by (intro ds_insert) (auto simp: unclaimed_def)
  moreover have "dput q k x = q @ [y]" using Cons.prems(1) y by (subst dput_fresh) (auto simp: dict_ok_def)
  ultimately have "delivery_step (s\<lparr>rows := q\<rparr>) (s\<lparr>rows := q @ [y]\<rparr>)" by simp
  moreover have "delivery_step\<^sup>*\<^sup>* (s\<lparr>rows := q @ [y]\<rparr>) (s\<lparr>rows := (q @ [y]) @ new\<rparr>)"
    using Cons.prems by (intro Cons.IH) auto
  ultimately show ?case by (simp add: converse_rtranclp_into_rtranclp)
qed simp

lemma delivery_inv_run: "delivery_step\<^sup>*\<^sup>* s s' \<Longrightarrow> delivery_inv s \<Longrightarrow> delivery_inv s'"
  by (induction rule: rtranclp_induct) (auto intro: delivery_inv_step)

lemma grows_run:
  assumes "outbox_grows q q'" "dict_ok q'" shows "delivery_step\<^sup>*\<^sup>* (s\<lparr>rows := q\<rparr>) (s\<lparr>rows := q'\<rparr>)"
proof -
  obtain new where "q' = q @ new" "\<forall>(k, x)\<in>set new. unclaimed x" using assms(1) by (auto simp: outbox_grows_def)
  then show ?thesis using inserts_run assms(2) by simp
qed

lemma fire_one_ok:
  assumes "reminders_ok (fs_reminders s)" "outbox_ok env race (fs_outbox s)" "fire_one env race (i, t) s = (s', out)"
  shows "outbox_ok env race (fs_outbox s')" "outbox_grows (fs_outbox s) (fs_outbox s')"
    "fs_reminders s' = fs_reminders s \<or> rem_step (fs_reminders s) (fs_reminders s')"
proof -
  have step: "rem_step (fs_reminders s) (dput (fs_reminders s) i (mark_fired rr (fire_now env) r))"
    if "dget (fs_reminders s) i = Some r" "rr = fire_rrules env" for r rr
    using rs_fire [OF that(1)] advance_ok [OF assms(1) that(1), of env] that(2) unfolding advance_def by blast
  from assms(1) show "outbox_ok env race (fs_outbox s')" "outbox_grows (fs_outbox s) (fs_outbox s')"
    by (cases rule: fire_one_cases [where env = env and race = race and i = i and t = t];
      use assms(2,3) enqueue_outbox_ok [OF assms(2)] in auto)+
  from assms(1) show "fs_reminders s' = fs_reminders s \<or> rem_step (fs_reminders s) (fs_reminders s')"
    by (cases rule: fire_one_cases [where env = env and race = race and i = i and t = t])
      (use assms(3) step in auto)
qed

lemma chain_inv_init: "chain_init c \<Longrightarrow> chain_inv c"
  by (auto simp: chain_init_def chain_inv_def rem_inv_init delivery_inv_init keys_unique_def delivery_init_def map_filter_def)

lemma chain_inv_step:
  assumes "chain_inv c" "chain_step c c'" shows "chain_inv c'"
  using assms(2)
proof cases
  case (cs_fire env race s i t rs s' out)
  have ok: "rem_inv rs" "delivery_inv s" using assms(1) cs_fire(1) by (auto simp: chain_inv_def)
  note f = fire_one_ok [OF _ _ cs_fire(4)]
  have g: "outbox_ok env race (fs_outbox s')" "outbox_grows (rows s) (fs_outbox s')" "fs_reminders s' = rs \<or> rem_step rs (fs_reminders s')"
    using f ok(1) cs_fire(3) by (simp_all add: rem_inv_def)
  then have "delivery_step\<^sup>*\<^sup>* (s\<lparr>rows := rows s\<rparr>) (s\<lparr>rows := fs_outbox s'\<rparr>)" by (intro grows_run) (auto simp: outbox_ok_def)
  then have "delivery_inv (s\<lparr>rows := fs_outbox s'\<rparr>)" using delivery_inv_run ok(2) by simp
  then show ?thesis using g ok(1) rem_inv_step cs_fire(2) by (auto simp: chain_inv_def outbox_ok_def)
next
  case (cs_service rs rs' s)
  then show ?thesis using assms(1) rem_inv_step by (auto simp: chain_inv_def)
next
  case (cs_deliver s s' rs)
  then show ?thesis using assms(1) delivery_inv_step by (auto simp: chain_inv_def)
qed

interpretation chain: invariant_system chain_init chain_step chain_inv
  by unfold_locales (fact chain_inv_init, fact chain_inv_step)

abbreviation milk_tick :: "string list \<Rightarrow> flight \<Rightarrow> worker option" where
  "milk_tick ks f \<equiv> Some \<lparr>todo = ks, flight = f, tick_now = 100\<rparr>"

lemma run_fired: "reach chain_init chain_step (fs_reminders after_fire, milk_state milk_row None [])"
proof -
  let ?d = "\<lparr>rows = [], workers = [], shared_clock = 100, delivered = []\<rparr> :: delivery_state"
  have 0: "reach chain_init chain_step (reminders empty_db, ?d)"
    by (rule reach_init) (simp add: chain_init_def no_reminders_def empty_db_def delivery_init_def)
  have "rem_step (reminders empty_db) (reminders milk_db)"
    by (rule rs_schedule [OF _ milk_scheduled]) (simp add: legal_racer_def)
  then have 1: "reach chain_init chain_step (reminders milk_db, ?d)"
    using reach_step [OF 0] cs_service by blast
  have "chain_step (reminders milk_db, ?d) (fs_reminders after_fire, ?d\<lparr>rows := fs_outbox after_fire\<rparr>)"
    using fire_sample(1) outbox_ok_sample by (intro cs_fire) (simp_all add: to_fire_def)
  then show ?thesis using reach_step [OF 1] by (simp add: fire_sample(2) milk_state_def)
qed

lemma keys_unique_one: "keys_unique (rows (milk_state r w ds))"
  by (simp add: keys_unique_def milk_state_def map_filter_simps split: option.splits)

lemma run_delivered: "reach chain_init chain_step
  (fs_reminders after_fire, milk_state (milk_row\<lparr>status := OutSent\<rparr>) (milk_tick [] Idle) [milk_id])"
proof -
  have go: "reach chain_init chain_step (rs, milk_state r' w' ds')"
    if "reach chain_init chain_step (rs, milk_state r w ds)" "delivery_step (milk_state r w ds) (milk_state r' w' ds')"
    for rs r w ds r' w' ds'
    using that by (blast intro: reach_step cs_deliver keys_unique_one)
  note set = set_worker_def milk_state_def
  have "claim_batch (rows (milk_state milk_row None [])) ''a'' (shared_clock (milk_state milk_row None [])) 1 =
      ([(milk_id, milk_leased 60000100)], [(milk_id, ''t1'')])" by code_simp
  from ds_claim [OF _ this] have "delivery_step (milk_state milk_row None [])
      (milk_state (milk_leased 60000100) (milk_tick [milk_id] Idle) [])" by (simp add: set)
  note 1 = go [OF run_fired this]
  have "reclaim_row (rows (milk_state (milk_leased 60000100) (milk_tick [milk_id] Idle) [])) milk_id ''a''
      (shared_clock (milk_state (milk_leased 60000100) (milk_tick [milk_id] Idle) [])) = ([(milk_id, milk_leased 40000100)], True)"
    by code_simp
  from ds_start [OF _ _ _ this, of "the (milk_tick [milk_id] Idle)" "[]" "milk_leased 40000100"]
  have "delivery_step (milk_state (milk_leased 60000100) (milk_tick [milk_id] Idle) [])
      (milk_state (milk_leased 40000100) (milk_tick [] (Flying milk_id 100 (milk_leased 40000100))) [])"
    by (simp add: set)
  note 2 = go [OF 1 this]
  let ?s = "milk_state (milk_leased 40000100) (milk_tick [] (Flying milk_id 100 (milk_leased 40000100))) []"
  define a where "a = process_one sample_delivery_env 100 (milk_leased 40000100)"
  have a: "fst a = Some (milk_row\<lparr>status := OutSent\<rparr>)" unfolding a_def by code_simp
  then have c: "commit_attempt (rows ?s) milk_id (milk_leased 40000100) a = [(milk_id, milk_row\<lparr>status := OutSent\<rparr>)]"
    by (simp add: commit_attempt_def orm_flush_def changed_def milk_state_def milk_leased_def)
  have "delivery_step ?s (milk_state (milk_row\<lparr>status := OutSent\<rparr>) (milk_tick [] Idle) [milk_id])"
    using ds_finish [where s = ?s and tok = "''a''" and row_id = milk_id and ?t0.0 = 100
        and w = "the (milk_tick [] (Flying milk_id 100 (milk_leased 40000100)))" and r = "milk_leased 40000100"
        and env = sample_delivery_env and a = a] c a deadline_within_lease(1)
    by (simp add: set record_sent_def a_def)
  then show ?thesis using go [OF 2] by blast
qed

lemma fire_all_run:
  "rem_inv (fs_reminders f) \<Longrightarrow> outbox_ok env race (fs_outbox f) \<Longrightarrow> fire_all env race ds f = (f', n) \<Longrightarrow>
     chain_step\<^sup>*\<^sup>* (fs_reminders f, s\<lparr>rows := fs_outbox f\<rparr>) (fs_reminders f', s\<lparr>rows := fs_outbox f'\<rparr>)"
proof (induction ds arbitrary: f n)
  case (Cons d ds)
  obtain i t where d: "d = (i, t)" by (cases d)
  obtain f1 out where f1: "fire_one env race (i, t) f = (f1, out)" by (metis prod.exhaust)
  then obtain m where m: "fire_all env race ds f1 = (f', m)" using Cons.prems(3) d by (auto split: prod.splits)
  have ok: "reminders_ok (fs_reminders f)" using Cons.prems(1) by (simp add: rem_inv_def)
  note one = fire_one_ok [OF ok Cons.prems(2) f1]
  have "rem_inv (fs_reminders f1)" using one(3) Cons.prems(1) rem_inv_step by auto
  note rest = Cons.IH [OF this one(1) m]
  have "chain_step (fs_reminders f, s\<lparr>rows := fs_outbox f\<rparr>)
      (fs_reminders f1, (s\<lparr>rows := fs_outbox f\<rparr>)\<lparr>rows := fs_outbox f1\<rparr>)"
    by (rule cs_fire [where env = env and race = race and i = i and t = t and out = out]) (use Cons.prems(2) f1 in \<open>cases f; simp\<close>)+
  then show ?case using rest by (simp add: converse_rtranclp_into_rtranclp)
qed simp

text \<open>
  the worker's tick is a run of the chain. \<open>process_pending\<close> as a whole, the scan and a transaction
  per due reminder, does nothing that the steps of the chain do not do, so what holds of all
  interleavings holds of it.
\<close>

theorem reminder_tick_refines_chain:
  assumes "rem_inv rs" "outbox_ok env race (rows s)"
    and "reminder_tick env race limit \<lparr>fs_reminders = rs, fs_outbox = rows s\<rparr> = (f, n)"
  shows "chain_step\<^sup>*\<^sup>* (rs, s) (fs_reminders f, s\<lparr>rows := fs_outbox f\<rparr>)"
  using fire_all_run [where f = "\<lparr>fs_reminders = rs, fs_outbox = rows s\<rparr>" and s = s] assms
  by (simp add: reminder_tick_def)

lemma count_delivered: "distinct xs \<Longrightarrow> x \<in> set xs \<Longrightarrow> count_list xs x = 1"
  by (induction xs) auto

theorem reminder_tick_refines_chain_witness:
  "chain_step\<^sup>*\<^sup>* (reminders milk_db, milk_state milk_row None []\<lparr>rows := []\<rparr>)
    (fs_reminders after_fire, milk_state milk_row None []\<lparr>rows := []\<rparr>\<lparr>rows := fs_outbox after_fire\<rparr>)"
proof (rule reminder_tick_refines_chain)
  have "rem_step (reminders empty_db) (reminders milk_db)"
    by (rule rs_schedule [OF _ milk_scheduled]) (simp add: legal_racer_def)
  moreover have "rem_inv (reminders empty_db)" by (rule rem_inv_init) (simp add: no_reminders_def empty_db_def)
  ultimately show "rem_inv (reminders milk_db)" by (blast intro: rem_inv_step)
  show "outbox_ok sample_firing_env (\<lambda>_. None) (rows (milk_state milk_row None []\<lparr>rows := []\<rparr>))"
    using outbox_ok_sample by simp
  show "reminder_tick sample_firing_env (\<lambda>_. None) 5
      \<lparr>fs_reminders = reminders milk_db, fs_outbox = rows (milk_state milk_row None []\<lparr>rows := []\<rparr>)\<rparr> = (after_fire, 1)"
    by code_simp
qed



end
