(* ===== verification/Shopping.thy ===== *)
theory Shopping
  imports Reminders "HOL-Library.Char_ord" "HOL-Library.List_Lexorder"
begin

text \<open>
  \<open>services/housewife_shopping.py\<close>: the shopping list, on the table \<open>shopping_list_items\<close>
  (\<open>db/models/housewife_food.py\<close>) as a dictionary from id to row. The taxonomy of categories and
  the keywords of the classifier, which are Russian words, are a parameter (\<open>taxonomy\<close>), as are lower
  case, the digests and the ids drawn for new rows. Operations of one user run one after another.
\<close>

section \<open>The table\<close>

datatype sh_status = ShPending | ShBought | ShCancelled

record shopping_item =
  sh_tenant :: string
  sh_user :: string
  sh_title :: string
  sh_quantity :: "string option"
  sh_category :: string
  sh_status :: sh_status
  sh_source :: "string option"
  sh_added_at :: int
  sh_updated_at :: int
  sh_op :: "string option"
  sh_hash :: "string option"

type_synonym shopping = "(string, shopping_item) dict"

text \<open>The unique index on tenant, user and operation.\<close>

definition sh_op_key :: "shopping_item \<Rightarrow> (string \<times> string \<times> string) option" where
  "sh_op_key r = map_option (\<lambda>op. (sh_tenant r, sh_user r, op)) (sh_op r)"

definition shopping_ok :: "shopping \<Rightarrow> bool" where
  "shopping_ok q \<longleftrightarrow> dict_ok q \<and> distinct (List.map_filter sh_op_key (dvals q))"

datatype shopping_error = ShValueError string | ShIntegrityError | ShAuditError emit_error

definition sh_owned :: "string \<Rightarrow> string \<Rightarrow> shopping_item \<Rightarrow> bool" where
  "sh_owned tenant user r \<longleftrightarrow> sh_tenant r = tenant \<and> sh_user r = user"

section \<open>Titles and categories\<close>

record taxonomy =
  SHOPPING_CATEGORIES :: "string list"
  DEFAULT_CATEGORY :: string
  CATEGORY_KEYWORDS :: "(string \<times> string list) list"

record shop_env =
  sh_texts :: hash_env
  sh_sha1 :: "string \<Rightarrow> string"
  sh_tax :: taxonomy
  sh_digest :: "vdict \<Rightarrow> string"
  sh_race :: bool \<comment> \<open>another transaction writes the audit row of the step first\<close>
  sh_now :: int
  sh_new_id :: "nat \<Rightarrow> string"

definition squeeze :: "string \<Rightarrow> string" where
  "squeeze s = join_with '' '' (split_ws s)"

definition normalise_title :: "shop_env \<Rightarrow> string \<Rightarrow> string" where
  "normalise_title env t = (if t = [] then [] else squeeze (lower (sh_texts env) (strip t)))"

definition coerce_category :: "shop_env \<Rightarrow> string option \<Rightarrow> string" where
  "coerce_category env raw =
     (if raw = None \<or> raw = Some [] then DEFAULT_CATEGORY (sh_tax env)
      else
        (let candidate = squeeze (lower (sh_texts env) (strip (the raw))) in
         if candidate = [] then DEFAULT_CATEGORY (sh_tax env)
         else if candidate \<in> set (SHOPPING_CATEGORIES (sh_tax env)) then candidate
         else take 64 candidate))"

definition guess_category :: "shop_env \<Rightarrow> string \<Rightarrow> string" where
  "guess_category env t =
     (let low = strip (lower (sh_texts env) t) in
      if low = [] then DEFAULT_CATEGORY (sh_tax env)
      else
        (case find (\<lambda>(cat, kws). list_ex (\<lambda>kw. sublist kw low) kws) (CATEGORY_KEYWORDS (sh_tax env)) of
           None \<Rightarrow> DEFAULT_CATEGORY (sh_tax env)
         | Some (cat, kws) \<Rightarrow> cat))"

section \<open>Reading\<close>

fun index_of :: "'a \<Rightarrow> 'a list \<Rightarrow> nat" where
  "index_of x [] = 0"
| "index_of x (y # ys) = (if x = y then 0 else Suc (index_of x ys))"

text \<open>The order of the query, then the stable sort by the place in the taxonomy.\<close>

definition list_by_status :: "shop_env \<Rightarrow> string \<Rightarrow> string \<Rightarrow> sh_status list \<Rightarrow> shopping \<Rightarrow> shopping" where
  "list_by_status env tenant user statuses q =
     (let rows = sort_key (\<lambda>(k, r). sh_category r) (sort_key (\<lambda>(k, r). sh_added_at r)
            (filter (\<lambda>(k, r). sh_owned tenant user r \<and> sh_status r \<in> set statuses) q))
      in sort_key (\<lambda>(k, r). index_of (sh_category r) (SHOPPING_CATEGORIES (sh_tax env)))
           (sort_key (\<lambda>(k, r). sh_added_at r) rows))"

definition list_pending :: "shop_env \<Rightarrow> string \<Rightarrow> string \<Rightarrow> shopping \<Rightarrow> shopping" where
  "list_pending env tenant user q = list_by_status env tenant user [ShPending] q"

definition count_pending :: "string \<Rightarrow> string \<Rightarrow> shopping \<Rightarrow> nat" where
  "count_pending tenant user q = length (filter (\<lambda>(k, r). sh_owned tenant user r \<and> sh_status r = ShPending) q)"

section \<open>Adding\<close>

record item_input =
  in_title :: string
  in_quantity :: "string option"
  in_category :: "string option"
  in_source :: "string option"

text \<open>An element of the list of items: already typed, a dictionary, or anything else.\<close>

record raw_item =
  raw_title :: "string option"
  raw_quantity :: "string option"
  raw_category :: "string option"
  raw_source :: "string option"

datatype raw_input = TypedItem item_input | DictItem raw_item | OtherItem

definition text_or_empty :: "string option \<Rightarrow> string" where
  "text_or_empty s = (case s of None \<Rightarrow> [] | Some x \<Rightarrow> x)"

definition non_empty :: "string \<Rightarrow> string option" where
  "non_empty s = (if s = [] then None else Some s)"

fun normalise_item :: "raw_input \<Rightarrow> item_input option" where
  "normalise_item (TypedItem i) = Some i"
| "normalise_item (DictItem r) =
     (let t = strip (text_or_empty (raw_title r)) in
      if t = [] then None
      else Some \<lparr>in_title = take 500 t, in_quantity = non_empty (take 64 (strip (text_or_empty (raw_quantity r)))),
                 in_category = raw_category r, in_source = raw_source r\<rparr>)"
| "normalise_item OtherItem = None"

definition normalise_items :: "raw_input list \<Rightarrow> item_input list" where
  "normalise_items xs = List.map_filter normalise_item xs"

record add_result =
  ordered_rows :: "string list"
  created :: "string list"
  duplicates_existing :: "string list"
  duplicates_in_batch :: "string list"
  replayed :: "string list"
  duplicate_item_ids :: "string list"

definition no_result :: add_result where
  "no_result = \<lparr>ordered_rows = [], created = [], duplicates_existing = [], duplicates_in_batch = [], replayed = [],
     duplicate_item_ids = []\<rparr>"

definition resolved_category :: "shop_env \<Rightarrow> item_input \<Rightarrow> string" where
  "resolved_category env i =
     (case in_category i of
        None \<Rightarrow> guess_category env (in_title i)
      | Some c \<Rightarrow> if c = [] then guess_category env (in_title i) else coerce_category env (Some c))"

definition new_item :: "shop_env \<Rightarrow> string \<Rightarrow> string \<Rightarrow> item_input \<Rightarrow> string option \<Rightarrow> string option \<Rightarrow> shopping_item" where
  "new_item env tenant user i op h =
     \<lparr>sh_tenant = tenant, sh_user = user, sh_title = in_title i, sh_quantity = in_quantity i,
      sh_category = resolved_category env i, sh_status = ShPending, sh_source = in_source i, sh_added_at = sh_now env,
      sh_updated_at = sh_now env, sh_op = op, sh_hash = h\<rparr>"

text \<open>\<open>setdefault\<close> over the pending rows keeps the first row of a title.\<close>

definition pending_by_title :: "shop_env \<Rightarrow> shopping \<Rightarrow> string \<Rightarrow> (string \<times> shopping_item) option" where
  "pending_by_title env pend norm = find (\<lambda>(k, r). normalise_title env (sh_title r) = norm) pend"

text \<open>
  The loop of the path without a runtime context. \<open>pend\<close> are the rows pending before the call,
  \<open>seen\<close> the titles of this batch so far, \<open>n\<close> counts the ids drawn.
\<close>

fun add_legacy ::
    "shop_env \<Rightarrow> string \<Rightarrow> string \<Rightarrow> shopping \<Rightarrow> item_input list \<Rightarrow> nat \<Rightarrow> string list \<Rightarrow> shopping \<times> add_result \<Rightarrow>
     shopping \<times> add_result" where
  "add_legacy env tenant user pend [] n seen (q, res) = (q, res)"
| "add_legacy env tenant user pend (i # is) n seen (q, res) =
     (let norm = normalise_title env (in_title i) in
      case pending_by_title env pend norm of
        Some (k, r) \<Rightarrow>
          add_legacy env tenant user pend is n seen
            (q, res\<lparr>duplicates_existing := duplicates_existing res @ [sh_title r],
                    duplicate_item_ids := duplicate_item_ids res @ [k]\<rparr>)
      | None \<Rightarrow>
          if norm \<in> set seen
          then add_legacy env tenant user pend is n seen
                 (q, res\<lparr>duplicates_in_batch := duplicates_in_batch res @ [in_title i]\<rparr>)
          else add_legacy env tenant user pend is (Suc n) (norm # seen)
                 (q @ [(sh_new_id env n, new_item env tenant user i None None)],
                  res\<lparr>created := created res @ [sh_new_id env n], ordered_rows := ordered_rows res @ [sh_new_id env n]\<rparr>))"

text \<open>The context of a plan step: the ReAct fields and the id the ledger knows the step by.\<close>

record shop_ctx = sched_ctx +
  ctx_op :: string

definition item_op_id :: "shop_env \<Rightarrow> shop_ctx \<Rightarrow> item_input \<Rightarrow> string" where
  "item_op_id env c i =
     compute_operation_id_create (sh_sha1 env) (ctx_execution_id c) (ctx_step_id c) ''create'' ''shopping_list_item''
       (normalize_for_dedup (text_env.truncate (sh_texts env)) (in_title i))"

definition find_sh_op :: "string \<Rightarrow> string \<Rightarrow> string \<Rightarrow> shopping \<Rightarrow> (string \<times> shopping_item) option" where
  "find_sh_op tenant user op q = find (\<lambda>(k, r). sh_op_key r = Some (tenant, user, op)) q"

text \<open>\<open>INSERT ... ON CONFLICT DO NOTHING\<close> and the lookup by operation id; the flag is \<open>rowcount == 1\<close>.\<close>

definition insert_item ::
    "string \<Rightarrow> string \<Rightarrow> string \<Rightarrow> string \<Rightarrow> shopping_item \<Rightarrow> shopping \<Rightarrow> shopping_error + (shopping \<times> string \<times> bool)" where
  "insert_item tenant user op i r q =
     (case find_sh_op tenant user op q of
        Some (k, x) \<Rightarrow> Inr (q, k, False)
      | None \<Rightarrow> if i \<in> set (dkeys q) then Inl ShIntegrityError else Inr (q @ [(i, r)], i, True))"

fun add_planner ::
    "shop_env \<Rightarrow> shop_ctx \<Rightarrow> string \<Rightarrow> string \<Rightarrow> shopping \<Rightarrow> item_input list \<Rightarrow> nat \<Rightarrow> string list \<Rightarrow>
     shopping \<times> add_result \<Rightarrow> shopping_error + (shopping \<times> add_result)" where
  "add_planner env c tenant user pend [] n seen (q, res) = Inr (q, res)"
| "add_planner env c tenant user pend (i # is) n seen (q, res) =
     (let norm = normalise_title env (in_title i); op = item_op_id env c i in
      case pending_by_title env pend norm of
        Some (k, r) \<Rightarrow>
          add_planner env c tenant user pend is n seen
            (q, (if sh_op r = Some op
                 then res\<lparr>ordered_rows := ordered_rows res @ [k], replayed := replayed res @ [k]\<rparr>
                 else res\<lparr>ordered_rows := ordered_rows res @ [k], duplicates_existing := duplicates_existing res @ [sh_title r],
                          duplicate_item_ids := duplicate_item_ids res @ [k]\<rparr>))
      | None \<Rightarrow>
          if norm \<in> set seen
          then add_planner env c tenant user pend is n seen
                 (q, res\<lparr>duplicates_in_batch := duplicates_in_batch res @ [in_title i]\<rparr>)
          else
            bind_res (insert_item tenant user op (sh_new_id env n)
                (new_item env tenant user i (Some op)
                  (Some (compute_normalized_title_hash (sh_texts env) (in_title i) ''shopping_list_item'' tenant user []))) q)
              (\<lambda>(q', k, inserted).
                add_planner env c tenant user pend is (Suc n) (norm # seen)
                  (q', (if inserted
                        then res\<lparr>ordered_rows := ordered_rows res @ [k], created := created res @ [k]\<rparr>
                        else res\<lparr>ordered_rows := ordered_rows res @ [k], replayed := replayed res @ [k]\<rparr>))))"

definition step_audit :: "shop_env \<Rightarrow> shop_ctx \<Rightarrow> string \<Rightarrow> string \<Rightarrow> audit_event" where
  "step_audit env c tenant user =
     \<lparr>row_id = 0, ev_operation_id = ctx_op c, ev_tenant = tenant, ev_user = Some user, ev_source = SREDA,
      entity_type = ''shopping_list_item'', entity_id = None, ev_action = ''created'', payload = None, payload_hash = None,
      caused_by = (if ctx_origin (ctx_audit c) = Some ''react'' then Some (react_cause (ctx_audit c)) else None),
      occurred_at = sh_now env\<rparr>"

record shop_db =
  sh_rows :: shopping
  sh_audit :: audit_db

text \<open>One audit row per step, in the same transaction; only a race on it is absorbed.\<close>

definition audit_step :: "shop_env \<Rightarrow> shop_ctx \<Rightarrow> string \<Rightarrow> string \<Rightarrow> audit_db \<Rightarrow> shopping_error + audit_db" where
  "audit_step env c tenant user a =
     (case emit_event (sh_digest env) (sh_race env) a (step_audit env c tenant user) (sh_now env) of
        Inr (a', e) \<Rightarrow> Inr a'
      | Inl IntegrityFault \<Rightarrow> Inr a
      | Inl e \<Rightarrow> Inl (ShAuditError e))"

definition add_items_detailed ::
    "shop_env \<Rightarrow> shop_ctx option \<Rightarrow> string \<Rightarrow> string \<Rightarrow> raw_input list \<Rightarrow> shop_db \<Rightarrow> shopping_error + (shop_db \<times> add_result)" where
  "add_items_detailed env ctx tenant user items db =
     (let normalised = normalise_items items; pend = list_pending env tenant user (sh_rows db) in
      case ctx of
        None \<Rightarrow>
          (case add_legacy env tenant user pend normalised 0 [] (sh_rows db, no_result) of
             (q, res) \<Rightarrow> if shopping_ok q then Inr (db\<lparr>sh_rows := q\<rparr>, res) else Inl ShIntegrityError)
      | Some c \<Rightarrow>
          if ctx_tenant c \<noteq> [] \<and> ctx_tenant c \<noteq> tenant then Inl (ShValueError ''tenant'')
          else
            bind_res (add_planner env c tenant user pend normalised 0 [] (sh_rows db, no_result)) (\<lambda>(q, res).
              if normalised = [] then Inr (db\<lparr>sh_rows := q\<rparr>, res)
              else bind_res (audit_step env c tenant user (sh_audit db)) (\<lambda>a.
                     Inr (\<lparr>sh_rows = q, sh_audit = a\<rparr>, res))))"

section \<open>Changing items\<close>

record bulk_result =
  bulk_affected :: "string list"
  bulk_not_eligible :: "string list"
  bulk_not_found :: nat

definition bulk_update_status ::
    "int \<Rightarrow> string \<Rightarrow> string \<Rightarrow> string list \<Rightarrow> sh_status \<Rightarrow> sh_status list \<Rightarrow> shopping \<Rightarrow> shopping \<times> bulk_result" where
  "bulk_update_status now tenant user ids st only_from q =
     (let unique_ids = remdups ids;
          rows = filter (\<lambda>(k, r). sh_owned tenant user r \<and> k \<in> set unique_ids) q;
          hit = (\<lambda>(k, r). sh_owned tenant user r \<and> k \<in> set unique_ids \<and> sh_status r \<in> set only_from)
      in (map (\<lambda>(k, r). (k, if hit (k, r) then r\<lparr>sh_status := st, sh_updated_at := now\<rparr> else r)) q,
          \<lparr>bulk_affected = map fst (filter hit rows),
           bulk_not_eligible = map (\<lambda>(k, r). sh_title r) (filter (\<lambda>x. \<not> hit x) rows),
           bulk_not_found = length unique_ids - length rows\<rparr>))"

definition mark_bought :: "int \<Rightarrow> string \<Rightarrow> string \<Rightarrow> string list \<Rightarrow> shopping \<Rightarrow> shopping \<times> bulk_result" where
  "mark_bought now tenant user ids q = bulk_update_status now tenant user ids ShBought [ShPending] q"

definition remove_items :: "int \<Rightarrow> string \<Rightarrow> string \<Rightarrow> string list \<Rightarrow> shopping \<Rightarrow> shopping \<times> bulk_result" where
  "remove_items now tenant user ids q = bulk_update_status now tenant user ids ShCancelled [ShPending, ShBought] q"

definition delete_by_source_recipe :: "string \<Rightarrow> string \<Rightarrow> string \<Rightarrow> shopping \<Rightarrow> shopping \<times> nat" where
  "delete_by_source_recipe tenant user recipe q =
     (if recipe = [] then (q, 0)
      else (let gone = (\<lambda>(k, r). sh_owned tenant user r \<and> sh_source r = Some recipe)
            in (filter (\<lambda>x. \<not> gone x) q, length (filter gone q))))"

definition update_item ::
    "shop_env \<Rightarrow> string \<Rightarrow> string \<Rightarrow> string \<Rightarrow> string option \<Rightarrow> string option \<Rightarrow> string option \<Rightarrow> shopping \<Rightarrow>
     shopping \<times> string option" where
  "update_item env tenant user i new_title quantity category q =
     (case dget q i of
        None \<Rightarrow> (q, None)
      | Some r \<Rightarrow>
          if \<not> sh_owned tenant user r then (q, None)
          else
            (let r1 = (case new_title of None \<Rightarrow> r
                       | Some t \<Rightarrow> if strip t = [] then r else r\<lparr>sh_title := take 500 (strip t)\<rparr>);
                 r2 = (case quantity of None \<Rightarrow> r1 | Some x \<Rightarrow> r1\<lparr>sh_quantity := non_empty (take 64 (strip x))\<rparr>);
                 r3 = (case category of None \<Rightarrow> r2 | Some x \<Rightarrow> r2\<lparr>sh_category := coerce_category env (Some x)\<rparr>)
             in (dput q i (r3\<lparr>sh_updated_at := sh_now env\<rparr>), Some (sh_title r))))"

definition update_items_category ::
    "shop_env \<Rightarrow> string \<Rightarrow> string \<Rightarrow> string list \<Rightarrow> string \<Rightarrow> shopping \<Rightarrow> shopping \<times> bulk_result \<times> string" where
  "update_items_category env tenant user ids category q =
     (let cat = coerce_category env (Some category); unique_ids = remdups ids;
          hit = (\<lambda>(k, r). sh_owned tenant user r \<and> k \<in> set unique_ids)
      in (map (\<lambda>(k, r). (k, if hit (k, r) then r\<lparr>sh_category := cat, sh_updated_at := sh_now env\<rparr> else r)) q,
          \<lparr>bulk_affected = map fst (filter hit q), bulk_not_eligible = [],
           bulk_not_found = length unique_ids - length (filter hit q)\<rparr>, cat))"

definition cancel_all :: "int \<Rightarrow> string \<Rightarrow> string \<Rightarrow> sh_status \<Rightarrow> shopping \<Rightarrow> shopping \<times> nat" where
  "cancel_all now tenant user st q =
     (let hit = (\<lambda>r. sh_owned tenant user r \<and> sh_status r = st)
      in (map (\<lambda>(k, r). (k, if hit r then r\<lparr>sh_status := ShCancelled, sh_updated_at := now\<rparr> else r)) q,
          length (filter (\<lambda>(k, r). hit r) q)))"

definition clear_pending :: "int \<Rightarrow> string \<Rightarrow> string \<Rightarrow> shopping \<Rightarrow> shopping \<times> nat" where
  "clear_pending now tenant user q = cancel_all now tenant user ShPending q"

definition clear_bought :: "int \<Rightarrow> string \<Rightarrow> string \<Rightarrow> shopping \<Rightarrow> shopping \<times> nat" where
  "clear_bought now tenant user q = cancel_all now tenant user ShBought q"

section \<open>What an addition leaves behind\<close>

text \<open>The rows a call adds: new ids, pending, of titles that were not pending, each title once.\<close>

definition fresh_rows :: "shop_env \<Rightarrow> string \<Rightarrow> string \<Rightarrow> shopping \<Rightarrow> string list \<Rightarrow> shopping \<Rightarrow> bool" where
  "fresh_rows env tenant user pend seen new \<longleftrightarrow>
     distinct (map (\<lambda>(k, x). normalise_title env (sh_title x)) new) \<and>
     (\<forall>(k, x)\<in>set new. k \<in> range (sh_new_id env) \<and> sh_owned tenant user x \<and> sh_status x = ShPending \<and> normalise_title env (sh_title x) \<notin> set seen \<and>
        pending_by_title env pend (normalise_title env (sh_title x)) = None)"

lemma fresh_rows_Nil [simp]: "fresh_rows env tenant user pend seen []"
  by (simp add: fresh_rows_def)

lemma fresh_rows_Cons:
  "fresh_rows env tenant user pend (normalise_title env (sh_title x) # seen) new \<Longrightarrow> k \<in> range (sh_new_id env) \<Longrightarrow> sh_owned tenant user x \<Longrightarrow>
     sh_status x = ShPending \<Longrightarrow> normalise_title env (sh_title x) \<notin> set seen \<Longrightarrow>
     pending_by_title env pend (normalise_title env (sh_title x)) = None \<Longrightarrow> fresh_rows env tenant user pend seen ((k, x) # new)"
  by (auto simp: fresh_rows_def)

lemma fresh_rows_mono: "fresh_rows env tenant user pend (s # seen) new \<Longrightarrow> fresh_rows env tenant user pend seen new"
  by (auto simp: fresh_rows_def)

lemma new_item_simps [simp]:
  "sh_owned tenant user (new_item env tenant user i op h)" "sh_status (new_item env tenant user i op h) = ShPending"
  "sh_title (new_item env tenant user i op h) = in_title i" "sh_op (new_item env tenant user i op h) = op"
  by (simp_all add: new_item_def sh_owned_def)

lemma add_legacy_rows:
  "add_legacy env tenant user pend is n seen (q, res) = (q', res') \<Longrightarrow>
     \<exists>new. q' = q @ new \<and> created res' = created res @ dkeys new \<and> fresh_rows env tenant user pend seen new \<and>
       length new + length (duplicates_existing res') + length (duplicates_in_batch res') =
         length is + length (duplicates_existing res) + length (duplicates_in_batch res)"
proof (induction "is" arbitrary: n seen q res)
  case (Cons i "is")
  let ?norm = "normalise_title env (in_title i)"
  show ?case
  proof (cases "pending_by_title env pend ?norm")
    case (Some x)
    then show ?thesis using Cons by (cases x) (fastforce simp: Let_def)
  next
    case None
    show ?thesis
    proof (cases "?norm \<in> set seen")
      case True
      then show ?thesis using Cons None by (fastforce simp: Let_def)
    next
      case False
      let ?x = "(sh_new_id env n, new_item env tenant user i None None)"
      obtain new where "q' = (q @ [?x]) @ new" "created res' = (created res @ [sh_new_id env n]) @ dkeys new"
        "fresh_rows env tenant user pend (?norm # seen) new"
        "length new + length (duplicates_existing res') + length (duplicates_in_batch res') =
           length is + length (duplicates_existing res) + length (duplicates_in_batch res)"
        using Cons None False by (fastforce simp: Let_def)
      moreover from this(3) have "fresh_rows env tenant user pend seen (?x # new)"
        using None False by (intro fresh_rows_Cons) simp_all
      ultimately show ?thesis by (intro exI [of _ "?x # new"]) simp
    qed
  qed
qed simp

lemma find_sh_op_mem: "find_sh_op tenant user op q = Some (k, r) \<Longrightarrow> (k, r) \<in> set q \<and> sh_op_key r = Some (tenant, user, op)"
  using nth_mem by (fastforce simp: find_sh_op_def find_Some_iff)

lemma find_sh_op_append:
  "find_sh_op tenant user op (q @ new) =
     (case find_sh_op tenant user op q of None \<Rightarrow> find_sh_op tenant user op new | Some x \<Rightarrow> Some x)"
  by (induction q) (auto simp: find_sh_op_def)

lemma insert_item_cases:
  assumes "insert_item tenant user op i r q = Inr (q', k, b)"
  obtains (known) x where "find_sh_op tenant user op q = Some (k, x)" "q' = q" "\<not> b"
  | (new) "find_sh_op tenant user op q = None" "i \<notin> set (dkeys q)" "q' = q @ [(i, r)]" "k = i" "b"
proof (cases "find_sh_op tenant user op q")
  case None
  then have "i \<notin> set (dkeys q)" "q' = q @ [(i, r)]" "k = i" "b"
    using assms by (auto simp: insert_item_def split: if_splits)
  with None show thesis by (rule new)
next
  case (Some y)
  then have "find_sh_op tenant user op q = Some (k, snd y)" "q' = q" "\<not> b"
    using assms by (cases y, simp add: insert_item_def)+
  then show thesis by (rule known)
qed

text \<open>The planner's rows carry the operation id of an item of the call.\<close>

definition from_items :: "shop_env \<Rightarrow> shop_ctx \<Rightarrow> item_input list \<Rightarrow> shopping \<Rightarrow> bool" where
  "from_items env c is new \<longleftrightarrow>
     (\<forall>(k, x)\<in>set new. \<exists>i\<in>set is. sh_title x = in_title i \<and> sh_op x = Some (item_op_id env c i))"

lemma add_planner_rows:
  "add_planner env c tenant user pend is n seen (q, res) = Inr (q', res') \<Longrightarrow> shopping_ok q \<Longrightarrow>
     shopping_ok q' \<and> (\<exists>new. q' = q @ new \<and> created res' = created res @ dkeys new \<and>
       fresh_rows env tenant user pend seen new \<and> from_items env c is new)"
proof (induction "is" arbitrary: n seen q res)
  case (Cons i "is")
  let ?norm = "normalise_title env (in_title i)" and ?op = "item_op_id env c i"
  have weaken: "from_items env c (i # is) new" if "from_items env c is new" for new
    using that by (fastforce simp: from_items_def)
  show ?case
  proof (cases "pending_by_title env pend ?norm")
    case (Some x)
    obtain k r where x: "x = (k, r)" by (cases x)
    define res1 where "res1 = (if sh_op r = Some ?op
      then res\<lparr>ordered_rows := ordered_rows res @ [k], replayed := replayed res @ [k]\<rparr>
      else res\<lparr>ordered_rows := ordered_rows res @ [k], duplicates_existing := duplicates_existing res @ [sh_title r],
        duplicate_item_ids := duplicate_item_ids res @ [k]\<rparr>)"
    have "add_planner env c tenant user pend is n seen (q, res1) = Inr (q', res')"
      using Cons.prems(1) Some by (simp add: x Let_def res1_def)
    moreover have "created res1 = created res" by (simp add: res1_def)
    ultimately show ?thesis using Cons.IH [OF _ Cons.prems(2)] weaken by metis
  next
    case None
    show ?thesis
    proof (cases "?norm \<in> set seen")
      case True
      let ?res = "res\<lparr>duplicates_in_batch := duplicates_in_batch res @ [in_title i]\<rparr>"
      have "add_planner env c tenant user pend is n seen (q, ?res) = Inr (q', res')"
        using Cons.prems(1) None True by (simp add: Let_def)
      moreover have "created ?res = created res" by simp
      ultimately show ?thesis using Cons.IH [OF _ Cons.prems(2)] weaken by metis
    next
      case False
      define row where "row = new_item env tenant user i (Some ?op)
        (Some (compute_normalized_title_hash (sh_texts env) (in_title i) ''shopping_list_item'' tenant user []))"
      obtain q1 k b where ins: "insert_item tenant user ?op (sh_new_id env n) row q = Inr (q1, k, b)"
        and rest: "add_planner env c tenant user pend is (Suc n) (?norm # seen)
          (q1, (if b then res\<lparr>ordered_rows := ordered_rows res @ [k], created := created res @ [k]\<rparr>
                else res\<lparr>ordered_rows := ordered_rows res @ [k], replayed := replayed res @ [k]\<rparr>)) = Inr (q', res')"
        using Cons.prems(1) None False by (auto simp: Let_def bind_res_eq_Inr row_def)
      from ins show ?thesis
      proof (cases rule: insert_item_cases)
        case (known x)
        then have "shopping_ok q' \<and> (\<exists>new. q' = q @ new \<and> created res' = created res @ dkeys new \<and>
            fresh_rows env tenant user pend (?norm # seen) new \<and> from_items env c is new)"
          using Cons.IH [OF rest] Cons.prems(2) by simp
        then show ?thesis using weaken fresh_rows_mono by blast
      next
        case new
        have key: "sh_op_key row = Some (tenant, user, ?op)" by (simp add: row_def new_item_def sh_op_key_def)
        have "(tenant, user, ?op) \<notin> set (List.map_filter sh_op_key (dvals q))"
          using new(1) by (auto simp: find_sh_op_def find_None_iff set_map_filter_iff)
        then have "shopping_ok q1"
          using Cons.prems(2) new(2,3) key by (auto simp: shopping_ok_def dict_ok_def map_filter_snoc)
        from Cons.IH [OF rest this] obtain new' where n: "q' = q1 @ new'" "shopping_ok q'"
          "created res' = (created res @ [k]) @ dkeys new'" "fresh_rows env tenant user pend (?norm # seen) new'"
          "from_items env c is new'" using new(5) by auto
        have "fresh_rows env tenant user pend seen ((k, row) # new')"
          using n(4) new(4) None False by (intro fresh_rows_Cons) (simp_all add: row_def)
        moreover have "from_items env c (i # is) ((k, row) # new')"
          using weaken [OF n(5)] by (auto simp: from_items_def row_def)
        ultimately show ?thesis using n(1-3) new(3,4) by (intro conjI exI [of _ "(k, row) # new'"]) auto
      qed
    qed
  qed
qed (simp add: from_items_def)

section \<open>The life of a row\<close>

fun sh_rank :: "sh_status \<Rightarrow> nat" where
  "sh_rank ShPending = 0"
| "sh_rank ShBought = 1"
| "sh_rank ShCancelled = 2"

definition continues :: "shopping_item \<Rightarrow> shopping_item \<Rightarrow> bool" where
  "continues r r' \<longleftrightarrow>
     sh_tenant r' = sh_tenant r \<and> sh_user r' = sh_user r \<and> sh_source r' = sh_source r \<and> sh_added_at r' = sh_added_at r \<and>
     sh_op r' = sh_op r \<and> sh_hash r' = sh_hash r \<and> sh_rank (sh_status r) \<le> sh_rank (sh_status r')"

lemma continues_refl [simp, intro]: "continues r r"
  by (simp add: continues_def)

lemma continues_trans: "continues r s \<Longrightarrow> continues s t \<Longrightarrow> continues r t"
  by (auto simp: continues_def)

text \<open>
  Every operation of the service, on the table and the ids given out so far (a new id is one never
  given out).
\<close>

inductive sh_step :: "shopping \<times> string set \<Rightarrow> shopping \<times> string set \<Rightarrow> bool" where
  add: "add_items_detailed env ctx tenant user items \<lparr>sh_rows = q, sh_audit = a\<rparr> = Inr (db, res) \<Longrightarrow>
    range (sh_new_id env) \<inter> used = {} \<Longrightarrow> sh_step (q, used) (sh_rows db, used \<union> set (created res))"
| bought: "sh_step (q, used) (fst (mark_bought now tenant user ids q), used)"
| remove: "sh_step (q, used) (fst (remove_items now tenant user ids q), used)"
| recipe: "sh_step (q, used) (fst (delete_by_source_recipe tenant user rid q), used)"
| update: "sh_step (q, used) (fst (update_item env tenant user i t qty cat q), used)"
| category: "sh_step (q, used) (fst (update_items_category env tenant user ids cat q), used)"
| clear_pending: "sh_step (q, used) (fst (clear_pending now tenant user q), used)"
| clear_bought: "sh_step (q, used) (fst (clear_bought now tenant user q), used)"

fun sh_inv :: "shopping \<times> string set \<Rightarrow> bool" where
  "sh_inv (q, used) \<longleftrightarrow> shopping_ok q \<and> set (dkeys q) \<subseteq> used"

fun no_shopping :: "shopping \<times> string set \<Rightarrow> bool" where
  "no_shopping (q, used) \<longleftrightarrow> q = []"

lemma dget_mapkey: "dget (map (\<lambda>(k, r). (k, g k r)) q) k = map_option (g k) (dget q k)"
  by (induction q) auto

lemma dget_filter: "dict_ok q \<Longrightarrow> dget (filter P q) k = (case dget q k of None \<Rightarrow> None | Some r \<Rightarrow> if P (k, r) then Some r else None)"
  by (induction q) (auto simp: dict_ok_def map_of_eq_None_iff split: option.splits)

text \<open>An operation that rewrites rows in place keeps the invariant when it keeps what the index reads.\<close>

lemma rewrite_ok:
  assumes "shopping_ok q" and "\<And>k r. sh_op_key (g k r) = sh_op_key r"
  shows "shopping_ok (map (\<lambda>(k, r). (k, g k r)) q)"
proof -
  have "dkeys (map (\<lambda>(k, r). (k, g k r)) q) = dkeys q" by (induction q) auto
  moreover have "List.map_filter sh_op_key (dvals (map (\<lambda>(k, r). (k, g k r)) q)) = List.map_filter sh_op_key (dvals q)"
    using assms(2) by (induction q) (auto simp: map_filter_simps split: option.split)
  ultimately show ?thesis using assms(1) by (simp only: shopping_ok_def dict_ok_def)
qed

lemma dput_as_map: "dict_ok q \<Longrightarrow> dget q i = Some r \<Longrightarrow> dput q i v = map (\<lambda>(k, x). (k, if k = i then v else x)) q"
proof (induction q)
  case (Cons p q)
  obtain k x where p: "p = (k, x)" by (cases p)
  have "map (\<lambda>(k, x). (k, if k = i then v else x)) q = q" if "i \<notin> set (dkeys q)"
    using that by (induction q) auto
  then show ?case using Cons by (auto simp: p dict_ok_def split: if_splits)
qed simp

lemma distinct_map_filter_filter: "distinct (List.map_filter f (map g xs)) \<Longrightarrow> distinct (List.map_filter f (map g (filter P xs)))"
  by (induction xs) (auto simp: map_filter_simps set_map_filter_iff split: option.splits)

lemma filter_ok: "shopping_ok q \<Longrightarrow> shopping_ok (filter P q)"
  by (simp add: shopping_ok_def dict_ok_def distinct_map_filter distinct_map_filter_filter)


lemma add_items_rows:
  assumes "add_items_detailed env ctx tenant user items \<lparr>sh_rows = q, sh_audit = a\<rparr> = Inr (db, res)" and "shopping_ok q"
  obtains new where "sh_rows db = q @ new" "created res = dkeys new" "shopping_ok (sh_rows db)"
    "fresh_rows env tenant user (list_pending env tenant user q) [] new"
proof (cases ctx)
  case None
  obtain q' res' where run: "add_legacy env tenant user (list_pending env tenant user q) (normalise_items items) 0 [] (q, no_result)
    = (q', res')" by fastforce
  then have r: "shopping_ok q'" "sh_rows db = q'" "res = res'"
    using assms(1) None by (auto simp: add_items_detailed_def split: if_splits)
  from add_legacy_rows [OF run] obtain new where "q' = q @ new" "created res' = dkeys new"
    "fresh_rows env tenant user (list_pending env tenant user q) [] new" by (auto simp: no_result_def)
  with r show thesis by (intro that) simp_all
next
  case (Some c)
  then obtain q' where run: "add_planner env c tenant user (list_pending env tenant user q) (normalise_items items) 0 [] (q, no_result)
      = Inr (q', res)" and r: "sh_rows db = q'"
    using assms(1) by (auto simp: add_items_detailed_def bind_res_eq_Inr Let_def split: if_splits)
  from add_planner_rows [OF run assms(2)] obtain new where "shopping_ok q'" "q' = q @ new" "created res = dkeys new"
    "fresh_rows env tenant user (list_pending env tenant user q) [] new" by (auto simp: no_result_def)
  with r show thesis by (intro that) simp_all
qed

text \<open>What one step does to a row that was there before, and to the ids given out.\<close>

definition sh_moves :: "shopping \<Rightarrow> string set \<Rightarrow> shopping \<Rightarrow> bool" where
  "sh_moves q used q' \<longleftrightarrow> (\<forall>k\<in>used. \<forall>r'. dget q' k = Some r' \<longrightarrow> (\<exists>r. dget q k = Some r \<and> continues r r'))"

lemma rewrite_moves: "(\<And>k r. dget q k = Some r \<Longrightarrow> continues r (g k r)) \<Longrightarrow> sh_moves q used (map (\<lambda>(k, r). (k, g k r)) q)"
  by (fastforce simp: sh_moves_def dget_mapkey)

lemma rewrite_step:
  assumes "sh_inv (q, used)" and "\<And>k r. sh_op_key (g k r) = sh_op_key r" and "\<And>k r. dget q k = Some r \<Longrightarrow> continues r (g k r)"
  shows "sh_inv (map (\<lambda>(k, r). (k, g k r)) q, used) \<and> sh_moves q used (map (\<lambda>(k, r). (k, g k r)) q)"
proof -
  have "dkeys (map (\<lambda>(k, r). (k, g k r)) q) = dkeys q" by (induction q) auto
  then show ?thesis using assms rewrite_ok [of q g] rewrite_moves [of q g used] by simp
qed

lemma filter_step: "sh_inv (q, used) \<Longrightarrow> sh_inv (filter P q, used) \<and> sh_moves q used (filter P q)"
  using filter_ok [of q P] by (auto simp: sh_moves_def dget_filter shopping_ok_def split: option.splits if_splits)

lemma bulk_rewrite:
  "fst (bulk_update_status now tenant user ids st only q) =
     map (\<lambda>(k, r). (k, if sh_owned tenant user r \<and> k \<in> set ids \<and> sh_status r \<in> set only
       then r\<lparr>sh_status := st, sh_updated_at := now\<rparr> else r)) q"
  by (simp add: bulk_update_status_def Let_def cong: if_cong)

lemma bulk_step:
  assumes "sh_inv (q, used)" and "\<And>s. s \<in> set only \<Longrightarrow> sh_rank s \<le> sh_rank st"
  shows "sh_inv (fst (bulk_update_status now tenant user ids st only q), used) \<and>
    sh_moves q used (fst (bulk_update_status now tenant user ids st only q))"
  unfolding bulk_rewrite by (rule rewrite_step [OF assms(1)]) (auto simp: sh_op_key_def continues_def assms(2))

lemma cancel_rewrite:
  "fst (cancel_all now tenant user st q) =
     map (\<lambda>(k, r). (k, if sh_owned tenant user r \<and> sh_status r = st
       then r\<lparr>sh_status := ShCancelled, sh_updated_at := now\<rparr> else r)) q"
  by (simp add: cancel_all_def)

lemma cancel_step:
  assumes "sh_inv (q, used)"
  shows "sh_inv (fst (cancel_all now tenant user st q), used) \<and> sh_moves q used (fst (cancel_all now tenant user st q))"
proof -
  have "sh_rank s \<le> 2" for s by (cases s) simp_all
  then show ?thesis
    unfolding cancel_rewrite by (intro rewrite_step [OF assms]) (auto simp: sh_op_key_def continues_def)
qed

lemma category_step:
  assumes "sh_inv (q, used)"
  shows "sh_inv (fst (update_items_category env tenant user ids cat q), used) \<and>
    sh_moves q used (fst (update_items_category env tenant user ids cat q))"
proof -
  have "fst (update_items_category env tenant user ids cat q) =
     map (\<lambda>(k, r). (k, if sh_owned tenant user r \<and> k \<in> set ids
       then r\<lparr>sh_category := coerce_category env (Some cat), sh_updated_at := sh_now env\<rparr> else r)) q"
    by (simp add: update_items_category_def Let_def cong: if_cong)
  then show ?thesis
    by (simp only:) (rule rewrite_step [OF assms]; auto simp: sh_op_key_def continues_def)
qed

lemma update_step:
  assumes "sh_inv (q, used)"
  shows "sh_inv (fst (update_item env tenant user i t qty cat q), used) \<and>
    sh_moves q used (fst (update_item env tenant user i t qty cat q))"
proof (cases "\<exists>r. dget q i = Some r \<and> sh_owned tenant user r")
  case False
  then have "fst (update_item env tenant user i t qty cat q) = q"
    by (auto simp: update_item_def split: option.splits)
  then show ?thesis using assms by (auto simp: sh_moves_def)
next
  case True
  then obtain r where r: "dget q i = Some r" "sh_owned tenant user r" by blast
  obtain v where v: "fst (update_item env tenant user i t qty cat q) = dput q i v" "continues r v" "sh_op_key v = sh_op_key r"
    using r by (auto simp: update_item_def Let_def continues_def sh_op_key_def split: option.splits)
  have ok: "sh_inv (dput q i v, used)"
  proof -
    have "dict_ok q" using assms by (simp add: shopping_ok_def)
    then have eq: "dput q i v = map (\<lambda>(k, x). (k, if k = i then v else x)) q" using r(1) by (rule dput_as_map)
    have "dkeys (dput q i v) = dkeys q" unfolding eq by (induction q) auto
    moreover have "List.map_filter sh_op_key (dvals (dput q i v)) = List.map_filter sh_op_key (dvals q)"
    proof -
      have "sh_op_key (if k = i then v else x) = sh_op_key x" if "(k, x) \<in> set q" for k x
        using that \<open>dict_ok q\<close> r(1) v(3) by (auto simp: mem_dget)
      then show ?thesis unfolding eq by (induction q) (auto simp: map_filter_simps split: option.split)
    qed
    ultimately show ?thesis using assms by (simp add: shopping_ok_def dict_ok_def)
  qed
  then show ?thesis using v r by (auto simp: sh_moves_def)
qed

lemma add_step:
  assumes "add_items_detailed env ctx tenant user items \<lparr>sh_rows = q, sh_audit = a\<rparr> = Inr (db, res)"
    and "range (sh_new_id env) \<inter> used = {}" and "sh_inv (q, used)"
  shows "sh_inv (sh_rows db, used \<union> set (created res)) \<and> sh_moves q used (sh_rows db)"
proof -
  from assms(3) have "shopping_ok q" by simp
  from add_items_rows [OF assms(1) this] obtain new where n: "sh_rows db = q @ new" "created res = dkeys new"
    "shopping_ok (sh_rows db)" "fresh_rows env tenant user (list_pending env tenant user q) [] new" .
  have "k \<notin> used" if "(k, r) \<in> set new" for k r
    using that n(4) assms(2) by (fastforce simp: fresh_rows_def)
  then have "sh_moves q used (sh_rows db)"
    using n(1) by (auto simp: sh_moves_def map_add_Some_iff dest: map_of_SomeD)
  then show ?thesis using n assms(3) by auto
qed

lemma sh_step_moves: "sh_step s t \<Longrightarrow> sh_inv s \<Longrightarrow> sh_inv t \<and> sh_moves (fst s) (snd s) (fst t) \<and> snd s \<subseteq> snd t"
proof (induction rule: sh_step.induct)
  case (add env ctx tenant user items q a db res used)
  then show ?case using add_step by simp
next
  case (bought q used now tenant user ids)
  then show ?case using bulk_step [of q used "[ShPending]" ShBought] by (simp add: mark_bought_def)
next
  case (remove q used now tenant user ids)
  have "sh_rank s \<le> sh_rank ShCancelled" if "s \<in> set [ShPending, ShBought]" for s using that by auto
  with remove show ?case unfolding remove_items_def fst_conv snd_conv by (intro conjI bulk_step [THEN conjunct1] bulk_step [THEN conjunct2] order_refl)
next
  case (recipe q used tenant user rid)
  moreover have "sh_moves q used q" by (auto simp: sh_moves_def)
  ultimately show ?case
    by (cases "rid = []") (simp_all add: delete_by_source_recipe_def Let_def filter_step del: sh_inv.simps)
next
  case (update q used env tenant user i t qty cat)
  then show ?case by (simp del: sh_inv.simps add: update_step)
next
  case (category q used env tenant user ids cat)
  then show ?case by (simp del: sh_inv.simps add: category_step)
qed (simp_all add: clear_pending_def clear_bought_def cancel_step del: sh_inv.simps)

interpretation shop: invariant_system no_shopping sh_step sh_inv
proof
  show "no_shopping s \<Longrightarrow> sh_inv s" for s by (cases s) (simp add: shopping_ok_def map_filter_simps)
qed (simp add: sh_step_moves)

lemma sh_moves_trans:
  "sh_moves q used q1 \<Longrightarrow> sh_moves q1 used1 q2 \<Longrightarrow> used \<subseteq> used1 \<Longrightarrow> sh_moves q used q2"
  unfolding sh_moves_def by (meson continues_trans subsetD)

lemma sh_run_moves: "sh_step\<^sup>*\<^sup>* s t \<Longrightarrow> sh_inv s \<Longrightarrow> sh_moves (fst s) (snd s) (fst t) \<and> snd s \<subseteq> snd t"
proof (induction rule: rtranclp_induct)
  case base
  then show ?case by (auto simp: sh_moves_def)
next
  case (step t u)
  then show ?case using sh_step_moves [OF step.hyps(2)] shop.run_inv [OF step.hyps(1) step.prems] sh_moves_trans by blast
qed

section \<open>A step that is run again\<close>

lemma find_op_append1: "find_op op es = None \<Longrightarrow> ev_operation_id e = op \<Longrightarrow> find_op op (es @ [e]) = Some e"
  by (induction es) (auto simp: find_op_def split: if_splits)

lemma emit_again:
  assumes "emit_event digest race db ev now = Inr (db1, r)"
    and "ev_operation_id ev' = ev_operation_id ev" "ev_source ev' = ev_source ev" "ev_action ev' = ev_action ev"
      "entity_type ev' = entity_type ev" "payload ev' = payload ev"
  shows "\<exists>r'. emit_event digest race' db1 ev' now' = Inr (db1, r')"
proof -
  from assms(1) have valid: "ev_source ev \<in> set AUDIT_SOURCES" "ev_action ev \<in> set AUDIT_ACTIONS"
    "entity_type ev \<in> set AUDIT_ENTITY_TYPES" by (auto simp: emit_event_def split: if_splits)
  from assms(1) show ?thesis
  proof (cases rule: emit_event_cases)
    case (new e)
    then have "find_op (ev_operation_id ev) (outbox db1) = Some e" by (simp add: find_op_append1)
    moreover have "row_hash digest e = compute_payload_hash digest (payload ev)"
      using new(7,8) by (auto simp: row_hash_def effective_hash_def)
    ultimately show ?thesis using valid assms(2-6) by (simp add: emit_event_def Let_def)
  qed (use valid assms(2-6) in \<open>auto simp: emit_event_def Let_def\<close>)
qed

text \<open>A second attempt has other ids, another clock and other races; the rest is the same.\<close>

abbreviation later_attempt :: "shop_env \<Rightarrow> int \<Rightarrow> (nat \<Rightarrow> string) \<Rightarrow> bool \<Rightarrow> shop_env" where
  "later_attempt env now ids race \<equiv> env\<lparr>sh_now := now, sh_new_id := ids, sh_race := race\<rparr>"

lemma later_attempt_same [simp]:
  "normalise_title (later_attempt env now ids race) t = normalise_title env t"
  "item_op_id (later_attempt env now ids race) c i = item_op_id env c i"
  "pending_by_title (later_attempt env now ids race) pend norm = pending_by_title env pend norm"
  "list_pending (later_attempt env now ids race) tenant user q = list_pending env tenant user q"
  by (simp_all add: normalise_title_def item_op_id_def pending_by_title_def list_pending_def list_by_status_def)

lemma set_list_pending:
  "set (list_pending env tenant user q) = {(k, r). (k, r) \<in> set q \<and> sh_owned tenant user r \<and> sh_status r = ShPending}"
  by (auto simp: list_pending_def list_by_status_def Let_def)

lemma pending_by_title_None:
  "pending_by_title env pend norm = None \<longleftrightarrow> (\<forall>(k, r)\<in>set pend. normalise_title env (sh_title r) \<noteq> norm)"
  by (auto simp: pending_by_title_def find_None_iff)

lemma pending_by_title_Some:
  "pending_by_title env pend norm = Some (k, r) \<Longrightarrow> (k, r) \<in> set pend \<and> normalise_title env (sh_title r) = norm"
  using nth_mem by (fastforce simp: pending_by_title_def find_Some_iff)

lemma pending_by_title_grows:
  "pending_by_title env (list_pending env tenant user q) norm \<noteq> None \<Longrightarrow>
     pending_by_title env (list_pending env tenant user (q @ new)) norm \<noteq> None"
  by (auto simp: pending_by_title_None set_list_pending)

lemma pending_by_title_new:
  assumes "fresh_rows env tenant user (list_pending env tenant user q) seen new" and "(k, x) \<in> set new"
  shows "pending_by_title env (list_pending env tenant user (q @ new)) (normalise_title env (sh_title x)) = Some (k, x)"
proof -
  let ?P = "list_pending env tenant user (q @ new)" and ?norm = "normalise_title env (sh_title x)"
  from assms have old: "pending_by_title env (list_pending env tenant user q) ?norm = None"
    and own: "sh_owned tenant user x" "sh_status x = ShPending"
    and dist: "distinct (map (\<lambda>(k, x). normalise_title env (sh_title x)) new)" by (auto simp: fresh_rows_def)
  from own assms(2) have "(k, x) \<in> set ?P" by (auto simp: set_list_pending)
  then have "pending_by_title env ?P ?norm \<noteq> None" by (auto simp: pending_by_title_None)
  then obtain k' x' where f: "pending_by_title env ?P ?norm = Some (k', x')" by auto
  from pending_by_title_Some [OF f] have m: "(k', x') \<in> set ?P" "normalise_title env (sh_title x') = ?norm" by auto
  with old have "(k', x') \<in> set new" by (auto simp: pending_by_title_None set_list_pending)
  from dist have "inj_on (\<lambda>(k, x). normalise_title env (sh_title x)) (set new)" by (simp add: distinct_map)
  then have "(k', x') = (k, x)"
    by (rule inj_onD) (use m(2) assms(2) \<open>(k', x') \<in> set new\<close> in simp_all)
  with f show ?thesis by simp
qed


text \<open>
  The same items over the table the first attempt left (\<open>Q\<close>, pending rows \<open>P\<close>): no insertion, and
  every row the first attempt created is reported as replayed.
\<close>

lemma add_planner_extends:
  "add_planner env c tenant user pend is n seen (q, res) = Inr (q', res') \<Longrightarrow> \<exists>new. q' = q @ new"
proof (induction "is" arbitrary: n seen q res)
  case (Cons i "is")
  show ?case
  proof (cases "pending_by_title env pend (normalise_title env (in_title i)) \<noteq> None \<or> normalise_title env (in_title i) \<in> set seen")
    case True
    then show ?thesis using Cons.prems Cons.IH by (auto simp: Let_def split: option.splits if_splits)
  next
    case False
    then have "pending_by_title env pend (normalise_title env (in_title i)) = None"
      "normalise_title env (in_title i) \<notin> set seen" by blast+
    then obtain q1 k b res1 where "insert_item tenant user (item_op_id env c i) (sh_new_id env n)
        (new_item env tenant user i (Some (item_op_id env c i))
          (Some (compute_normalized_title_hash (sh_texts env) (in_title i) ''shopping_list_item'' tenant user []))) q =
          Inr (q1, k, b)"
      and rest: "add_planner env c tenant user pend is (Suc n) (normalise_title env (in_title i) # seen) (q1, res1) = Inr (q', res')"
      using Cons.prems by (auto simp: Let_def bind_res_eq_Inr)
    from this(1) show ?thesis by (cases rule: insert_item_cases) (use Cons.IH [OF rest] in auto)
  qed
qed simp

text \<open>
  The same items over the table the first attempt left, its pending rows \<open>P\<close>: nothing is inserted,
  and every row the first attempt created is reported as replayed.
\<close>

definition replays :: "add_result \<Rightarrow> string set \<Rightarrow> add_result \<Rightarrow> bool" where
  "replays res ks res' \<longleftrightarrow> created res' = created res \<and> set (replayed res) \<union> ks \<subseteq> set (replayed res')"

lemma replays_weaken:
  "replays res ks res' \<Longrightarrow> created res = created res0 \<Longrightarrow> set (replayed res0) \<union> ks0 \<subseteq> set (replayed res) \<union> ks \<Longrightarrow> replays res0 ks0 res'"
  by (auto simp: replays_def)

lemma planner_again:
  assumes "add_planner env c tenant user pend is n seen (q, res) = Inr (q @ new, res1)"
    and grows: "\<And>norm. pending_by_title env pend norm \<noteq> None \<Longrightarrow> pending_by_title env P norm \<noteq> None"
    and "\<And>k x. (k, x) \<in> set new \<Longrightarrow> pending_by_title env P (normalise_title env (sh_title x)) = Some (k, x)"
    and "\<And>s. s \<in> set seen \<Longrightarrow> pending_by_title env P s \<noteq> None \<or> s \<in> set seen2"
  shows "\<exists>res2'. add_planner (later_attempt env now ids race) c tenant user P is n2 seen2 (q @ new, res2) = Inr (q @ new, res2') \<and>
    replays res2 (set (dkeys new)) res2'"
  using assms(1,3,4)
proof (induction "is" arbitrary: n seen q res n2 seen2 res2 new)
  case (Cons i "is")
  let ?env = "later_attempt env now ids race" and ?norm = "normalise_title env (in_title i)" and ?op = "item_op_id env c i"
  let ?goal = "\<exists>res2'. add_planner ?env c tenant user P (i # is) n2 seen2 (q @ new, res2) = Inr (q @ new, res2') \<and>
    replays res2 (set (dkeys new)) res2'"
  have known: ?goal
    if P: "pending_by_title env P ?norm = Some (k, r)"
      and run: "add_planner env c tenant user pend is n' seen' (q', res') = Inr (q' @ new', res1)" and q': "q' @ new' = q @ new"
      and new: "set new' \<subseteq> set new" "set (dkeys new) \<subseteq> set (dkeys new') \<union> (if sh_op r = Some ?op then {k} else {})"
      and seen: "\<And>s. s \<in> set seen' \<Longrightarrow> pending_by_title env P s \<noteq> None \<or> s \<in> set seen2" for k r n' seen' q' new' res'
  proof -
    define res3 where "res3 = (if sh_op r = Some ?op
      then res2\<lparr>ordered_rows := ordered_rows res2 @ [k], replayed := replayed res2 @ [k]\<rparr>
      else res2\<lparr>ordered_rows := ordered_rows res2 @ [k], duplicates_existing := duplicates_existing res2 @ [sh_title r],
        duplicate_item_ids := duplicate_item_ids res2 @ [k]\<rparr>)"
    have step: "add_planner ?env c tenant user P (i # is) n2 seen2 (q @ new, res2) =
      add_planner ?env c tenant user P is n2 seen2 (q @ new, res3)" using P by (simp add: Let_def res3_def)
    have "pending_by_title env P (normalise_title env (sh_title x)) = Some (k, x)" if "(k, x) \<in> set new'" for k x
      using that new(1) Cons.prems(2) by blast
    from Cons.IH [OF run this seen, of n2 res3] obtain res2' where
      "add_planner ?env c tenant user P is n2 seen2 (q @ new, res3) = Inr (q @ new, res2')" "replays res3 (set (dkeys new')) res2'"
      unfolding q' by blast
    moreover from this(2) have "replays res2 (set (dkeys new)) res2'"
      by (rule replays_weaken) (use new(2) in \<open>auto simp: res3_def split: if_splits\<close>)
    ultimately show ?thesis unfolding step by blast
  qed
  have batch: ?goal
    if "pending_by_title env P ?norm = None" "?norm \<in> set seen2"
      and run: "add_planner env c tenant user pend is n' seen' (q, res') = Inr (q @ new, res1)"
      and seen: "\<And>s. s \<in> set seen' \<Longrightarrow> pending_by_title env P s \<noteq> None \<or> s \<in> set seen2" for n' seen' res'
  proof -
    let ?res3 = "res2\<lparr>duplicates_in_batch := duplicates_in_batch res2 @ [in_title i]\<rparr>"
    have step: "add_planner ?env c tenant user P (i # is) n2 seen2 (q @ new, res2) =
      add_planner ?env c tenant user P is n2 seen2 (q @ new, ?res3)" using that(1,2) by (simp add: Let_def)
    have "replays ?res3 ks res2' \<Longrightarrow> replays res2 ks res2'" for ks res2' by (erule replays_weaken) auto
    then show ?thesis unfolding step using Cons.IH [OF run Cons.prems(2) seen, of n2 ?res3] by blast
  qed
  show ?case
  proof (cases "pending_by_title env pend ?norm")
    case (Some x)
    obtain res' where run: "add_planner env c tenant user pend is n seen (q, res') = Inr (q @ new, res1)"
      using Cons.prems(1) Some by (cases x) (simp add: Let_def)
    obtain k r where "pending_by_title env P ?norm = Some (k, r)" using grows [of ?norm] Some by auto
    from known [OF this run] show ?thesis using Cons.prems(3) by auto
  next
    case None
    show ?thesis
    proof (cases "?norm \<in> set seen")
      case True
      then obtain res' where run: "add_planner env c tenant user pend is n seen (q, res') = Inr (q @ new, res1)"
        using Cons.prems(1) None by (simp add: Let_def)
      show ?thesis
      proof (cases "pending_by_title env P ?norm")
        case None
        with Cons.prems(3) [OF True] batch [OF _ _ run Cons.prems(3)] show ?thesis by auto
      next
        case (Some x)
        with known [of "fst x" "snd x", OF _ run] Cons.prems(3) show ?thesis by auto
      qed
    next
      case False
      define row where "row = new_item env tenant user i (Some ?op)
        (Some (compute_normalized_title_hash (sh_texts env) (in_title i) ''shopping_list_item'' tenant user []))"
      obtain q1 k b res' where ins: "insert_item tenant user ?op (sh_new_id env n) row q = Inr (q1, k, b)"
        and run: "add_planner env c tenant user pend is (Suc n) (?norm # seen) (q1, res') = Inr (q @ new, res1)"
        using Cons.prems(1) None False by (auto simp: Let_def bind_res_eq_Inr row_def)
      from ins show ?thesis
      proof (cases rule: insert_item_cases)
        case (new)
        from add_planner_extends [OF run] obtain new' where "q @ new = q1 @ new'" by blast
        then have n: "new = (k, row) # new'" using new by simp
        have r: "sh_title row = in_title i" "sh_op row = Some ?op" by (simp_all add: row_def)
        have P: "pending_by_title env P ?norm = Some (k, row)" using Cons.prems(2) [of k row] n r(1) by simp
        have run': "add_planner env c tenant user pend is (Suc n) (?norm # seen) (q1, res') = Inr (q1 @ new', res1)"
          using run n new by simp
        show ?thesis by (rule known [OF P run']) (use n new r P Cons.prems(3) in auto)
      next
        case known': (known x)
        have run': "add_planner env c tenant user pend is (Suc n) (?norm # seen) (q, res') = Inr (q @ new, res1)"
          using run known'(2) by simp
        show ?thesis
        proof (cases "pending_by_title env P ?norm")
          case (Some y)
          show ?thesis by (rule known [of "fst y" "snd y", OF _ run']) (use Some Cons.prems(3) in auto)
        next
          case None
          show ?thesis
          proof (cases "?norm \<in> set seen2")
            case True
            with batch [OF None True run'] Cons.prems(3) show ?thesis by auto
          next
            case False
            let ?res3 = "res2\<lparr>ordered_rows := ordered_rows res2 @ [k], replayed := replayed res2 @ [k]\<rparr>"
            have "find_sh_op tenant user ?op (q @ new) = Some (k, x)" using known'(1) by (simp add: find_sh_op_append)
            then have step: "add_planner ?env c tenant user P (i # is) n2 seen2 (q @ new, res2) =
                add_planner ?env c tenant user P is (Suc n2) (?norm # seen2) (q @ new, ?res3)"
              using None False by (simp add: Let_def insert_item_def bind_res_def)
            have "replays ?res3 ks res2' \<Longrightarrow> replays res2 ks res2'" for ks res2' by (erule replays_weaken) auto
            moreover have "pending_by_title env P s \<noteq> None \<or> s \<in> set (?norm # seen2)" if "s \<in> set (?norm # seen)" for s
              using that Cons.prems(3) [of s] by auto
            ultimately show ?thesis
              unfolding step using Cons.IH [OF run' Cons.prems(2), of "?norm # seen2" "Suc n2" ?res3] by blast
          qed
        qed
      qed
    qed
  qed
qed (simp add: replays_def)

lemma audit_again:
  assumes "audit_step env c tenant user a = Inr a'" and "\<not> sh_race env"
  shows "audit_step (later_attempt env now ids race) c tenant user a' = Inr a'"
proof -
  have "emit_event (sh_digest env) (sh_race env) a (step_audit env c tenant user) (sh_now env) \<noteq> Inl IntegrityFault"
    using assms(2) by (auto simp: emit_event_def Let_def split: option.splits)
  then obtain e where "emit_event (sh_digest env) (sh_race env) a (step_audit env c tenant user) (sh_now env) = Inr (a', e)"
    using assms(1) by (auto simp: audit_step_def split: sum.splits emit_error.splits)
  from emit_again [OF this, of "step_audit (later_attempt env now ids race) c tenant user" race now]
  show ?thesis by (auto simp: step_audit_def audit_step_def)
qed

section \<open>Counting\<close>

lemma filter_split: "length (filter P xs) + length (filter (\<lambda>x. \<not> P x) xs) = length xs"
  by (induction xs) auto

lemma rows_of_ids: "dict_ok q \<Longrightarrow> length (filter (\<lambda>(k, r). P r \<and> k \<in> set ids) q) \<le> card (set ids)"
proof -
  assume "dict_ok q"
  let ?rows = "filter (\<lambda>(k, r). P r \<and> k \<in> set ids) q"
  have "distinct (dkeys ?rows)" using \<open>dict_ok q\<close> by (simp add: dict_ok_def distinct_map_filter)
  then have "length ?rows = card (set (dkeys ?rows))" by (metis distinct_card length_map)
  also have "\<dots> \<le> card (set ids)" by (intro card_mono) auto
  finally show ?thesis .
qed

section \<open>Samples\<close>

definition sample_shop_env :: "int \<Rightarrow> (nat \<Rightarrow> string) \<Rightarrow> shop_env" where
  "sample_shop_env t ids = \<lparr>sh_texts = sample_hash_env, sh_sha1 = \<lambda>s. s,
     sh_tax = \<lparr>SHOPPING_CATEGORIES = [''dairy'', ''other''], DEFAULT_CATEGORY = ''other'', CATEGORY_KEYWORDS = [(''dairy'', [''milk''])]\<rparr>,
     sh_digest = \<lambda>_. [], sh_race = False, sh_now = t, sh_new_id = ids\<rparr>"

definition first_ids :: "nat \<Rightarrow> string" where "first_ids n = (if n = 0 then ''i1'' else ''i2'')"

definition sample_shop_ctx :: shop_ctx where
  "sample_shop_ctx = sched_ctx.extend (sample_ctx ''e1'') \<lparr>ctx_op = ''op1''\<rparr>"

definition two_items :: "raw_input list" where
  "two_items = map (\<lambda>t. DictItem \<lparr>raw_title = Some t, raw_quantity = None, raw_category = None, raw_source = None\<rparr>) [''milk'', ''bread'', ''milk '']"

definition no_shop_db :: shop_db where
  "no_shop_db = \<lparr>sh_rows = [], sh_audit = \<lparr>outbox = [], feed = [], next_outbox_id = 0, next_feed_id = 0\<rparr>\<rparr>"

definition added :: "shop_db \<times> add_result" where
  "added = (case add_items_detailed (sample_shop_env 5 first_ids) (Some sample_shop_ctx) ''t1'' ''u1'' two_items no_shop_db of
     Inr x \<Rightarrow> x | Inl _ \<Rightarrow> (no_shop_db, no_result))"

lemma sample_added:
  "add_items_detailed (sample_shop_env 5 first_ids) (Some sample_shop_ctx) ''t1'' ''u1'' two_items no_shop_db = Inr (fst added, snd added)"
  by code_simp

section \<open>Properties\<close>

text \<open>
  the life of a row of the shopping list. Whatever the service does, from any state in which the
  indexes hold: a row that is there now was there before under the same id (or its id was never given
  out before), with the same owner, recipe, operation and date; and its status has only moved from
  pending over bought to cancelled. A deleted row never returns.
\<close>

theorem shopping_lifecycle:
  assumes "sh_step\<^sup>*\<^sup>* (q, used) (q', used')" and "shopping_ok q" "set (dkeys q) \<subseteq> used"
    and "k \<in> used" "dget q' k = Some r'"
  shows "\<exists>r. dget q k = Some r \<and> sh_tenant r' = sh_tenant r \<and> sh_user r' = sh_user r \<and> sh_source r' = sh_source r \<and>
    sh_added_at r' = sh_added_at r \<and> sh_op r' = sh_op r \<and> sh_hash r' = sh_hash r \<and>
    sh_rank (sh_status r) \<le> sh_rank (sh_status r')"
  using sh_run_moves [OF assms(1)] assms(2-5) by (auto simp: sh_moves_def continues_def)

theorem shopping_lifecycle_witness:
  "\<exists>r r'. dget (sh_rows (fst added)) ''i1'' = Some r' \<and>
       dget (fst (mark_bought 8 ''t1'' ''u1'' [''i1''] (sh_rows (fst added)))) ''i1'' = Some r \<and>
       sh_source r = sh_source r' \<and> sh_rank (sh_status r') \<le> sh_rank (sh_status r)"
proof -
  let ?q = "sh_rows (fst added)" and ?q' = "fst (mark_bought 8 ''t1'' ''u1'' [''i1''] (sh_rows (fst added)))"
  have "sh_step\<^sup>*\<^sup>* (?q, {''i1'', ''i2''}) (?q', {''i1'', ''i2''})" by (blast intro: sh_step.bought)
  moreover have "shopping_ok ?q" by code_simp
  moreover have "set (dkeys ?q) \<subseteq> {''i1'', ''i2''}" by code_simp
  moreover have "dget ?q' ''i1'' \<noteq> None" by code_simp
  then obtain r' where "dget ?q' ''i1'' = Some r'" by blast
  ultimately show ?thesis using shopping_lifecycle [of ?q "{''i1'', ''i2''}" ?q' "{''i1'', ''i2''}" "''i1''" r'] by auto
qed

text \<open>
  C27: a retried step adds nothing. When the call of a plan step has added its items and is made
  again (at another time, with other fresh ids, with or without a race on the audit row), the table
  and the audit stay as they are, nothing is reported as created, and every row the first call
  created is reported as replayed.
\<close>

theorem add_items_retry:
  assumes "add_items_detailed env (Some c) tenant user items db = Inr (db1, res1)"
    and "shopping_ok (sh_rows db)" "\<not> sh_race env"
  shows "\<exists>res2. add_items_detailed (env\<lparr>sh_now := now, sh_new_id := ids, sh_race := race\<rparr>) (Some c) tenant user items db1 =
      Inr (db1, res2) \<and> created res2 = [] \<and> set (created res1) \<subseteq> set (replayed res2)"
proof -
  let ?q = "sh_rows db" and ?is = "normalise_items items"
  have tenant: "\<not> (ctx_tenant c \<noteq> [] \<and> ctx_tenant c \<noteq> tenant)"
    using assms(1) by (auto simp: add_items_detailed_def Let_def split: if_splits)
  with assms(1) obtain q' where run: "add_planner env c tenant user (list_pending env tenant user ?q) ?is 0 [] (?q, no_result)
      = Inr (q', res1)" and q': "sh_rows db1 = q'"
    and audit: "?is \<noteq> [] \<Longrightarrow> audit_step env c tenant user (sh_audit db) = Inr (sh_audit db1)"
    by (auto simp: add_items_detailed_def bind_res_eq_Inr Let_def split: if_splits)
  from add_planner_rows [OF run assms(2)] obtain new where new: "q' = ?q @ new" "created res1 = dkeys new"
    "fresh_rows env tenant user (list_pending env tenant user ?q) [] new" by (auto simp: no_result_def)
  have "\<exists>res2. add_planner (later_attempt env now ids race) c tenant user (list_pending env tenant user (?q @ new)) ?is 0 []
      (?q @ new, no_result) = Inr (?q @ new, res2) \<and> replays no_result (set (dkeys new)) res2"
    using run unfolding new(1)
    by (rule planner_again) (use pending_by_title_grows pending_by_title_new [OF new(3)] in auto)
  then obtain res2 where run2: "add_planner (later_attempt env now ids race) c tenant user (list_pending env tenant user q') ?is 0 []
      (q', no_result) = Inr (q', res2)" and res2: "replays no_result (set (dkeys new)) res2" unfolding new(1) by blast
  have "?is \<noteq> [] \<Longrightarrow> audit_step (later_attempt env now ids race) c tenant user (sh_audit db1) = Inr (sh_audit db1)"
    using audit_again [OF audit assms(3)] .
  then have "add_items_detailed (later_attempt env now ids race) (Some c) tenant user items db1 = Inr (db1, res2)"
    using tenant run2 q' by (cases "?is = []") (auto simp: add_items_detailed_def Let_def)
  moreover have "created res2 = []" "set (created res1) \<subseteq> set (replayed res2)"
    using res2 new(2) by (auto simp: replays_def no_result_def)
  ultimately show ?thesis by blast
qed

theorem add_items_retry_witness:
  "\<exists>res2. add_items_detailed (sample_shop_env 5 first_ids\<lparr>sh_now := 9, sh_new_id := \<lambda>_. ''z'', sh_race := True\<rparr>)
      (Some sample_shop_ctx) ''t1'' ''u1'' two_items (fst added) = Inr (fst added, res2) \<and> created res2 = [] \<and>
    set (created (snd added)) \<subseteq> set (replayed res2)"
  by (rule add_items_retry [OF sample_added]) code_simp+

text \<open>
  a bulk change of status (bought, removed) accounts for every id it is given, duplicates once:
  affected, not eligible and not found add up; exactly the rows of the user that are named and
  eligible change, and of them only the status and the time of change.
\<close>

theorem bulk_update_accounts:
  assumes "bulk_update_status now tenant user ids st only_from q = (q', b)" and "shopping_ok q"
  shows "length (bulk_affected b) + length (bulk_not_eligible b) + bulk_not_found b = card (set ids) \<and>
    (\<forall>k. dget q' k = map_option (\<lambda>r. if k \<in> set (bulk_affected b) then r\<lparr>sh_status := st, sh_updated_at := now\<rparr> else r) (dget q k)) \<and>
    (\<forall>k. k \<in> set (bulk_affected b) \<longleftrightarrow>
       k \<in> set ids \<and> (\<exists>r. dget q k = Some r \<and> sh_owned tenant user r \<and> sh_status r \<in> set only_from))"
proof -
  have ok: "dict_ok q" using assms(2) by (simp add: shopping_ok_def)
  let ?hit = "\<lambda>(k, r). sh_owned tenant user r \<and> k \<in> set ids \<and> sh_status r \<in> set only_from"
  let ?rows = "filter (\<lambda>(k, r). sh_owned tenant user r \<and> k \<in> set ids) q"
  have q': "q' = map (\<lambda>(k, r). (k, if ?hit (k, r) then r\<lparr>sh_status := st, sh_updated_at := now\<rparr> else r)) q"
    using assms(1) bulk_rewrite [of now tenant user ids st only_from q] by simp
  have aff: "bulk_affected b = map fst (filter ?hit ?rows)" "length (bulk_not_eligible b) = length (filter (\<lambda>x. \<not> ?hit x) ?rows)"
    "bulk_not_found b = card (set ids) - length ?rows"
    using assms(1) by (auto simp: bulk_update_status_def Let_def length_remdups_card_conv)
  have mem: "k \<in> set (bulk_affected b) \<longleftrightarrow>
      k \<in> set ids \<and> (\<exists>r. dget q k = Some r \<and> sh_owned tenant user r \<and> sh_status r \<in> set only_from)" for k
    using ok by (force simp: aff(1) mem_dget dest: dget_Some_mem)
  have "length ?rows \<le> card (set ids)" using ok by (rule rows_of_ids)
  then have "length (bulk_affected b) + length (bulk_not_eligible b) + bulk_not_found b = card (set ids)"
    using filter_split [of ?hit ?rows] unfolding aff length_map by linarith
  moreover have "dget q' k = map_option (\<lambda>r. if k \<in> set (bulk_affected b) then r\<lparr>sh_status := st, sh_updated_at := now\<rparr> else r) (dget q k)" for k
    unfolding q' dget_mapkey mem by (cases "dget q k") auto
  ultimately show ?thesis using mem by blast
qed

theorem bulk_update_accounts_witness:
  "length (bulk_affected (snd (bulk_update_status 8 ''t1'' ''u1'' [''i1'', ''zz'', ''i1''] ShBought [ShPending] (sh_rows (fst added))))) +
   length (bulk_not_eligible (snd (bulk_update_status 8 ''t1'' ''u1'' [''i1'', ''zz'', ''i1''] ShBought [ShPending] (sh_rows (fst added))))) +
   bulk_not_found (snd (bulk_update_status 8 ''t1'' ''u1'' [''i1'', ''zz'', ''i1''] ShBought [ShPending] (sh_rows (fst added)))) =
   card {''i1'', ''zz''}"
proof -
  have "shopping_ok (sh_rows (fst added))" by code_simp
  from bulk_update_accounts [OF prod.collapse [symmetric] this, of 8 "''t1''" "''u1''" "[''i1'', ''zz'', ''i1'']" ShBought "[ShPending]"]
  show ?thesis by (simp add: insert_commute)
qed


section \<open>What the code does elsewhere than its comments say\<close>

text \<open>
  \<open>replayed\<close> is documented as a row an earlier retry of the step inserted. Two titles of one first
  call that differ in punctuation only have one operation id, so the second is reported as replayed
  (it is neither created nor a duplicate) although nothing was ever retried.
\<close>

theorem twin_titles_reported_as_replay:
  "map_option (\<lambda>(db, r). (dkeys (sh_rows db), created r, replayed r, duplicates_in_batch r))
     (case add_items_detailed (sample_shop_env 5 first_ids) (Some sample_shop_ctx) ''t1'' ''u1''
        (map (\<lambda>t. TypedItem \<lparr>in_title = t, in_quantity = None, in_category = None, in_source = None\<rparr>) [''milk'', ''milk!'']) no_shop_db of
        Inr x \<Rightarrow> Some x | Inl e \<Rightarrow> None) =
   Some ([''i1''], [''i1''], [''i1''], [])"
  by code_simp


definition CATEGORY_WIDTH :: nat where "CATEGORY_WIDTH = 32"

text \<open>A custom category is cut to 64 characters, twice what the column holds.\<close>

theorem custom_category_too_wide:
  "length (coerce_category (sample_shop_env 5 first_ids) (Some (replicate 40 CHR ''a''))) = 40"
  by code_simp

end
