(* ===== verification/PlanPersistence.thy ===== *)
theory PlanPersistence
  imports PlanSchema PlanCompiler
begin

text \<open>
  \<open>runtime/planner/persistence.py\<close>: the rows of \<open>planner_executions\<close> (\<open>db/models/planner.py\<close>) through
  the stages of one planner call, and the columns with personal data, each stored as a plain and as an
  encrypted attribute. Encryption is the column type's; here both attributes hold the value. A JSON
  column holds the object whose dump it stores. The columns of the recovery are in theory Recovery.
\<close>

section \<open>Columns with personal data\<close>

datatype pii_mode = PlaintextOnly | DualWrite | EncryptedOnly

record 'a pii_col =
  col_plain :: "'a option"
  col_enc :: "'a option"

definition empty_col :: "'a pii_col" where
  "empty_col = \<lparr>col_plain = None, col_enc = None\<rparr>"

fun write_pii :: "pii_mode \<Rightarrow> 'a option \<Rightarrow> 'a pii_col" where
  "write_pii PlaintextOnly v = \<lparr>col_plain = v, col_enc = None\<rparr>"
| "write_pii EncryptedOnly v = \<lparr>col_plain = None, col_enc = v\<rparr>"
| "write_pii DualWrite v = \<lparr>col_plain = v, col_enc = v\<rparr>"

definition read_planner_pii :: "'a pii_col \<Rightarrow> 'a option" where
  "read_planner_pii c = (case col_enc c of Some v \<Rightarrow> Some v | None \<Rightarrow> col_plain c)"

definition PLANNER_PII_WRITE_MODE :: pii_mode where "PLANNER_PII_WRITE_MODE = EncryptedOnly"

section \<open>The table\<close>

datatype planner_status = PsPending | PsReceived | PsInvalid | PsValid

text \<open>The layers and fail modes of a compiled plan, as \<open>_execution_plan_to_json\<close> dumps them.\<close>

type_synonym ep_json = "string list list \<times> (string, fail_mode) dict"

definition execution_plan_to_json :: "execution_plan \<Rightarrow> ep_json" where
  "execution_plan_to_json ep = (layers ep, fail_modes ep)"

record 'log planner_row =
  pl_run :: string
  pl_tenant :: string
  pl_feature :: string
  pl_prompt_version :: int
  pl_provider :: string
  pl_model :: string
  pl_latency_ms :: "nat option"
  pl_status :: planner_status
  pl_execution_status :: string
  pl_raw :: "string pii_col"
  pl_plan :: "plan pii_col"
  pl_execution_plan :: "ep_json pii_col"
  pl_errors :: "string pii_col"
  pl_reason :: "string pii_col"
  pl_is_new_turn :: "bool option"
  pl_log :: "'log list" \<comment> \<open>not null\<close>
  pl_log_enc :: "'log list option"
  pl_composer_path :: "string option"
  pl_tool_version :: "string option"
  pl_snapshot_hash :: "string option"
  pl_turn_key :: "string option"
  pl_created_at :: int

type_synonym 'log planner_table = "(string, 'log planner_row) dict"

text \<open>The unique constraint on the turn key; absent keys do not collide.\<close>

definition turn_keys :: "'log planner_table \<Rightarrow> string list" where
  "turn_keys q = List.map_filter pl_turn_key (dvals q)"

definition planner_ok :: "'log planner_table \<Rightarrow> bool" where
  "planner_ok q \<longleftrightarrow> dict_ok q \<and> distinct (turn_keys q)"

datatype planner_db_error = BlankTurnKeyError | PlannerIntegrityError | PlannerLookupError

text \<open>What the caller says about a new execution.\<close>

record insert_request =
  iq_id :: string
  iq_run :: string
  iq_tenant :: string
  iq_feature :: string
  iq_prompt_version :: int
  iq_provider :: string
  iq_model :: string
  iq_tool_version :: "string option"
  iq_snapshot_hash :: "string option"

definition pending_row :: "insert_request \<Rightarrow> int \<Rightarrow> string option \<Rightarrow> 'log planner_row" where
  "pending_row rq now key =
     \<lparr>pl_run = iq_run rq, pl_tenant = iq_tenant rq, pl_feature = iq_feature rq, pl_prompt_version = iq_prompt_version rq,
      pl_provider = iq_provider rq, pl_model = iq_model rq, pl_latency_ms = None, pl_status = PsPending,
      pl_execution_status = ''pending'', pl_raw = empty_col, pl_plan = empty_col, pl_execution_plan = empty_col,
      pl_errors = empty_col, pl_reason = empty_col, pl_is_new_turn = None, pl_log = [], pl_log_enc = None,
      pl_composer_path = None, pl_tool_version = iq_tool_version rq, pl_snapshot_hash = iq_snapshot_hash rq,
      pl_turn_key = key, pl_created_at = now\<rparr>"

text \<open>An insert the constraints of the table refuse raises \<open>IntegrityError\<close>.\<close>

definition insert_row :: "string \<Rightarrow> 'log planner_row \<Rightarrow> 'log planner_table \<Rightarrow> planner_db_error + 'log planner_table" where
  "insert_row i r q =
     (if i \<in> set (dkeys q) \<or> (\<exists>k\<in>set_option (pl_turn_key r). k \<in> set (turn_keys q)) then Inl PlannerIntegrityError
      else Inr (q @ [(i, r)]))"

definition insert_pending :: "insert_request \<Rightarrow> int \<Rightarrow> 'log planner_table \<Rightarrow> planner_db_error + 'log planner_table" where
  "insert_pending rq now q = insert_row (iq_id rq) (pending_row rq now None) q"

definition find_turn :: "string \<Rightarrow> 'log planner_table \<Rightarrow> string option" where
  "find_turn key q = map_option fst (find (\<lambda>(k, r). pl_turn_key r = Some key) q)"

text \<open>
  \<open>race\<close>: the row another worker commits between the lookup and the insert. The result is the id of
  the execution and whether it was there before.
\<close>

definition create_or_resume_execution ::
    "insert_request \<Rightarrow> string \<Rightarrow> int \<Rightarrow> (string \<times> 'log planner_row) option \<Rightarrow> 'log planner_table \<Rightarrow>
     planner_db_error + ('log planner_table \<times> string \<times> bool)" where
  "create_or_resume_execution rq key now race q =
     (if strip key = [] then Inl BlankTurnKeyError
      else
        (case find_turn key q of
           Some i \<Rightarrow> Inr (q, i, True)
         | None \<Rightarrow>
             (let q0 = (case race of None \<Rightarrow> q | Some (j, x) \<Rightarrow> q @ [(j, x)]) in
              case insert_row (iq_id rq) (pending_row rq now (Some key)) q0 of
                Inr q1 \<Rightarrow> Inr (q1, iq_id rq, False)
              | Inl e \<Rightarrow>
                  (case find_turn key q0 of
                     Some i \<Rightarrow> Inr (q0, i, True)
                   | None \<Rightarrow> Inl e))))"

section \<open>The stages\<close>

definition update_row ::
    "string \<Rightarrow> ('log planner_row \<Rightarrow> 'log planner_row) \<Rightarrow> 'log planner_table \<Rightarrow> planner_db_error + 'log planner_table" where
  "update_row i f q = (case dget q i of None \<Rightarrow> Inl PlannerLookupError | Some r \<Rightarrow> Inr (dput q i (f r)))"

definition or_keep :: "string option \<Rightarrow> string \<Rightarrow> string" where
  "or_keep new old = (case new of None \<Rightarrow> old | Some x \<Rightarrow> x)"

definition mark_received ::
    "pii_mode \<Rightarrow> string \<Rightarrow> string \<Rightarrow> nat \<Rightarrow> string option \<Rightarrow> string option \<Rightarrow> 'log planner_table \<Rightarrow>
     planner_db_error + 'log planner_table" where
  "mark_received mode i raw latency provider model q =
     update_row i (\<lambda>r. r\<lparr>pl_raw := write_pii mode (Some raw), pl_latency_ms := Some latency, pl_status := PsReceived,
       pl_provider := or_keep provider (pl_provider r), pl_model := or_keep model (pl_model r)\<rparr>) q"

definition mark_invalid :: "pii_mode \<Rightarrow> string \<Rightarrow> string \<Rightarrow> 'log planner_table \<Rightarrow> planner_db_error + 'log planner_table" where
  "mark_invalid mode i errors q =
     update_row i (\<lambda>r. r\<lparr>pl_status := PsInvalid, pl_errors := write_pii mode (Some errors)\<rparr>) q"

definition mark_valid ::
    "pii_mode \<Rightarrow> string \<Rightarrow> plan \<Rightarrow> ep_json \<Rightarrow> bool option \<Rightarrow> string option \<Rightarrow> 'log planner_table \<Rightarrow>
     planner_db_error + 'log planner_table" where
  "mark_valid mode i p ep new_turn why q =
     update_row i (\<lambda>r. r\<lparr>pl_plan := write_pii mode (Some p), pl_execution_plan := write_pii mode (Some ep),
       pl_status := PsValid, pl_is_new_turn := new_turn, pl_reason := write_pii mode why\<rparr>) q"

text \<open>The single write at the end of a turn. The log column may not be null.\<close>

fun write_log :: "pii_mode \<Rightarrow> 'log list \<Rightarrow> 'log list \<times> 'log list option" where
  "write_log PlaintextOnly xs = (xs, None)"
| "write_log DualWrite xs = (xs, Some xs)"
| "write_log EncryptedOnly xs = ([], Some xs)"

record 'log turn_diag =
  td_request :: insert_request
  td_status :: planner_status
  td_execution_status :: string
  td_plan :: "plan option"
  td_log :: "'log list"
  td_errors :: "string option"
  td_composer_path :: "string option"

definition persist_completed_turn ::
    "pii_mode \<Rightarrow> 'log turn_diag \<Rightarrow> int \<Rightarrow> 'log planner_table \<Rightarrow> planner_db_error + 'log planner_table" where
  "persist_completed_turn mode d now q =
     insert_row (iq_id (td_request d))
       ((pending_row (td_request d) now None)\<lparr>pl_status := td_status d, pl_execution_status := td_execution_status d,
          pl_composer_path := td_composer_path d, pl_plan := write_pii mode (td_plan d),
          pl_errors := write_pii mode (td_errors d), pl_log := fst (write_log mode (td_log d)),
          pl_log_enc := snd (write_log mode (td_log d))\<rparr>) q"

section \<open>No plain text\<close>

text \<open>A row whose personal data is encrypted only.\<close>

definition no_plaintext :: "'log planner_row \<Rightarrow> bool" where
  "no_plaintext r \<longleftrightarrow> col_plain (pl_raw r) = None \<and> col_plain (pl_plan r) = None \<and> col_plain (pl_execution_plan r) = None \<and>
     col_plain (pl_errors r) = None \<and> col_plain (pl_reason r) = None \<and> pl_log r = []"

text \<open>What was written is read back whatever the mode.\<close>

lemma read_write_pii [simp]: "read_planner_pii (write_pii mode v) = v"
  by (cases mode) (auto simp: read_planner_pii_def split: option.split)

lemma write_encrypted [simp]: "col_plain (write_pii EncryptedOnly v) = None"
  by simp

lemma pending_no_plaintext [simp]: "no_plaintext (pending_row rq now key)"
  by (simp add: no_plaintext_def pending_row_def empty_col_def)

section \<open>The constraints\<close>

lemma turn_keys_append [simp]: "turn_keys (q @ q') = turn_keys q @ turn_keys q'"
  by (induction q) (auto simp: turn_keys_def map_filter_simps split: option.split)

lemma turn_keys_one [simp]: "turn_keys [(i, r)] = (case pl_turn_key r of None \<Rightarrow> [] | Some k \<Rightarrow> [k])"
  by (simp add: turn_keys_def map_filter_simps split: option.split)

lemma insert_row_ok: "insert_row i r q = Inr q' \<Longrightarrow> planner_ok q \<Longrightarrow> planner_ok q' \<and> q' = q @ [(i, r)]"
  by (auto simp: insert_row_def planner_ok_def dict_ok_def split: if_splits option.splits)

lemma find_turn_None: "find_turn key q = None \<longleftrightarrow> key \<notin> set (turn_keys q)"
  by (auto simp: find_turn_def find_None_iff turn_keys_def set_map_filter_iff)

lemma find_turn_mem: "find_turn key q = Some i \<Longrightarrow> \<exists>r. (i, r) \<in> set q \<and> pl_turn_key r = Some key"
  using nth_mem by (fastforce simp: find_turn_def find_Some_iff)

lemma find_turn_append:
  "find_turn key (q @ q') = (case find_turn key q of None \<Rightarrow> find_turn key q' | Some i \<Rightarrow> Some i)"
  by (induction q) (auto simp: find_turn_def)

lemma find_turn_one: "find_turn key [(i, r)] = (if pl_turn_key r = Some key then Some i else None)"
  by (simp add: find_turn_def)

lemma pending_row_key [simp]: "pl_turn_key (pending_row rq now key) = key"
  by (simp add: pending_row_def)

lemma create_or_resume_found:
  assumes "create_or_resume_execution rq key now race q = Inr (q', i, resumed)"
  shows "find_turn key q' = Some i \<and> (\<exists>new. q' = q @ new)"
proof (cases "find_turn key q")
  case (Some j)
  then show ?thesis using assms by (auto simp: create_or_resume_execution_def split: if_splits)
next
  case None
  define q0 where "q0 = (case race of None \<Rightarrow> q | Some (j, x) \<Rightarrow> q @ [(j, x)])"
  have ext: "\<exists>new. q0 = q @ new" by (auto simp: q0_def split: option.split)
  show ?thesis
  proof (cases "insert_row (iq_id rq) (pending_row rq now (Some key)) q0")
    case (Inl e)
    then have "find_turn key q0 = Some i" "q' = q0"
      using assms None by (auto simp: create_or_resume_execution_def q0_def [symmetric] split: if_splits option.splits)
    with ext show ?thesis by simp
  next
    case (Inr q1)
    then have q': "q' = q1" "i = iq_id rq"
      using assms None by (auto simp: create_or_resume_execution_def q0_def [symmetric] split: if_splits)
    from Inr have "q1 = q0 @ [(iq_id rq, pending_row rq now (Some key))]" "find_turn key q0 = None"
      by (auto simp: insert_row_def find_turn_None split: if_splits)
    with q' ext show ?thesis by (auto simp: find_turn_append find_turn_one)
  qed
qed


section \<open>Runs of the operations\<close>

inductive planner_step :: "pii_mode \<Rightarrow> 'log planner_table \<Rightarrow> 'log planner_table \<Rightarrow> bool" for mode :: pii_mode where
  pending: "insert_pending rq now q = Inr q' \<Longrightarrow> planner_step mode q q'"
| create: "create_or_resume_execution rq key now race q = Inr (q', i, b) \<Longrightarrow>
    (\<And>j x. race = Some (j, x) \<Longrightarrow> planner_ok (q @ [(j, x)]) \<and> (mode = EncryptedOnly \<longrightarrow> no_plaintext x)) \<Longrightarrow> planner_step mode q q'"
| received: "mark_received mode i raw latency provider model q = Inr q' \<Longrightarrow> planner_step mode q q'"
| invalid: "mark_invalid mode i errors q = Inr q' \<Longrightarrow> planner_step mode q q'"
| valid: "mark_valid mode i p ep new_turn why q = Inr q' \<Longrightarrow> planner_step mode q q'"
| completed: "persist_completed_turn mode d now q = Inr q' \<Longrightarrow> planner_step mode q q'"

text \<open>An update of the stages writes columns other than the turn key, and hides what it writes.\<close>

definition stage_update :: "pii_mode \<Rightarrow> ('log planner_row \<Rightarrow> 'log planner_row) \<Rightarrow> bool" where
  "stage_update mode f \<longleftrightarrow>
     (\<forall>r. pl_turn_key (f r) = pl_turn_key r \<and> (mode = EncryptedOnly \<longrightarrow> no_plaintext r \<longrightarrow> no_plaintext (f r)))"

definition plan_inv :: "pii_mode \<Rightarrow> 'log planner_table \<Rightarrow> bool" where
  "plan_inv mode q \<longleftrightarrow> planner_ok q \<and> (mode = EncryptedOnly \<longrightarrow> (\<forall>r\<in>set (dvals q). no_plaintext r))"

lemma dput_append: "dget q i \<noteq> None \<Longrightarrow> \<exists>xs y zs. q = xs @ (i, y) # zs \<and> dget q i = Some y \<and> dput q i v = xs @ (i, v) # zs"
proof (induction q)
  case (Cons p q)
  obtain k r where p: "p = (k, r)" by (cases p)
  show ?case
  proof (cases "k = i")
    case True
    then show ?thesis by (intro exI [of _ "[]"]) (simp add: p)
  next
    case False
    with Cons obtain xs y zs where "q = xs @ (i, y) # zs" "dget q i = Some y" "dput q i v = xs @ (i, v) # zs"
      by (auto simp: p)
    then show ?thesis using False by (intro exI [of _ "(k, r) # xs"]) (simp add: p)
  qed
qed simp

lemma stage_inv:
  assumes "update_row i f q = Inr q'" and "stage_update mode f"
  shows "find_turn key q' = find_turn key q \<and> (plan_inv mode q \<longrightarrow> plan_inv mode q')"
proof -
  from assms(1) obtain r where "dget q i = Some r" and q': "q' = dput q i (f r)"
    by (auto simp: update_row_def split: option.splits)
  with dput_append [of q i "f r"] obtain xs zs where q: "q = xs @ (i, r) # zs" and q2: "q' = xs @ (i, f r) # zs" by auto
  have key: "pl_turn_key (f r) = pl_turn_key r" using assms(2) by (simp add: stage_update_def)
  have one: "(i, x) # zs = [(i, x)] @ zs" for x by simp
  have "find_turn key q' = find_turn key q"
    unfolding q q2 one [of r] one [of "f r"] find_turn_append find_turn_one key by (simp split: option.split)
  moreover have "turn_keys q' = turn_keys q" unfolding q q2 one [of r] one [of "f r"] turn_keys_append by (simp add: key)
  then have "plan_inv mode q \<longrightarrow> plan_inv mode q'"
    using assms(2) by (auto simp: plan_inv_def planner_ok_def dict_ok_def q q2 stage_update_def)
  ultimately show ?thesis by blast
qed

lemma insert_step:
  assumes "insert_row i r q = Inr q'" and "mode = EncryptedOnly \<longrightarrow> no_plaintext r"
  shows "(find_turn key q = Some j \<longrightarrow> find_turn key q' = Some j) \<and> (plan_inv mode q \<longrightarrow> plan_inv mode q')"
proof -
  have "q' = q @ [(i, r)]" using assms(1) by (auto simp: insert_row_def split: if_splits)
  then show ?thesis using insert_row_ok [OF assms(1)] assms(2) by (auto simp: find_turn_append plan_inv_def)
qed

lemma stage_updates:
  "stage_update mode (\<lambda>r. r\<lparr>pl_raw := write_pii mode (Some raw), pl_latency_ms := Some latency, pl_status := PsReceived,
       pl_provider := or_keep provider (pl_provider r), pl_model := or_keep model (pl_model r)\<rparr>)"
  "stage_update mode (\<lambda>r. r\<lparr>pl_status := PsInvalid, pl_errors := write_pii mode (Some errors)\<rparr>)"
  "stage_update mode (\<lambda>r. r\<lparr>pl_plan := write_pii mode (Some p), pl_execution_plan := write_pii mode (Some ep),
       pl_status := PsValid, pl_is_new_turn := new_turn, pl_reason := write_pii mode why\<rparr>)"
  by (auto simp: stage_update_def no_plaintext_def)

lemma planner_step_keeps:
  assumes "planner_step mode q q'"
  shows "(find_turn key q = Some j \<longrightarrow> find_turn key q' = Some j) \<and> (plan_inv mode q \<longrightarrow> plan_inv mode q')"
  using assms
proof cases
  case (pending rq now)
  then show ?thesis by (auto simp: insert_pending_def dest: insert_step)
next
  case (create rq key' now race i b)
  obtain new where new: "q' = q @ new" using create_or_resume_found [OF create(1)] by blast
  have "plan_inv mode q'" if inv: "plan_inv mode q"
  proof (cases "find_turn key' q")
    case (Some i')
    then show ?thesis using create(1) inv by (auto simp: create_or_resume_execution_def split: if_splits)
  next
    case None
    define q0 where "q0 = (case race of None \<Rightarrow> q | Some (j, x) \<Rightarrow> q @ [(j, x)])"
    have q0: "plan_inv mode q0" using inv create(2) by (auto simp: q0_def plan_inv_def split: option.split)
    show ?thesis
    proof (cases "insert_row (iq_id rq) (pending_row rq now (Some key')) q0")
      case (Inl e)
      then have "q' = q0" using create(1) None
        by (auto simp: create_or_resume_execution_def q0_def [symmetric] split: if_splits option.splits)
      with q0 show ?thesis by simp
    next
      case (Inr q1)
      then have "q' = q1" using create(1) None
        by (auto simp: create_or_resume_execution_def q0_def [symmetric] split: if_splits)
      with insert_step [OF Inr, of mode] q0 show ?thesis by simp
    qed
  qed
  then show ?thesis by (auto simp: new find_turn_append)
next
  case (completed d now)
  have "no_plaintext ((pending_row (td_request d) now None)\<lparr>pl_status := td_status d, pl_execution_status := td_execution_status d,
      pl_composer_path := td_composer_path d, pl_plan := write_pii EncryptedOnly (td_plan d),
      pl_errors := write_pii EncryptedOnly (td_errors d), pl_log := fst (write_log EncryptedOnly (td_log d)),
      pl_log_enc := snd (write_log EncryptedOnly (td_log d))\<rparr>)"
    by (simp add: no_plaintext_def pending_row_def empty_col_def)
  then show ?thesis using insert_step [OF completed [unfolded persist_completed_turn_def], of mode] by blast
next
  case received
  show ?thesis using stage_inv [OF received [unfolded mark_received_def] stage_updates(1), of key] by simp
next
  case invalid
  show ?thesis using stage_inv [OF invalid [unfolded mark_invalid_def] stage_updates(2), of key] by simp
next
  case valid
  show ?thesis using stage_inv [OF valid [unfolded mark_valid_def] stage_updates(3), of key] by simp
qed

lemma planner_run_keeps:
  "(planner_step mode)\<^sup>*\<^sup>* q q' \<Longrightarrow> find_turn key q = Some j \<Longrightarrow> find_turn key q' = Some j"
  by (induction rule: rtranclp_induct) (auto dest: planner_step_keeps)

fun no_plans :: "'log planner_table \<Rightarrow> bool" where
  "no_plans q \<longleftrightarrow> q = []"

interpretation plans: invariant_system no_plans "planner_step mode" "plan_inv mode"
proof
  show "no_plans q \<Longrightarrow> plan_inv mode q" for q :: "'a planner_table"
    by (simp add: plan_inv_def planner_ok_def turn_keys_def map_filter_simps)
  show "plan_inv mode q \<Longrightarrow> planner_step mode q q' \<Longrightarrow> plan_inv mode q'" for q q' :: "'a planner_table"
    using planner_step_keeps by blast
qed

section \<open>Samples\<close>

definition sample_request_row :: "string \<Rightarrow> insert_request" where
  "sample_request_row i = \<lparr>iq_id = i, iq_run = ''r1'', iq_tenant = ''t1'', iq_feature = ''f'', iq_prompt_version = 1,
     iq_provider = [], iq_model = [], iq_tool_version = None, iq_snapshot_hash = None\<rparr>"

definition resumed_table :: "unit planner_table" where
  "resumed_table = [(''e1'', pending_row (sample_request_row ''e1'') 5 (Some ''t1:tg:7''))]"

definition received_table :: "unit planner_table" where
  "received_table = [(''e1'', (pending_row (sample_request_row ''e1'') 5 (Some ''t1:tg:7''))
     \<lparr>pl_raw := write_pii EncryptedOnly (Some ''{}''), pl_latency_ms := Some 3, pl_status := PsReceived, pl_model := ''m''\<rparr>)]"

lemma sample_created:
  "create_or_resume_execution (sample_request_row ''e1'') ''t1:tg:7'' 5 None [] = Inr (resumed_table, ''e1'', False)"
  by code_simp

lemma sample_received: "mark_received EncryptedOnly ''e1'' ''{}'' 3 None (Some ''m'') resumed_table = Inr received_table"
  by code_simp

lemma sample_planner_run: "(planner_step EncryptedOnly)\<^sup>*\<^sup>* resumed_table received_table"
  by (blast intro: planner_step.received [OF sample_received])

section \<open>Properties\<close>

text \<open>
  C11: a turn that is delivered again gets the execution of its first delivery. After an execution
  was created for (or found under) a turn key, and whatever the operations of the module and racing
  workers do next, every later call with that key returns the same id as resumed and inserts nothing.
\<close>

theorem resume_same_execution:
  assumes "create_or_resume_execution rq key now race q = Inr (q1, i, b)"
    and "(planner_step mode)\<^sup>*\<^sup>* q1 q2"
    and "create_or_resume_execution rq' key now' race' q2 = Inr (q3, i', b')"
  shows "i' = i \<and> b' \<and> q3 = q2"
proof -
  have "find_turn key q2 = Some i"
    using planner_run_keeps [OF assms(2)] create_or_resume_found [OF assms(1)] by blast
  then show ?thesis using assms(3) by (auto simp: create_or_resume_execution_def split: if_splits)
qed

lemma sample_resumed:
  "create_or_resume_execution (sample_request_row ''e2'') ''t1:tg:7'' 9 None received_table = Inr (received_table, ''e1'', True)"
  by code_simp

theorem resume_same_execution_witness:
  "\<exists>q3 i b. create_or_resume_execution (sample_request_row ''e2'') ''t1:tg:7'' 9 None received_table = Inr (q3, i, b) \<and>
     i = ''e1'' \<and> b \<and> q3 = received_table"
  using sample_resumed resume_same_execution [OF sample_created sample_planner_run sample_resumed] by (intro exI conjI) simp_all

text \<open>
  C12: with the write mode of the module no personal data is ever stored in plain text: in every state
  the operations can reach, no row has a response, a plan, errors, a reason or a log outside of the
  encrypted columns; and no two rows have the same turn key.
\<close>

theorem no_plaintext_at_rest:
  assumes "reach no_plans (planner_step PLANNER_PII_WRITE_MODE) q"
  shows "(\<forall>r\<in>set (dvals q). col_plain (pl_raw r) = None \<and> col_plain (pl_plan r) = None \<and>
      col_plain (pl_execution_plan r) = None \<and> col_plain (pl_errors r) = None \<and> col_plain (pl_reason r) = None \<and> pl_log r = []) \<and>
    distinct (List.map_filter pl_turn_key (dvals q))"
  using plans.reach_inv [OF assms]
  by (auto simp: plan_inv_def PLANNER_PII_WRITE_MODE_def no_plaintext_def planner_ok_def turn_keys_def)

theorem no_plaintext_at_rest_witness:
  "list_all (\<lambda>r. col_plain (pl_raw r) = None \<and> pl_log r = []) (dvals received_table) \<and>
    distinct (List.map_filter pl_turn_key (dvals received_table))"
proof -
  have "planner_step EncryptedOnly [] resumed_table" by (rule planner_step.create [OF sample_created]) simp
  moreover have "reach no_plans (planner_step EncryptedOnly) ([] :: unit planner_table)" by (rule reach_init) simp
  ultimately have "reach no_plans (planner_step EncryptedOnly) resumed_table" by (blast intro: reach_step)
  then have "reach no_plans (planner_step PLANNER_PII_WRITE_MODE) received_table"
    using planner_step.received [OF sample_received] by (auto simp: PLANNER_PII_WRITE_MODE_def intro: reach_step)
  from no_plaintext_at_rest [OF this] show ?thesis by (simp only: list_all_iff) blast
qed

end
