(* ===== verification/Orchestrator.thy ===== *)
theory Orchestrator
  imports Validator PlanPersistence
begin

text \<open>
  \<open>run\<close> of \<open>runtime/planner/orchestrator.py\<close> with \<open>runtime/planner/json_parse.py\<close>: the prompt, at most two
  calls of the model, and from each answer a parsed, checked and compiled plan, with a row of
  \<open>planner_executions\<close> written at every stage. The prompt builder, the model, \<open>json.loads\<close>, the typing
  of the fields by pydantic, the regular expressions that hide personal data and the texts of exceptions
  are parameters, and so are the exceptions a transaction may raise. Non-ASCII text is UTF-8 bytes.
\<close>

section \<open>The envelope of an answer\<close>

definition BOM :: string where "BOM = [CHR 0xEF, CHR 0xBB, CHR 0xBF]"

fun lstrip_bom :: "string \<Rightarrow> string" where
  "lstrip_bom (a # b # c # s) = (if [a, b, c] = BOM then lstrip_bom s else a # b # c # s)"
| "lstrip_bom s = s"

definition FENCE :: string where "FENCE = ''```''"

text \<open>After the opening fence: \<open>json\<close> in any case or nothing, blanks, and a line break.\<close>

definition after_info :: "string \<Rightarrow> string option" where
  "after_info s =
     (let t = (if list_all2 (\<lambda>c cs. c \<in> set cs) (take 4 s) [''Jj'', ''Ss'', ''Oo'', ''Nn''] then drop 4 s else s) in
      case dropWhile (\<lambda>c. c = CHR '' '' \<or> c = CHR 0x09) t of
        c # u \<Rightarrow>
          if c = CHR 0x0A then Some u
          else if c = CHR 0x0D then (case u of d # v \<Rightarrow> if d = CHR 0x0A then Some v else None | [] \<Rightarrow> None)
          else None
      | [] \<Rightarrow> None)"

text \<open>The body of a string that is one fenced block; the line break before the closing fence is stripped later.\<close>

definition fence_body :: "string \<Rightarrow> string option" where
  "fence_body s =
     (if \<not> prefix FENCE s then None
      else (case after_info (drop 3 s) of
              None \<Rightarrow> None
            | Some t \<Rightarrow> if suffix FENCE t then Some (take (length t - 3) t) else None))"

definition clean_envelope :: "string \<Rightarrow> string" where
  "clean_envelope raw =
     (let s = strip (lstrip_bom (strip raw)) in case fence_body s of Some b \<Rightarrow> strip b | None \<Rightarrow> s)"

definition parse_planner_json :: "(string \<Rightarrow> string + 'j) \<Rightarrow> string \<Rightarrow> string + 'j" where
  "parse_planner_json loads raw = loads (clean_envelope raw)"

section \<open>Context and result\<close>

record planner_ctx =
  oc_tenant :: string
  oc_run :: string
  oc_feature :: string
  oc_user_message :: string
  oc_tools :: "typed_spec list"
  oc_template_ids :: "string list"
  oc_llm_keys :: "string list"
  oc_snapshot_hash :: string
  oc_tool_version :: string
  oc_few_shot :: string
  oc_provider :: "string option"
  oc_prompt_version :: int

record planner_result =
  pr_success :: bool
  pr_execution_id :: string
  pr_attempt :: nat
  pr_plan :: "plan option"
  pr_execution_plan :: "execution_plan option"
  pr_error :: "string option"
  pr_raws :: "string list"
  pr_prompt_tokens :: nat
  pr_completion_tokens :: nat
  pr_provider :: string
  pr_model :: string

record planner_answer =
  an_raw :: string
  an_latency :: nat
  an_prompt_tokens :: nat
  an_completion_tokens :: nat
  an_provider :: string
  an_model :: string

datatype prompt_exn = BudgetExceeded string | PromptRaises

datatype planner_call_exn = ProviderUnavailable string | PlannerTimeout string | OtherCallExn string string

datatype stage = StInsert | StReceived | StInvalid | StValid

text \<open>The type name and the text of an exception.\<close>

type_synonym exn_info = "string \<times> string"

record 'j orch_env =
  registry_llm_keys :: "string list"
  registry_required :: "string \<Rightarrow> string list"
  enabled_llm_keys :: "string list"
  render_few_shot :: "string list \<Rightarrow> string"
  build_prompt :: "string \<Rightarrow> string list \<Rightarrow> string \<Rightarrow> prompt_exn + string"
  call_planner :: "string \<Rightarrow> nat \<Rightarrow> planner_call_exn + planner_answer"
  loads :: "string \<Rightarrow> string + 'j"
  plan_of_json :: "'j \<Rightarrow> string + plan"
  schema_text :: "plan_error \<Rightarrow> string"
  violation_text :: "violation \<Rightarrow> string"
  compile_text :: "compile_error \<Rightarrow> string"
  feedback_parts :: "string \<times> string \<times> string"
  redact :: "string \<Rightarrow> string"
  oe_types :: type_env
  oe_pydantic :: pydantic
  oe_enum :: "string set \<Rightarrow> string list"
  storage_fault :: "stage \<Rightarrow> nat \<Rightarrow> exn_info option"
  has_alert :: bool
  oe_mode :: pii_mode
  oe_now :: int

text \<open>A call, with its prompt and attempt number; an alert, with its key, excerpt and errors.\<close>

record 'log orch_state =
  os_rows :: "'log planner_table"
  os_calls :: "(string \<times> nat) list"
  os_alerts :: "(string \<times> string \<times> string) list"

datatype orch_exn = EscPrompt | EscValidate validate_error

section \<open>Checking an answer\<close>

definition registry_map :: "planner_ctx \<Rightarrow> typed_registry" where
  "registry_map ctx = fold (\<lambda>s d. dput d (ts_name (base_spec s)) s) (oc_tools ctx) []"

text \<open>The keys proposed by the caller, known to the registry and enabled in the settings, sorted.\<close>

definition effective_llm_keys :: "'j orch_env \<Rightarrow> planner_ctx \<Rightarrow> string list" where
  "effective_llm_keys env ctx =
     sort (remdups (filter (\<lambda>k. k \<in> set (registry_llm_keys env) \<and> k \<in> set (enabled_llm_keys env)) (oc_llm_keys ctx)))"

definition effective_lists :: "'j orch_env \<Rightarrow> planner_ctx \<Rightarrow> composer_lists" where
  "effective_lists env ctx =
     \<lparr>composer_template_ids = Some (oc_template_ids ctx), composer_llm_prompt_keys = Some (effective_llm_keys env ctx),
      llm_prompt_required_keys = Some (map (\<lambda>k. (k, registry_required env k)) (effective_llm_keys env ctx))\<rparr>"

definition FEEDBACK_PRIORITY_CODES :: "string list" where
  "FEEDBACK_PRIORITY_CODES = [''branch_match_status_invented'', ''compose_ref_unknown_field'', ''composer_contract_invalid'']"

definition prioritize_for_feedback :: "violation list \<Rightarrow> violation list" where
  "prioritize_for_feedback vs = sort_key (\<lambda>v. if v_code v \<in> set FEEDBACK_PRIORITY_CODES then 0 else (1::nat)) vs"

definition violations_text :: "'j orch_env \<Rightarrow> violation list \<Rightarrow> string" where
  "violations_text env vs =
     ''validator_violations: '' @
     join_with ''; '' (take 5 (render_violations (violation_text env) (prioritize_for_feedback vs)))"

datatype check = Escapes validate_error | InvalidPlan string | Accepted plan execution_plan

definition check_plan :: "'j orch_env \<Rightarrow> planner_ctx \<Rightarrow> plan \<Rightarrow> check" where
  "check_plan env ctx p =
     (case validate_plan (oe_types env) (oe_pydantic env) (oe_enum env) p (registry_map ctx) (effective_lists env ctx) of
        Inl e \<Rightarrow> Escapes e
      | Inr vs \<Rightarrow>
          if vs \<noteq> [] then InvalidPlan (violations_text env vs)
          else (case compile_plan p (plain_registry (registry_map ctx)) of
                  Inl e \<Rightarrow> InvalidPlan (''plan_compile_error: '' @ compile_text env e)
                | Inr ep \<Rightarrow> Accepted p ep))"

definition check_answer :: "'j orch_env \<Rightarrow> planner_ctx \<Rightarrow> string \<Rightarrow> check" where
  "check_answer env ctx raw =
     (case parse_planner_json (loads env) raw of
        Inl t \<Rightarrow> InvalidPlan (''json_decode_error: '' @ t)
      | Inr j \<Rightarrow>
          (case plan_of_json env j of
             Inl t \<Rightarrow> InvalidPlan (''plan_schema_error: '' @ t)
           | Inr p0 \<Rightarrow>
               (case plan_validate p0 of
                  Inl e \<Rightarrow> InvalidPlan (''plan_schema_error: '' @ schema_text env e)
                | Inr p \<Rightarrow> check_plan env ctx p)))"

section \<open>Failures\<close>

definition build_retry_feedback :: "'j orch_env \<Rightarrow> string \<Rightarrow> string \<Rightarrow> string" where
  "build_retry_feedback env prev errors =
     (case feedback_parts env of (a, b, c) \<Rightarrow> a @ take 500 prev @ b @ take 500 errors @ c)"

definition redact_for_alert :: "'j orch_env \<Rightarrow> nat \<Rightarrow> string \<Rightarrow> string" where
  "redact_for_alert env max_chars t = take max_chars (redact env t)"

definition maybe_alert ::
    "'j orch_env \<Rightarrow> planner_ctx \<Rightarrow> string \<Rightarrow> string \<Rightarrow> 'log orch_state \<Rightarrow> 'log orch_state" where
  "maybe_alert env ctx i errors s =
     (if has_alert env
      then s\<lparr>os_alerts := os_alerts s @
        [(''planner_invalid:'' @ take 16 i, redact_for_alert env 200 (oc_user_message ctx), redact_for_alert env 500 errors)]\<rparr>
      else s)"

fun db_exn :: "planner_db_error \<Rightarrow> exn_info" where
  "db_exn PlannerIntegrityError = (''IntegrityError'', [])"
| "db_exn PlannerLookupError = (''LookupError'', [])"
| "db_exn BlankTurnKeyError = (''ValueError'', [])"

text \<open>A stage in a transaction of its own; without a session factory nothing is written.\<close>

definition store ::
    "'j orch_env \<Rightarrow> bool \<Rightarrow> stage \<Rightarrow> nat \<Rightarrow> ('log planner_table \<Rightarrow> planner_db_error + 'log planner_table) \<Rightarrow>
     'log planner_table \<Rightarrow> exn_info + 'log planner_table" where
  "store env db st n f q =
     (if \<not> db then Inr q
      else (case storage_fault env st n of
              Some e \<Rightarrow> Inl e
            | None \<Rightarrow> (case f q of Inl e \<Rightarrow> Inl (db_exn e) | Inr q' \<Rightarrow> Inr q')))"

definition terminate_invalid ::
    "'j orch_env \<Rightarrow> bool \<Rightarrow> string \<Rightarrow> nat \<Rightarrow> string \<Rightarrow> 'log orch_state \<Rightarrow> 'log orch_state" where
  "terminate_invalid env db i n errors s =
     (case store env db StInvalid n (mark_invalid (oe_mode env) i (take 2000 errors)) (os_rows s) of
        Inl e \<Rightarrow> s
      | Inr q \<Rightarrow> s\<lparr>os_rows := q\<rparr>)"

definition failed_result :: "string \<Rightarrow> nat \<Rightarrow> string \<Rightarrow> string list \<Rightarrow> planner_result" where
  "failed_result i n err raws =
     \<lparr>pr_success = False, pr_execution_id = i, pr_attempt = n, pr_plan = None, pr_execution_plan = None,
      pr_error = Some err, pr_raws = raws, pr_prompt_tokens = 0, pr_completion_tokens = 0, pr_provider = [], pr_model = []\<rparr>"

definition give_up ::
    "'j orch_env \<Rightarrow> planner_ctx \<Rightarrow> bool \<Rightarrow> string \<Rightarrow> nat \<Rightarrow> string \<Rightarrow> string \<Rightarrow> nat \<Rightarrow> string list \<Rightarrow> 'log orch_state \<Rightarrow>
     'log orch_state \<times> (orch_exn + planner_result)" where
  "give_up env ctx db i n errors summary reported raws s =
     (maybe_alert env ctx i errors (terminate_invalid env db i n errors s), Inr (failed_result i reported summary raws))"

definition storage_failed ::
    "'j orch_env \<Rightarrow> planner_ctx \<Rightarrow> string \<Rightarrow> string \<Rightarrow> exn_info \<Rightarrow> nat \<Rightarrow> string list \<Rightarrow> 'log orch_state \<Rightarrow>
     'log orch_state \<times> (orch_exn + planner_result)" where
  "storage_failed env ctx i what e n raws s =
     (let summary = ''persistence:'' @ what @ '':'' @ fst e in
      (maybe_alert env ctx i (summary @ '': '' @ snd e) s, Inr (failed_result i n summary raws)))"

fun call_errors :: "planner_call_exn \<Rightarrow> string" where
  "call_errors (ProviderUnavailable t) = ''provider_unavailable: '' @ t"
| "call_errors (PlannerTimeout t) = ''timeout: '' @ t"
| "call_errors (OtherCallExn n t) = ''llm_call:'' @ n @ '': '' @ t"

fun call_summary :: "planner_call_exn \<Rightarrow> string" where
  "call_summary (ProviderUnavailable t) = ''provider_unavailable''"
| "call_summary (PlannerTimeout t) = ''timeout''"
| "call_summary (OtherCallExn n t) = ''llm_call:'' @ n"

section \<open>The attempts\<close>

record loop_vars =
  lv_latency :: nat
  lv_raws :: "string list"
  lv_prompt_tokens :: nat
  lv_completion_tokens :: nat
  lv_errors :: string
  lv_raw :: string

definition build_prompt_or_raise :: "'j orch_env \<Rightarrow> planner_ctx \<Rightarrow> string option \<Rightarrow> prompt_exn + string" where
  "build_prompt_or_raise env ctx feedback =
     (let keys = effective_llm_keys env ctx in
      build_prompt env (if oc_few_shot ctx \<noteq> [] then render_few_shot env keys else []) keys
        (oc_user_message ctx @ (case feedback of None \<Rightarrow> [] | Some f \<Rightarrow> f)))"

text \<open>The attempts left, the number of the next one.\<close>

fun attempts ::
    "'j orch_env \<Rightarrow> planner_ctx \<Rightarrow> bool \<Rightarrow> string \<Rightarrow> nat \<Rightarrow> nat \<Rightarrow> loop_vars \<Rightarrow> 'log orch_state \<Rightarrow>
     'log orch_state \<times> (orch_exn + planner_result)" where
  "attempts env ctx db i 0 n l s = (s, Inr (failed_result i (n - 1) ''unexpected_loop_exit'' (lv_raws l)))"
| "attempts env ctx db i (Suc k) n l s =
     (case build_prompt_or_raise env ctx (if n > 1 then Some (build_retry_feedback env (lv_raw l) (lv_errors l)) else None) of
        Inl (BudgetExceeded t) \<Rightarrow>
          give_up env ctx db i n (''prompt_budget_exceeded: '' @ t) ''prompt_budget_exceeded'' (n - 1) (lv_raws l) s
      | Inl PromptRaises \<Rightarrow> (s, Inl EscPrompt)
      | Inr prompt \<Rightarrow>
          (let s1 = s\<lparr>os_calls := os_calls s @ [(prompt, n)]\<rparr> in
           case call_planner env prompt n of
             Inl e \<Rightarrow> give_up env ctx db i n (call_errors e) (call_summary e) n (lv_raws l) s1
           | Inr a \<Rightarrow>
               (let l1 = l\<lparr>lv_latency := lv_latency l + an_latency a, lv_raws := lv_raws l @ [an_raw a],
                      lv_prompt_tokens := lv_prompt_tokens l + an_prompt_tokens a,
                      lv_completion_tokens := lv_completion_tokens l + an_completion_tokens a, lv_raw := an_raw a\<rparr> in
                case store env db StReceived n
                    (mark_received (oe_mode env) i (an_raw a) (lv_latency l1) (Some (an_provider a)) (Some (an_model a))) (os_rows s1) of
                  Inl e \<Rightarrow> storage_failed env ctx i ''mark_received'' e n (lv_raws l1) s1
                | Inr q \<Rightarrow>
                    (let s2 = s1\<lparr>os_rows := q\<rparr> in
                     case check_answer env ctx (an_raw a) of
                       Escapes e \<Rightarrow> (s2, Inl (EscValidate e))
                     | InvalidPlan errors \<Rightarrow>
                         if k > 0 then attempts env ctx db i k (Suc n) (l1\<lparr>lv_errors := errors\<rparr>) s2
                         else give_up env ctx db i n errors ''invalid_plan_after_retry'' n (lv_raws l1) s2
                     | Accepted p ep \<Rightarrow>
                         (case store env db StValid n
                             (mark_valid (oe_mode env) i p (execution_plan_to_json ep) (Some (is_new_turn (classification p)))
                               (Some (reason (classification p)))) (os_rows s2) of
                            Inl e \<Rightarrow> storage_failed env ctx i ''mark_valid'' e n (lv_raws l1) s2
                          | Inr q' \<Rightarrow>
                              (s2\<lparr>os_rows := q'\<rparr>,
                               Inr \<lparr>pr_success = True, pr_execution_id = i, pr_attempt = n, pr_plan = Some p,
                                 pr_execution_plan = Some ep, pr_error = None, pr_raws = lv_raws l1,
                                 pr_prompt_tokens = lv_prompt_tokens l1, pr_completion_tokens = lv_completion_tokens l1,
                                 pr_provider = an_provider a, pr_model = an_model a\<rparr>))))))"

definition planner_request :: "planner_ctx \<Rightarrow> string \<Rightarrow> insert_request" where
  "planner_request ctx i =
     \<lparr>iq_id = i, iq_run = oc_run ctx, iq_tenant = oc_tenant ctx, iq_feature = oc_feature ctx,
      iq_prompt_version = oc_prompt_version ctx, iq_provider = (case oc_provider ctx of None \<Rightarrow> [] | Some x \<Rightarrow> x),
      iq_model = [], iq_tool_version = Some (oc_tool_version ctx), iq_snapshot_hash = Some (oc_snapshot_hash ctx)\<rparr>"

definition no_vars :: loop_vars where
  "no_vars = \<lparr>lv_latency = 0, lv_raws = [], lv_prompt_tokens = 0, lv_completion_tokens = 0, lv_errors = [], lv_raw = []\<rparr>"

definition run_planner ::
    "'j orch_env \<Rightarrow> planner_ctx \<Rightarrow> bool \<Rightarrow> bool \<Rightarrow> string \<Rightarrow> 'log orch_state \<Rightarrow>
     'log orch_state \<times> (orch_exn + planner_result)" where
  "run_planner env ctx db retry_enabled i s =
     (case store env db StInsert 0 (insert_pending (planner_request ctx i) (oe_now env)) (os_rows s) of
        Inl e \<Rightarrow> storage_failed env ctx i ''insert_pending'' e 0 [] s
      | Inr q \<Rightarrow> attempts env ctx db i (if retry_enabled then 2 else 1) 1 no_vars (s\<lparr>os_rows := q\<rparr>))"

section \<open>What an accepted answer is\<close>

lemma check_plan_Accepted:
  "check_plan env ctx p = Accepted p' ep \<longleftrightarrow>
     p' = p \<and> validate_plan (oe_types env) (oe_pydantic env) (oe_enum env) p (registry_map ctx) (effective_lists env ctx) = Inr [] \<and>
     compile_plan p (plain_registry (registry_map ctx)) = Inr ep"
  by (auto simp: check_plan_def split: sum.splits if_splits)

lemma check_answer_Accepted:
  assumes "check_answer env ctx raw = Accepted p ep"
  obtains j p0 where "parse_planner_json (loads env) raw = Inr j" "plan_of_json env j = Inr p0" "plan_validate p0 = Inr p"
    "validate_plan (oe_types env) (oe_pydantic env) (oe_enum env) p (registry_map ctx) (effective_lists env ctx) = Inr []"
    "compile_plan p (plain_registry (registry_map ctx)) = Inr ep"
  using assms by (auto simp: check_answer_def check_plan_Accepted split: sum.splits)

text \<open>The compiler never rejects what the validator accepts, so its branch is dead.\<close>

lemma check_plan_compiles:
  assumes "enumerates (oe_enum env)" and "dict_ok (actions p)"
  shows "check_plan env ctx p = InvalidPlan errors \<Longrightarrow>
    \<exists>v vs. validate_plan (oe_types env) (oe_pydantic env) (oe_enum env) p (registry_map ctx) (effective_lists env ctx) = Inr (v # vs) \<and>
      errors = violations_text env (v # vs)"
proof -
  assume inv: "check_plan env ctx p = InvalidPlan errors"
  then obtain vs where vs: "validate_plan (oe_types env) (oe_pydantic env) (oe_enum env) p (registry_map ctx) (effective_lists env ctx) = Inr vs"
    by (auto simp: check_plan_def split: sum.splits)
  show ?thesis
  proof (cases vs)
    case Nil
    obtain ep where "compile_plan p (plain_registry (registry_map ctx)) = Inr ep"
      using validated_compiles [OF vs [unfolded Nil] assms(2,1)] by blast
    with vs inv Nil show ?thesis by (simp add: check_plan_def)
  next
    case (Cons v ws)
    with vs inv show ?thesis by (simp add: check_plan_def)
  qed
qed

text \<open>A reply written by a model is only accepted under a key of the effective list.\<close>

lemma llm_gate:
  assumes "check_composer_allowlist (effective_lists env ctx) p = []" and "(host, c) \<in> set (iter_all_composes p)" "cc_kind c = KLlm"
  shows "\<exists>k. llm_prompt_key c = Some k \<and> k \<in> set (oc_llm_keys ctx) \<and> k \<in> set (registry_llm_keys env) \<and> k \<in> set (enabled_llm_keys env)"
proof -
  have "check_llm_compose (effective_lists env ctx) (actions p) host c = []"
    using assms by (force simp: check_composer_allowlist_def)
  then have "\<not> opt_not_in (llm_prompt_key c) (effective_llm_keys env ctx)"
    by (auto simp: check_llm_compose_def effective_lists_def Let_def split: if_splits)
  then show ?thesis by (auto simp: opt_not_in_def effective_llm_keys_def)
qed

section \<open>One attempt\<close>

lemma attempt_cases:
  assumes "attempts env ctx db i (Suc k) n l s = (s', res)"
  obtains (budget) t where "(s', res) = give_up env ctx db i n (''prompt_budget_exceeded: '' @ t) ''prompt_budget_exceeded'' (n - 1) (lv_raws l) s"
  | (prompt_raises) "s' = s" "res = Inl EscPrompt"
  | (call_fails) prompt e where
      "(s', res) = give_up env ctx db i n (call_errors e) (call_summary e) n (lv_raws l) (s\<lparr>os_calls := os_calls s @ [(prompt, n)]\<rparr>)"
  | (received_fails) prompt e raws where
      "(s', res) = storage_failed env ctx i ''mark_received'' e n raws (s\<lparr>os_calls := os_calls s @ [(prompt, n)]\<rparr>)"
      "\<exists>(a :: planner_answer) ms. store env db StReceived n (mark_received (oe_mode env) i (an_raw a) ms (Some (an_provider a)) (Some (an_model a))) (os_rows s) = Inl e"
  | (answered) prompt ms q and a :: planner_answer where
      "store env db StReceived n (mark_received (oe_mode env) i (an_raw a) ms (Some (an_provider a)) (Some (an_model a))) (os_rows s) = Inr q"
      "(case check_answer env ctx (an_raw a) of
          Escapes e \<Rightarrow> s' = s\<lparr>os_calls := os_calls s @ [(prompt, n)], os_rows := q\<rparr> \<and> res = Inl (EscValidate e)
        | InvalidPlan errors \<Rightarrow>
            if k > 0 then \<exists>l1. attempts env ctx db i k (Suc n) l1 (s\<lparr>os_calls := os_calls s @ [(prompt, n)], os_rows := q\<rparr>) = (s', res)
            else (s', res) = give_up env ctx db i n errors ''invalid_plan_after_retry'' n (lv_raws l @ [an_raw a])
              (s\<lparr>os_calls := os_calls s @ [(prompt, n)], os_rows := q\<rparr>)
        | Accepted p ep \<Rightarrow>
            (case store env db StValid n
                (mark_valid (oe_mode env) i p (execution_plan_to_json ep) (Some (is_new_turn (classification p)))
                  (Some (reason (classification p)))) q of
               Inl e \<Rightarrow> (s', res) = storage_failed env ctx i ''mark_valid'' e n (lv_raws l @ [an_raw a])
                 (s\<lparr>os_calls := os_calls s @ [(prompt, n)], os_rows := q\<rparr>)
             | Inr q' \<Rightarrow> s' = s\<lparr>os_calls := os_calls s @ [(prompt, n)], os_rows := q'\<rparr> \<and>
                 (\<exists>r. res = Inr r \<and> pr_success r \<and> pr_execution_id r = i \<and> pr_plan r = Some p \<and> pr_execution_plan r = Some ep \<and>
                   pr_raws r = lv_raws l @ [an_raw a] \<and> pr_attempt r = n)))"
proof (cases "build_prompt_or_raise env ctx (if n > 1 then Some (build_retry_feedback env (lv_raw l) (lv_errors l)) else None)")
  case (Inl e)
  show thesis
  proof (cases e)
    case (BudgetExceeded t)
    show thesis by (rule budget [of t]) (use assms Inl BudgetExceeded in simp)
  next
    case PromptRaises
    show thesis by (rule prompt_raises) (use assms Inl PromptRaises in simp_all)
  qed
next
  case (Inr prompt)
  show thesis
  proof (cases "call_planner env prompt n")
    case (Inl e)
    then show thesis using assms Inr by (intro call_fails [of e prompt]) (simp add: Let_def)
  next
    case call: (Inr a)
    let ?ms = "lv_latency l + an_latency a"
    show thesis
    proof (cases "store env db StReceived n (mark_received (oe_mode env) i (an_raw a) ?ms (Some (an_provider a)) (Some (an_model a))) (os_rows s)")
      case (Inl e)
      show thesis
      proof (rule received_fails [of e "lv_raws l @ [an_raw a]" prompt])
        show "(s', res) = storage_failed env ctx i ''mark_received'' e n (lv_raws l @ [an_raw a]) (s\<lparr>os_calls := os_calls s @ [(prompt, n)]\<rparr>)"
          using assms \<open>build_prompt_or_raise _ _ _ = Inr prompt\<close> call Inl by (simp add: Let_def)
      qed (use Inl in blast)
    next
      case stored: (Inr q)
      from assms Inr call stored show thesis
        by (intro answered [OF stored, of prompt])
          (auto simp: Let_def split: check.splits sum.splits if_splits)
    qed
  qed
qed


lemma maybe_alert_simps [simp]:
  "os_rows (maybe_alert env ctx i errors s) = os_rows s" "os_calls (maybe_alert env ctx i errors s) = os_calls s"
  "length (os_alerts (maybe_alert env ctx i errors s)) = length (os_alerts s) + (if has_alert env then 1 else 0)"
  by (simp_all add: maybe_alert_def)

lemma terminate_invalid_simps [simp]:
  "os_calls (terminate_invalid env db i n errors s) = os_calls s" "os_alerts (terminate_invalid env db i n errors s) = os_alerts s"
  by (simp_all add: terminate_invalid_def split: sum.split)

lemma failed_result_simps [simp]:
  "pr_success (failed_result i n err raws) = False" "pr_execution_id (failed_result i n err raws) = i"
  by (simp_all add: failed_result_def)

lemma attempts_success:
  "attempts env ctx db i k n l s = (s', Inr r) \<Longrightarrow> pr_success r \<Longrightarrow>
     \<exists>raw p ep. check_answer env ctx raw = Accepted p ep \<and> pr_plan r = Some p \<and> pr_execution_plan r = Some ep \<and>
       last (pr_raws r) = raw"
proof (induction k arbitrary: n l s)
  case (Suc k)
  from Suc.prems(1) show ?case
  proof (cases rule: attempt_cases)
    case (answered prompt ms q a)
    then show ?thesis
      using Suc by (fastforce simp: give_up_def storage_failed_def Let_def split: check.splits sum.splits if_splits)
  qed (use Suc.prems(2) in \<open>auto simp: give_up_def storage_failed_def Let_def\<close>)
qed (auto)

text \<open>The calls of a run and the alerts it sends.\<close>

lemma attempts_calls:
  "attempts env ctx db i (Suc k) n l s = (s', res) \<Longrightarrow>
     (\<exists>cs. os_calls s' = os_calls s @ cs \<and> length cs \<le> Suc k \<and> map snd cs = [n..<n + length cs]) \<and>
     length (os_alerts s') =
       length (os_alerts s) + (case res of Inl e \<Rightarrow> 0 | Inr r \<Rightarrow> if \<not> pr_success r \<and> has_alert env then 1 else 0)"
proof (induction k arbitrary: n l s)
  case 0
  from 0 show ?case
  proof (cases rule: attempt_cases)
    case (answered prompt ms q a)
    then show ?thesis
      by (auto simp: give_up_def storage_failed_def Let_def intro!: exI [of _ "[(prompt, n)]"] split: check.splits sum.splits)
  qed (auto simp: give_up_def storage_failed_def Let_def)
next
  case (Suc k)
  from Suc.prems show ?case
  proof (cases rule: attempt_cases)
    case (answered prompt ms q a)
    show ?thesis
    proof (cases "\<exists>errors. check_answer env ctx (an_raw a) = InvalidPlan errors")
      case True
      then obtain l1 where "attempts env ctx db i (Suc k) (Suc n) l1 (s\<lparr>os_calls := os_calls s @ [(prompt, n)], os_rows := q\<rparr>) = (s', res)"
        using answered(2) by auto
      from Suc.IH [OF this] obtain cs where "os_calls s' = os_calls s @ (prompt, n) # cs" "length cs \<le> Suc k"
        "map snd cs = [Suc n..<Suc n + length cs]"
        and "length (os_alerts s') =
          length (os_alerts s) + (case res of Inl e \<Rightarrow> 0 | Inr r \<Rightarrow> if \<not> pr_success r \<and> has_alert env then 1 else 0)"
        by auto
      then show ?thesis by (auto simp: upt_rec [of n] intro!: exI [of _ "(prompt, n) # cs"])
    next
      case False
      then show ?thesis using answered(2)
        by (auto simp: storage_failed_def Let_def intro!: exI [of _ "[(prompt, n)]"] split: check.splits sum.splits)
    qed
  qed (auto simp: give_up_def storage_failed_def Let_def)
qed

section \<open>The row of an execution\<close>

lemma store_ok:
  assumes "\<And>st n. storage_fault env st n = None"
  shows "store env True st n f q = (case f q of Inl e \<Rightarrow> Inl (db_exn e) | Inr q' \<Rightarrow> Inr q')"
  by (simp add: store_def assms)

text \<open>An update of row \<open>i\<close> that keeps the others.\<close>

definition only_row :: "string \<Rightarrow> 'log planner_table \<Rightarrow> 'log planner_table \<Rightarrow> bool" where
  "only_row i q q' \<longleftrightarrow> dget q' i \<noteq> None \<and> (\<forall>j. j \<noteq> i \<longrightarrow> dget q' j = dget q j)"

lemma only_row_trans: "only_row i q q1 \<Longrightarrow> only_row i q1 q2 \<Longrightarrow> only_row i q q2"
  by (auto simp: only_row_def)

lemma update_row_only: "update_row i f q = Inr q' \<Longrightarrow> only_row i q q' \<and> dget q' i = map_option f (dget q i)"
  by (auto simp: update_row_def only_row_def split: option.splits)

lemma update_row_present: "dget q i \<noteq> None \<Longrightarrow> \<exists>q'. update_row i f q = Inr q'"
  by (auto simp: update_row_def)

definition row_settled :: "string \<Rightarrow> planner_result \<Rightarrow> 'log planner_table \<Rightarrow> bool" where
  "row_settled i r q \<longleftrightarrow>
     (\<exists>x. dget q i = Some x \<and> pl_status x = (if pr_success r then PsValid else PsInvalid) \<and>
        (pr_success r \<longrightarrow> read_planner_pii (pl_plan x) = pr_plan r \<and>
           read_planner_pii (pl_execution_plan x) = map_option execution_plan_to_json (pr_execution_plan r)))"

lemma give_up_row:
  assumes "\<And>st n. storage_fault env st n = None" and "dget (os_rows s) i \<noteq> None"
    and "(s', Inr r) = give_up env ctx True i n errors summary m raws s"
  shows "row_settled i r (os_rows s') \<and> only_row i (os_rows s) (os_rows s')"
proof -
  obtain q where q: "mark_invalid (oe_mode env) i (take 2000 errors) (os_rows s) = Inr q"
    using update_row_present [OF assms(2)] by (auto simp: mark_invalid_def)
  then have s': "os_rows s' = q" "\<not> pr_success r"
    using assms(3) by (auto simp: give_up_def terminate_invalid_def store_ok [OF assms(1)])
  have "only_row i (os_rows s) q \<and> (\<exists>x. dget q i = Some x \<and> pl_status x = PsInvalid)"
    using update_row_only [OF q [unfolded mark_invalid_def]] assms(2) by auto
  with s' show ?thesis by (auto simp: row_settled_def)
qed

lemma attempts_row:
  assumes ok: "\<And>st n. storage_fault env st n = None"
  shows "attempts env ctx True i k n l s = (s', Inr r) \<Longrightarrow> 0 < k \<Longrightarrow> dget (os_rows s) i \<noteq> None \<Longrightarrow>
    row_settled i r (os_rows s') \<and> only_row i (os_rows s) (os_rows s')"
proof (induction k arbitrary: n l s)
  case (Suc k)
  note given = give_up_row [OF ok]
  from Suc.prems(1) show ?case
  proof (cases rule: attempt_cases)
    case (budget t)
    then show ?thesis using given [OF Suc.prems(3)] by simp
  next
    case (call_fails prompt e)
    then show ?thesis using given [of "s\<lparr>os_calls := os_calls s @ [(prompt, n)]\<rparr>"] Suc.prems(3) by simp
  next
    case (received_fails prompt e raws)
    then obtain a :: planner_answer and ms
      where "store env True StReceived n (mark_received (oe_mode env) i (an_raw a) ms (Some (an_provider a)) (Some (an_model a))) (os_rows s) = Inl e"
      by blast
    moreover obtain q where "mark_received (oe_mode env) i (an_raw a) ms (Some (an_provider a)) (Some (an_model a)) (os_rows s) = Inr q"
      using update_row_present [OF Suc.prems(3)] unfolding mark_received_def by blast
    ultimately show ?thesis by (simp add: store_ok [OF ok])
  next
    case (answered prompt ms q a)
    let ?s = "s\<lparr>os_calls := os_calls s @ [(prompt, n)], os_rows := q\<rparr>"
    have q: "only_row i (os_rows s) q"
      using answered(1) by (auto simp: store_ok [OF ok] mark_received_def split: sum.splits dest: update_row_only)
    then have present: "dget q i \<noteq> None" by (simp add: only_row_def)
    show ?thesis
    proof (cases "check_answer env ctx (an_raw a)")
      case (Escapes e)
      then show ?thesis using answered(2) by simp
    next
      case (InvalidPlan errors)
      show ?thesis
      proof (cases "0 < k")
        case True
        then obtain l1 where "attempts env ctx True i k (Suc n) l1 ?s = (s', Inr r)" using answered(2) InvalidPlan by auto
        from Suc.IH [OF this True] present show ?thesis using only_row_trans [OF q] by simp
      next
        case False
        then have "(s', Inr r) = give_up env ctx True i n errors ''invalid_plan_after_retry'' n (lv_raws l @ [an_raw a]) ?s"
          using answered(2) InvalidPlan by simp
        from given [OF _ this] present show ?thesis using only_row_trans [OF q] by simp
      qed
    next
      case (Accepted p ep)
      obtain q' where q': "mark_valid (oe_mode env) i p (execution_plan_to_json ep) (Some (is_new_turn (classification p)))
          (Some (reason (classification p))) q = Inr q'"
        using update_row_present [OF present] by (auto simp: mark_valid_def)
      with answered(2) Accepted have r: "os_rows s' = q'" "pr_success r" "pr_plan r = Some p" "pr_execution_plan r = Some ep"
        by (auto simp: store_ok [OF ok])
      note u = update_row_only [OF q' [unfolded mark_valid_def]]
      then have "row_settled i r q'" using present r(2-4) by (auto simp: row_settled_def)
      then show ?thesis using u only_row_trans [OF q] r(1) by blast
    qed
  qed simp
qed simp

lemma insert_row_get: "insert_row i r q = Inr q' \<Longrightarrow> dget q i = None \<and> only_row i q q'"
proof -
  assume "insert_row i r q = Inr q'"
  then have q': "q' = q @ [(i, r)]" and new: "dget q i = None"
    by (auto simp: insert_row_def dget_None_iff split: if_splits)
  have "dget q' j = dget q j" if "j \<noteq> i" for j
    using that by (cases "dget q j") (simp_all add: q' map_add_def)
  moreover have "dget q' i = Some r" using new by (simp add: q' map_add_def)
  ultimately show ?thesis using new by (simp add: only_row_def)
qed

section \<open>Samples\<close>

text \<open>A model that answers with broken JSON first and with a fenced plan when asked again.\<close>

definition sample_answer :: "string \<Rightarrow> planner_answer" where
  "sample_answer raw = \<lparr>an_raw = raw, an_latency = 4, an_prompt_tokens = 10, an_completion_tokens = 3, an_provider = ''p'', an_model = ''m''\<rparr>"

definition FENCED :: string where "FENCED = ''```json'' @ [CHR 0x0A] @ ''ok'' @ [CHR 0x0A] @ ''```''"

definition sample_orch_env :: "plan \<Rightarrow> unit orch_env" where
  "sample_orch_env p = \<lparr>registry_llm_keys = [''humanize_result''], registry_required = \<lambda>_. [], enabled_llm_keys = [],
     render_few_shot = \<lambda>_. [], build_prompt = \<lambda>few ks msg. Inr msg,
     call_planner = \<lambda>_ n. Inr (sample_answer (if n = 1 then ''oops'' else FENCED)),
     loads = \<lambda>t. if t = ''ok'' then Inr () else Inl ''bad'', plan_of_json = \<lambda>_. Inr p,
     schema_text = \<lambda>_. [], violation_text = v_code, compile_text = \<lambda>_. [], feedback_parts = (''<'', ''|'', ''>''), redact = \<lambda>t. t,
     oe_types = sample_types, oe_pydantic = lax, oe_enum = by_name, storage_fault = \<lambda>_ _. None, has_alert = True,
     oe_mode = PLANNER_PII_WRITE_MODE, oe_now = 5\<rparr>"

definition sample_planner_ctx :: planner_ctx where
  "sample_planner_ctx = \<lparr>oc_tenant = ''t1'', oc_run = ''r1'', oc_feature = ''f'', oc_user_message = ''hi'', oc_tools = dvals sample_treg,
     oc_template_ids = [''reminders_list_empty''], oc_llm_keys = [''humanize_result''], oc_snapshot_hash = ''h'', oc_tool_version = ''v1'',
     oc_few_shot = [], oc_provider = None, oc_prompt_version = 1\<rparr>"

definition idle :: "unit orch_state" where
  "idle = \<lparr>os_rows = [], os_calls = [], os_alerts = []\<rparr>"

lemma sample_check: "check_plan (sample_orch_env show_ok3) sample_planner_ctx show_ok3 =
    Accepted show_ok3 (case compile_plan show_ok3 (plain_registry sample_treg) of Inr ep \<Rightarrow> ep | Inl _ \<Rightarrow> \<lparr>layers = [], fail_modes = [], ep_plan = show_ok3\<rparr>)"
  by code_simp

lemma sample_schema: "plan_validate show_ok3 = Inr show_ok3"
  by code_simp

lemma sample_envelope: "clean_envelope FENCED = ''ok''" "clean_envelope ''oops'' = ''oops''"
  by code_simp+

lemma sample_orchestration: "\<exists>s' r. run_planner (sample_orch_env show_ok3) sample_planner_ctx True True ''e1'' idle = (s', Inr r) \<and>
    pr_success r \<and> pr_attempt r = 2 \<and> os_calls s' = [(''hi'', 1), (''hi<oops|json_decode_error: bad>'', 2)]"
proof -
  have "case run_planner (sample_orch_env show_ok3) sample_planner_ctx True True ''e1'' idle of
      (s', Inr r) \<Rightarrow> pr_success r \<and> pr_attempt r = 2 \<and> os_calls s' = [(''hi'', 1), (''hi<oops|json_decode_error: bad>'', 2)]
    | (s', Inl e) \<Rightarrow> False"
    by code_simp
  then show ?thesis by (auto split: prod.splits sum.splits)
qed

section \<open>Properties\<close>

lemma run_planner_success:
  assumes "run_planner env ctx db retry_enabled i s = (s', Inr r)" and "pr_success r"
  shows "\<exists>j p0 p ep. parse_planner_json (loads env) (last (pr_raws r)) = Inr j \<and> plan_of_json env j = Inr p0 \<and>
    plan_validate p0 = Inr p \<and> pr_plan r = Some p \<and> pr_execution_plan r = Some ep \<and>
    validate_plan (oe_types env) (oe_pydantic env) (oe_enum env) p (registry_map ctx) (effective_lists env ctx) = Inr [] \<and>
    compile_plan p (plain_registry (registry_map ctx)) = Inr ep \<and>
    (\<forall>(host, c)\<in>set (iter_all_composes p). cc_kind c = KLlm \<longrightarrow>
       (\<exists>k. llm_prompt_key c = Some k \<and> k \<in> set (oc_llm_keys ctx) \<and> k \<in> set (registry_llm_keys env) \<and>
          k \<in> set (enabled_llm_keys env)))"
proof -
  obtain q k where "attempts env ctx db i k 1 no_vars (s\<lparr>os_rows := q\<rparr>) = (s', Inr r)"
    using assms by (auto simp: run_planner_def storage_failed_def Let_def split: sum.splits)
  from attempts_success [OF this assms(2)] obtain p ep where acc: "check_answer env ctx (last (pr_raws r)) = Accepted p ep"
    and r: "pr_plan r = Some p" "pr_execution_plan r = Some ep" by blast
  from acc obtain j p0 where ok: "parse_planner_json (loads env) (last (pr_raws r)) = Inr j" "plan_of_json env j = Inr p0"
    "plan_validate p0 = Inr p"
    "validate_plan (oe_types env) (oe_pydantic env) (oe_enum env) p (registry_map ctx) (effective_lists env ctx) = Inr []"
    "compile_plan p (plain_registry (registry_map ctx)) = Inr ep"
    by (rule check_answer_Accepted)
  from validate_plan_NilD(8) [OF ok(4)] have "\<forall>(host, c)\<in>set (iter_all_composes p). cc_kind c = KLlm \<longrightarrow>
       (\<exists>k. llm_prompt_key c = Some k \<and> k \<in> set (oc_llm_keys ctx) \<and> k \<in> set (registry_llm_keys env) \<and>
          k \<in> set (enabled_llm_keys env))"
    using llm_gate by blast
  with ok r show ?thesis by blast
qed

text \<open>
  C9: what the planner hands to the executor has passed every stage: it comes from an answer of the
  model that parses, types and satisfies the schema, has no violation against the registry of the turn,
  and is compiled with that registry. And the switch for model-written replies cannot be passed by: a
  reply of the plan or of a branch that a model would write names a prompt the caller proposed, the
  registry knows and the settings enable.
\<close>

theorem planner_success_sound:
  assumes "run_planner env ctx db retry_enabled i s = (s', Inr r)" and "pr_success r"
  shows "\<exists>j p0 p ep. parse_planner_json (loads env) (last (pr_raws r)) = Inr j \<and> plan_of_json env j = Inr p0 \<and>
    plan_validate p0 = Inr p \<and> pr_plan r = Some p \<and> pr_execution_plan r = Some ep \<and>
    validate_plan (oe_types env) (oe_pydantic env) (oe_enum env) p (registry_map ctx) (effective_lists env ctx) = Inr [] \<and>
    compile_plan p (plain_registry (registry_map ctx)) = Inr ep \<and>
    (\<forall>(host, c)\<in>set (iter_all_composes p). cc_kind c = KLlm \<longrightarrow>
       (\<exists>k. llm_prompt_key c = Some k \<and> k \<in> set (oc_llm_keys ctx) \<and> k \<in> set (registry_llm_keys env) \<and>
          k \<in> set (enabled_llm_keys env)))"
  using assms by (rule run_planner_success)

theorem planner_success_sound_witness:
  "\<exists>p ep. plan_validate p = Inr p \<and> compile_plan p (plain_registry (registry_map sample_planner_ctx)) = Inr ep \<and>
     (\<forall>(host, c)\<in>set (iter_all_composes p). cc_kind c \<noteq> KLlm)"
proof -
  obtain s' r where r: "run_planner (sample_orch_env show_ok3) sample_planner_ctx True True ''e1'' idle = (s', Inr r)" "pr_success r"
    using sample_orchestration by blast
  from planner_success_sound [OF r] obtain p where p: "plan_validate show_ok3 = Inr p"
    "\<exists>ep. compile_plan p (plain_registry (registry_map sample_planner_ctx)) = Inr ep"
    "\<forall>(host, c)\<in>set (iter_all_composes p). cc_kind c = KLlm \<longrightarrow> False"
    by (auto simp: sample_orch_env_def)
  with sample_schema show ?thesis by auto
qed

text \<open>
  a run costs at most two calls of the model, one without the retry, numbered from 1; and if it
  returns, the owner is alerted exactly once when it failed and never when it succeeded.
\<close>

theorem planner_calls_and_alerts:
  assumes "run_planner env ctx db retry_enabled i s = (s', Inr r)"
  shows "\<exists>cs. os_calls s' = os_calls s @ cs \<and> length cs \<le> (if retry_enabled then 2 else 1) \<and>
    map snd cs = [1..<1 + length cs] \<and>
    length (os_alerts s') = length (os_alerts s) + (if \<not> pr_success r \<and> has_alert env then 1 else 0)"
proof (cases "store env db StInsert 0 (insert_pending (planner_request ctx i) (oe_now env)) (os_rows s)")
  case (Inl e)
  then show ?thesis using assms by (auto simp: run_planner_def storage_failed_def Let_def)
next
  case (Inr q)
  have two: "(if retry_enabled then 2 else 1) = Suc (if retry_enabled then 1 else 0)" by simp
  from Inr assms have "attempts env ctx db i (Suc (if retry_enabled then 1 else 0)) 1 no_vars (s\<lparr>os_rows := q\<rparr>) = (s', Inr r)"
    by (simp only: run_planner_def sum.case two)
  from attempts_calls [OF this] show ?thesis by (auto split: if_splits)
qed

theorem planner_calls_and_alerts_witness:
  "\<exists>(s' :: unit orch_state) cs. os_calls s' = os_calls idle @ cs \<and> length cs \<le> 2 \<and> map snd cs = [1..<1 + length cs] \<and> length (os_alerts s') = 0"
proof -
  obtain s' r where r: "run_planner (sample_orch_env show_ok3) sample_planner_ctx True True ''e1'' idle = (s', Inr r)" "pr_success r"
    using sample_orchestration by blast
  from planner_calls_and_alerts [OF r(1)] r(2) obtain cs where "os_calls s' = os_calls idle @ cs" "length cs \<le> 2"
    "map snd cs = [1..<1 + length cs]" "length (os_alerts s') = 0" by (auto simp: idle_def simp del: upt_Suc)
  then show ?thesis by blast
qed



section \<open>What the code does elsewhere than its comments say\<close>

text \<open>
  The exception of the validator (a list reply bound to the empty reference) is not among those the
  loop catches: the answer of a model that binds \<open>${}\<close> ends the run at once. No second attempt is made,
  no alert is sent, and the row stays received.
\<close>

definition empty_ref_plan :: plan where
  "empty_ref_plan = show_ok3\<lparr>plan_compose := (plan_compose show_ok3)\<lparr>template_id := Some ''reminders_list_show'',
     template_data := [(''items'', VStr ''${}'')]\<rparr>\<rparr>"

theorem empty_reference_escapes_run:
  "case run_planner ((sample_orch_env empty_ref_plan)\<lparr>loads := \<lambda>t. Inr ()\<rparr>) sample_planner_ctx True True ''e1'' idle of
     (s', res) \<Rightarrow> res = Inl (EscValidate EmptyRefPath) \<and> length (os_calls s') = 1 \<and> os_alerts s' = [] \<and>
       map (\<lambda>(k, r). (k, pl_status r)) (os_rows s') = [(''e1'', PsReceived)]"
  by code_simp

end
