(* ===== verification/ChatTurn.thy ===== *)
theory ChatTurn
  imports Orchestrator ExecutorOutcome Budget
begin

text \<open>
  \<open>run_planner_chat_loop\<close> of \<open>runtime/planner_chat.py\<close>: one turn of the chat through the planner, the
  executor and the composer, and what the user, the owner and the books get when a stage fails. The
  composer and its voice, the registry of reply templates, the pool of breakdown phrases and the faults
  of storage are parameters; the history, the persona, the trace and the library of plans are left out.
\<close>

section \<open>The environment\<close>

record voice_usage =
  vu_prompt :: nat
  vu_completion :: nat
  vu_provider :: string
  vu_model :: string

record composed =
  cd_text :: string
  cd_fallback :: "string option"
  cd_error_code :: "string option"

text \<open>A call of the composer: was the voice called, what its calls used, and the text or the exception's type.\<close>

record compose_run =
  cp_voiced :: bool
  cp_usage :: "voice_usage list"
  cp_result :: "string + composed"

record 'j chat_env =
  ct_orch :: "'j orch_env"
  ct_exec :: exec_env
  plan_stage_raises :: "string option"
  ct_phrase :: "string option" \<comment> \<open>the phrase drawn, or an exception\<close>
  ct_pool :: "string list"
  ct_last_resort :: string
  ct_uncertain :: string
  ct_done_text :: string
  ct_render :: "string \<Rightarrow> nat \<Rightarrow> string option"
  ct_compose :: "composer_call \<Rightarrow> execution_log \<Rightarrow> compose_run"
  ct_voice :: "string \<Rightarrow> execution_log \<Rightarrow> string + (string \<times> voice_usage)"
  ct_lower :: "string \<Rightarrow> string"
  clar_setup_raises :: bool
  persist_executions :: bool
  persist_raises :: bool
  usage_raises :: bool
  has_session :: bool
  ct_provider :: string
  ct_prompt_version :: int
  ct_now :: int

record chat_state =
  cs_diag :: "step_result planner_table"
  cs_usage :: "ai_execution list"
  cs_alerts :: "(string \<times> string) list"

text \<open>Where the text of a reply comes from.\<close>

datatype reply =
    Breakdown string
  | Rendered string string
  | Uncertain string
  | Clarified string
  | Spoken string

fun reply_text :: "reply \<Rightarrow> string" where
  "reply_text (Breakdown t) = t"
| "reply_text (Rendered tid t) = t"
| "reply_text (Uncertain t) = t"
| "reply_text (Clarified t) = t"
| "reply_text (Spoken t) = t"

record chat_result =
  ch_reply :: reply
  called_tools :: "string list"
  tool_counts :: "(string, nat) dict"

section \<open>Fallbacks, alerts and books\<close>

definition fallback_error :: "'j chat_env \<Rightarrow> reply" where
  "fallback_error env = Breakdown (case ct_phrase env of Some p \<Rightarrow> p | None \<Rightarrow> ct_last_resort env)"

definition render_or :: "'j chat_env \<Rightarrow> string \<Rightarrow> nat \<Rightarrow> reply \<Rightarrow> reply" where
  "render_or env tid n fallback = (case ct_render env tid n of Some t \<Rightarrow> Rendered tid t | None \<Rightarrow> fallback)"

definition alert :: "string \<Rightarrow> string \<Rightarrow> chat_state \<Rightarrow> chat_state" where
  "alert stage_name code s = s\<lparr>cs_alerts := cs_alerts s @ [(stage_name, code)]\<rparr>"

definition record_usage_safe :: "'j chat_env \<Rightarrow> planner_ctx \<Rightarrow> voice_usage \<Rightarrow> chat_state \<Rightarrow> chat_state" where
  "record_usage_safe env ctx u s =
     (if \<not> has_session env \<or> (vu_prompt u = 0 \<and> vu_completion u = 0) \<or> vu_provider u = [] \<or> usage_raises env then s
      else s\<lparr>cs_usage := fst (record_llm_usage (oc_tenant ctx) (oc_feature ctx)
          (Some (if vu_model u = [] then vu_provider u else vu_model u)) (int (vu_prompt u)) (int (vu_completion u)) (Some 0)
          (ct_now env) (cs_usage s))\<rparr>)"

text \<open>The tokens of several calls of the voice, under the provider of the last that named one.\<close>

definition add_usage :: "voice_usage \<Rightarrow> voice_usage \<Rightarrow> voice_usage" where
  "add_usage acc u =
     acc\<lparr>vu_prompt := vu_prompt acc + vu_prompt u, vu_completion := vu_completion acc + vu_completion u,
       vu_provider := (if vu_provider u \<noteq> [] then vu_provider u else vu_provider acc),
       vu_model := (if vu_provider u \<noteq> [] then vu_model u else vu_model acc)\<rparr>"

definition no_usage :: voice_usage where
  "no_usage = \<lparr>vu_prompt = 0, vu_completion = 0, vu_provider = [], vu_model = []\<rparr>"

definition tally_usage :: "voice_usage list \<Rightarrow> voice_usage" where
  "tally_usage us = foldl add_usage no_usage us"

fun outcome_text :: "outcome \<Rightarrow> string" where
  "outcome_text Completed = ''completed''"
| "outcome_text PartialFailure = ''partial_failure''"
| "outcome_text Failed = ''failed''"
| "outcome_text Aborted = ''aborted''"
| "outcome_text AbortedPartial = ''aborted_partial''"

definition composer_path :: "composer_call \<Rightarrow> string option" where
  "composer_path c =
     (case truthy (template_id c) of
        Some t \<Rightarrow> Some (''template:'' @ t)
      | None \<Rightarrow> (case truthy (llm_prompt_key c) of Some k \<Rightarrow> Some (''llm:'' @ k) | None \<Rightarrow> None))"

definition build_diag ::
    "'j chat_env \<Rightarrow> planner_ctx \<Rightarrow> planner_result \<Rightarrow> execution_log option \<Rightarrow> string option \<Rightarrow> step_result turn_diag option" where
  "build_diag env ctx r log override =
     (if pr_execution_id r = [] then None
      else Some \<lparr>
        td_request = \<lparr>iq_id = pr_execution_id r, iq_run = oc_run ctx, iq_tenant = oc_tenant ctx, iq_feature = oc_feature ctx,
          iq_prompt_version = ct_prompt_version env, iq_provider = ct_provider env, iq_model = [],
          iq_tool_version = Some (oc_tool_version ctx), iq_snapshot_hash = Some (oc_snapshot_hash ctx)\<rparr>,
        td_status = (if pr_success r \<and> pr_execution_plan r \<noteq> None then PsValid else PsInvalid),
        td_execution_status =
          (case override of Some st \<Rightarrow> st
           | None \<Rightarrow> (case log of None \<Rightarrow> ''pending'' | Some lg \<Rightarrow> outcome_text (outcome lg))),
        td_plan = pr_plan r, td_log = (case log of None \<Rightarrow> [] | Some lg \<Rightarrow> steps lg), td_errors = pr_error r,
        td_composer_path = (case pr_plan r of None \<Rightarrow> None | Some p \<Rightarrow> composer_path (plan_compose p))\<rparr>)"

definition persist_diag ::
    "'j chat_env \<Rightarrow> planner_ctx \<Rightarrow> planner_result \<Rightarrow> execution_log option \<Rightarrow> string option \<Rightarrow> chat_state \<Rightarrow> chat_state" where
  "persist_diag env ctx r log override s =
     (if \<not> persist_executions env \<or> persist_raises env then s
      else (case build_diag env ctx r log override of
              None \<Rightarrow> s
            | Some d \<Rightarrow>
                (case persist_completed_turn (oe_mode (ct_orch env)) d (ct_now env) (cs_diag s) of
                   Inl e \<Rightarrow> s
                 | Inr q \<Rightarrow> s\<lparr>cs_diag := q\<rparr>)))"

section \<open>Clarifying an ambiguous selector\<close>

fun find_after :: "string \<Rightarrow> string \<Rightarrow> string option" where
  "find_after n [] = (if n = [] then Some [] else None)"
| "find_after n (c # h) = (if prefix n (c # h) then Some (drop (length n) (c # h)) else find_after n h)"

text \<open>The needles occur in this order, none overlapping the one before.\<close>

fun ordered_subsequence :: "string \<Rightarrow> string list \<Rightarrow> bool" where
  "ordered_subsequence h [] = True"
| "ordered_subsequence h (n # ns) =
     (if n = [] then ordered_subsequence h ns
      else (case find_after n h of None \<Rightarrow> False | Some rest \<Rightarrow> ordered_subsequence rest ns))"

definition guard_ok :: "'j chat_env \<Rightarrow> abort_public \<Rightarrow> bool \<Rightarrow> string \<Rightarrow> bool" where
  "guard_ok env pub partial t \<longleftrightarrow>
     t \<noteq> [] \<and> sublist (show_nat (ap_count pub)) t \<and> ordered_subsequence t (ap_options pub) \<and>
     (partial \<longrightarrow> sublist (ct_lower env (ct_done_text env)) (ct_lower env t))"

text \<open>
  The deterministic text comes from the composer, which is given the clarification in place of the
  plan's reply; the voice may put it in other words as long as it keeps count and options.
\<close>

definition selector_clarification_reply ::
    "'j chat_env \<Rightarrow> planner_ctx \<Rightarrow> plan \<Rightarrow> execution_log \<Rightarrow> chat_state \<Rightarrow> chat_state \<times> string option" where
  "selector_clarification_reply env ctx p lg s =
     (case abort_details lg of
        None \<Rightarrow> (s, None)
      | Some (pub, priv) \<Rightarrow>
          if clar_setup_raises env then (alert ''clarify'' ''setup_failed'' s, None)
          else
            (let cp = ct_compose env (effective_call (ct_done_text env) (plan_compose p) lg) lg;
                 flush = (\<lambda>us. record_usage_safe env ctx (tally_usage us)) in
             case cp_result cp of
               Inl e \<Rightarrow> (flush (cp_usage cp) s, None)
             | Inr c \<Rightarrow>
                 (let t = strip (cd_text c) in
                  if t = [] then (flush (cp_usage cp) s, None)
                  else
                    (case ct_voice env t lg of
                       Inl e \<Rightarrow> (flush (cp_usage cp) (alert ''clarify'' e s), Some t)
                     | Inr (v, u) \<Rightarrow>
                         (let s1 = flush (cp_usage cp @ [u]) s in
                          if guard_ok env pub (outcome lg = AbortedPartial) (strip v) then (s1, Some (strip v))
                          else (alert ''clarify'' ''options_guard_failed'' s1, Some t))))))"

section \<open>The stages\<close>

definition called_of :: "execution_log \<Rightarrow> string list" where
  "called_of lg = remdups (map sr_tool (filter (\<lambda>r. sr_tool r \<noteq> [] \<and> status r \<noteq> StSkipped \<and> status r \<noteq> StArgViolation) (steps lg)))"

definition count_ok :: "execution_log \<Rightarrow> (string, nat) dict" where
  "count_ok lg =
     fold (\<lambda>r d. if status r = StOk \<and> sr_tool r \<noteq> []
                 then dput d (sr_tool r) ((case dget d (sr_tool r) of None \<Rightarrow> 0 | Some n \<Rightarrow> n) + 1) else d) (steps lg) []"

definition result_of :: "execution_log \<Rightarrow> reply \<Rightarrow> chat_result" where
  "result_of lg rep = \<lparr>ch_reply = rep, called_tools = called_of lg, tool_counts = count_ok lg\<rparr>"

definition early :: "reply \<Rightarrow> chat_result" where
  "early rep = \<lparr>ch_reply = rep, called_tools = [], tool_counts = []\<rparr>"

definition starts_llm :: "string option \<Rightarrow> bool" where
  "starts_llm x \<longleftrightarrow> (case x of None \<Rightarrow> False | Some t \<Rightarrow> prefix ''llm_composer'' t)"

definition compose_crashed ::
    "'j chat_env \<Rightarrow> execution_log \<Rightarrow> string \<Rightarrow> chat_state \<Rightarrow> chat_state \<times> chat_result" where
  "compose_crashed env lg e s =
     (alert ''voice'' e s,
      result_of lg
        (if outcome lg \<in> {Completed, PartialFailure, AbortedPartial} \<and> called_of lg \<noteq> []
         then render_or env ''partial_with_compose_error'' 0 (fallback_error env) else fallback_error env))"

definition speak_stage ::
    "'j chat_env \<Rightarrow> planner_ctx \<Rightarrow> plan \<Rightarrow> execution_log \<Rightarrow> chat_state \<Rightarrow> chat_state \<times> chat_result" where
  "speak_stage env ctx p lg s =
     (let cp = ct_compose env (plan_compose p) lg in
      case cp_result cp of
        Inl e \<Rightarrow> compose_crashed env lg e s
      | Inr c \<Rightarrow>
          (let t = strip (cd_text c) in
           if t = [] then compose_crashed env lg ''RuntimeError'' s
           else
             (let broken = starts_llm (cd_error_code c) \<or> starts_llm (cd_fallback c);
                  s1 = (case truthy (cd_fallback c) of None \<Rightarrow> s | Some f \<Rightarrow> alert (if broken then ''voice'' else ''compose'') f s);
                  raw = (\<not> cp_voiced cp \<and> \<not> broken \<and> called_of lg \<noteq> [] \<and> t \<notin> set (ct_pool env)) in
              if \<not> raw then (record_usage_safe env ctx (tally_usage (cp_usage cp)) s1, result_of lg (Spoken t))
              else
                (case ct_voice env t lg of
                   Inl e \<Rightarrow> (record_usage_safe env ctx (tally_usage (cp_usage cp)) (alert ''beautify'' e s1), result_of lg (Spoken t))
                 | Inr (v, u) \<Rightarrow>
                     (let s2 = (if strip v = [] then alert ''beautify'' ''blank_output'' s1 else s1) in
                      (record_usage_safe env ctx (tally_usage (cp_usage cp @ [u])) s2,
                       result_of lg (Spoken (if strip v = [] then t else strip v))))))))"

definition after_execution ::
    "'j chat_env \<Rightarrow> planner_ctx \<Rightarrow> plan \<Rightarrow> execution_log \<Rightarrow> chat_state \<Rightarrow> chat_state \<times> chat_result" where
  "after_execution env ctx p lg s =
     (if outcome lg \<in> {Aborted, Failed} then
        (case selector_clarification_reply env ctx p lg s of
           (s1, Some t) \<Rightarrow> (s1, result_of lg (Clarified t))
         | (s1, None) \<Rightarrow> (alert ''execute'' (outcome_text (outcome lg)) s1, result_of lg (fallback_error env)))
      else if outcome lg = AbortedPartial then
        (case selector_clarification_reply env ctx p lg s of
           (s1, Some t) \<Rightarrow> (s1, result_of lg (Clarified t))
         | (s1, None) \<Rightarrow>
             (alert ''execute'' ''aborted_partial'' s1,
              result_of lg (if count_ok lg = [] then Uncertain (ct_uncertain env)
                            else render_or env ''partial_with_compose_error'' 0 (fallback_error env))))
      else speak_stage env ctx p lg s)"

text \<open>The tools run with the specifications the plan was validated against, and without a ledger.\<close>

definition chat_exec_env :: "'j chat_env \<Rightarrow> planner_ctx \<Rightarrow> exec_env" where
  "chat_exec_env env ctx = (ct_exec env)\<lparr>env_registry := plain_registry (registry_map ctx), ledger_ids := None\<rparr>"

definition execute_stage ::
    "'j chat_env \<Rightarrow> planner_ctx \<Rightarrow> planner_result \<Rightarrow> plan \<Rightarrow> execution_plan \<Rightarrow> chat_state \<Rightarrow> chat_state \<times> calls \<times> chat_result" where
  "execute_stage env ctx r p ep s =
     (case execute_plan (chat_exec_env env ctx) ep [] of
        (led, cs, Inl e) \<Rightarrow>
          (persist_diag env ctx r None (Some ''failed'') (alert ''execute'' ''exception'' s), cs, early (fallback_error env))
      | (led, cs, Inr lg) \<Rightarrow>
          (case after_execution env ctx p lg (persist_diag env ctx r (Some lg) None s) of (s', res) \<Rightarrow> (s', cs, res)))"

definition planner_usage :: "planner_result \<Rightarrow> voice_usage" where
  "planner_usage r = \<lparr>vu_prompt = pr_prompt_tokens r, vu_completion = pr_completion_tokens r, vu_provider = pr_provider r,
     vu_model = pr_model r\<rparr>"

text \<open>The turn; \<open>i\<close> is the execution id drawn. The planner runs without storage and without alerts.\<close>

definition run_planner_chat_loop ::
    "'j chat_env \<Rightarrow> planner_ctx \<Rightarrow> string \<Rightarrow> chat_state \<Rightarrow> chat_state \<times> calls \<times> chat_result" where
  "run_planner_chat_loop env ctx i s =
     (case plan_stage_raises env of
        Some e \<Rightarrow> (alert ''plan'' e s, [], early (fallback_error env))
      | None \<Rightarrow>
          (case snd (run_planner ((ct_orch env)\<lparr>has_alert := False\<rparr>) ctx False True i
               (\<lparr>os_rows = [], os_calls = [], os_alerts = []\<rparr> :: unit orch_state)) of
             Inl e \<Rightarrow> (alert ''plan'' ''exception'' s, [], early (fallback_error env))
           | Inr r \<Rightarrow>
               (case (pr_success r, pr_plan r, pr_execution_plan r) of
                  (True, Some p, Some ep) \<Rightarrow> execute_stage env ctx r p ep (record_usage_safe env ctx (planner_usage r) s)
                | _ \<Rightarrow>
                    (persist_diag env ctx r None None
                       (alert ''plan'' (case truthy (pr_error r) of Some e \<Rightarrow> e | None \<Rightarrow> ''invalid'') s), [],
                     early (render_or env ''invalid_plan_fallback'' (pr_attempt r) (fallback_error env))))))"

section \<open>The books\<close>

lemma alert_simps [simp]: "cs_usage (alert a b s) = cs_usage s" "cs_diag (alert a b s) = cs_diag s"
  by (simp_all add: alert_def)

lemma persist_diag_usage [simp]: "cs_usage (persist_diag env ctx r lg ov s) = cs_usage s"
  by (simp add: persist_diag_def split: option.split sum.split)

text \<open>An observed call costs no credits.\<close>

definition same_credits :: "chat_state \<Rightarrow> chat_state \<Rightarrow> bool" where
  "same_credits s s' \<longleftrightarrow> (\<forall>tenant feature start until.
     sum_credits (cs_usage s') tenant feature start until = sum_credits (cs_usage s) tenant feature start until)"

lemma record_usage_sum [simp]:
  "sum_credits (cs_usage (record_usage_safe env ctx u s)) tenant feature start until = sum_credits (cs_usage s) tenant feature start until"
  by (simp add: record_usage_safe_def record_llm_usage_def sum_credits_def)

lemma same_credits_simps [simp]:
  "same_credits s s" "same_credits s (alert a b t) \<longleftrightarrow> same_credits s t"
  "same_credits s (persist_diag env ctx r lg ov t) \<longleftrightarrow> same_credits s t"
  "same_credits s (record_usage_safe env ctx u t) \<longleftrightarrow> same_credits s t"
  by (simp_all add: same_credits_def)

lemma same_credits_trans: "same_credits s t \<Longrightarrow> same_credits t u \<Longrightarrow> same_credits s u"
  by (simp add: same_credits_def)

lemma clarification_credits: "selector_clarification_reply env ctx p lg s = (s', x) \<Longrightarrow> same_credits s s'"
  by (auto simp: selector_clarification_reply_def Let_def split: option.splits if_splits sum.splits)

lemma speak_credits: "speak_stage env ctx p lg s = (s', x) \<Longrightarrow> same_credits s s'"
  by (auto simp: speak_stage_def compose_crashed_def Let_def split: option.splits if_splits sum.splits)

lemma after_execution_credits: "after_execution env ctx p lg s = (s', x) \<Longrightarrow> same_credits s s'"
  by (auto simp: after_execution_def dest: clarification_credits speak_credits split: option.splits if_splits prod.splits)


section \<open>What the reply says about the tools\<close>

lemma plan_validate_actions: "plan_validate p = Inr p' \<Longrightarrow> actions p' = actions p"
proof -
  assume "plan_validate p = Inr p'"
  then have "validate_clarity p = Inr p'" by (auto simp: plan_validate_def bind_res_eq_Inr split: option.splits)
  then show ?thesis by (cases rule: validate_clarity_cases) auto
qed

text \<open>A turn either ends before any tool was called, or has a log.\<close>

lemma chat_loop_cases:
  assumes "run_planner_chat_loop env ctx i s = (s', cs, res)"
    and "\<forall>j p. plan_of_json (ct_orch env) j = Inr p \<longrightarrow> dict_ok (actions p)"
    and "set (dkeys (registry_map ctx)) \<subseteq> tools_by_name (ct_exec env)"
  obtains (early) rep where "cs = []" "res = early rep" "same_credits s s'"
  | (executed) p ep led lg s1 where "compile_plan p (plain_registry (registry_map ctx)) = Inr ep" "dict_ok (actions p)"
      "execute_plan (chat_exec_env env ctx) ep [] = (led, cs, Inr lg)" "after_execution env ctx p lg s1 = (s', res)" "same_credits s s1"
proof (cases "plan_stage_raises env")
  case (Some e)
  then show thesis using assms(1) by (intro early) (auto simp: run_planner_chat_loop_def)
next
  case None
  define out where "out = run_planner ((ct_orch env)\<lparr>has_alert := False\<rparr>) ctx False True i
     (\<lparr>os_rows = [], os_calls = [], os_alerts = []\<rparr> :: unit orch_state)"
  show thesis
  proof (cases "snd out")
    case (Inl e)
    then show thesis using assms(1) None by (intro early) (auto simp: run_planner_chat_loop_def out_def [symmetric])
  next
    case (Inr r)
    show thesis
    proof (cases "pr_success r \<and> pr_plan r \<noteq> None \<and> pr_execution_plan r \<noteq> None")
      case False
      then show thesis using assms(1) None Inr
        by (intro early) (auto simp: run_planner_chat_loop_def out_def [symmetric] split: option.splits bool.splits)
    next
      case True
      obtain s0 where "out = (s0, Inr r)" using Inr by (cases out) simp
      from run_planner_success [OF this [unfolded out_def]] True obtain j p0 p ep where
        r: "pr_plan r = Some p" "pr_execution_plan r = Some ep" "plan_of_json (ct_orch env) j = Inr p0" "plan_validate p0 = Inr p"
          "compile_plan p (plain_registry (registry_map ctx)) = Inr ep"
        by auto
      have d: "dict_ok (actions p)" using assms(2) r(3) plan_validate_actions [OF r(4)] by simp
      obtain led cs' lg where run: "execute_plan (chat_exec_env env ctx) ep [] = (led, cs', Inr lg)"
        using execution_total [of p "chat_exec_env env ctx" ep "[]"] r(5) d assms(3)
        by (auto simp: chat_exec_env_def simp del: set_map)
      define s1 where "s1 = persist_diag env ctx r (Some lg) None (record_usage_safe env ctx (planner_usage r) s)"
      have "cs = cs'" "after_execution env ctx p lg s1 = (s', res)"
        using assms(1) None Inr True r(1,2) run
        by (auto simp: run_planner_chat_loop_def out_def [symmetric] execute_stage_def s1_def split: prod.splits)
      then show thesis using executed r(5) d run by (simp add: s1_def)
    qed
  qed
qed


lemma after_execution_breakdown:
  assumes "after_execution env ctx p lg s = (s', res)" and "ch_reply res = Breakdown t"
    and "ct_render env ''partial_with_compose_error'' 0 \<noteq> None"
  shows "outcome lg = Failed \<or> outcome lg = Aborted \<or> called_of lg = []"
proof (rule ccontr)
  assume not: "\<not> (outcome lg = Failed \<or> outcome lg = Aborted \<or> called_of lg = [])"
  then have out: "outcome lg \<in> {Completed, PartialFailure, AbortedPartial}" by (cases "outcome lg") auto
  from assms(3) have r: "render_or env ''partial_with_compose_error'' 0 fb \<noteq> Breakdown t" for fb
    by (auto simp: render_or_def)
  show False
  proof (cases "outcome lg = AbortedPartial")
    case True
    then show False using assms(1,2) r
      by (auto simp: after_execution_def result_of_def split: prod.splits option.splits if_splits)
  next
    case False
    then have "speak_stage env ctx p lg s = (s', res)" using assms(1) not by (auto simp: after_execution_def)
    then show False using assms(2) r not out
      by (auto simp: speak_stage_def compose_crashed_def Let_def result_of_def split: sum.splits if_splits)
  qed
qed

lemma after_execution_called:
  "after_execution env ctx p lg s = (s', res) \<Longrightarrow> called_tools res = called_of lg \<and> tool_counts res = count_ok lg"
  by (auto simp: after_execution_def speak_stage_def compose_crashed_def result_of_def Let_def
      split: prod.splits option.splits if_splits sum.splits)

lemma called_of_invoked: "set (called_of lg) = sr_tool ` {q \<in> set (steps lg). invoked q} - {[]}"
  by (auto simp: called_of_def invoked_def)

text \<open>The tools of a log are those of the calls, none of them nameless.\<close>

lemma called_of_calls:
  assumes "compile_plan p (plain_registry (registry_map ctx)) = Inr ep" "dict_ok (actions p)"
    and "execute_plan (chat_exec_env env ctx) ep [] = (led, cs, Inr lg)" and "[] \<notin> set (dkeys (registry_map ctx))"
  shows "set (called_of lg) = (\<lambda>(sid, a). tool_of p sid) ` set cs"
proof -
  have fresh: "fresh_ledger (chat_exec_env env ctx) []" by (simp add: chat_exec_env_def fresh_ledger_def)
  note w = compiled_well_layered [OF assms(1,2)]
  from execute_plan_inv [OF assms(3) _ fresh] w
  have ids: "mset (map step_id (steps lg)) = mset (concat (layers ep))" and cs: "map fst cs = map step_id (filter invoked (steps lg))"
    and tools: "\<forall>r\<in>set (steps lg). sr_tool r = tool_of p (step_id r)" by auto
  have reg: "\<forall>(s, a)\<in>set (actions p). tool a \<in> set (dkeys (registry_map ctx))"
    using compile_plan_iff [OF assms(2), of "plain_registry (registry_map ctx)"] assms(1) unfolding plain_registry_keys by blast
  have named: "sr_tool q \<noteq> []" if "q \<in> set (steps lg)" for q
  proof -
    have "step_id q \<in> set (concat (layers ep))" using ids that by (metis image_eqI list.set_map set_mset_mset)
    then have "step_id q \<in> set (dkeys (actions p))" using w by (auto simp: well_layered_def)
    then obtain a where "dget (actions p) (step_id q) = Some a" by (metis dget_None_iff not_None_eq)
    then have "tool_of p (step_id q) \<in> set (dkeys (registry_map ctx))"
      using reg by (auto simp: tool_of_def simp del: set_map dest: dget_Some_mem)
    with tools that assms(4) show ?thesis by metis
  qed
  have "set (called_of lg) = (\<lambda>sid. tool_of p sid) ` set (map step_id (filter invoked (steps lg)))"
    using tools named by (force simp: called_of_invoked)
  also have "\<dots> = (\<lambda>sid. tool_of p sid) ` set (map fst cs)" unfolding cs ..
  finally show ?thesis by (simp add: image_image case_prod_beta)
qed

section \<open>Samples\<close>

text \<open>A turn in which a reference of the third step cannot be resolved.\<close>

definition sample_chat_env :: "unit chat_env" where
  "sample_chat_env = \<lparr>ct_orch = sample_orch_env show_ok3,
     ct_exec = sample_env\<lparr>tools_by_name := {''add_task'', ''list_tasks''}\<rparr>, plan_stage_raises = None, ct_phrase = Some ''oh'',
     ct_pool = [''oh''], ct_last_resort = ''ah'', ct_uncertain = ''hm'', ct_done_text = ''done'', ct_render = \<lambda>t n. Some t,
     ct_compose = \<lambda>c lg. \<lparr>cp_voiced = False, cp_usage = [], cp_result = Inl ''KeyError''\<rparr>,
     ct_voice = \<lambda>t lg. Inl ''Timeout'', ct_lower = \<lambda>t. t, clar_setup_raises = False, persist_executions = True, persist_raises = False,
     usage_raises = False, has_session = True, ct_provider = ''p'', ct_prompt_version = 1, ct_now = 7\<rparr>"

definition fresh_chat :: chat_state where
  "fresh_chat = \<lparr>cs_diag = [], cs_usage = [], cs_alerts = []\<rparr>"

lemma sample_tools: "set (dkeys (registry_map sample_planner_ctx)) \<subseteq> tools_by_name (ct_exec sample_chat_env)"
  "[] \<notin> set (dkeys (registry_map sample_planner_ctx))"
  by code_simp+

lemma sample_plans: "\<forall>j p. plan_of_json (ct_orch sample_chat_env) j = Inr p \<longrightarrow> dict_ok (actions p)"
  using plan_samples(3) by (simp add: sample_chat_env_def sample_orch_env_def show_ok3_def)

definition sample_turn :: "chat_state \<times> calls \<times> chat_result" where
  "sample_turn = run_planner_chat_loop sample_chat_env sample_planner_ctx ''e1'' fresh_chat"

lemma sample_turn_result: "\<exists>s' cs res. run_planner_chat_loop sample_chat_env sample_planner_ctx ''e1'' fresh_chat = (s', cs, res) \<and>
    ch_reply res = Breakdown ''oh'' \<and> map fst cs = [''s1'', ''s3''] \<and> called_tools res = [''list_tasks''] \<and> length (cs_usage s') = 1"
proof -
  have "case sample_turn of (s', cs, res) \<Rightarrow>
    ch_reply res = Breakdown ''oh'' \<and> map fst cs = [''s1'', ''s3''] \<and> called_tools res = [''list_tasks''] \<and> length (cs_usage s') = 1"
    by code_simp
  then show ?thesis unfolding sample_turn_def by (auto split: prod.splits)
qed

section \<open>Properties\<close>



text \<open>
  what the turn reports as called is what was called: the tools it returns are exactly those of
  the calls the executor made, whatever happens to the reply afterwards.
\<close>

theorem called_tools_exact:
  assumes "run_planner_chat_loop env ctx i s = (s', cs, res)"
    and "\<forall>j p. plan_of_json (ct_orch env) j = Inr p \<longrightarrow> dict_ok (actions p)"
    and "set (dkeys (registry_map ctx)) \<subseteq> tools_by_name (ct_exec env)" "[] \<notin> set (dkeys (registry_map ctx))"
  shows "cs = [] \<and> called_tools res = [] \<or> (\<exists>p. set (called_tools res) = (\<lambda>(sid, a). tool_of p sid) ` set cs \<and>
    compile_plan p (plain_registry (registry_map ctx)) \<in> range Inr)"
  using assms(1-3)
proof (cases rule: chat_loop_cases)
  case (early rep)
  then show ?thesis by (simp add: ChatTurn.early_def)
next
  case (executed p ep led lg s1)
  with called_of_calls [OF executed(1,2,3) assms(4)] after_execution_called [OF executed(4)] show ?thesis by auto
qed

theorem called_tools_exact_witness:
  "\<exists>p cs. map fst cs = [''s1'', ''s3''] \<and> {''list_tasks''} = (\<lambda>(sid, a). tool_of p sid) ` set (cs :: calls)"
proof -
  obtain s' cs res where r: "run_planner_chat_loop sample_chat_env sample_planner_ctx ''e1'' fresh_chat = (s', cs, res)"
    "map fst cs = [''s1'', ''s3'']" "called_tools res = [''list_tasks'']" using sample_turn_result by (elim exE conjE) (rule that)
  have "cs \<noteq> []" "set (called_tools res) = {''list_tasks''}" using r(2,3) by auto
  with called_tools_exact [OF r(1) sample_plans sample_tools] r(2) show ?thesis by metis
qed

text \<open>
  watching the planner is free. The rows a turn books for the calls of planner and voice never
  change what any tenant has spent of any feature in any window.
\<close>

theorem turn_costs_no_credits:
  assumes "run_planner_chat_loop env ctx i s = (s', cs, res)"
    and "\<forall>j p. plan_of_json (ct_orch env) j = Inr p \<longrightarrow> dict_ok (actions p)"
    and "set (dkeys (registry_map ctx)) \<subseteq> tools_by_name (ct_exec env)"
  shows "sum_credits (cs_usage s') tenant feature start until = sum_credits (cs_usage s) tenant feature start until"
  using assms
proof (cases rule: chat_loop_cases)
  case (early rep)
  then show ?thesis by (simp add: same_credits_def)
next
  case (executed p ep led lg s1)
  with same_credits_trans [OF executed(5) after_execution_credits [OF executed(4)]] show ?thesis by (simp add: same_credits_def)
qed

theorem turn_costs_no_credits_witness:
  "\<exists>execs. length execs = 1 \<and> sum_credits execs ''t1'' ''f'' 0 None = sum_credits [] ''t1'' ''f'' 0 None"
proof -
  obtain s' cs res where r: "run_planner_chat_loop sample_chat_env sample_planner_ctx ''e1'' fresh_chat = (s', cs, res)"
    "length (cs_usage s') = 1" using sample_turn_result by (elim exE conjE) (rule that)
  from turn_costs_no_credits [OF r(1) sample_plans sample_tools(1), of "''t1''" "''f''" 0 None] r(2)
  show ?thesis by (auto simp: fresh_chat_def)
qed

end
