(* ===== verification/InboundEvents.thy ===== *)
theory InboundEvents
  imports Prelude
begin

text \<open>
  The table of events a feature hands to the platform for proactive delivery
  (\<open>db/models/inbound_event.py\<close>) and its repository (\<open>db/repositories/inbound_event.py\<close>). Scores are of
  any ordered type with a zero; payloads are opaque.
\<close>

section \<open>The table\<close>

datatype event_status = EvNew | EvNeedsClassification | EvClassified | EvConsumed | EvSkipped

record ('n, 'p) event =
  ev_tenant :: string
  ev_user :: "string option"
  ev_feature :: string
  ev_type :: string
  ev_key :: string
  ev_payload :: 'p
  ev_score :: 'n
  ev_score_reason :: "string option"
  ev_status :: event_status
  ev_reason :: "string option"
  ev_created :: int
  ev_classified :: "int option"
  ev_consumed :: "int option"

type_synonym ('n, 'p) events = "(string, ('n, 'p) event) dict"

text \<open>The primary key and the unique constraint: one row per feature and key, whatever the tenant.\<close>

definition event_ref :: "('n, 'p) event \<Rightarrow> string \<times> string" where
  "event_ref e = (ev_feature e, ev_key e)"

definition events_ok :: "('n, 'p) events \<Rightarrow> bool" where
  "events_ok q \<longleftrightarrow> dict_ok q \<and> distinct (map event_ref (dvals q))"

datatype event_error = EventIntegrityError | UnknownStatus

section \<open>The repository\<close>

record ('n, 'p) event_draft =
  ed_tenant :: string
  ed_feature :: string
  ed_type :: string
  ed_key :: string
  ed_payload :: 'p
  ed_user :: "string option"
  ed_score :: "'n option"
  ed_reason :: "string option"

definition draft_event :: "('n :: {zero, linorder}, 'p) event_draft \<Rightarrow> 'n \<Rightarrow> int \<Rightarrow> ('n, 'p) event" where
  "draft_event d threshold now =
     (let score = (case ed_score d of None \<Rightarrow> 0 | Some x \<Rightarrow> x);
          classified = (case ed_score d of None \<Rightarrow> False | Some x \<Rightarrow> threshold \<le> x) in
      \<lparr>ev_tenant = ed_tenant d, ev_user = ed_user d, ev_feature = ed_feature d, ev_type = ed_type d, ev_key = ed_key d,
       ev_payload = ed_payload d, ev_score = score, ev_score_reason = ed_reason d,
       ev_status = (if ed_score d = None then EvNeedsClassification else if classified then EvClassified else EvNew),
       ev_reason = None, ev_created = now, ev_classified = (if classified then Some now else None), ev_consumed = None\<rparr>)"

text \<open>
  The lookup before the insert and the insert; \<open>race\<close> is a row another transaction commits in between.
  \<open>None\<close> where the event is known already.
\<close>

definition create_from_draft ::
    "('n :: {zero, linorder}, 'p) event_draft \<Rightarrow> 'n \<Rightarrow> string \<Rightarrow> int \<Rightarrow> (string \<times> ('n, 'p) event) option \<Rightarrow>
     ('n, 'p) events \<Rightarrow> event_error + ('n, 'p) events \<times> string option" where
  "create_from_draft d threshold new_id now race q =
     (if (ed_feature d, ed_key d) \<in> set (map event_ref (dvals q)) then Inr (q, None)
      else
        (let q0 = (case race of None \<Rightarrow> q | Some (k, e) \<Rightarrow> q @ [(k, e)]) in
         if new_id \<in> set (dkeys q0) \<or> (ed_feature d, ed_key d) \<in> set (map event_ref (dvals q0))
         then Inl EventIntegrityError
         else Inr (q0 @ [(new_id, draft_event d threshold now)], Some new_id)))"

fun parse_event_status :: "string \<Rightarrow> event_status option" where
  "parse_event_status s =
     (if s = ''new'' then Some EvNew else if s = ''needs_classification'' then Some EvNeedsClassification
      else if s = ''classified'' then Some EvClassified else if s = ''consumed'' then Some EvConsumed
      else if s = ''skipped'' then Some EvSkipped else None)"

definition stamp_once :: "bool \<Rightarrow> int \<Rightarrow> int option \<Rightarrow> int option" where
  "stamp_once b now old = (if b \<and> old = None then Some now else old)"

definition with_status :: "event_status \<Rightarrow> string option \<Rightarrow> int \<Rightarrow> ('n, 'p) event \<Rightarrow> ('n, 'p) event" where
  "with_status st reason now e =
     e\<lparr>ev_status := st, ev_reason := reason,
       ev_classified := stamp_once (st = EvClassified) now (ev_classified e),
       ev_consumed := stamp_once (st = EvConsumed) now (ev_consumed e)\<rparr>"

definition mark_status ::
    "string \<Rightarrow> string \<Rightarrow> string option \<Rightarrow> int \<Rightarrow> ('n, 'p) events \<Rightarrow> event_error + ('n, 'p) events \<times> bool" where
  "mark_status i st reason now q =
     (case parse_event_status st of
        None \<Rightarrow> Inl UnknownStatus
      | Some s \<Rightarrow>
          (case dget q i of
             None \<Rightarrow> Inr (q, False)
           | Some e \<Rightarrow> Inr (dput q i (with_status s reason now e), True)))"

definition event_ready :: "(string \<Rightarrow> bool) \<Rightarrow> 'n :: linorder \<Rightarrow> ('n, 'p) event \<Rightarrow> bool" where
  "event_ready active min_score e \<longleftrightarrow> ev_status e = EvClassified \<and> min_score \<le> ev_score e \<and> active (ev_tenant e)"

definition list_ready_for_delivery ::
    "(string \<Rightarrow> bool) \<Rightarrow> nat \<Rightarrow> 'n :: linorder \<Rightarrow> ('n, 'p) events \<Rightarrow> (string \<times> ('n, 'p) event) list" where
  "list_ready_for_delivery active limit min_score q =
     take limit (sort_key (\<lambda>(k, e). ev_created e) (filter (\<lambda>(k, e). event_ready active min_score e) q))"

section \<open>Facts\<close>

lemma events_ok_snoc:
  "events_ok (q @ [(k, e)]) \<longleftrightarrow> events_ok q \<and> k \<notin> set (dkeys q) \<and> event_ref e \<notin> event_ref ` set (dvals q)"
  by (auto simp: events_ok_def dict_ok_def)

lemma draft_event_ref [simp]: "event_ref (draft_event d threshold now) = (ed_feature d, ed_key d)"
  by (simp add: event_ref_def draft_event_def Let_def)

lemma create_cases:
  assumes "create_from_draft d th i now race q = Inr (q', r)"
  obtains (known) "q' = q" "r = None"
  | (created) q0 where "q0 = (case race of None \<Rightarrow> q | Some (k, e) \<Rightarrow> q @ [(k, e)])" "r = Some i" "i \<notin> set (dkeys q0)"
      "(ed_feature d, ed_key d) \<notin> event_ref ` set (dvals q0)" "q' = q0 @ [(i, draft_event d th now)]"
  using assms unfolding create_from_draft_def Let_def
  by (auto simp only: set_map split: if_splits)

lemma create_keeps_ok:
  assumes "events_ok q" and "create_from_draft d th i now race q = Inr (q', r)"
    and "\<And>k e. race = Some (k, e) \<Longrightarrow> events_ok (q @ [(k, e)])"
  shows "events_ok q'"
  using assms(2)
proof (cases rule: create_cases)
  case (created q0)
  then have "events_ok q0" using assms(1,3) by (auto split: option.splits)
  with created show ?thesis by (simp add: events_ok_snoc)
qed (use assms(1) in simp)

lemma ready_listed:
  "set (list_ready_for_delivery active limit m q) \<subseteq> {(k, e). (k, e) \<in> set q \<and> event_ready active m e}"
  by (auto simp: list_ready_for_delivery_def dest: in_set_takeD)

text \<open>
  The key of an event does not name its tenant: an event of one tenant keeps the equally named event of
  another tenant out of the table.
\<close>

definition report_draft :: "string \<Rightarrow> (int, unit) event_draft" where
  "report_draft tenant = \<lparr>ed_tenant = tenant, ed_feature = ''digest'', ed_type = ''daily'', ed_key = ''2026-05-01'',
     ed_payload = (), ed_user = None, ed_score = Some 1, ed_reason = None\<rparr>"

lemma event_keys_shared_by_tenants:
  "case create_from_draft (report_draft ''t1'') 1 ''e1'' 0 None [] of
     Inr (q, r) \<Rightarrow> r = Some ''e1'' \<and> create_from_draft (report_draft ''t2'') 1 ''e2'' 5 None q = Inr (q, None)
   | Inl e \<Rightarrow> False"
  by code_simp

end
