(* ===== verification/TenantLifecycle.thy ===== *)
theory TenantLifecycle
  imports ReminderWorker QueueProps InboundEvents
begin

text \<open>
  Deleting and restoring a tenant (\<open>services/tenant_lifecycle.py\<close>) with the audit trail
  (\<open>services/audit.py\<close>), and the barrier between deletions and turns: an advisory lock of the tenant,
  held by the handlers of both messengers for a whole turn (\<open>services/telegram_inbound.py\<close>,
  \<open>max_inbound.py\<close>) and by a deletion or a restore up to its commit.
\<close>

section \<open>The state\<close>

record audit_entry =
  al_actor_type :: string
  al_actor_id :: "string option"
  al_action :: string
  al_resource_type :: string
  al_resource_id :: string
  al_metadata :: vdict
  al_created :: int

record ('n, 'p) tenant_db =
  td_tenants :: "(string, int option) dict" \<comment> \<open>\<open>deleted_at\<close> by tenant\<close>
  td_outbox :: outbox
  td_jobs :: jobs
  td_events :: "('n, 'p) events"
  td_reminders :: reminders
  td_trail :: "audit_entry list"

definition is_tenant_active :: "('n, 'p) tenant_db \<Rightarrow> string \<Rightarrow> bool" where
  "is_tenant_active db tenant \<longleftrightarrow> dget (td_tenants db) tenant = Some None"

section \<open>The audit trail\<close>

definition VALID_ACTOR_TYPES :: "string list" where
  "VALID_ACTOR_TYPES = [''admin'', ''user'', ''system'']"

text \<open>A write that fails rolls the session back; an actor type that is not known writes nothing.\<close>

datatype audit_result = Written audit_entry | InvalidActor | FlushFailed

definition write_audit :: "bool \<Rightarrow> audit_entry \<Rightarrow> audit_result" where
  "write_audit fault e =
     (if al_actor_type e \<notin> set VALID_ACTOR_TYPES then InvalidActor else if fault then FlushFailed else Written e)"

record lifecycle_call =
  lc_actor_type :: "string option"
  lc_actor_id :: "string option"
  lc_source :: "string option"
  lc_reason :: "string option"
  lc_action :: string
  lc_audit_fault :: bool

definition lifecycle_metadata :: "lifecycle_call \<Rightarrow> vdict \<Rightarrow> vdict" where
  "lifecycle_metadata c extra =
     (case lc_source c of None \<Rightarrow> [] | Some x \<Rightarrow> [(''source'', VStr x)]) @
     (case lc_reason c of None \<Rightarrow> [] | Some x \<Rightarrow> [(''reason'', VStr x)]) @ extra"

text \<open>\<open>None\<close> where no row was written, for want of an actor or because the write failed.\<close>

definition write_lifecycle_audit :: "lifecycle_call \<Rightarrow> string \<Rightarrow> vdict \<Rightarrow> int \<Rightarrow> audit_entry option" where
  "write_lifecycle_audit c tenant extra now =
     (if lc_action c = [] then None
      else
        (case lc_actor_type c of
           None \<Rightarrow> None
         | Some a \<Rightarrow>
             if a = [] then None
             else (case write_audit (lc_audit_fault c)
                 \<lparr>al_actor_type = a, al_actor_id = lc_actor_id c, al_action = lc_action c, al_resource_type = ''tenant'',
                  al_resource_id = tenant, al_metadata = lifecycle_metadata c extra, al_created = now\<rparr> of
                Written e \<Rightarrow> Some e
              | _ \<Rightarrow> None)))"

datatype lifecycle_error = LifecycleAuditFailed

text \<open>Commit, or roll back and raise where an actor was given and there is no row for it.\<close>

definition commit_with_audit ::
    "lifecycle_call \<Rightarrow> audit_entry option \<Rightarrow> ('n, 'p) tenant_db \<Rightarrow> lifecycle_error + ('n, 'p) tenant_db" where
  "commit_with_audit c row db =
     (if lc_actor_type c \<noteq> None \<and> row = None then Inl LifecycleAuditFailed
      else Inr (db\<lparr>td_trail := td_trail db @ (case row of None \<Rightarrow> [] | Some e \<Rightarrow> [e])\<rparr>))"

section \<open>Deleting\<close>

definition DRAIN_REASON :: string where "DRAIN_REASON = ''tenant_deleted''"

definition drain_job :: "string \<Rightarrow> int \<Rightarrow> job \<Rightarrow> job" where
  "drain_job tenant now j =
     (if job.tenant_id j = tenant \<and> jstatus j \<in> {Pending, Processing}
      then j\<lparr>jstatus := Done, finished_at := Some now, last_error := Some DRAIN_REASON\<rparr> else j)"

definition INBOUND_NON_TERMINAL :: "event_status list" where
  "INBOUND_NON_TERMINAL = [EvNew, EvNeedsClassification, EvClassified]"

definition skip_event :: "('n, 'p) event \<Rightarrow> ('n, 'p) event" where
  "skip_event e = e\<lparr>ev_status := EvSkipped, ev_reason := Some DRAIN_REASON\<rparr>"

definition drain_event :: "string \<Rightarrow> ('n, 'p) event \<Rightarrow> ('n, 'p) event" where
  "drain_event tenant e =
     (if ev_tenant e = tenant \<and> ev_status e \<in> set INBOUND_NON_TERMINAL then skip_event e else e)"

abbreviation over_values :: "('v \<Rightarrow> 'v) \<Rightarrow> ('k, 'v) dict \<Rightarrow> ('k, 'v) dict" where
  "over_values f q \<equiv> map (\<lambda>(k, v). (k, f v)) q"

definition delete_changes :: "string \<Rightarrow> int \<Rightarrow> ('n, 'p) tenant_db \<Rightarrow> ('n, 'p) tenant_db" where
  "delete_changes tenant now db =
     db\<lparr>td_tenants := dput (td_tenants db) tenant (Some now), td_outbox := drain_outbox tenant (td_outbox db),
       td_jobs := over_values (drain_job tenant now) (td_jobs db),
       td_events := over_values (drain_event tenant) (td_events db)\<rparr>"

text \<open>The flag tells whether this call has deleted the tenant.\<close>

definition soft_delete_tenant ::
    "lifecycle_call \<Rightarrow> string \<Rightarrow> int \<Rightarrow> ('n, 'p) tenant_db \<Rightarrow> lifecycle_error + ('n, 'p) tenant_db \<times> bool" where
  "soft_delete_tenant c tenant now db =
     (case dget (td_tenants db) tenant of
        None \<Rightarrow> Inr (db, False)
      | Some (Some d) \<Rightarrow> Inr (db, False)
      | Some None \<Rightarrow>
          (case commit_with_audit c (write_lifecycle_audit c tenant [(''previous_deleted_at'', VNone)] now)
              (delete_changes tenant now db) of
             Inl e \<Rightarrow> Inl e
           | Inr db1 \<Rightarrow> Inr (db1, True)))"

section \<open>Restoring\<close>

definition in_deletion :: "int \<Rightarrow> int \<Rightarrow> int option \<Rightarrow> bool" where
  "in_deletion d t n \<longleftrightarrow> (case n of None \<Rightarrow> False | Some x \<Rightarrow> d \<le> x \<and> x \<le> t)"

definition missed :: "string \<Rightarrow> int \<Rightarrow> int \<Rightarrow> reminder \<Rightarrow> bool" where
  "missed tenant d t r \<longleftrightarrow> rem_tenant r = tenant \<and> rem_status r = RemPending \<and> in_deletion d t (next_trigger_at r)"

definition cancel_missed :: "string \<Rightarrow> int \<Rightarrow> int \<Rightarrow> reminder \<Rightarrow> reminder" where
  "cancel_missed tenant d t r =
     (if missed tenant d t r \<and> recurrence_rule r = None
      then r\<lparr>rem_status := RemCancelled, next_trigger_at := None, rem_updated_at := t\<rparr> else r)"

definition advance_missed :: "rrule_lib \<Rightarrow> string \<Rightarrow> int \<Rightarrow> int \<Rightarrow> reminder \<Rightarrow> reminder" where
  "advance_missed rr tenant d t r =
     (case recurrence_rule r of
        None \<Rightarrow> r
      | Some rule \<Rightarrow>
          if missed tenant d t r
          then
            (case compute_next_occurrence_after rr rule (trigger_at r) t of
               None \<Rightarrow> r\<lparr>rem_status := RemFired, next_trigger_at := None, rem_updated_at := t\<rparr>
             | Some n \<Rightarrow> r\<lparr>next_trigger_at := Some n, rem_updated_at := t\<rparr>)
          else r)"

definition skip_window :: "string \<Rightarrow> int \<Rightarrow> int \<Rightarrow> ('n, 'p) event \<Rightarrow> ('n, 'p) event" where
  "skip_window tenant d t e =
     (if ev_tenant e = tenant \<and> ev_status e \<in> set INBOUND_NON_TERMINAL \<and>
         (in_deletion d t (Some (ev_created e)) \<or> in_deletion d t (ev_classified e))
      then skip_event e else e)"

definition restore_changes ::
    "rrule_lib \<Rightarrow> string \<Rightarrow> int \<Rightarrow> int \<Rightarrow> ('n, 'p) tenant_db \<Rightarrow> ('n, 'p) tenant_db" where
  "restore_changes rr tenant d t db =
     db\<lparr>td_tenants := dput (td_tenants db) tenant None,
       td_reminders := over_values (advance_missed rr tenant d t) (over_values (cancel_missed tenant d t) (td_reminders db)),
       td_events := over_values (skip_window tenant d t) (td_events db)\<rparr>"

definition restore_tenant ::
    "rrule_lib \<Rightarrow> lifecycle_call \<Rightarrow> string \<Rightarrow> int \<Rightarrow> ('n, 'p) tenant_db \<Rightarrow> lifecycle_error + ('n, 'p) tenant_db \<times> bool" where
  "restore_tenant rr c tenant now db =
     (case dget (td_tenants db) tenant of
        None \<Rightarrow> Inr (db, False)
      | Some None \<Rightarrow> Inr (db, False)
      | Some (Some d) \<Rightarrow>
          (case commit_with_audit c (write_lifecycle_audit c tenant [(''previous_deleted_at'', VStr (isoformat d))] now)
              (restore_changes rr tenant d now db) of
             Inl e \<Rightarrow> Inl e
           | Inr db1 \<Rightarrow> Inr (db1, True)))"

section \<open>The barrier\<close>

text \<open>
  Turns and lifecycle calls of any number of processes. \<open>key\<close> is the digest that names the lock of a
  tenant; a lock belongs to the connection that took it. A turn is in flight from the moment it holds
  the lock and has found its tenant active; a self-deletion asks for the same lock on a connection of
  its own, and waits as long as anybody holds it.
\<close>

record turn =
  tn_tenant :: string
  tn_deleting :: bool

record ('n, 'p) barrier =
  br_db :: "('n, 'p) tenant_db"
  br_locks :: "int \<Rightarrow> string option"
  br_turns :: "string \<Rightarrow> turn option"

text \<open>What a turn of a tenant may commit: rows of that tenant, and lines of the trail.\<close>

definition turn_writes :: "string \<Rightarrow> ('n, 'p) tenant_db \<Rightarrow> ('n, 'p) tenant_db \<Rightarrow> bool" where
  "turn_writes t db db' \<longleftrightarrow> td_tenants db' = td_tenants db \<and>
     (\<forall>k r. dget (td_outbox db') k = Some r \<and> outbox_row.tenant_id r \<noteq> t \<longrightarrow> dget (td_outbox db) k = Some r) \<and>
     (\<forall>k j. dget (td_jobs db') k = Some j \<and> job.tenant_id j \<noteq> t \<longrightarrow> dget (td_jobs db) k = Some j) \<and>
     (\<forall>k e. dget (td_events db') k = Some e \<and> ev_tenant e \<noteq> t \<longrightarrow> dget (td_events db) k = Some e)"

text \<open>The handlers: the lock first, then the check; the lock is given back where the tenant is deleted.\<close>

definition begin_turn :: "(string \<Rightarrow> int) \<Rightarrow> string \<Rightarrow> string \<Rightarrow> ('n, 'p) barrier \<Rightarrow> ('n, 'p) barrier option" where
  "begin_turn key c t s =
     (if br_locks s (key t) \<noteq> None then None
      else if is_tenant_active (br_db s) t
      then Some (s\<lparr>br_locks := (br_locks s)(key t := Some c),
                  br_turns := (br_turns s)(c := Some \<lparr>tn_tenant = t, tn_deleting = False\<rparr>)\<rparr>)
      else Some s)"

definition end_turn :: "(string \<Rightarrow> int) \<Rightarrow> string \<Rightarrow> turn \<Rightarrow> ('n, 'p) barrier \<Rightarrow> ('n, 'p) barrier" where
  "end_turn key c tn s = s\<lparr>br_locks := (br_locks s)(key (tn_tenant tn) := None), br_turns := (br_turns s)(c := None)\<rparr>"

inductive barrier_step :: "(string \<Rightarrow> int) \<Rightarrow> rrule_lib \<Rightarrow> ('n, 'p) barrier \<Rightarrow> ('n, 'p) barrier \<Rightarrow> bool"
  for key :: "string \<Rightarrow> int" and rr :: rrule_lib where
  bs_begin: "br_turns s c = None \<Longrightarrow> begin_turn key c t s = Some s' \<Longrightarrow> barrier_step key rr s s'"
| bs_write: "br_turns s c = Some tn \<Longrightarrow> \<not> tn_deleting tn \<Longrightarrow> turn_writes (tn_tenant tn) (br_db s) db \<Longrightarrow>
     barrier_step key rr s (s\<lparr>br_db := db\<rparr>)"
| bs_end: "br_turns s c = Some tn \<Longrightarrow> \<not> tn_deleting tn \<Longrightarrow> barrier_step key rr s (end_turn key c tn s)"
| bs_crash: "br_turns s c = Some tn \<Longrightarrow> barrier_step key rr s (end_turn key c tn s)"
| bs_delete: "br_locks s (key t) = None \<Longrightarrow> soft_delete_tenant call t now (br_db s) = Inr (db, b) \<Longrightarrow>
     barrier_step key rr s (s\<lparr>br_db := db\<rparr>)"
| bs_restore: "br_locks s (key t) = None \<Longrightarrow> restore_tenant rr call t now (br_db s) = Inr (db, b) \<Longrightarrow>
     barrier_step key rr s (s\<lparr>br_db := db\<rparr>)"
| bs_self_delete: "br_turns s c = Some tn \<Longrightarrow> \<not> tn_deleting tn \<Longrightarrow>
     barrier_step key rr s (s\<lparr>br_turns := (br_turns s)(c := Some (tn\<lparr>tn_deleting := True\<rparr>))\<rparr>)"
| bs_self_deleted: "br_turns s c = Some tn \<Longrightarrow> tn_deleting tn \<Longrightarrow> br_locks s (key (tn_tenant tn)) = None \<Longrightarrow>
     soft_delete_tenant call (tn_tenant tn) now (br_db s) = Inr (db, b) \<Longrightarrow>
     barrier_step key rr s (s\<lparr>br_db := db, br_turns := (br_turns s)(c := Some (tn\<lparr>tn_deleting := False\<rparr>))\<rparr>)"

text \<open>Nothing of the tenant is left to be worked on.\<close>

definition row_open :: "string \<Rightarrow> outbox_row \<Rightarrow> bool" where
  "row_open t r \<longleftrightarrow> outbox_row.tenant_id r = t \<and> status r = OutPending"

definition job_open :: "string \<Rightarrow> job \<Rightarrow> bool" where
  "job_open t j \<longleftrightarrow> job.tenant_id j = t \<and> jstatus j \<in> {Pending, Processing}"

definition event_open :: "string \<Rightarrow> ('n, 'p) event \<Rightarrow> bool" where
  "event_open t e \<longleftrightarrow> ev_tenant e = t \<and> ev_status e \<in> set INBOUND_NON_TERMINAL"

definition none_left :: "('v \<Rightarrow> bool) \<Rightarrow> (string, 'v) dict \<Rightarrow> bool" where
  "none_left P q \<longleftrightarrow> (\<forall>k v. dget q k = Some v \<longrightarrow> \<not> P v)"

definition settled :: "('n, 'p) tenant_db \<Rightarrow> string \<Rightarrow> bool" where
  "settled db t \<longleftrightarrow> none_left (row_open t) (td_outbox db) \<and> none_left (job_open t) (td_jobs db) \<and>
     none_left (event_open t) (td_events db)"

definition deleted :: "('n, 'p) tenant_db \<Rightarrow> string \<Rightarrow> bool" where
  "deleted db t \<longleftrightarrow> (\<exists>d. dget (td_tenants db) t = Some (Some d))"

definition barrier_init :: "('n, 'p) barrier \<Rightarrow> bool" where
  "barrier_init s \<longleftrightarrow> br_locks s = (\<lambda>k. None) \<and> br_turns s = (\<lambda>c. None) \<and> (\<forall>t. deleted (br_db s) t \<longrightarrow> settled (br_db s) t)"

definition barrier_inv :: "(string \<Rightarrow> int) \<Rightarrow> ('n, 'p) barrier \<Rightarrow> bool" where
  "barrier_inv key s \<longleftrightarrow>
     (\<forall>c tn. br_turns s c = Some tn \<longrightarrow>
        br_locks s (key (tn_tenant tn)) = Some c \<and> is_tenant_active (br_db s) (tn_tenant tn)) \<and>
     (\<forall>t. deleted (br_db s) t \<longrightarrow> settled (br_db s) t)"

section \<open>What a deletion and a restore leave\<close>

lemma commit_with_audit_Inr:
  "commit_with_audit c row db = Inr db' \<Longrightarrow> \<exists>trail. db' = db\<lparr>td_trail := trail\<rparr>"
  by (auto simp: commit_with_audit_def split: if_splits)

lemma settled_simps [simp]:
  "settled (db\<lparr>td_trail := x\<rparr>) t = settled db t" "deleted (db\<lparr>td_trail := x\<rparr>) t = deleted db t"
  "is_tenant_active (db\<lparr>td_trail := x\<rparr>) t = is_tenant_active db t"
  by (simp_all add: settled_def deleted_def is_tenant_active_def)

lemma soft_delete_cases:
  assumes "soft_delete_tenant c t now db = Inr (db', b)"
  obtains (nothing) "db' = db" "\<not> b" "\<not> is_tenant_active db t"
  | (marked) trail where "is_tenant_active db t" "b" "db' = (delete_changes t now db)\<lparr>td_trail := trail\<rparr>"
  using assms
  by (auto simp: soft_delete_tenant_def is_tenant_active_def split: option.splits sum.splits dest!: commit_with_audit_Inr)

lemma restore_cases:
  assumes "restore_tenant rr c t now db = Inr (db', b)"
  obtains (nothing) "db' = db" "\<not> b" "\<not> deleted db t"
  | (restored) d trail where "dget (td_tenants db) t = Some (Some d)" "b"
      "db' = (restore_changes rr t d now db)\<lparr>td_trail := trail\<rparr>"
  using assms
  by (auto simp: restore_tenant_def deleted_def split: option.splits sum.splits dest!: commit_with_audit_Inr)

text \<open>The drains rewrite rows one by one; no row is opened, and those of the tenant are closed.\<close>

lemma none_left_over:
  assumes "\<And>v. P (f v) \<Longrightarrow> P v" and "none_left P q"
  shows "none_left P (over_values f q)"
  using assms by (auto simp: none_left_def)

lemma none_left_drained: "(\<And>v. \<not> P (f v)) \<Longrightarrow> none_left P (over_values f q)"
  by (auto simp: none_left_def)

lemma drains_close:
  "\<not> row_open t (drain_row t r)" "\<not> job_open t (drain_job t now j)" "\<not> event_open t (drain_event t e)"
  by (auto simp: row_open_def job_open_def event_open_def drain_row_def drain_job_def drain_event_def skip_event_def
      INBOUND_NON_TERMINAL_def)

lemma drains_open_nothing:
  "row_open t' (drain_row t r) \<Longrightarrow> row_open t' r" "job_open t' (drain_job t now j) \<Longrightarrow> job_open t' j"
  "event_open t' (drain_event t e) \<Longrightarrow> event_open t' e" "event_open t' (skip_window t d n e) \<Longrightarrow> event_open t' e"
  by (simp_all add: row_open_def job_open_def event_open_def drain_row_def drain_job_def drain_event_def skip_event_def
      skip_window_def INBOUND_NON_TERMINAL_def split: if_splits)

lemma skip_window_open:
  assumes "event_open t (skip_window t d n e)"
  shows "skip_window t d n e = e \<and> \<not> in_deletion d n (Some (ev_created e)) \<and> \<not> in_deletion d n (ev_classified e)"
proof -
  have "ev_tenant e = t" "ev_status e \<in> set INBOUND_NON_TERMINAL"
    using assms drains_open_nothing(4) [OF assms] by (simp_all add: event_open_def)
  with assms show ?thesis
    by (cases "in_deletion d n (Some (ev_created e)) \<or> in_deletion d n (ev_classified e)")
      (simp_all add: skip_window_def event_open_def skip_event_def INBOUND_NON_TERMINAL_def)
qed

lemma delete_settles:
  assumes "t' = t \<or> settled db t'"
  shows "settled (delete_changes t now db) t'"
proof (cases "t' = t")
  case True
  then show ?thesis
    by (simp add: settled_def delete_changes_def drain_outbox_def none_left_drained drains_close)
next
  case False
  with assms show ?thesis
    by (simp add: settled_def delete_changes_def drain_outbox_def none_left_over [OF drains_open_nothing(1)]
        none_left_over [OF drains_open_nothing(2)] none_left_over [OF drains_open_nothing(3)])
qed

lemma restore_settled: "settled db t' \<Longrightarrow> settled (restore_changes rr t d now db) t'"
  by (simp add: settled_def restore_changes_def none_left_over [OF drains_open_nothing(4)])

lemma delete_flags:
  "deleted (delete_changes t now db) t' \<longleftrightarrow> t' = t \<or> deleted db t'"
  "is_tenant_active (delete_changes t now db) t' \<longleftrightarrow> t' \<noteq> t \<and> is_tenant_active db t'"
  by (auto simp: deleted_def is_tenant_active_def delete_changes_def)

lemma restore_flags:
  "deleted (restore_changes rr t d now db) t' \<longleftrightarrow> t' \<noteq> t \<and> deleted db t'"
  "is_tenant_active (restore_changes rr t d now db) t' \<longleftrightarrow> t' = t \<or> is_tenant_active db t'"
  by (auto simp: deleted_def is_tenant_active_def restore_changes_def)

section \<open>The barrier holds\<close>

lemma turn_writes_settled:
  assumes "turn_writes t db db'" and "settled db t'" and "t' \<noteq> t"
  shows "settled db' t'"
  using assms unfolding settled_def none_left_def turn_writes_def row_open_def job_open_def event_open_def by metis

lemma not_both: "is_tenant_active db t \<Longrightarrow> \<not> deleted db t"
  by (simp add: is_tenant_active_def deleted_def)

lemma db_change_inv:
  assumes "barrier_inv key s"
    and "\<And>t'. deleted db t' \<Longrightarrow> settled db t'"
    and "\<And>t' c. br_locks s (key t') = Some c \<Longrightarrow> is_tenant_active (br_db s) t' \<Longrightarrow> is_tenant_active db t'"
  shows "barrier_inv key (s\<lparr>br_db := db\<rparr>)"
  using assms unfolding barrier_inv_def by simp

lemma end_turn_inv: "barrier_inv key s \<Longrightarrow> br_turns s c = Some tn \<Longrightarrow> barrier_inv key (end_turn key c tn s)"
  by (auto simp: barrier_inv_def end_turn_def split: if_splits) (metis option.inject)+

lemma begin_turn_inv: "barrier_inv key s \<Longrightarrow> begin_turn key c t s = Some s' \<Longrightarrow> barrier_inv key s'"
  by (auto simp: barrier_inv_def begin_turn_def split: if_splits) (metis option.distinct(1))

lemma barrier_inv_step:
  assumes "barrier_inv key s" "barrier_step key rr s s'"
  shows "barrier_inv key s'"
  using assms(2)
proof cases
  case (bs_begin c t)
  with assms(1) show ?thesis by (blast intro: begin_turn_inv)
next
  case (bs_write c tn db)
  have act: "is_tenant_active (br_db s) (tn_tenant tn)" using assms(1) bs_write(2) by (auto simp: barrier_inv_def)
  have same: "deleted db t' = deleted (br_db s) t'" "is_tenant_active db t' = is_tenant_active (br_db s) t'" for t'
    using bs_write(4) by (simp_all add: turn_writes_def deleted_def is_tenant_active_def)
  show ?thesis unfolding bs_write(1)
  proof (rule db_change_inv [OF assms(1)])
    fix t' assume d: "deleted db t'"
    then have "settled (br_db s) t'" using assms(1) by (simp add: same barrier_inv_def)
    moreover have "t' \<noteq> tn_tenant tn" using d act not_both same(1) by blast
    ultimately show "settled db t'" by (rule turn_writes_settled [OF bs_write(4)])
  qed (simp add: same)
next
  case (bs_end c tn)
  with assms(1) show ?thesis by (simp add: end_turn_inv)
next
  case (bs_crash c tn)
  with assms(1) show ?thesis by (simp add: end_turn_inv)
next
  case (bs_delete t call now db b)
  from bs_delete(3) show ?thesis unfolding bs_delete(1)
  proof (cases rule: soft_delete_cases)
    case nothing
    with assms(1) show "barrier_inv key (s\<lparr>br_db := db\<rparr>)" by simp
  next
    case (marked trail)
    with assms(1) bs_delete(2) show "barrier_inv key (s\<lparr>br_db := db\<rparr>)"
      by (intro db_change_inv) (auto simp: delete_flags barrier_inv_def intro: delete_settles)
  qed
next
  case (bs_restore t call now db b)
  from bs_restore(3) show ?thesis unfolding bs_restore(1)
  proof (cases rule: restore_cases)
    case nothing
    with assms(1) show "barrier_inv key (s\<lparr>br_db := db\<rparr>)" by simp
  next
    case (restored d trail)
    with assms(1) show "barrier_inv key (s\<lparr>br_db := db\<rparr>)"
      by (intro db_change_inv) (auto simp: restore_flags barrier_inv_def intro: restore_settled)
  qed
next
  case (bs_self_delete c tn)
  with assms(1) show ?thesis by (auto simp: barrier_inv_def)
next
  case (bs_self_deleted c tn call now db b)
  with assms(1) show ?thesis by (auto simp: barrier_inv_def)
qed

interpretation barrier: invariant_system barrier_init "barrier_step key rr" "barrier_inv key" for key rr
proof unfold_locales
  show "barrier_inv key s" if "barrier_init s" for s :: "('a, 'b) barrier"
    using that by (simp add: barrier_init_def barrier_inv_def)
qed (rule barrier_inv_step)

section \<open>Reminders over a deletion\<close>

lemma restored_reminder:
  assumes "later_law rr"
  shows "rem_tenant (advance_missed rr t d n (cancel_missed t d n r)) = rem_tenant r"
    and "\<not> missed t d n r \<Longrightarrow> advance_missed rr t d n (cancel_missed t d n r) = r"
    and "missed t d n r \<Longrightarrow> rem_status (advance_missed rr t d n (cancel_missed t d n r)) = RemPending \<Longrightarrow>
      next_trigger_at (advance_missed rr t d n (cancel_missed t d n r)) = Some m \<Longrightarrow> n < m"
  using assms
  by (auto simp: cancel_missed_def advance_missed_def missed_def later_law_def compute_next_occurrence_after_def
      split: option.splits if_splits)

lemma restored_due:
  assumes "later_law rr" and "s \<le> n" and "rem_tenant r = t" and "active t"
  shows "rem_due active s (advance_missed rr t d n (cancel_missed t d n r)) \<longleftrightarrow>
    rem_status r = RemPending \<and> (\<exists>m. next_trigger_at r = Some m \<and> m < d \<and> m \<le> s)"
proof (cases "missed t d n r")
  case True
  then have "\<not> rem_due active s (advance_missed rr t d n (cancel_missed t d n r))"
    using restored_reminder(3) [OF assms(1) True] assms(2) by (force simp: rem_due_def split: option.splits)
  moreover have "\<not> (\<exists>m. next_trigger_at r = Some m \<and> m < d \<and> m \<le> s)"
    using True by (auto simp: missed_def in_deletion_def)
  ultimately show ?thesis by blast
next
  case False
  then show ?thesis using assms restored_reminder(2) [OF assms(1) False]
    by (auto simp: rem_due_def missed_def in_deletion_def split: option.splits)
qed

section \<open>What the workers see of a deleted tenant\<close>

lemma claimed_open:
  assumes "(k, u) \<in> set (snd (claim_batch q token now limit))"
  shows "\<exists>r. (k, r) \<in> set q \<and> row_open u r"
  using assms
  by (auto simp: claim_batch_def Let_def row_open_def out_claimable_def dest!: in_set_takeD)

lemma handed_out_open:
  assumes "claim_next_job q w now ls = (q', Some (k, j))"
  shows "\<exists>i. (k, i) \<in> set q \<and> job_open (job.tenant_id j) i"
proof -
  obtain i xs where c: "sort_key (\<lambda>(k, j). enqueued_at j) (candidates q now) = (k, i) # xs" "j = claimed_job w now ls i"
    using assms by (auto simp: claim_next_job_def Let_def split: list.splits)
  then have "(k, i) \<in> set (candidates q now)" by (metis list.set_intros(1) set_sort)
  then have "(k, i) \<in> set q" "available now i" by (auto simp: candidates_def)
  with c(2) show ?thesis by (intro exI [of _ i]) (auto simp: job_open_def available_def claimed_job_def)
qed

lemma drained_closed: "(k, r) \<in> set (over_values f q) \<Longrightarrow> (\<And>v. \<not> P (f v)) \<Longrightarrow> \<not> P r"
  by auto

lemma inactive_silent:
  assumes "\<not> active t"
  shows "(i, r) \<in> set (due_now active u limit rs) \<Longrightarrow> rem_tenant r \<noteq> t"
    and "(i, e) \<in> set (list_ready_for_delivery active limit m es) \<Longrightarrow> ev_tenant e \<noteq> t"
    and "delivery_env.tenant_active env = active \<Longrightarrow> outbox_row.tenant_id x = t \<Longrightarrow> snd (process_one env u x) = []"
    and "live_at_fire fenv = active \<Longrightarrow> fire_one fenv race (i, t) fs = (fs, Fenced)"
  using assms
  by (auto simp: due_now_def rem_due_def list_ready_for_delivery_def event_ready_def process_one_def fire_one_def
      split: option.splits dest!: in_set_takeD)


text \<open>
  C15: a restore wakes up nothing that came due while the tenant was deleted. At every instant up to the
  restore the reminders of the tenant that are due are those that had been due before the deletion
  already; reminders outside of the window stay as they are, as do those of other tenants; and no event
  of the tenant that was created or classified in the window is left open.
\<close>

theorem restore_wakes_nothing:
  assumes "restore_tenant rr c t now db = Inr (db', True)" and "later_law rr"
  shows "\<exists>d. dget (td_tenants db) t = Some (Some d) \<and> is_tenant_active db' t \<and>
    (\<forall>k s. s \<le> now \<longrightarrow>
       ((\<exists>r. dget (td_reminders db') k = Some r \<and> rem_tenant r = t \<and> rem_due (is_tenant_active db') s r) \<longleftrightarrow>
        (\<exists>r. dget (td_reminders db) k = Some r \<and> rem_tenant r = t \<and> rem_status r = RemPending \<and>
           (\<exists>m. next_trigger_at r = Some m \<and> m < d \<and> m \<le> s)))) \<and>
    (\<forall>k r. dget (td_reminders db) k = Some r \<and>
       (rem_tenant r \<noteq> t \<or> (\<forall>m. next_trigger_at r = Some m \<longrightarrow> m < d \<or> now < m)) \<longrightarrow> dget (td_reminders db') k = Some r) \<and>
    (\<forall>k e. dget (td_events db') k = Some e \<and> ev_tenant e = t \<and> ev_status e \<in> {EvNew, EvNeedsClassification, EvClassified} \<longrightarrow>
       dget (td_events db) k = Some e \<and> \<not> in_deletion d now (Some (ev_created e)) \<and> \<not> in_deletion d now (ev_classified e))"
  using assms(1)
proof (cases rule: restore_cases)
  case (restored d trail)
  have act: "is_tenant_active db' t" by (simp add: restored(3) restore_flags)
  let ?f = "\<lambda>r. advance_missed rr t d now (cancel_missed t d now r)"
  have rems: "dget (td_reminders db') k = map_option ?f (dget (td_reminders db) k)" for k
    by (simp add: restored(3) restore_changes_def option.map_comp comp_def del: map_map)
  have evs: "dget (td_events db') k = map_option (skip_window t d now) (dget (td_events db) k)" for k
    by (simp add: restored(3) restore_changes_def)
  have due: "(\<exists>r. dget (td_reminders db') k = Some r \<and> rem_tenant r = t \<and> rem_due (is_tenant_active db') s r) \<longleftrightarrow>
      (\<exists>r. dget (td_reminders db) k = Some r \<and> rem_tenant r = t \<and> rem_status r = RemPending \<and>
         (\<exists>m. next_trigger_at r = Some m \<and> m < d \<and> m \<le> s))" if "s \<le> now" for k s
    using restored_due [of rr s now _ t "is_tenant_active db'", OF assms(2) that _ act] restored_reminder(1) [OF assms(2), of t d now]
    by (cases "dget (td_reminders db) k") (auto simp: rems)
  have keep: "dget (td_reminders db') k = Some r"
    if "dget (td_reminders db) k = Some r" "rem_tenant r \<noteq> t \<or> (\<forall>m. next_trigger_at r = Some m \<longrightarrow> m < d \<or> now < m)" for k r
  proof -
    have "\<not> missed t d now r" using that(2) by (auto simp: missed_def in_deletion_def split: option.splits)
    with that(1) show ?thesis by (simp add: rems restored_reminder(2) [OF assms(2)])
  qed
  have open_events: "dget (td_events db) k = Some e \<and> \<not> in_deletion d now (Some (ev_created e)) \<and> \<not> in_deletion d now (ev_classified e)"
    if "dget (td_events db') k = Some e" "ev_tenant e = t" "ev_status e \<in> {EvNew, EvNeedsClassification, EvClassified}" for k e
  proof -
    from that(1) [unfolded evs] obtain e0 where e0: "dget (td_events db) k = Some e0" "e = skip_window t d now e0" by auto
    moreover have "event_open t e" using that(2,3) by (auto simp: event_open_def INBOUND_NON_TERMINAL_def)
    ultimately show ?thesis using skip_window_open [of t d now e0] by simp
  qed
  show ?thesis
    by (rule exI [of _ d], intro conjI)
      (rule restored(1), rule act, intro allI impI, rule due, assumption, intro allI impI, elim conjE, rule keep,
        assumption, assumption, intro allI impI, elim conjE, rule open_events, assumption+)
qed simp

text \<open>
  C16: turns and deletions exclude each other. In every run of turns, deletions and restores a turn that
  is in flight belongs to a tenant that is not deleted, no two turns of a tenant are in flight at once,
  and what a deleted tenant has left is settled: whatever its turns wrote before the deletion, no row is
  waiting for delivery, no message for a worker, no event for a decision.
\<close>

theorem turns_only_while_active:
  assumes "reach barrier_init (barrier_step key rr) s"
  shows "(\<forall>c tn. br_turns s c = Some tn \<longrightarrow> is_tenant_active (br_db s) (tn_tenant tn) \<and>
      (\<forall>c' tn'. br_turns s c' = Some tn' \<and> tn_tenant tn' = tn_tenant tn \<longrightarrow> c' = c)) \<and>
    (\<forall>t d. dget (td_tenants (br_db s)) t = Some (Some d) \<longrightarrow>
      (\<forall>k r. dget (td_outbox (br_db s)) k = Some r \<and> outbox_row.tenant_id r = t \<longrightarrow> status r \<noteq> OutPending) \<and>
      (\<forall>k j. dget (td_jobs (br_db s)) k = Some j \<and> job.tenant_id j = t \<longrightarrow> jstatus j \<noteq> Pending \<and> jstatus j \<noteq> Processing) \<and>
      (\<forall>k e. dget (td_events (br_db s)) k = Some e \<and> ev_tenant e = t \<longrightarrow> ev_status e = EvConsumed \<or> ev_status e = EvSkipped))"
proof -
  have inv: "barrier_inv key s" by (rule barrier.reach_inv [OF assms])
  have one: "c' = c" if "br_turns s c = Some tn" "br_turns s c' = Some tn'" "tn_tenant tn' = tn_tenant tn" for c c' tn tn'
    using inv that unfolding barrier_inv_def by (metis option.inject)
  have closed: "ev_status e = EvConsumed \<or> ev_status e = EvSkipped" if "ev_status e \<notin> set INBOUND_NON_TERMINAL"
    for e :: "('a, 'b) event" using that by (cases "ev_status e") (auto simp: INBOUND_NON_TERMINAL_def)
  have act: "is_tenant_active (br_db s) (tn_tenant tn)" if "br_turns s c = Some tn" for c tn
    using inv that by (simp add: barrier_inv_def)
  have left: "settled (br_db s) t" if "dget (td_tenants (br_db s)) t = Some (Some d)" for t d
    using inv that by (auto simp: barrier_inv_def deleted_def)
  have rows: "status r \<noteq> OutPending"
    if "dget (td_tenants (br_db s)) t = Some (Some d)" "dget (td_outbox (br_db s)) k = Some r" "outbox_row.tenant_id r = t" for t d k r
    using left [OF that(1)] that(2,3) by (auto simp: settled_def none_left_def row_open_def)
  have jobs: "jstatus j \<noteq> Pending \<and> jstatus j \<noteq> Processing"
    if "dget (td_tenants (br_db s)) t = Some (Some d)" "dget (td_jobs (br_db s)) k = Some j" "job.tenant_id j = t" for t d k j
    using left [OF that(1)] that(2,3) by (auto simp: settled_def none_left_def job_open_def)
  have events: "ev_status e = EvConsumed \<or> ev_status e = EvSkipped"
    if "dget (td_tenants (br_db s)) t = Some (Some d)" "dget (td_events (br_db s)) k = Some e" "ev_tenant e = t" for t d k e
    using left [OF that(1)] that(2,3) by (intro closed) (auto simp: settled_def none_left_def event_open_def)
  show ?thesis
    by (intro conjI allI impI; (elim conjE)?) (rule act one rows jobs [THEN conjunct1] jobs [THEN conjunct2] events; assumption)+
qed

text \<open>
  The self-deletion of the ReAct loop runs inside of a turn, which holds the lock that the deletion waits
  for on another connection: it never gets it, and the turn ends only with its process.
\<close>

theorem self_delete_waits_for_itself:
  assumes "reach barrier_init (barrier_step key rr) s" and "br_turns s c = Some tn" and "tn_deleting tn"
    and "barrier_step key rr s s'"
  shows "br_turns s' c = Some tn \<or> br_turns s' c = None \<and> br_db s' = br_db s"
proof -
  have inv: "barrier_inv key s" by (rule barrier.reach_inv [OF assms(1)])
  show ?thesis using assms(4)
  proof cases
    case (bs_self_deleted c' tn' call now db b)
    with inv show ?thesis by (auto simp: barrier_inv_def)
  next
    case (bs_begin c' t)
    with assms(2) show ?thesis by (auto simp: begin_turn_def split: if_splits)
  qed (use assms(2,3) in \<open>auto simp: end_turn_def\<close>)
qed

section \<open>A deletion and a restore\<close>

definition admin_call :: "string \<Rightarrow> lifecycle_call" where
  "admin_call action = \<lparr>lc_actor_type = Some ''admin'', lc_actor_id = Some ''a1'', lc_source = Some ''admin'', lc_reason = None,
     lc_action = action, lc_audit_fault = False\<rparr>"

text \<open>Two tenants, each with a message in the queue; the reminder for milk of the first is set for 50.\<close>

definition queued_job :: "string \<Rightarrow> job" where
  "queued_job tenant = \<lparr>tenant_id = tenant, thread_id = tenant, channel = ''tg'', external_update_id = tenant, message_payload = [],
     jstatus = Pending, enqueued_at = 1, started_at = None, finished_at = None, worker_id = None, attempt = 0,
     lease_expires_at = None, last_error = None\<rparr>"

definition two_tenants :: "(int, unit) tenant_db" where
  "two_tenants = \<lparr>td_tenants = [(''t1'', None), (''t2'', None)], td_outbox = [],
     td_jobs = [(''j1'', queued_job ''t1''), (''j2'', queued_job ''t2'')],
     td_events = [(''e1'', draft_event (report_draft ''t1'') 1 5)], td_reminders = [(''r1'', milk_reminder)], td_trail = []\<rparr>"

definition after_delete :: "(int, unit) tenant_db" where
  "after_delete = (case soft_delete_tenant (admin_call ''delete'') ''t1'' 40 two_tenants of Inr (db, b) \<Rightarrow> db | Inl e \<Rightarrow> two_tenants)"

definition after_restore :: "(int, unit) tenant_db" where
  "after_restore =
     (case restore_tenant minutely (admin_call ''restore'') ''t1'' 60 after_delete of Inr (db, b) \<Rightarrow> db | Inl e \<Rightarrow> after_delete)"

lemma sample_delete: "soft_delete_tenant (admin_call ''delete'') ''t1'' 40 two_tenants = Inr (after_delete, True)"
  by code_simp

lemma sample_restore: "restore_tenant minutely (admin_call ''restore'') ''t1'' 60 after_delete = Inr (after_restore, True)"
  by code_simp

lemma minutely_later: "later_law minutely"
  by (auto simp: later_law_def minutely_def ONE_MINUTE_def SEC_def split: if_splits)


theorem restore_wakes_nothing_witness:
  "\<exists>r. dget (td_reminders after_delete) ''r1'' = Some r \<and> rem_due (is_tenant_active two_tenants) 60 r \<and>
     \<not> (\<exists>x. dget (td_reminders after_restore) ''r1'' = Some x \<and> rem_tenant x = ''t1'' \<and> rem_due (is_tenant_active after_restore) 60 x)"
proof -
  have r: "dget (td_reminders after_delete) ''r1'' = Some milk_reminder" "rem_due (is_tenant_active two_tenants) 60 milk_reminder"
    "next_trigger_at milk_reminder = Some 50" "dget (td_tenants after_delete) ''t1'' = Some (Some 40)" by code_simp+
  from restore_wakes_nothing [OF sample_restore minutely_later] obtain d where
    d: "dget (td_tenants after_delete) ''t1'' = Some (Some d)" and
    due: "\<forall>k s. s \<le> 60 \<longrightarrow>
       ((\<exists>r. dget (td_reminders after_restore) k = Some r \<and> rem_tenant r = ''t1'' \<and> rem_due (is_tenant_active after_restore) s r) \<longleftrightarrow>
        (\<exists>r. dget (td_reminders after_delete) k = Some r \<and> rem_tenant r = ''t1'' \<and> rem_status r = RemPending \<and>
           (\<exists>m. next_trigger_at r = Some m \<and> m < d \<and> m \<le> s)))" by (elim exE conjE) (rule that)
  have "\<not> (\<exists>x. dget (td_reminders after_restore) ''r1'' = Some x \<and> rem_tenant x = ''t1'' \<and>
      rem_due (is_tenant_active after_restore) 60 x)"
    using due [rule_format, of 60 "''r1''"] r(1,3,4) d by auto
  with r(1,2) show ?thesis by blast
qed

definition idle_barrier :: "(int, unit) barrier" where
  "idle_barrier = \<lparr>br_db = two_tenants, br_locks = \<lambda>k. None, br_turns = \<lambda>c. None\<rparr>"

definition lock_digest :: "string \<Rightarrow> int" where "lock_digest t = int (length t)"

text \<open>A turn of the first tenant under way, which then asks for its own deletion.\<close>

definition running_turn :: "(int, unit) barrier" where
  "running_turn = the (begin_turn lock_digest ''c1'' ''t1'' idle_barrier)"

lemma turn_runs: "reach barrier_init (barrier_step lock_digest minutely) running_turn"
  "br_turns running_turn ''c1'' = Some \<lparr>tn_tenant = ''t1'', tn_deleting = False\<rparr>"
proof -
  have b: "begin_turn lock_digest ''c1'' ''t1'' idle_barrier = Some running_turn"
    by (simp add: running_turn_def begin_turn_def idle_barrier_def is_tenant_active_def two_tenants_def)
  have "barrier_init idle_barrier" by (simp add: barrier_init_def idle_barrier_def deleted_def two_tenants_def)
  moreover have "barrier_step lock_digest minutely idle_barrier running_turn"
    by (rule bs_begin [OF _ b]) (simp add: idle_barrier_def)
  ultimately show "reach barrier_init (barrier_step lock_digest minutely) running_turn" by (blast intro: reach_init reach_step)
  show "br_turns running_turn ''c1'' = Some \<lparr>tn_tenant = ''t1'', tn_deleting = False\<rparr>"
    by (simp add: running_turn_def begin_turn_def idle_barrier_def is_tenant_active_def two_tenants_def)
qed

theorem turns_only_while_active_witness:
  "br_turns running_turn ''c1'' \<noteq> None \<and> is_tenant_active (br_db running_turn) ''t1''"
  using turns_only_while_active [OF turn_runs(1)] turn_runs(2) by force

definition self_deleting :: "(int, unit) barrier" where
  "self_deleting = running_turn\<lparr>br_turns := (br_turns running_turn)(''c1'' := Some \<lparr>tn_tenant = ''t1'', tn_deleting = True\<rparr>)\<rparr>"

theorem self_delete_waits_for_itself_witness:
  "reach barrier_init (barrier_step lock_digest minutely) self_deleting \<and>
   (\<forall>s'. barrier_step lock_digest minutely self_deleting s' \<longrightarrow> br_turns s' ''c1'' = br_turns self_deleting ''c1'' \<or>
      br_turns s' ''c1'' = None \<and> br_db s' = br_db self_deleting)"
proof -
  have "barrier_step lock_digest minutely running_turn self_deleting"
    using bs_self_delete [OF turn_runs(2)] by (simp add: self_deleting_def)
  then have r: "reach barrier_init (barrier_step lock_digest minutely) self_deleting" by (rule reach_step [OF turn_runs(1)])
  have "br_turns self_deleting ''c1'' = Some \<lparr>tn_tenant = ''t1'', tn_deleting = True\<rparr>" by (simp add: self_deleting_def)
  with self_delete_waits_for_itself [OF r this] r show ?thesis by simp
qed

end
