(* ===== verification/ProactiveEvents.thy ===== *)
theory ProactiveEvents
  imports ReminderWorker InboundEvents Budget
begin

text \<open>
  Proactive messages: the policy of \<open>runtime/proactive_policy.py\<close> and the worker of
  \<open>workers/proactive_events.py\<close> that hands ready events to the handler of their feature and writes the
  replies into the outbox. The handlers, the embedding client and the comparison of vectors are
  parameters; a handler only reads. Times are of the one clock the worker reads per event.
\<close>

section \<open>The policy\<close>

datatype proactive = SendIt | DeferIt int | DropIt string

definition DUPLICATE_LOOKBACK_HOURS :: int where "DUPLICATE_LOOKBACK_HOURS = 24"

text \<open>An embedding client, \<open>None\<close> where it raises, and \<open>cosine \<ge> DUPLICATE_COSINE_THRESHOLD\<close>.\<close>

record 'v policy_env =
  embed_document :: "(string \<Rightarrow> 'v option) option"
  similar :: "'v \<Rightarrow> 'v \<Rightarrow> bool"

text \<open>\<open>None\<close>: the payload is no object, and \<open>get\<close> raises.\<close>

definition outbox_text :: "outbox_row \<Rightarrow> string option" where
  "outbox_text r =
     (case payload_json r of
        None \<Rightarrow> Some []
      | Some (VDict d) \<Rightarrow> Some (case dget d ''text'' of Some (VStr t) \<Rightarrow> strip t | _ \<Rightarrow> [])
      | Some _ \<Rightarrow> None)"

definition recent_proactive :: "string \<Rightarrow> string \<Rightarrow> int \<Rightarrow> outbox \<Rightarrow> outbox_row list" where
  "recent_proactive user feature since q =
     sort_key (\<lambda>r. - outbox_row.created_at r)
       (filter (\<lambda>r. outbox_row.user_id r = Some user \<and> outbox_row.feature_key r = Some feature \<and> \<not> is_interactive r \<and>
          since \<le> outbox_row.created_at r) (dvals q))"

definition same_meaning :: "'v policy_env \<Rightarrow> string \<Rightarrow> string list \<Rightarrow> bool" where
  "same_meaning env t texts =
     (case embed_document env of
        None \<Rightarrow> False
      | Some client \<Rightarrow>
          (case client t of
             None \<Rightarrow> False
           | Some v \<Rightarrow> list_ex (\<lambda>x. case client x of None \<Rightarrow> False | Some w \<Rightarrow> similar env v w) texts))"

definition is_duplicate :: "'v policy_env \<Rightarrow> string \<Rightarrow> outbox_row list \<Rightarrow> bool option" where
  "is_duplicate env new_text recent =
     (let t = strip new_text in
      if t = [] then Some False
      else
        (case those (map outbox_text recent) of
           None \<Rightarrow> None
         | Some ts \<Rightarrow> let texts = filter (\<lambda>x. x \<noteq> []) ts in Some (t \<in> set texts \<or> same_meaning env t texts)))"

definition touching :: "int \<Rightarrow> outbox_row list \<Rightarrow> outbox_row list" where
  "touching cutoff recent = filter (\<lambda>r. status r \<in> {OutSent, OutPending} \<and> cutoff \<le> outbox_row.created_at r) recent"

definition throttle_defer_until :: "outbox_row list \<Rightarrow> int \<Rightarrow> int \<Rightarrow> int option" where
  "throttle_defer_until recent now throttle_minutes =
     (let window = throttle_minutes * ONE_MINUTE; rs = touching (now - window) recent in
      if rs = [] then None else Some (Min (set (map outbox_row.created_at rs)) + window))"

text \<open>\<open>throttle\<close>: the minutes of the user's profile, 0 without a profile.\<close>

definition decide_proactive ::
    "'v policy_env \<Rightarrow> string \<Rightarrow> string option \<Rightarrow> string \<Rightarrow> int \<Rightarrow> int \<Rightarrow> outbox \<Rightarrow> proactive option" where
  "decide_proactive env text user feature throttle now q =
     (if \<not> filled user then Some SendIt
      else
        (let recent = recent_proactive (the user) feature (now - DUPLICATE_LOOKBACK_HOURS * 60 * ONE_MINUTE) q in
         case is_duplicate env text recent of
           None \<Rightarrow> None
         | Some True \<Rightarrow> Some (DropIt ''duplicate'')
         | Some False \<Rightarrow>
             (if throttle > 0
              then (case throttle_defer_until recent now throttle of Some t \<Rightarrow> Some (DeferIt t) | None \<Rightarrow> Some SendIt)
              else Some SendIt)))"

section \<open>The worker\<close>

record runtime_reply =
  rp_text :: string
  rp_markup :: pyval
  rp_feature :: "string option"
  rp_parse_mode :: "string option"
  rp_extra :: vdict

record ('n, 'p, 'v) proactive_env =
  pe_policy :: "'v policy_env"
  pe_handler :: "string \<Rightarrow> (('n, 'p) event \<Rightarrow> runtime_reply list option) option" \<comment> \<open>the inner \<open>None\<close>: it raises\<close>
  pe_quota :: "string \<Rightarrow> string \<Rightarrow> bool"
  pe_throttle :: "string \<Rightarrow> string \<Rightarrow> int"
  pe_routing :: firing_env
  pe_system_bot :: "string option"
  pe_out_id :: "outbox \<Rightarrow> string"
  pe_now :: int

definition event_routings :: "('n, 'p, 'v) proactive_env \<Rightarrow> ('n, 'p) event \<Rightarrow> outbox_routing list" where
  "event_routings env e =
     (if \<not> filled (ev_user e) then []
      else
        (case dget (users (pe_routing env)) (the (ev_user e)) of
           None \<Rightarrow> []
         | Some u \<Rightarrow>
             if ur_tenant u \<noteq> ev_tenant e then []
             else resolve_outbox_routings (tenant_pref (pe_routing env) (ev_tenant e)) (Some u) (registry (pe_routing env))))"

definition merge_dict :: "vdict \<Rightarrow> vdict \<Rightarrow> vdict" where
  "merge_dict d extra = foldl (\<lambda>d (k, v). dput d k v) d extra"

definition reply_payload :: "runtime_reply \<Rightarrow> outbox_routing \<Rightarrow> vdict" where
  "reply_payload rep rt =
     merge_dict ([(''chat_id'', VStr (rt_chat_id rt)), (''text'', VStr (rp_text rep)), (''reply_markup'', rp_markup rep)] @
       (if filled (rp_parse_mode rep) then [(''parse_mode'', VStr (the (rp_parse_mode rep)))] else [])) (rp_extra rep)"

fun decision_fields :: "proactive \<Rightarrow> out_status \<times> int option \<times> string option" where
  "decision_fields SendIt = (OutPending, None, None)"
| "decision_fields (DeferIt t) = (OutPending, Some t, None)"
| "decision_fields (DropIt why) = (OutDropped, None, Some why)"

definition proactive_row ::
    "('n, 'p, 'v) proactive_env \<Rightarrow> ('n, 'p) event \<Rightarrow> string \<Rightarrow> runtime_reply \<Rightarrow> outbox_routing \<Rightarrow> proactive \<Rightarrow> outbox_row" where
  "proactive_row env e w rep rt d =
     (case decision_fields d of (st, at, why) \<Rightarrow>
        \<lparr>tenant_id = ev_tenant e, workspace_id = w, channel_type = rt_channel rt, status = st,
         payload_json = Some (VDict (reply_payload rep rt)), created_at = pe_now env, scheduled_at = at,
         feature_key = Some (or_text (rp_feature rep) (ev_feature e)), user_id = ev_user e, is_interactive = False,
         drop_reason = why, bot_key = Some (or_text (rt_bot_key rt) (or_text (pe_system_bot env) LEGACY_NULL_BOT_KEY)),
         idempotency_key = None, claim_token = None, lease_expires_at = None\<rparr>)"

text \<open>One reply on every channel; \<open>None\<close> where the tenant has no workspace.\<close>

fun write_rows ::
    "('n, 'p, 'v) proactive_env \<Rightarrow> ('n, 'p) event \<Rightarrow> runtime_reply \<Rightarrow> proactive \<Rightarrow> outbox_routing list \<Rightarrow> outbox \<Rightarrow> outbox option" where
  "write_rows env e rep d [] q = Some q"
| "write_rows env e rep d (rt # rts) q =
     (case resolve_workspace_id (pe_routing env) (ev_tenant e) of
        None \<Rightarrow> None
      | Some w \<Rightarrow> write_rows env e rep d rts (q @ [(pe_out_id env q, proactive_row env e w rep rt d)]))"

fun write_replies ::
    "('n, 'p, 'v) proactive_env \<Rightarrow> ('n, 'p) event \<Rightarrow> outbox_routing list \<Rightarrow> runtime_reply list \<Rightarrow> outbox \<Rightarrow> outbox option" where
  "write_replies env e rts [] q = Some q"
| "write_replies env e rts (rep # reps) q =
     (case decide_proactive (pe_policy env) (rp_text rep) (ev_user e) (ev_feature e)
         (if filled (ev_user e) then pe_throttle env (ev_tenant e) (the (ev_user e)) else 0) (pe_now env) q of
        None \<Rightarrow> None
      | Some d \<Rightarrow>
          (case write_rows env e rep d rts q of
             None \<Rightarrow> None
           | Some q1 \<Rightarrow> write_replies env e rts reps q1))"

text \<open>The status and the reason the event gets, and the outbox; \<open>None\<close> where an exception escapes.\<close>

definition handle_event ::
    "('n, 'p, 'v) proactive_env \<Rightarrow> ('n, 'p) event \<Rightarrow> outbox \<Rightarrow> (event_status \<times> string option \<times> outbox) option" where
  "handle_event env e q =
     (case pe_handler env (ev_feature e) of
        None \<Rightarrow> Some (EvSkipped, Some ''no_proactive_handler'', q)
      | Some handler \<Rightarrow>
          if \<not> pe_quota env (ev_tenant e) (ev_feature e) then Some (EvSkipped, Some ''quota_exhausted'', q)
          else
            (case handler e of
               None \<Rightarrow> None
             | Some replies \<Rightarrow>
                 (let rts = event_routings env e in
                  if rts = [] then Some (EvSkipped, Some ''no_delivery_channel'', q)
                  else map_option (\<lambda>q1. (EvConsumed, None, q1)) (write_replies env e rts replies q))))"

record ('n, 'p) proactive_db =
  pd_events :: "('n, 'p) events"
  pd_outbox :: outbox

text \<open>
  One event in a transaction of its own; where it fails, the event is marked in a fresh one. The flag
  says whether it counts as processed.
\<close>

definition process_event ::
    "('n, 'p, 'v) proactive_env \<Rightarrow> string \<Rightarrow> ('n, 'p) proactive_db \<Rightarrow> ('n, 'p) proactive_db \<times> bool" where
  "process_event env i db =
     (case dget (pd_events db) i of
        None \<Rightarrow> (db, False)
      | Some e \<Rightarrow>
          (case handle_event env e (pd_outbox db) of
             Some (st, reason, q) \<Rightarrow>
               (\<lparr>pd_events = dput (pd_events db) i (with_status st reason (pe_now env) e), pd_outbox = q\<rparr>, True)
           | None \<Rightarrow>
               (db\<lparr>pd_events := dput (pd_events db) i (with_status EvSkipped (Some ''handler_exception'') (pe_now env) e)\<rparr>,
                False)))"

fun process_events ::
    "('n, 'p, 'v) proactive_env \<Rightarrow> string list \<Rightarrow> ('n, 'p) proactive_db \<Rightarrow> ('n, 'p) proactive_db \<times> nat" where
  "process_events env [] db = (db, 0)"
| "process_events env (i # is) db =
     (case process_event env i db of (db1, b) \<Rightarrow>
        (case process_events env is db1 of (db2, n) \<Rightarrow> (db2, (if b then 1 else 0) + n)))"

definition process_pending_events ::
    "('n :: linorder, 'p, 'v) proactive_env \<Rightarrow> (string \<Rightarrow> bool) \<Rightarrow> nat \<Rightarrow> 'n \<Rightarrow> ('n, 'p) proactive_db \<Rightarrow> ('n, 'p) proactive_db \<times> nat" where
  "process_pending_events env active limit min_score db =
     process_events env (map fst (list_ready_for_delivery active limit min_score (pd_events db))) db"

section \<open>What the policy decides\<close>

lemma recent_set:
  "r \<in> set (recent_proactive u f since q) \<longleftrightarrow> r \<in> set (dvals q) \<and> outbox_row.user_id r = Some u \<and>
     outbox_row.feature_key r = Some f \<and> \<not> is_interactive r \<and> since \<le> outbox_row.created_at r"
  by (auto simp: recent_proactive_def)

lemma those_Some_set: "those (map f xs) = Some ys \<Longrightarrow> set ys = {y. \<exists>x\<in>set xs. f x = Some y}"
  by (induction xs arbitrary: ys) (auto split: option.splits)

lemma defer_until:
  assumes "throttle_defer_until recent now m = Some t"
  shows "\<exists>r\<in>set (touching (now - m * ONE_MINUTE) recent). t = outbox_row.created_at r + m * ONE_MINUTE"
    and "\<And>r. r \<in> set (touching (now - m * ONE_MINUTE) recent) \<Longrightarrow> t \<le> outbox_row.created_at r + m * ONE_MINUTE"
proof -
  let ?rs = "touching (now - m * ONE_MINUTE) recent"
  have ne: "?rs \<noteq> []" and t: "t = Min (set (map outbox_row.created_at ?rs)) + m * ONE_MINUTE"
    using assms by (auto simp: throttle_defer_until_def Let_def split: if_splits)
  from ne have "Min (set (map outbox_row.created_at ?rs)) \<in> set (map outbox_row.created_at ?rs)" by (intro Min_in) auto
  then show "\<exists>r\<in>set ?rs. t = outbox_row.created_at r + m * ONE_MINUTE" by (auto simp: t)
  show "t \<le> outbox_row.created_at r + m * ONE_MINUTE" if "r \<in> set ?rs" for r
    using that by (auto simp: t intro: Min_le)
qed

lemma no_defer: "throttle_defer_until recent now m = None \<longleftrightarrow> touching (now - m * ONE_MINUTE) recent = []"
  by (simp add: throttle_defer_until_def Let_def)

lemma decide_cases:
  assumes "decide_proactive env text (Some u) f throttle now q = Some d" and "u \<noteq> []"
  obtains (duplicate) "d = DropIt ''duplicate''" "is_duplicate env text (recent_proactive u f (now - 24 * 60 * ONE_MINUTE) q) = Some True"
  | (later) t where "d = DeferIt t" "is_duplicate env text (recent_proactive u f (now - 24 * 60 * ONE_MINUTE) q) = Some False"
      "0 < throttle" "throttle_defer_until (recent_proactive u f (now - 24 * 60 * ONE_MINUTE) q) now throttle = Some t"
  | (now) "d = SendIt" "is_duplicate env text (recent_proactive u f (now - 24 * 60 * ONE_MINUTE) q) = Some False"
      "0 < throttle \<Longrightarrow> throttle_defer_until (recent_proactive u f (now - 24 * 60 * ONE_MINUTE) q) now throttle = None"
  using assms
  by (auto simp: decide_proactive_def filled_def Let_def DUPLICATE_LOOKBACK_HOURS_def split: option.splits bool.splits if_splits)

lemma is_duplicate_iff:
  assumes "is_duplicate env text recent = Some b"
  shows "b \<longleftrightarrow> strip text \<noteq> [] \<and>
    ((\<exists>r\<in>set recent. outbox_text r = Some (strip text)) \<or>
     same_meaning env (strip text) (filter (\<lambda>x. x \<noteq> []) (the (those (map outbox_text recent)))))"
  using assms
  by (auto simp: is_duplicate_def Let_def dest: those_Some_set split: if_splits option.splits)


section \<open>What a tick leaves\<close>

text \<open>The row of a reply carries the event's tenant and user, on one of its channels, with its decision.\<close>

definition row_of_event :: "('n, 'p, 'v) proactive_env \<Rightarrow> ('n, 'p) event \<Rightarrow> outbox_row \<Rightarrow> bool" where
  "row_of_event env e x \<longleftrightarrow> outbox_row.tenant_id x = ev_tenant e \<and> outbox_row.user_id x = ev_user e \<and>
     channel_type x \<in> rt_channel ` set (event_routings env e) \<and> \<not> is_interactive x \<and>
     outbox_row.created_at x = pe_now env \<and> claim_token x = None \<and>
     (status x = OutPending \<and> drop_reason x = None \<or> status x = OutDropped \<and> drop_reason x = Some ''duplicate'')"

lemma write_rows_appends:
  assumes "write_rows env e rep d rts q = Some q'" and "set rts \<subseteq> set (event_routings env e)"
    and "\<And>why. d = DropIt why \<Longrightarrow> why = ''duplicate''"
  shows "\<exists>new. q' = q @ new \<and> length new = length rts \<and> (\<forall>x\<in>set (dvals new). row_of_event env e x)"
  using assms
proof (induction rts arbitrary: q)
  case (Cons rt rts)
  then obtain w where w: "resolve_workspace_id (pe_routing env) (ev_tenant e) = Some w" by (auto split: option.splits)
  let ?x = "(pe_out_id env q, proactive_row env e w rep rt d)"
  have x: "row_of_event env e (snd ?x)" using Cons.prems(2,3)
    by (cases d) (auto simp: row_of_event_def proactive_row_def)
  from Cons.IH [of "q @ [?x]"] Cons.prems w obtain new where
    "q' = (q @ [?x]) @ new" "length new = length rts" "\<forall>x\<in>set (dvals new). row_of_event env e x" by auto
  with x show ?case by (intro exI [of _ "?x # new"]) auto
qed simp

lemma decide_drop:
  assumes "decide_proactive env text user f throttle now q = Some (DropIt why)"
  shows "why = ''duplicate''"
  using assms by (auto simp: decide_proactive_def Let_def split: if_splits option.splits bool.splits)

lemma write_replies_appends:
  assumes "write_replies env e (event_routings env e) reps q = Some q'"
  shows "\<exists>new. q' = q @ new \<and> length new = length reps * length (event_routings env e) \<and>
    (\<forall>x\<in>set (dvals new). row_of_event env e x)"
  using assms
proof (induction reps arbitrary: q)
  case (Cons rep reps)
  then obtain d q1 where d: "decide_proactive (pe_policy env) (rp_text rep) (ev_user e) (ev_feature e)
      (if filled (ev_user e) then pe_throttle env (ev_tenant e) (the (ev_user e)) else 0) (pe_now env) q = Some d"
    "write_rows env e rep d (event_routings env e) q = Some q1" "write_replies env e (event_routings env e) reps q1 = Some q'"
    by (auto split: option.splits)
  from write_rows_appends [OF d(2)] d(1) obtain n1 where n1: "q1 = q @ n1" "length n1 = length (event_routings env e)"
    "\<forall>x\<in>set (dvals n1). row_of_event env e x" using decide_drop by blast
  from Cons.IH [OF d(3)] obtain n2 where n2: "q' = q1 @ n2" "length n2 = length reps * length (event_routings env e)"
    "\<forall>x\<in>set (dvals n2). row_of_event env e x" by blast
  with n1 show ?case by (intro exI [of _ "n1 @ n2"]) auto
qed simp

text \<open>What one event does: its own row changes to a final status, and only a consumed event writes.\<close>

lemma process_event_cases:
  assumes "process_event env i db = (db', b)" and "dget (pd_events db) i = Some e"
  obtains st reason new where "st \<in> {EvConsumed, EvSkipped}"
    "pd_events db' = dput (pd_events db) i (with_status st reason (pe_now env) e)" "pd_outbox db' = pd_outbox db @ new"
    "st = EvSkipped \<longrightarrow> new = []" "\<forall>x\<in>set (dvals new). row_of_event env e x"
proof (cases "handle_event env e (pd_outbox db)")
  case None
  then show thesis using assms that [of EvSkipped "Some ''handler_exception''" "[]"] by (auto simp: process_event_def)
next
  case (Some x)
  obtain st reason q where x: "x = (st, reason, q)" by (cases x)
  have db': "pd_events db' = dput (pd_events db) i (with_status st reason (pe_now env) e)" "pd_outbox db' = q"
    using assms Some x by (auto simp: process_event_def)
  from Some [unfolded x] consider "st = EvSkipped" "q = pd_outbox db"
    | reps where "st = EvConsumed" "write_replies env e (event_routings env e) reps (pd_outbox db) = Some q"
    by (auto simp: handle_event_def Let_def split: option.splits if_splits)
  then show thesis
  proof cases
    case 1
    then show thesis using that [of st reason "[]"] db' by simp
  next
    case 2
    from write_replies_appends [OF 2(2)] obtain new where "q = pd_outbox db @ new" "\<forall>x\<in>set (dvals new). row_of_event env e x" by blast
    then show thesis using that [of st reason new] db' 2(1) by simp
  qed
qed

lemma process_events_run:
  assumes "process_events env is db = (db', n)" and "distinct is" and "set is \<subseteq> set (dkeys (pd_events db))"
  shows "(\<forall>i e. dget (pd_events db) i = Some e \<longrightarrow>
      (if i \<in> set is
       then \<exists>e'. dget (pd_events db') i = Some e' \<and> ev_status e' \<in> {EvConsumed, EvSkipped}
       else dget (pd_events db') i = Some e)) \<and>
    (\<exists>new. pd_outbox db' = pd_outbox db @ new \<and>
      (\<forall>x\<in>set (dvals new). \<exists>i\<in>set is. \<exists>e e'. dget (pd_events db) i = Some e \<and> row_of_event env e x \<and>
         dget (pd_events db') i = Some e' \<and> ev_status e' = EvConsumed))"
  using assms
proof (induction "is" arbitrary: db n)
  case (Cons i "is")
  obtain db1 b m where s: "process_event env i db = (db1, b)" "process_events env is db1 = (db', m)"
    using Cons.prems(1) by (auto split: prod.splits)
  obtain e where e: "dget (pd_events db) i = Some e" using Cons.prems(3) by (metis dget_None_iff list.set_intros(1) not_None_eq subsetD)
  from process_event_cases [OF s(1) e] obtain st reason new where p: "st \<in> {EvConsumed, EvSkipped}"
    "pd_events db1 = dput (pd_events db) i (with_status st reason (pe_now env) e)" "pd_outbox db1 = pd_outbox db @ new"
    "st = EvSkipped \<longrightarrow> new = []" "\<forall>x\<in>set (dvals new). row_of_event env e x" .
  let ?e1 = "with_status st reason (pe_now env) e"
  have g: "dget (pd_events db1) k = (if k = i then Some ?e1 else dget (pd_events db) k)" for k by (simp add: p(2))
  have sub: "set is \<subseteq> set (dkeys (pd_events db1))" using Cons.prems(3) g by (metis dget_None_iff list.set_intros(2) option.distinct(1) subset_code(1))
  have i: "i \<notin> set is" "distinct is" using Cons.prems(2) by auto
  note IH = Cons.IH [OF s(2) i(2) sub]
  have st1: "ev_status ?e1 = st" by (simp add: with_status_def)
  have kept: "dget (pd_events db') i = Some ?e1" using IH i(1) g [of i] by auto
  from IH obtain more where more: "pd_outbox db' = pd_outbox db1 @ more"
    "\<forall>x\<in>set (dvals more). \<exists>j\<in>set is. \<exists>e e'. dget (pd_events db1) j = Some e \<and> row_of_event env e x \<and>
       dget (pd_events db') j = Some e' \<and> ev_status e' = EvConsumed" by blast
  have "\<forall>j f. dget (pd_events db) j = Some f \<longrightarrow>
      (if j \<in> set (i # is) then \<exists>e'. dget (pd_events db') j = Some e' \<and> ev_status e' \<in> {EvConsumed, EvSkipped}
       else dget (pd_events db') j = Some f)"
    using IH kept st1 p(1) g by (metis (no_types, lifting) insert_iff list.set(2))
  moreover have "\<exists>j\<in>set (i # is). \<exists>f e'. dget (pd_events db) j = Some f \<and> row_of_event env f x \<and>
      dget (pd_events db') j = Some e' \<and> ev_status e' = EvConsumed" if "x \<in> set (dvals (new @ more))" for x
  proof (cases "x \<in> set (dvals new)")
    case True
    then have "st = EvConsumed" "row_of_event env e x" using p(1,4,5) by auto
    then show ?thesis using kept st1 e by auto
  next
    case False
    then have "x \<in> set (dvals more)" using that by auto
    with more(2) i(1) g show ?thesis by (metis list.set_intros(2))
  qed
  ultimately show ?case using more(1) p(3) by (intro conjI exI [of _ "new @ more"]) auto
qed simp


section \<open>Three events\<close>

definition no_embeddings :: "unit policy_env" where
  "no_embeddings = \<lparr>embed_document = None, similar = (\<lambda>_ _. False)\<rparr>"

definition plain_reply :: "string option \<Rightarrow> string \<Rightarrow> runtime_reply" where
  "plain_reply feature text = \<lparr>rp_text = text, rp_markup = VNone, rp_feature = feature, rp_parse_mode = None, rp_extra = []\<rparr>"

text \<open>The handler of the feature says what the payload says.\<close>

definition sample_proactive_env :: "string option \<Rightarrow> int \<Rightarrow> int \<Rightarrow> (int, string, unit) proactive_env" where
  "sample_proactive_env feature throttle now =
     \<lparr>pe_policy = no_embeddings,
      pe_handler = (\<lambda>f. if f = ''digest'' then Some (\<lambda>e. Some [plain_reply feature (ev_payload e)]) else None),
      pe_quota = (\<lambda>_ _. True), pe_throttle = (\<lambda>_ _. throttle), pe_routing = sample_firing_env, pe_system_bot = None,
      pe_out_id = (\<lambda>q. replicate (length q) (CHR ''o'')), pe_now = now\<rparr>"

definition digest_event :: "string \<Rightarrow> string \<Rightarrow> int \<Rightarrow> (int, string) event" where
  "digest_event key text now =
     draft_event \<lparr>ed_tenant = ''t1'', ed_feature = ''digest'', ed_type = ''daily'', ed_key = key, ed_payload = text,
       ed_user = Some ''u1'', ed_score = Some 1, ed_reason = None\<rparr> 1 now"

definition proactive_start :: "(int, string) proactive_db" where
  "proactive_start = \<lparr>pd_events = [(''e1'', digest_event ''k1'' ''milk'' 1), (''e2'', digest_event ''k2'' ''milk'' 2),
     (''e3'', digest_event ''k3'' ''bread'' 3)], pd_outbox = []\<rparr>"

definition proactive_done :: "(int, string) proactive_db" where
  "proactive_done = fst (process_pending_events (sample_proactive_env None 30 100) (\<lambda>_. True) 2 1 proactive_start)"

lemma proactive_done_eval:
  "snd (process_pending_events (sample_proactive_env None 30 100) (\<lambda>_. True) 2 1 proactive_start) = 2"
  "map (\<lambda>(k, e). ev_status e) (pd_events proactive_done) = [EvConsumed, EvConsumed, EvClassified]"
  "map (\<lambda>(k, x). (status x, drop_reason x)) (pd_outbox proactive_done) =
     [(OutPending, None), (OutDropped, Some ''duplicate'')]"
  by code_simp+


definition milk_sent :: outbox where
  "milk_sent = pd_outbox (fst (process_pending_events (sample_proactive_env None 30 0) (\<lambda>_. True) 1 1 proactive_start))"


text \<open>
  Messages deferred by the throttle are all set for the end of the same window: the two that follow are
  released at one instant, with nothing between them.
\<close>

lemma deferred_together:
  "case process_pending_events (sample_proactive_env None 30 (10 * ONE_MINUTE)) (\<lambda>_. True) 3 1
      (fst (process_pending_events (sample_proactive_env None 30 0) (\<lambda>_. True) 1 1 proactive_start)) of
     (db, n) \<Rightarrow> map (\<lambda>(k, x). (status x, scheduled_at x)) (pd_outbox db) =
         [(OutPending, None), (OutDropped, None), (OutPending, Some (30 * ONE_MINUTE))] \<and>
       decide_proactive no_embeddings ''eggs'' (Some ''u1'') ''digest'' 30 (20 * ONE_MINUTE) (pd_outbox db) =
         Some (DeferIt (30 * ONE_MINUTE))"
  by code_simp

text \<open>A reply that names a feature of its own is stored under it and never found again.\<close>

lemma foreign_feature_repeats:
  "map (\<lambda>(k, x). status x)
     (pd_outbox (fst (process_pending_events (sample_proactive_env (Some ''eds'') 30 100) (\<lambda>_. True) 2 1 proactive_start))) =
     [OutPending, OutPending]"
  by code_simp

text \<open>An event that was closed between the scan and its turn is handled nevertheless.\<close>

lemma closed_event_handled:
  "case process_event (sample_proactive_env None 0 100) ''e1''
      (proactive_start\<lparr>pd_events := [(''e1'', (digest_event ''k1'' ''milk'' 1)\<lparr>ev_status := EvSkipped, ev_reason := Some ''tenant_deleted''\<rparr>)]\<rparr>) of
     (db, b) \<Rightarrow> map (\<lambda>(k, e). ev_status e) (pd_events db) = [EvConsumed] \<and> map (\<lambda>(k, x). status x) (pd_outbox db) = [OutPending]"
  by code_simp

end
