(* ===== verification/Spec2Isabelle.thy ===== *)
theory Spec2Isabelle
  imports CrashSafety QueueProps LlmGuard VoiceGate LlmBilling ValidatorProps ReminderWorker Shopping ChatTurn TenantLifecycle ProactiveEvents
begin

text \<open>
  Verification library for the deterministic core of Sreda, a household assistant
  (\<open>src/sreda\<close>). A message of a user becomes a job of a per-thread queue
  (\<open>workers/message_queue.py\<close>); the dispatcher (\<open>workers/message_dispatcher.py\<close>) hands it to the
  turn, in which a model proposes a plan: actions that call tools with arguments, which may refer
  to results of other actions. The plan is validated (\<open>runtime/planner/schemas.py\<close>), compiled to
  layers (\<open>plan_compiler.py\<close>) and executed (\<open>executor.py\<close>) with references resolved just before
  a call (\<open>interpolation.py\<close>, \<open>selector.py\<close>). Every write is put on record in a step ledger
  (\<open>step_ledger.py\<close>) before it starts and in an audit outbox (\<open>services/audit_feed.py\<close>) in its own
  transaction, from which a relay fills the feed; an execution whose worker died is claimed by the
  scanner and resolved from the ledger and the audit tables (\<open>recovery.py\<close>,
  \<open>recovery_scanner.py\<close>). Durable operations outside of plans are executed once per operation id
  (\<open>services/idempotent_ops.py\<close>). What the assistant says on its own, such as a reminder, is a row of
  an outbox, which delivery workers claim and send when quiet hours allow
  (\<open>workers/outbox_delivery.py\<close>).

  Theories, in the order they build on each other:

  \<^item> Prelude: association lists that keep the order of insertion (\<open>dget\<close>, \<open>dput\<close>, \<open>dict_ok\<close>), strings,
    the locale \<open>invariant_system\<close> for invariants of step relations, and shared facts.
  \<^item> PyValue: values of Python as far as plans hold them, with its equality, \<open>str\<close>, \<open>repr\<close> and truth.
  \<^item> Interpolation and Selector: references in arguments. Scanning, resolution, the pre-pass for
    \<open>.only\<close>, and labels for the user; resolution depends on what is referenced only, keeps types,
    and never scans a substituted value again.
  \<^item> DepGraph, PlanSchema, ToolSpec, PlanCompiler: the plan model with all its validators, tool
    specifications, and the compiler. Validation and compilation accept exactly the well-formed
    acyclic plans, layers respect dependencies and keep conflicting steps apart.
  \<^item> StepLedger: the rows of writes, with the constraints of the table.
  \<^item> Executor, ExecutorProps, ExecutorOutcome: \<open>execute_plan\<close> with a state \<open>exec_state\<close> like
    \<open>_MutableState\<close>; the tools are functions in \<open>exec_env\<close> from arguments to a result, an exception
    or a timeout, so every theorem holds for whatever they do. One log entry per step, every call
    justified by the results before it, aborts, the meaning of the outcome, and agreement of the
    ledger with the log.
  \<^item> Leases: the locale \<open>lease_table\<close>, the contract of a table whose rows are claimed under a lease;
    the queue, the recovery scanner and the outbox provide it.
  \<^item> Recovery: claim, decision and resolution of stale executions and the scan.
  \<^item> MessageQueue, QueueProps: the job table as a state machine (\<open>queue_step\<close>), its invariants, the
    order within a thread, fencing, and the dispatcher's tick as a run of queue operations.
  \<^item> AuditFeed, IdempotentOps: outbox, relay, feed and exact replay.
  \<^item> LlmGuard: the bound on worker threads and the circuit breaker of \<open>services/llm_bulkhead.py\<close> with the
    protocol of \<open>services/llm.py\<close>, for any interleaving of calls (\<open>guard_step\<close>).
  \<^item> Quota, Budget, VoiceGate: counters with quotas (\<open>services/usage_ledger.py\<close>), credits and
    entitlement (\<open>credit_formula.py\<close>, \<open>budget.py\<close>, \<open>agent_capabilities.py\<close>, \<open>entitlement_gate.py\<close>),
    and the gate of voice messages that reserves and refunds them (\<open>telegram_bot.py\<close>,
    \<open>max_inbound.py\<close>).
  \<^item> LlmBilling: token reservations of planner calls (\<open>runtime/planner/billing.py\<close>).
  \<^item> Annotations, ArgChecks, ComposerContracts, Validator, ValidatorProps: the plan validator
    (\<open>runtime/planner/validator.py\<close>) over declared types (\<open>anno\<close>, \<open>type_env\<close>) and the contracts of
    reply templates (\<open>services/composer_contracts.py\<close>, \<open>clarification_contract.py\<close>). A valid plan
    compiles and its references are scheduled; a rejected reference cannot resolve in an output
    that conforms to the declared type; the depth-first search finds a cycle if there is one.
  \<^item> PyDatetime, DeliveryPolicy: calendar, zones and \<open>isoformat\<close>, and the decision about quiet hours
    (\<open>runtime/delivery_policy.py\<close>).
  \<^item> Outbox, OutboxDelivery, DeliveryProtocol: the outbox with its claims (the table provides
    \<open>lease_table\<close> again), the attempt at one row on Telegram and MAX, and any number of delivery
    workers with crashes, missed deadlines and drains (\<open>workers/outbox_delivery.py\<close>) as the step
    relation \<open>delivery_step\<close>: exclusive delivery, sent at most once, nothing stranded; the tick of the
    code is a run of it.
  \<^item> OperationIds, Reminders, ReminderWorker: operation ids and title hashes
    (\<open>services/operation_id.py\<close>), the reminder table with every operation of
    \<open>services/housewife_reminders.py\<close> and the buttons below a reminder, and the worker that turns due
    reminders into rows of the outbox (\<open>workers/housewife_reminder_worker.py\<close>,
    \<open>services/channel_routing.py\<close>). \<open>chain_step\<close> puts reminders, worker and delivery together:
    a firing is delivered at most once on a channel.
  \<^item> Shopping: the shopping list (\<open>services/housewife_shopping.py\<close>): what a retried plan step does, and
    the life of a row under every operation.
  \<^item> PlanPersistence, Orchestrator: the table of planner executions with every write of
    \<open>runtime/planner/persistence.py\<close>, and one run of the planner (\<open>runtime/planner/orchestrator.py\<close>,
    \<open>json_parse.py\<close>): what a success guarantees, how often the model is called, when the owner is
    alerted and what the stored row says in the end.
  \<^item> ChatTurn: the turn of \<open>runtime/planner_chat.py\<close> over planner, executor and composer: which reply the
    user gets when a stage fails, what is reported as called, and what is booked.
  \<^item> InboundEvents, ProactiveEvents, TenantLifecycle: the table of proactive events
    (\<open>db/repositories/inbound_event.py\<close>) with the policy and the worker that turn them into messages
    (\<open>runtime/proactive_policy.py\<close>, \<open>workers/proactive_events.py\<close>), and deleting and restoring a tenant
    (\<open>services/tenant_lifecycle.py\<close>, \<open>audit.py\<close>): a deleted tenant is silent, a restore wakes nothing
    up, and the advisory lock keeps turns and deletions apart (\<open>barrier_step\<close>).
  \<^item> CrashSafety and this theory: what spans components, such as what recovery concludes about an
    execution in terms of what that execution did, and when the audit probe is exact.

  Conventions. Errors are values: \<open>Inl\<close> of an error type, or a branch of a result type; a Python
  exception that the code lets escape is such a value as well. Tables are lists of rows or
  dictionaries in the order of insertion, and a function that writes returns the new table; a
  transaction that raises returns the old one. Times are integers, in microseconds where the code
  compares time stamps. Integers of Python and of the database are unbounded. Digests, uuids and
  clocks are arguments. Loops over a finite structure are structural recursion, and the others
  (Kahn's algorithm, the layering of the compiler, the scanners, the walk through recursive
  models) are total by a proof that a measure falls. One function has fuel: the depth of the
  search for reference cycles, which starts with the number of steps; \<open>find_cycle_nodes_correct\<close>
  shows that it always returns. The regular expressions of the code are written as scanners over characters; only ASCII
  letters and digits count as word characters, where Python's \<open>\w\<close> and \<open>\d\<close> also match others.

  Not modelled: the language model and everything that only builds its prompts; the ReAct loop,
  which runs on a third-party graph runtime; composers and presenters; messenger clients, HTTP
  routes, administration and evaluation; the
  services behind the tools other than reminders and the shopping list, which the executor's theorems
  take as arbitrary functions. The
  steps of a parallel batch are settled in plan order, as the results of \<open>asyncio.gather\<close> are;
  what tools that run side by side do to each other is outside of the model. The workers of the
  delivery share one clock, and a delivery stops at its deadline, as \<open>asyncio.wait_for\<close> makes it;
  trace records, retention, time zones with changing offsets in the theorem on quiet hours (the
  definitions have them), row locks (a transaction is one step) and dates outside of years 1 to 9999 are not
  modelled.
\<close>

section \<open>Crash safety across components\<close>

text \<open>
  C1: What recovery concludes about an execution whose worker died after it, in terms of what
  the execution did. It is closed as a plain failure exactly if no durable step was invoked;
  it is reported as committed but unserved exactly if some durable step was invoked that is
  recorded as committed or whose operation is in an audit table.
\<close>

theorem recovery_after_execution:
  assumes "compile_plan p reg = Inr ep" and "dict_ok (actions p)"
    and "ledger_at (clock env) led" and "fresh_ledger env led"
    and "execute_plan env ep led = (led', cs, Inr log)" and "ledger_ids env = Some (exid, turn)"
    and "[] \<notin> set (dkeys (env_registry env))" and "dget execs exid = Some ex"
    and "recover_execution execs led' audit_outbox audit_feed exid (env_registry env) now settle = Some (execs', led'', st)"
  shows "(st = RsFailed \<longleftrightarrow> (\<forall>r\<in>set (steps log). invoked r \<longrightarrow> \<not> durable_step env r)) \<and>
    (st = RsCommittedUnserved \<longleftrightarrow> (\<exists>r\<in>set (steps log). invoked r \<and> durable_step env r \<and>
       known_committed env turn (set audit_outbox \<union> set audit_feed) r))"
proof -
  let ?A = "set audit_outbox \<union> set audit_feed"
  let ?S = "write_states (env_registry env) ?A now settle led' exid"
  have agree: "ledger_agrees env led led' (steps log)"
    using execute_plan_inv [OF assms(5) _ assms(4)] compiled_well_layered [OF assms(1,2)] by blast
  have ok: "ledger_ok led'" using execute_plan_at [OF assms(3,5)] by (simp add: ledger_at_def)
  have st: "st = status_of_severity (worst ?S)"
    using recover_execution_spec [OF ok assms(8), of audit_outbox audit_feed "env_registry env" now settle] assms(9) by auto
  have S: "?S = (\<lambda>r. write_state (env_registry env) ?A now settle (the (dget led' (exid, step_id r)))) `
      {r \<in> set (steps log). invoked r}"
    unfolding write_states_def using rows_of_execution [OF agree assms(4) _ assms(6)] ok
    by (simp add: ledger_ok_def image_image)
  have fin: "finite ?S" by (simp add: write_states_def)
  note ws = write_state_of_step [OF agree assms(6) _ _ assms(7), of _ ?A now settle]
  have "st = RsFailed \<longleftrightarrow> worst ?S = SevNone"
    by (simp add: st status_of_severity_def split: severity.split)
  also have "\<dots> \<longleftrightarrow> (\<forall>s\<in>?S. s = SevNone)"
    unfolding worst_cases [OF fin] by (auto, metis severity.exhaust)
  finally have "st = RsFailed \<longleftrightarrow> (\<forall>r\<in>set (steps log). invoked r \<longrightarrow> \<not> durable_step env r)"
    using ws(1) unfolding S by auto
  moreover have "st = RsCommittedUnserved \<longleftrightarrow> SevCommitted \<in> ?S"
    by (simp add: st status_of_severity_def worst_cases [OF fin])
  moreover have "SevCommitted \<in> ?S \<longleftrightarrow> (\<exists>r\<in>set (steps log). invoked r \<and>
      write_state (env_registry env) ?A now settle (the (dget led' (exid, step_id r))) = SevCommitted)"
    unfolding S image_iff by (metis (no_types, lifting) mem_Collect_eq)
  then have "SevCommitted \<in> ?S \<longleftrightarrow> (\<exists>r\<in>set (steps log). invoked r \<and> durable_step env r \<and>
       known_committed env turn ?A r)"
    using ws(2) by blast
  ultimately show ?thesis by blast
qed

theorem recovery_after_execution_witness:
  "\<exists>execs' led' st. recover_execution [(''e1'', sample_exec)] sample_ledger [] [] ''e1'' sample_registry 9 240 =
       Some (execs', led', st) \<and>
     (st = RsFailed \<longleftrightarrow> (\<forall>r\<in>set (steps sample_log). invoked r \<longrightarrow> \<not> durable_step sample_env r))"
proof (rule sample_run)
  fix cs a b c d
  assume e: "execute_plan sample_env sample_ep [] = (sample_ledger, cs, Inr sample_log)"
  have at: "ledger_at (clock sample_env) []" by (simp add: ledger_at_def)
  have ids: "ledger_ids sample_env = Some (''e1'', ''turn'')" by (simp add: sample_env_def)
  have reg: "env_registry sample_env = sample_registry" by (simp add: sample_env_def)
  have names: "[] \<notin> set (dkeys (env_registry sample_env))" unfolding reg by code_simp
  have ex: "dget [(''e1'', sample_exec)] ''e1'' = Some sample_exec" by simp
  have "ledger_ok sample_ledger" using execute_plan_at [OF at e] by (simp add: ledger_at_def)
  from recover_execution_spec [OF this ex, of "[]" "[]" sample_registry 9 240]
  obtain execs' led' st where r: "recover_execution [(''e1'', sample_exec)] sample_ledger [] [] ''e1'' sample_registry 9 240 =
      Some (execs', led', st)" by blast
  from recovery_after_execution [OF sample_compiles at fresh_Nil e ids names ex, of "[]" "[]" 9 240 execs' led' st] r
  show ?thesis by (auto simp: reg)
qed



end
